(* ===== verification/Prelude.thy ===== *)
theory Prelude
  imports Main "HOL-Library.Word"
begin

text \<open>
  Shared ground of the keyvi development: the machine integer types of the C++ sources, the
  collections of rewrite rules the component theories extend, and the facts about words, bits
  and lists that more than one component needs.
\<close>

unbundle bit_operations_syntax

section \<open>Machine integers\<close>

type_synonym u8 = "8 word"
type_synonym u16 = "16 word"
type_synonym u32 = "32 word"
type_synonym u64 = "64 word"

text \<open>
  A pointer to a buffer is the function that reads the buffer's elements: \<open>p i\<close> is the
  source's \<open>p[i]\<close>, and \<open>ptr_add p n\<close> is \<open>p + n\<close>.
\<close>

type_synonym 'a ptr = "nat \<Rightarrow> 'a"

definition ptr_add :: "'a ptr \<Rightarrow> nat \<Rightarrow> 'a ptr" where
  "ptr_add p n = (\<lambda>i. p (n + i))"

lemma ptr_add_apply [simp]: "ptr_add p n i = p (n + i)"
  by (simp add: ptr_add_def)

lemma ptr_add_ptr_add [simp]: "ptr_add (ptr_add p m) n = ptr_add p (m + n)"
  by (simp add: ptr_add_def add.assoc fun_eq_iff)

text \<open>\<open>holds_at p n xs\<close>: the elements \<open>xs\<close> lie in the buffer from index \<open>n\<close> on.\<close>

definition holds_at :: "'a ptr \<Rightarrow> nat \<Rightarrow> 'a list \<Rightarrow> bool" where
  "holds_at p n xs \<longleftrightarrow> (\<forall>k < length xs. p (n + k) = xs ! k)"

lemma holds_at_Nil [simp]: "holds_at p n []"
  by (simp add: holds_at_def)

lemma holds_at_Cons [simp]: "holds_at p n (x # xs) \<longleftrightarrow> p n = x \<and> holds_at p (Suc n) xs"
  by (auto simp: holds_at_def nth_Cons split: nat.splits)

lemma holds_at_append: "holds_at p n (xs @ ys) \<longleftrightarrow> holds_at p n xs \<and> holds_at p (n + length xs) ys"
  by (induction xs arbitrary: n) auto

lemma holds_at_ptr_add [simp]: "holds_at (ptr_add p m) n xs \<longleftrightarrow> holds_at p (m + n) xs"
  by (simp add: holds_at_def add.assoc)

lemma holds_at_map_ptr: "holds_at p n xs \<Longrightarrow> map p [n ..< n + length xs] = xs"
  by (rule nth_equalityI) (auto simp: holds_at_def)

section \<open>Computations that may fail\<close>

text \<open>An operation that can throw returns \<open>Inl\<close> of the error or \<open>Inr\<close> of its result.\<close>

definition bind_sum :: "'e + 'a \<Rightarrow> ('a \<Rightarrow> 'e + 'b) \<Rightarrow> 'e + 'b" where
  "bind_sum m f = (case m of Inl e \<Rightarrow> Inl e | Inr x \<Rightarrow> f x)"

lemma bind_sum_simps [simp]: "bind_sum (Inl e) f = Inl e" "bind_sum (Inr x) f = f x"
  by (simp_all add: bind_sum_def)

lemma bind_sum_Inr_iff: "bind_sum m f = Inr y \<longleftrightarrow> (\<exists>x. m = Inr x \<and> f x = Inr y)"
  by (cases m) auto

lemma bind_sum_assoc: "bind_sum (bind_sum m f) g = bind_sum m (\<lambda>x. bind_sum (f x) g)"
  by (cases m) simp_all

section \<open>Words\<close>

text \<open>
  \<open>word_unat\<close> collects the equations that move a word operation to the natural numbers.
\<close>

named_theorems word_unat \<open>word operations read as natural numbers\<close>

lemma unat_drop_bit_div [word_unat]: "unat (drop_bit n (x :: 'a::len word)) = unat x div 2 ^ n"
  by (metis drop_bit_eq_div unsigned_drop_bit_eq take_bit_nat_eq_self unsigned_less)

lemma unat_and_mask [word_unat]: "unat (x AND mask n :: 'a::len word) = unat x mod 2 ^ n"
  by (metis take_bit_eq_mask take_bit_eq_mod unsigned_take_bit_eq)

lemma word_take_bit_self_iff: "take_bit n x = x \<longleftrightarrow> unat x < 2 ^ n" for x :: "'a::len word"
  by (metis take_bit_nat_eq_self_iff unsigned_take_bit_eq word_unat_eq_iff)

lemma unat_u64_less [simp]: "unat (x :: u64) < 18446744073709551616"
  using unsigned_less [of x, where ?'a = nat] by simp

lemma unat_u16_less [simp]: "unat (x :: u16) < 65536"
  using unsigned_less [of x, where ?'a = nat] by simp

lemma unat_u8_less [simp]: "unat (x :: u8) < 256"
  using unsigned_less [of x, where ?'a = nat] by simp

lemma unat_ucast_up [word_unat]:
  "LENGTH('a) \<le> LENGTH('b) \<Longrightarrow> unat (ucast x :: 'b::len word) = unat (x :: 'a::len word)"
  by (metis unsigned_ucast_eq take_bit_nat_eq_self unsigned_less power_increasing
      one_le_numeral less_le_trans)

lemma and_mask_small: "unat x < 2 ^ n \<Longrightarrow> x AND mask n = x" for x :: "'a::len word"
  by (metis take_bit_eq_mask word_take_bit_self_iff)

lemma unat_add_le: "unat (x + y) \<le> unat x + unat y" for x :: "'a::len word"
  by (simp add: unat_word_ariths)

lemma or_push_bit_eq_add:
  fixes x y :: "'a::len word"
  assumes "unat x < 2 ^ n"
  shows "x OR push_bit n y = x + push_bit n y"
proof -
  have "x AND push_bit n y = take_bit n x AND push_bit n y"
    using assms word_take_bit_self_iff by metis
  also have "\<dots> = 0"
    by (rule bit_word_eqI) (auto simp: bit_simps)
  finally show ?thesis by (simp add: disjunctive_add_eq_or)
qed

lemma word_split_bits: "(x AND mask n) + push_bit n (drop_bit n x) = x" for x :: "'a::len word"
  by (metis add.commute bits_ident take_bit_eq_mask)

lemma unat_push_bit_small:
  fixes x :: "'a::len word"
  assumes "unat x * 2 ^ n < 2 ^ LENGTH('a)"
  shows "unat (push_bit n x) = unat x * 2 ^ n"
  using assms by (metis push_bit_eq_mult unsigned_push_bit_eq take_bit_nat_eq_self)

text \<open>
  \<open>__builtin_clzll\<close> on a non-zero argument: 64 minus the number of significant bits.
\<close>

fun bit_length :: "nat \<Rightarrow> nat" where
  "bit_length n = (if n = 0 then 0 else Suc (bit_length (n div 2)))"

declare bit_length.simps [simp del]

lemma bit_length_le_iff: "bit_length n \<le> k \<longleftrightarrow> n < 2 ^ k"
proof (induction k arbitrary: n)
  case 0
  then show ?case by (simp add: bit_length.simps [of n])
next
  case (Suc k)
  have "bit_length n \<le> Suc k \<longleftrightarrow> n = 0 \<or> bit_length (n div 2) \<le> k"
    by (simp add: bit_length.simps [of n])
  also have "\<dots> \<longleftrightarrow> n < 2 ^ Suc k"
    by (auto simp: Suc.IH div_less_iff_less_mult mult.commute)
  finally show ?case .
qed

lemma bit_length_div: "bit_length (n div 2 ^ k) = bit_length n - k"
proof (rule antisym)
  have le: "bit_length (n div 2 ^ k) \<le> j \<longleftrightarrow> bit_length n - k \<le> j" for j
    by (simp add: bit_length_le_iff div_less_iff_less_mult le_diff_conv flip: power_add)
  show "bit_length (n div 2 ^ k) \<le> bit_length n - k" by (simp add: le)
  show "bit_length n - k \<le> bit_length (n div 2 ^ k)" by (simp flip: le)
qed

definition clzll :: "u64 \<Rightarrow> nat" where
  "clzll x = 64 - bit_length (unat x)"

end
