(* ===== verification/Vint.thy ===== *)
theory Vint
  imports Prelude
begin

text \<open>
  Variable-length integers (\<open>keyvi/util/vint.h\<close>), at the default template argument
  \<open>uint64_t\<close>.  A value is written in groups of 7 bits (bytes) or 15 bits (shorts), the lowest
  group first; the top bit of each element says whether another one follows.

  The encoders write through a pointer or append to a buffer; a decoder reads through a pointer.
  A left shift by 64 or more is undefined in C++: a decoder that would execute one returns
  \<open>None\<close>.
\<close>

section \<open>The encoders\<close>

function encodeVarInt_loop :: "u64 \<Rightarrow> u8 ptr \<Rightarrow> nat \<Rightarrow> u8 ptr \<times> nat" where
  "encodeVarInt_loop value output output_size =
     (if 127 < value
      then encodeVarInt_loop (drop_bit 7 value)
             (output(output_size := ucast (value AND 127) OR 128)) (output_size + 1)
      else (output(output_size := ucast value AND 127), output_size + 1))"
  by pat_completeness auto
termination
  by (relation "measure (\<lambda>(value, _). unat value)") (auto simp: word_unat word_less_nat_alt)

definition encodeVarInt_ptr :: "u64 \<Rightarrow> u8 ptr \<Rightarrow> u8 ptr \<times> nat" where
  "encodeVarInt_ptr value output = encodeVarInt_loop value output 0"

function encodeVarShort_loop :: "u64 \<Rightarrow> u16 ptr \<Rightarrow> nat \<Rightarrow> u16 ptr \<times> nat" where
  "encodeVarShort_loop value output output_size =
     (if 0x7FFF < value
      then encodeVarShort_loop (drop_bit 15 value)
             (output(output_size := (ucast value AND 0x7FFF) OR 0x8000)) (output_size + 1)
      else (output(output_size := ucast value AND 0x7FFF), output_size + 1))"
  by pat_completeness auto
termination
  by (relation "measure (\<lambda>(value, _). unat value)") (auto simp: word_unat word_less_nat_alt)

definition encodeVarShort :: "u64 \<Rightarrow> u16 ptr \<Rightarrow> u16 ptr \<times> nat" where
  "encodeVarShort value output = encodeVarShort_loop value output 0"

function getVarIntLength_loop :: "u64 \<Rightarrow> nat \<Rightarrow> nat" where
  "getVarIntLength_loop value len =
     (if 127 < value then getVarIntLength_loop (drop_bit 7 value) (len + 1) else len)"
  by pat_completeness auto
termination
  by (relation "measure (\<lambda>(value, _). unat value)") (auto simp: word_unat word_less_nat_alt)

definition getVarIntLength_generic :: "u64 \<Rightarrow> nat" where
  "getVarIntLength_generic value = getVarIntLength_loop value 1"

definition getVarIntLength :: "u64 \<Rightarrow> nat" where
  "getVarIntLength value =
     (let log2value = 63 XOR (of_nat (clzll (value OR 1)) :: u32)
      in unat ((log2value * 9 + 73) div 64))"

definition getVarShortLength :: "u64 \<Rightarrow> nat" where
  "getVarShortLength value =
     (let bit_index = 63 - clzll (value OR 1) in 1 + bit_index div 15)"

function encodeVarInt_written_loop :: "u64 \<Rightarrow> u8 list \<Rightarrow> nat \<Rightarrow> u8 list \<times> nat" where
  "encodeVarInt_written_loop value output len =
     (if 127 < value
      then encodeVarInt_written_loop (drop_bit 7 value)
             (output @ [ucast (value AND 127) OR 128]) (len + 1)
      else (output @ [ucast value AND 127], len + 1))"
  by pat_completeness auto
termination
  by (relation "measure (\<lambda>(value, _). unat value)") (auto simp: word_unat word_less_nat_alt)

definition encodeVarInt_written :: "u64 \<Rightarrow> u8 list \<Rightarrow> u8 list \<times> nat" where
  "encodeVarInt_written value output = encodeVarInt_written_loop value output 0"

function encodeVarInt :: "u64 \<Rightarrow> u8 list \<Rightarrow> u8 list" where
  "encodeVarInt value output =
     (if 127 < value
      then encodeVarInt (drop_bit 7 value) (output @ [ucast (value AND 127) OR 128])
      else output @ [ucast value AND 127])"
  by pat_completeness auto
termination
  by (relation "measure (\<lambda>(value, _). unat value)") (auto simp: word_unat word_less_nat_alt)

section \<open>The decoders\<close>

function decodeVarInt_loop :: "u8 ptr \<Rightarrow> nat \<Rightarrow> u64 \<Rightarrow> u64 option" where
  "decodeVarInt_loop input i ret =
     (if 64 \<le> 7 * i then None
      else let ret' = ret OR push_bit (7 * i) (ucast (input i AND 127))
           in if input i AND 128 = 0 then Some ret'
              else decodeVarInt_loop input (i + 1) ret')"
  by pat_completeness auto
termination
  by (relation "measure (\<lambda>(_, i, _). 10 - i)") auto

definition decodeVarInt :: "u8 ptr \<Rightarrow> u64 option" where
  "decodeVarInt input = decodeVarInt_loop input 0 0"

function decodeVarShort_loop :: "u16 ptr \<Rightarrow> nat \<Rightarrow> u64 \<Rightarrow> u64 option" where
  "decodeVarShort_loop input i ret =
     (if 64 \<le> 15 * i then None
      else let ret' = ret OR push_bit (15 * i) (ucast (input i AND 32767))
           in if input i AND 32768 = 0 then Some ret'
              else decodeVarShort_loop input (i + 1) ret')"
  by pat_completeness auto
termination
  by (relation "measure (\<lambda>(_, i, _). 5 - i)") auto

definition decodeVarShort :: "u16 ptr \<Rightarrow> u64 option" where
  "decodeVarShort input = decodeVarShort_loop input 0 0"

partial_function (option) skipVarInt_loop :: "u8 ptr \<Rightarrow> nat \<Rightarrow> nat option" where
  "skipVarInt_loop input i =
     (if input i AND 128 = 0 then Some (i + 1) else skipVarInt_loop input (i + 1))"

definition skipVarInt :: "u8 ptr \<Rightarrow> nat option" where
  "skipVarInt input = skipVarInt_loop input 0"

text \<open>
  In the string decoders the group \<open>input[i] & 127\<close> has the type \<open>int\<close>, so it is shifted as a
  32-bit signed integer and sign-extended when it is combined with the 64-bit length.  The shift is
  defined as long as the shifted value fits the unsigned 32-bit type.
\<close>

definition shl_int :: "u8 \<Rightarrow> nat \<Rightarrow> u64 option" where
  "shl_int b n =
     (if n < 32 \<and> unat b * 2 ^ n < 2 ^ 32 then Some (scast (push_bit n (ucast b :: u32)))
      else None)"

function decodeVarIntString_loop :: "u8 ptr \<Rightarrow> nat \<Rightarrow> u64 \<Rightarrow> (u64 \<times> nat) option" where
  "decodeVarIntString_loop input i len =
     (case shl_int (input i AND 127) (7 * i) of
        None \<Rightarrow> None
      | Some part \<Rightarrow>
          (let len' = len OR part
           in if input i AND 128 = 0 then Some (len', i)
              else decodeVarIntString_loop input (i + 1) len'))"
  by pat_completeness auto
termination
  by (relation "measure (\<lambda>(_, i, _). 5 - i)") (auto simp: shl_int_def split: if_splits)

definition decodeVarIntString :: "u8 ptr \<Rightarrow> u8 list option" where
  "decodeVarIntString input =
     map_option (\<lambda>(len, i). map input [i + 1 ..< i + 1 + unat len])
       (decodeVarIntString_loop input 0 0)"

definition decodeVarIntString_ptr :: "u8 ptr \<Rightarrow> (u8 ptr \<times> u64) option" where
  "decodeVarIntString_ptr input =
     map_option (\<lambda>(len, i). (ptr_add input (i + 1), len)) (decodeVarIntString_loop input 0 0)"

declare encodeVarInt_loop.simps [simp del] encodeVarShort_loop.simps [simp del]
  getVarIntLength_loop.simps [simp del] encodeVarInt_written_loop.simps [simp del]
  encodeVarInt.simps [simp del] decodeVarInt_loop.simps [simp del]
  decodeVarShort_loop.simps [simp del] decodeVarIntString_loop.simps [simp del]

section \<open>The groups of a value\<close>

text \<open>
  The reference encodings: the list of elements each encoder writes.
\<close>

function varint_groups :: "u64 \<Rightarrow> u8 list" where
  "varint_groups v =
     (if 127 < v then (ucast (v AND 127) OR 128) # varint_groups (drop_bit 7 v)
      else [ucast v AND 127])"
  by pat_completeness auto
termination
  by (relation "measure unat") (auto simp: word_unat word_less_nat_alt)

function varshort_groups :: "u64 \<Rightarrow> u16 list" where
  "varshort_groups v =
     (if 0x7FFF < v then ((ucast v AND 0x7FFF) OR 0x8000) # varshort_groups (drop_bit 15 v)
      else [ucast v AND 0x7FFF])"
  by pat_completeness auto
termination
  by (relation "measure unat") (auto simp: word_unat word_less_nat_alt)

declare varint_groups.simps [simp del] varshort_groups.simps [simp del]

lemma mask_7_15:
  "(127 :: u64) = mask 7" "(127 :: u8) = mask 7"
  "(0x7FFF :: u64) = mask 15" "(0x7FFF :: u16) = mask 15"
  by (simp_all add: mask_eq_exp_minus_1)

lemma group7:
  fixes v :: u64
  shows "ucast ((ucast (v AND 127) OR 128 :: u8) AND 127) = v AND 127"
    and "(ucast (v AND 127) OR 128 :: u8) AND 128 \<noteq> 0"
    and "(ucast v AND 127 :: u8) AND 128 = 0"
    and "ucast (ucast v AND 127 :: u8) = v AND 127"
proof -
  show "ucast ((ucast (v AND 127) OR 128 :: u8) AND 127) = v AND 127"
    by (simp add: bit.conj_disj_distrib2)
       (rule bit_word_eqI, auto simp: mask_7_15 bit_simps)
  have "bit ((ucast (v AND 127) OR 128 :: u8) AND 128) 7"
    by (simp add: bit_simps)
  then show "(ucast (v AND 127) OR 128 :: u8) AND 128 \<noteq> 0" by auto
  show "(ucast v AND 127 :: u8) AND 128 = 0"
    by (simp add: and.assoc)
  show "ucast (ucast v AND 127 :: u8) = v AND 127"
    by (rule bit_word_eqI) (auto simp: mask_7_15 bit_simps)
qed

lemma group15:
  fixes v :: u64
  shows "ucast (((ucast v AND 0x7FFF) OR 0x8000 :: u16) AND 0x7FFF) = v AND 0x7FFF"
    and "((ucast v AND 0x7FFF) OR 0x8000 :: u16) AND 0x8000 \<noteq> 0"
    and "(ucast v AND 0x7FFF :: u16) AND 0x8000 = 0"
    and "ucast (ucast v AND 0x7FFF :: u16) = v AND 0x7FFF"
proof -
  show "ucast (((ucast v AND 0x7FFF) OR 0x8000 :: u16) AND 0x7FFF) = v AND 0x7FFF"
    by (simp add: bit.conj_disj_distrib2)
       (rule bit_word_eqI, auto simp: mask_7_15 bit_simps)
  have "bit (((ucast v AND 0x7FFF) OR 0x8000 :: u16) AND 0x8000) 15"
    by (simp add: bit_simps)
  then show "((ucast v AND 0x7FFF) OR 0x8000 :: u16) AND 0x8000 \<noteq> 0" by auto
  show "(ucast v AND 0x7FFF :: u16) AND 0x8000 = 0"
    by (simp add: and.assoc)
  show "ucast (ucast v AND 0x7FFF :: u16) = v AND 0x7FFF"
    by (rule bit_word_eqI) (auto simp: mask_7_15 bit_simps)
qed

section \<open>Correctness of the codec\<close>

lemma group_step:
  fixes ret v :: u64
  assumes ret: "unat ret < 2 ^ n" and v: "unat v * 2 ^ n < 2 ^ 64" and big: "2 ^ k \<le> unat v"
  shows "n + k < 64"
    and "unat (ret + push_bit n (v AND mask k)) < 2 ^ (n + k)"
    and "unat (drop_bit k v) * 2 ^ (n + k) < 2 ^ 64"
    and "ret + push_bit n (v AND mask k) + push_bit (n + k) (drop_bit k v) = ret + push_bit n v"
proof -
  have "(2::nat) ^ (n + k) = 2 ^ k * 2 ^ n" by (simp add: power_add)
  also have "\<dots> \<le> unat v * 2 ^ n" using big by simp
  also have "\<dots> < 2 ^ 64" by (rule v)
  finally show nk: "n + k < 64" using power_less_imp_less_exp by (metis one_less_numeral_iff semiring_norm(76))
  have m: "unat (v AND mask k) < 2 ^ k" by (simp add: word_unat)
  then have "unat (v AND mask k) * 2 ^ n < 2 ^ (n + k)" by (simp add: power_add)
  moreover have "(2::nat) ^ (n + k) < 2 ^ 64" using nk by (rule power_strict_increasing) simp
  ultimately have p: "unat (push_bit n (v AND mask k)) = unat (v AND mask k) * 2 ^ n"
    by (intro unat_push_bit_small) simp
  have "unat ret + unat (v AND mask k) * 2 ^ n < 2 ^ n + (2 ^ k - 1) * 2 ^ n"
    by (rule add_less_le_mono [OF ret], rule mult_le_mono1) (use m in linarith)
  also have "\<dots> = 2 ^ (n + k)"
    by (simp add: power_add diff_mult_distrib)
  finally have "unat ret + unat (push_bit n (v AND mask k)) < 2 ^ (n + k)" by (simp only: p)
  then show "unat (ret + push_bit n (v AND mask k)) < 2 ^ (n + k)"
    by (meson le_less_trans unat_add_le)
  have "unat (drop_bit k v) * 2 ^ (n + k) \<le> unat v * 2 ^ n"
    by (simp add: word_unat power_add mult.commute mult.left_commute)
  with v show "unat (drop_bit k v) * 2 ^ (n + k) < 2 ^ 64" by simp
  have "push_bit n v = push_bit n ((v AND mask k) + push_bit k (drop_bit k v))"
    by (simp only: word_split_bits)
  also have "\<dots> = push_bit n (v AND mask k) + push_bit (n + k) (drop_bit k v)"
    by (simp add: push_bit_add)
  finally show "ret + push_bit n (v AND mask k) + push_bit (n + k) (drop_bit k v) = ret + push_bit n v"
    by (simp add: add.assoc)
qed

lemma decodeVarInt_loop_groups:
  assumes "unat ret < 2 ^ (7 * i)" "unat v * 2 ^ (7 * i) < 2 ^ 64" "7 * i < 64"
    and "holds_at input i (varint_groups v)"
  shows "decodeVarInt_loop input i ret = Some (ret + push_bit (7 * i) v)"
  using assms
proof (induction v arbitrary: i ret rule: varint_groups.induct)
  case (1 v)
  show ?case
  proof (cases "127 < v")
    case False
    then have "unat v < 2 ^ 7" by (simp add: word_less_nat_alt)
    then have "v AND 127 = v" by (simp only: mask_7_15(1) and_mask_small)
    with False 1 show ?thesis
      by (simp add: decodeVarInt_loop.simps [of input i ret] varint_groups.simps [of v] group7
          or_push_bit_eq_add)
  next
    case True
    then have big: "2 ^ 7 \<le> unat v" by (simp add: word_less_nat_alt)
    note step = group_step [OF "1.prems"(1,2) big, folded mask_7_15]
    have "decodeVarInt_loop input i ret =
        decodeVarInt_loop input (Suc i) (ret + push_bit (7 * i) (v AND 127))"
      using True "1.prems"
      by (simp add: decodeVarInt_loop.simps [of input i ret] varint_groups.simps [of v] group7
          or_push_bit_eq_add del: push_bit_and)
    also have "\<dots> = Some (ret + push_bit (7 * i) (v AND 127) + push_bit (7 * Suc i) (drop_bit 7 v))"
      using True "1.prems" step by (intro "1.IH") (simp_all add: varint_groups.simps [of v] add.commute)
    also have "\<dots> = Some (ret + push_bit (7 * i) v)"
      using step(4) by (simp add: add.commute [of 7])
    finally show ?thesis .
  qed
qed


lemma decodeVarShort_loop_groups:
  assumes "unat ret < 2 ^ (15 * i)" "unat v * 2 ^ (15 * i) < 2 ^ 64" "15 * i < 64"
    and "holds_at input i (varshort_groups v)"
  shows "decodeVarShort_loop input i ret = Some (ret + push_bit (15 * i) v)"
  using assms
proof (induction v arbitrary: i ret rule: varshort_groups.induct)
  case (1 v)
  show ?case
  proof (cases "0x7FFF < v")
    case False
    then have "unat v < 2 ^ 15" by (simp add: word_less_nat_alt)
    then have "v AND 0x7FFF = v" by (simp only: mask_7_15(3) and_mask_small)
    with False 1 show ?thesis
      by (simp add: decodeVarShort_loop.simps [of input i ret] varshort_groups.simps [of v] group15
          or_push_bit_eq_add)
  next
    case True
    then have big: "2 ^ 15 \<le> unat v" by (simp add: word_less_nat_alt)
    note step = group_step [OF "1.prems"(1,2) big, folded mask_7_15]
    have "decodeVarShort_loop input i ret =
        decodeVarShort_loop input (Suc i) (ret + push_bit (15 * i) (v AND 0x7FFF))"
      using True "1.prems"
      by (simp add: decodeVarShort_loop.simps [of input i ret] varshort_groups.simps [of v] group15
          or_push_bit_eq_add del: push_bit_and)
    also have "\<dots> = Some (ret + push_bit (15 * i) (v AND 0x7FFF) + push_bit (15 * Suc i) (drop_bit 15 v))"
      using True "1.prems" step by (intro "1.IH") (simp_all add: varshort_groups.simps [of v] add.commute)
    also have "\<dots> = Some (ret + push_bit (15 * i) v)"
      using step(4) by (simp add: add.commute [of 15])
    finally show ?thesis .
  qed
qed

lemma decodeVarInt_groups: "holds_at input 0 (varint_groups v) \<Longrightarrow> decodeVarInt input = Some v"
  using decodeVarInt_loop_groups [of 0 0 v input] by (simp add: decodeVarInt_def)

lemma decodeVarShort_groups:
  "holds_at input 0 (varshort_groups v) \<Longrightarrow> decodeVarShort input = Some v"
  using decodeVarShort_loop_groups [of 0 0 v input] by (simp add: decodeVarShort_def)

text \<open>Every encoder writes exactly the groups of the value.\<close>

lemma encodeVarInt_eq: "encodeVarInt v out = out @ varint_groups v"
  by (induction v arbitrary: out rule: varint_groups.induct)
     (simp add: encodeVarInt.simps varint_groups.simps)

lemma encodeVarInt_written_loop_eq:
  "encodeVarInt_written_loop v out n = (out @ varint_groups v, n + length (varint_groups v))"
proof (induction v arbitrary: out n rule: varint_groups.induct)
  case (1 v)
  then show ?case
    by (simp add: encodeVarInt_written_loop.simps [of v] varint_groups.simps [of v])
qed

lemma encodeVarInt_loop_eq:
  "encodeVarInt_loop v out n =
     ((\<lambda>i. if n \<le> i \<and> i < n + length (varint_groups v) then varint_groups v ! (i - n) else out i),
      n + length (varint_groups v))"
proof (induction v arbitrary: out n rule: varint_groups.induct)
  case (1 v)
  then show ?case
    by (auto simp: encodeVarInt_loop.simps [of v] varint_groups.simps [of v] fun_eq_iff nth_Cons')
qed

lemma encodeVarShort_loop_eq:
  "encodeVarShort_loop v out n =
     ((\<lambda>i. if n \<le> i \<and> i < n + length (varshort_groups v) then varshort_groups v ! (i - n) else out i),
      n + length (varshort_groups v))"
proof (induction v arbitrary: out n rule: varshort_groups.induct)
  case (1 v)
  then show ?case
    by (auto simp: encodeVarShort_loop.simps [of v] varshort_groups.simps [of v] fun_eq_iff nth_Cons')
qed

lemma skipVarInt_loop_groups:
  "holds_at input i (varint_groups v) \<Longrightarrow>
     skipVarInt_loop input i = Some (i + length (varint_groups v))"
proof (induction v arbitrary: i rule: varint_groups.induct)
  case (1 v)
  then show ?case
    by (subst skipVarInt_loop.simps) (auto simp: varint_groups.simps [of v] group7 split: if_splits)
qed

lemma length_varint_groups: "length (varint_groups v) = (bit_length (unat v) - 1) div 7 + 1"
proof (induction v rule: varint_groups.induct)
  case (1 v)
  show ?case
  proof (cases "127 < v")
    case True
    then have "7 < bit_length (unat v)"
      using bit_length_le_iff [of "unat v" 7] by (simp add: word_less_nat_alt)
    moreover have "bit_length (unat (drop_bit 7 v)) = bit_length (unat v) - 7"
      by (simp add: unat_drop_bit_div bit_length_div del: power_numeral)
    ultimately show ?thesis using 1 [OF True] True by (simp add: varint_groups.simps [of v])
  next
    case False
    then have "bit_length (unat v) \<le> 7" by (simp add: bit_length_le_iff word_less_nat_alt)
    with False show ?thesis by (simp add: varint_groups.simps [of v])
  qed
qed

lemma length_varshort_groups: "length (varshort_groups v) = (bit_length (unat v) - 1) div 15 + 1"
proof (induction v rule: varshort_groups.induct)
  case (1 v)
  show ?case
  proof (cases "0x7FFF < v")
    case True
    then have "15 < bit_length (unat v)"
      using bit_length_le_iff [of "unat v" 15] by (simp add: word_less_nat_alt)
    moreover have "bit_length (unat (drop_bit 15 v)) = bit_length (unat v) - 15"
      by (simp add: unat_drop_bit_div bit_length_div del: power_numeral)
    ultimately show ?thesis using 1 [OF True] True by (simp add: varshort_groups.simps [of v])
  next
    case False
    then have "bit_length (unat v) \<le> 15" by (simp add: bit_length_le_iff word_less_nat_alt)
    with False show ?thesis by (simp add: varshort_groups.simps [of v])
  qed
qed

lemma clzll_or_1: "clzll (v OR 1) = 63 - (bit_length (unat v) - 1)"
  and bit_length_u64: "bit_length (unat v) \<le> 64" for v :: u64
proof -
  show b: "bit_length (unat v) \<le> 64" for v :: u64 by (simp add: bit_length_le_iff)
  have "bit (v OR 1) 0" by (simp add: bit_simps)
  then have "v OR 1 \<noteq> 0" by auto
  then have "bit_length (unat (v OR 1)) = Suc (bit_length (unat (v OR 1) div 2))"
    by (subst bit_length.simps) (simp add: unat_eq_zero)
  also have "unat (v OR 1) div 2 = unat (drop_bit 1 (v OR 1))"
    by (simp only: unat_drop_bit_div power_one_right)
  also have "drop_bit 1 (v OR 1) = drop_bit 1 v"
    by simp
  also have "bit_length (unat (drop_bit 1 v)) = bit_length (unat v) - 1"
    using bit_length_div [of "unat v" 1] by (simp add: unat_drop_bit_div)
  finally show "clzll (v OR 1) = 63 - (bit_length (unat v) - 1)"
    using b [of v] by (simp add: clzll_def)
qed

lemma varint_length_table:
  "\<forall>L \<in> set [0..<64]. unat (((63 XOR (of_nat (63 - L) :: u32)) * 9 + 73) div 64) = L div 7 + 1"
  by code_simp

lemma getVarIntLength_eq: "getVarIntLength v = length (varint_groups v)"
proof -
  have "bit_length (unat v) - 1 \<in> set [0..<64]" using bit_length_u64 [of v] by auto
  from bspec [OF varint_length_table this] show ?thesis
    by (simp add: getVarIntLength_def clzll_or_1 length_varint_groups)
qed

lemma getVarShortLength_eq: "getVarShortLength v = length (varshort_groups v)"
  using bit_length_u64 [of v] by (simp add: getVarShortLength_def clzll_or_1 length_varshort_groups)

lemma getVarIntLength_loop_eq: "getVarIntLength_loop v n + 1 = n + length (varint_groups v)"
proof (induction v arbitrary: n rule: varint_groups.induct)
  case (1 v)
  then show ?case
    by (simp add: getVarIntLength_loop.simps [of v] varint_groups.simps [of v])
qed

lemma shl_int_small:
  assumes "unat b * 2 ^ n < 2 ^ 31" "n < 32"
  shows "shl_int b n = Some (push_bit n (ucast b))"
proof -
  let ?w = "push_bit n (ucast b :: u32)"
  have b: "unat (ucast b :: u32) = unat b" "unat (ucast b :: u64) = unat b"
    by (simp_all add: unat_ucast_up)
  have "unat ?w = unat b * 2 ^ n"
    using unat_push_bit_small [of "ucast b :: u32" n] assms by (simp add: b)
  moreover have "unat (push_bit n (ucast b :: u64)) = unat b * 2 ^ n"
    using unat_push_bit_small [of "ucast b :: u64" n] assms by (simp add: b)
  ultimately have nat_eq: "unat (push_bit n (ucast b :: u64)) = unat ?w" and nat_small: "unat ?w < 2 ^ 31"
    using assms by simp_all
  have eq: "uint (push_bit n (ucast b :: u64)) = uint ?w"
    unfolding uint_nat nat_eq ..
  have "int (unat ?w) < int (2 ^ 31)"
    using nat_small by (simp only: of_nat_less_iff)
  then have small: "uint ?w < 2 ^ 31"
    by (simp only: uint_nat) simp
  have "sint ?w = uint ?w"
    unfolding sint_uint
    by (rule signed_take_bit_int_eq_self) (use small in \<open>auto intro: order_trans [of _ 0]\<close>)
  then have "scast ?w = (push_bit n (ucast b) :: u64)"
    by (metis eq of_int_sint word_of_int_uint)
  with assms show ?thesis by (simp add: shl_int_def)
qed

lemma decodeVarIntString_loop_groups:
  assumes "unat ret < 2 ^ (7 * i)" "unat v * 2 ^ (7 * i) < 2 ^ 31" "7 * i < 31"
    and "holds_at input i (varint_groups v)"
  shows "decodeVarIntString_loop input i ret =
           Some (ret + push_bit (7 * i) v, i + length (varint_groups v) - 1)"
  using assms
proof (induction v arbitrary: i ret rule: varint_groups.induct)
  case (1 v)
  have shl: "shl_int (input i AND 127) (7 * i) = Some (push_bit (7 * i) (v AND 127))"
  proof -
    have "input i AND 127 = ucast v AND 127"
      using "1.prems"(4) by (auto simp: varint_groups.simps [of v] bit.conj_disj_distrib2 and.assoc
          split: if_splits) (rule bit_word_eqI, auto simp: mask_7_15 bit_simps)
    moreover have "unat (ucast v AND 127 :: u8) = unat v mod 2 ^ 7"
      by (simp only: mask_7_15 unat_and_mask) (simp add: unsigned_ucast_eq take_bit_eq_mod mod_mod_cancel)
    moreover have "unat v mod 2 ^ 7 * 2 ^ (7 * i) < 2 ^ 31"
      by (rule le_less_trans [OF _ "1.prems"(2)]) simp
    ultimately show ?thesis
      using "1.prems" group7(4) [of v] by (subst shl_int_small) auto
  qed
  show ?case
  proof (cases "127 < v")
    case False
    then have "unat v < 2 ^ 7" by (simp add: word_less_nat_alt)
    then have "v AND 127 = v" by (simp only: mask_7_15(1) and_mask_small)
    with False 1 shl show ?thesis
      by (simp add: decodeVarIntString_loop.simps [of input i ret] varint_groups.simps [of v] group7
          or_push_bit_eq_add)
  next
    case True
    then have big: "2 ^ 7 \<le> unat v" by (simp add: word_less_nat_alt)
    have "unat v * 2 ^ (7 * i) < 2 ^ 64" using "1.prems"(2) by simp
    note step = group_step [OF "1.prems"(1) this big, folded mask_7_15]
    have drop: "unat (drop_bit 7 v) * 2 ^ (7 * Suc i) \<le> unat v * 2 ^ (7 * i)"
      by (simp add: word_unat power_add mult.commute mult.left_commute)
    have "2 ^ (7 * Suc i) \<le> unat v * 2 ^ (7 * i)" using big by (simp add: power_add)
    also have "\<dots> < 2 ^ 31" by (rule "1.prems"(2))
    finally have i: "7 * Suc i < 31" by (rule power_less_imp_less_exp [rotated]) simp
    have ne: "varint_groups (drop_bit 7 v) \<noteq> []" by (subst varint_groups.simps) simp
    have "decodeVarIntString_loop input i ret =
        decodeVarIntString_loop input (Suc i) (ret + push_bit (7 * i) (v AND 127))"
      using True "1.prems" shl
      by (simp add: decodeVarIntString_loop.simps [of input i ret] varint_groups.simps [of v] group7
          or_push_bit_eq_add del: push_bit_and)
    also have "\<dots> = Some (ret + push_bit (7 * i) (v AND 127) + push_bit (7 * Suc i) (drop_bit 7 v),
        Suc i + length (varint_groups (drop_bit 7 v)) - 1)"
      using True "1.prems" step drop i
      by (intro "1.IH") (simp_all add: varint_groups.simps [of v] add.commute)
    also have "\<dots> = Some (ret + push_bit (7 * i) v, i + length (varint_groups v) - 1)"
      using step(4) True ne by (simp add: add.commute [of 7] varint_groups.simps [of v])
    finally show ?thesis .
  qed
qed

lemma varint_groups_nonempty [simp]: "varint_groups v \<noteq> []"
  by (subst varint_groups.simps) simp

lemma varshort_groups_nonempty [simp]: "varshort_groups v \<noteq> []"
  by (subst varshort_groups.simps) simp

lemma encodeVarInt_ptr_holds: "holds_at (fst (encodeVarInt_ptr v out)) 0 (varint_groups v)"
  by (simp add: encodeVarInt_ptr_def encodeVarInt_loop_eq holds_at_def)

lemma encodeVarShort_holds: "holds_at (fst (encodeVarShort v out)) 0 (varshort_groups v)"
  by (simp add: encodeVarShort_def encodeVarShort_loop_eq holds_at_def)

lemma encodeVarShort_size: "snd (encodeVarShort v out) = length (varshort_groups v)"
  by (simp add: encodeVarShort_def encodeVarShort_loop_eq)

section \<open>Properties\<close>

text \<open>
  C35: variable-length integers round trip.  What \<open>encodeVarInt\<close> writes through a pointer decodes to
  the value that was encoded; it occupies the number of bytes \<open>getVarIntLength\<close> computes and
  \<open>skipVarInt\<close> steps over; and the two buffer overloads append exactly those bytes.
\<close>

theorem varint_roundtrip:
  "decodeVarInt (fst (encodeVarInt_ptr v out)) = Some v
   \<and> snd (encodeVarInt_ptr v out) = getVarIntLength v
   \<and> skipVarInt (fst (encodeVarInt_ptr v out)) = Some (getVarIntLength v)
   \<and> encodeVarInt v buf = buf @ map (fst (encodeVarInt_ptr v out)) [0..<getVarIntLength v]
   \<and> encodeVarInt_written v buf = (encodeVarInt v buf, getVarIntLength v)"
proof -
  note h = encodeVarInt_ptr_holds [of v out]
  have "map (fst (encodeVarInt_ptr v out)) [0..<getVarIntLength v] = varint_groups v"
    using holds_at_map_ptr [OF h] by (simp add: getVarIntLength_eq)
  moreover have "snd (encodeVarInt_ptr v out) = getVarIntLength v"
    by (simp add: encodeVarInt_ptr_def encodeVarInt_loop_eq getVarIntLength_eq)
  ultimately show ?thesis
    using decodeVarInt_groups [OF h] skipVarInt_loop_groups [OF h]
    by (simp add: skipVarInt_def encodeVarInt_eq encodeVarInt_written_def
        encodeVarInt_written_loop_eq getVarIntLength_eq)
qed

text \<open>
  Variable-length shorts round trip, and \<open>getVarShortLength\<close> is the number of shorts
  \<open>encodeVarShort\<close> writes.
\<close>

theorem varshort_roundtrip:
  "decodeVarShort (fst (encodeVarShort v out)) = Some v
   \<and> snd (encodeVarShort v out) = getVarShortLength v"
  using decodeVarShort_groups [OF encodeVarShort_holds [of v out]]
  by (simp add: encodeVarShort_size getVarShortLength_eq)

text \<open>
  The specialisation of \<open>getVarIntLength\<close> for \<open>uint64_t\<close>, which replaces the loop by a count of
  leading zeros and a multiplication, computes what the generic loop computes.
\<close>

theorem getVarIntLength_specialisation: "getVarIntLength v = getVarIntLength_generic v"
  using getVarIntLength_loop_eq [of v 1] by (simp add: getVarIntLength_eq getVarIntLength_generic_def)

text \<open>
  A string of less than 2 GB that is stored as its variable-length size followed by its bytes is
  read back by both overloads of \<open>decodeVarIntString\<close>.
\<close>

theorem varint_string_roundtrip:
  assumes "length s < 2 ^ 31"
    and "holds_at input 0 (encodeVarInt (of_nat (length s)) [] @ s)"
  shows "decodeVarIntString input = Some s
     \<and> decodeVarIntString_ptr input =
         Some (ptr_add input (getVarIntLength (of_nat (length s))), of_nat (length s))"
proof -
  let ?n = "of_nat (length s) :: u64"
  have n: "unat ?n = length s" using assms(1) by (simp add: unat_of_nat)
  have h: "holds_at input 0 (varint_groups ?n)" "holds_at input (length (varint_groups ?n)) s"
    using assms(2) by (simp_all add: encodeVarInt_eq holds_at_append)
  have "decodeVarIntString_loop input 0 0 = Some (?n, length (varint_groups ?n) - 1)"
    using decodeVarIntString_loop_groups [of 0 0 ?n input] h(1) assms(1) n by simp
  moreover obtain k where "length (varint_groups ?n) = Suc k"
    by (metis length_0_conv not0_implies_Suc varint_groups_nonempty)
  ultimately show ?thesis
    using holds_at_map_ptr [OF h(2)] n
    by (simp add: decodeVarIntString_def decodeVarIntString_ptr_def getVarIntLength_eq del: upt_Suc)
qed

definition example_string_buffer :: "u8 ptr" where
  "example_string_buffer i = (if i = 0 then 3 else if i = 1 then 97 else if i = 2 then 98 else 99)"

theorem varint_string_roundtrip_witness:
  "decodeVarIntString example_string_buffer = Some [97, 98, 99]"
proof -
  have "holds_at example_string_buffer 0 (encodeVarInt (of_nat (length [97, 98, 99 :: u8])) [] @ [97, 98, 99])"
    by (simp add: example_string_buffer_def encodeVarInt.simps)
  from varint_string_roundtrip [OF _ this] show ?thesis by simp
qed

text \<open>
  Above 2 GB the string decoders do not read the size that was written.  The groups are shifted
  as 32-bit signed integers: the encoding of \<open>2 ^ 31\<close> is read as a size close to \<open>2 ^ 64\<close>, and for
  the encoding of \<open>2 ^ 32\<close> the shift is undefined.
\<close>

theorem varint_string_size_defect:
  "map_option fst (decodeVarIntString_loop (\<lambda>i. encodeVarInt 0x80000000 [] ! i) 0 0)
     = Some 0xFFFFFFFF80000000
   \<and> decodeVarIntString_loop (\<lambda>i. encodeVarInt 0x100000000 [] ! i) 0 0 = None"
  by (simp add: decodeVarIntString_loop.simps encodeVarInt.simps shl_int_def)

end
