(* ===== verification/Memory_Map.thy ===== *)
theory Memory_Map
  imports Prelude
begin

text \<open>
  The chunked buffer in external memory
  (\<open>keyvi/dictionary/fsa/internal/memory_map_manager.h\<close>).  The buffer is cut into files of
  \<open>chunk_size_\<close> bytes, each mapped into memory.  A mapping is named by the index of the file it
  maps, so that a write through the mapping is a write to the file.  An access outside a mapping or
  to a mapping that does not exist is \<open>Out_Of_Bounds\<close> (undefined behaviour in the source); the
  failures of the file system are a parameter: \<open>fs i\<close> is the exception that creating chunk file \<open>i\<close>
  throws, if any.
\<close>

section \<open>The operations\<close>

datatype mm_error = Create_Open_Failed | Create_Size_Failed | Open_Stream_Failed | Resize_Failed | Out_Of_Bounds

type_synonym fs = "nat \<Rightarrow> mm_error option"

record mmap =
  chunk_size :: nat
  mappings :: "nat list"
  files :: "u8 list list"
  tail :: nat
  persisted :: bool
  number_of_chunks :: nat

definition MemoryMapManager :: "nat \<Rightarrow> mmap" where
  "MemoryMapManager csize = \<lparr>chunk_size = csize, mappings = [], files = [], tail = 0, persisted = False,
     number_of_chunks = 0\<rparr>"

definition GetAddressQuickTestOk :: "nat \<Rightarrow> nat \<Rightarrow> mmap \<Rightarrow> bool" where
  "GetAddressQuickTestOk offset len m \<longleftrightarrow> len \<le> chunk_size m - offset mod chunk_size m"

definition CreateMapping :: "fs \<Rightarrow> mmap \<Rightarrow> mm_error + mmap" where
  "CreateMapping fs m =
     (case fs (number_of_chunks m) of
        Some e \<Rightarrow> Inl e
      | None \<Rightarrow> Inr (m\<lparr>files := files m @ [replicate (chunk_size m) 0],
                        mappings := mappings m @ [number_of_chunks m],
                        number_of_chunks := number_of_chunks m + 1\<rparr>))"

text \<open>\<open>GetChunk\<close> maps chunks until the wanted one exists; the result is the mapped file.\<close>

function GetChunk :: "fs \<Rightarrow> nat \<Rightarrow> mmap \<Rightarrow> mm_error + nat \<times> mmap" where
  "GetChunk fs chunk_number m =
     (if chunk_number \<ge> number_of_chunks m
      then (case CreateMapping fs m of Inl e \<Rightarrow> Inl e | Inr m' \<Rightarrow> GetChunk fs chunk_number m')
      else if chunk_number < length (mappings m) then Inr (mappings m ! chunk_number, m)
      else Inl Out_Of_Bounds)"
  by pat_completeness auto
termination
  by (relation "measure (\<lambda>(fs, n, m). Suc n - number_of_chunks m)")
     (auto simp: CreateMapping_def split: option.splits)

declare GetChunk.simps [simp del]

text \<open>\<open>memcpy\<close> from and to a mapped file.\<close>

definition read_file :: "nat \<Rightarrow> nat \<Rightarrow> nat \<Rightarrow> mmap \<Rightarrow> mm_error + u8 list" where
  "read_file f offset len m =
     (if f < length (files m) \<and> offset + len \<le> length (files m ! f)
      then Inr (take len (drop offset (files m ! f))) else Inl Out_Of_Bounds)"

definition write_file :: "nat \<Rightarrow> nat \<Rightarrow> u8 list \<Rightarrow> mmap \<Rightarrow> mm_error + mmap" where
  "write_file f offset bytes m =
     (if f < length (files m) \<and> offset + length bytes \<le> length (files m ! f)
      then Inr (m\<lparr>files := (files m)[f := take offset (files m ! f) @ bytes
                                          @ drop (offset + length bytes) (files m ! f)]\<rparr>)
      else Inl Out_Of_Bounds)"

definition GetAddress :: "fs \<Rightarrow> nat \<Rightarrow> mmap \<Rightarrow> mm_error + (nat \<times> nat) \<times> mmap" where
  "GetAddress fs offset m =
     (case GetChunk fs (offset div chunk_size m) m of
        Inl e \<Rightarrow> Inl e
      | Inr (f, m') \<Rightarrow> Inr ((f, offset mod chunk_size m), m'))"

definition GetBuffer :: "fs \<Rightarrow> nat \<Rightarrow> nat \<Rightarrow> mmap \<Rightarrow> mm_error + u8 list \<times> mmap" where
  "GetBuffer fs offset buffer_length m =
     (let chunk_number = offset div chunk_size m;
          chunk_offset = offset mod chunk_size m;
          first_chunk_size = min buffer_length (chunk_size m - chunk_offset);
          second_chunk_size = buffer_length - first_chunk_size
      in case GetChunk fs chunk_number m of
           Inl e \<Rightarrow> Inl e
         | Inr (f, m1) \<Rightarrow>
             (case read_file f chunk_offset first_chunk_size m1 of
                Inl e \<Rightarrow> Inl e
              | Inr bytes \<Rightarrow>
                  if second_chunk_size > 0
                  then (case GetChunk fs (chunk_number + 1) m1 of
                          Inl e \<Rightarrow> Inl e
                        | Inr (g, m2) \<Rightarrow>
                            (case read_file g 0 second_chunk_size m2 of
                               Inl e \<Rightarrow> Inl e
                             | Inr bytes2 \<Rightarrow> Inr (bytes @ bytes2, m2)))
                  else Inr (bytes, m1)))"

text \<open>One turn of \<open>Append\<close>'s loop: copy what fits into the chunk at the tail.\<close>

definition Append_step :: "fs \<Rightarrow> u8 list \<Rightarrow> mmap \<Rightarrow> mm_error + nat \<times> mmap" where
  "Append_step fs buffer m =
     (let chunk_number = tail m div chunk_size m;
          chunk_offset = tail m mod chunk_size m
      in case GetChunk fs chunk_number m of
           Inl e \<Rightarrow> Inl e
         | Inr (f, m1) \<Rightarrow>
             (let copy_size = min (length buffer) (chunk_size m1 - chunk_offset)
              in case write_file f chunk_offset (take copy_size buffer) m1 of
                   Inl e \<Rightarrow> Inl e
                 | Inr m2 \<Rightarrow> Inr (copy_size, m2\<lparr>tail := tail m2 + copy_size\<rparr>)))"

function Append :: "fs \<Rightarrow> u8 list \<Rightarrow> mmap \<Rightarrow> mm_error + mmap" where
  "Append fs buffer m =
     (if buffer = [] then Inr m
      else case Append_step fs buffer m of
             Inl e \<Rightarrow> Inl e
           | Inr (copy_size, m') \<Rightarrow>
               if copy_size = 0 then Inl Out_Of_Bounds else Append fs (drop copy_size buffer) m')"
  by pat_completeness auto
termination by (relation "measure (\<lambda>(fs, buffer, m). length buffer)") auto

declare Append.simps [simp del]

definition mm_push_back :: "fs \<Rightarrow> u8 \<Rightarrow> mmap \<Rightarrow> mm_error + mmap" where
  "mm_push_back fs c m =
     (case GetChunk fs (tail m div chunk_size m) m of
        Inl e \<Rightarrow> Inl e
      | Inr (f, m1) \<Rightarrow>
          (case write_file f (tail m mod chunk_size m) [c] m1 of
             Inl e \<Rightarrow> Inl e
           | Inr m2 \<Rightarrow> Inr (m2\<lparr>tail := tail m2 + 1\<rparr>)))"

definition mm_Compare :: "fs \<Rightarrow> nat \<Rightarrow> u8 list \<Rightarrow> mmap \<Rightarrow> mm_error + bool \<times> mmap" where
  "mm_Compare fs offset buffer m =
     (let chunk_number = offset div chunk_size m;
          chunk_offset = offset mod chunk_size m;
          first_chunk_size = min (length buffer) (chunk_size m - chunk_offset)
      in case GetChunk fs chunk_number m of
           Inl e \<Rightarrow> Inl e
         | Inr (f, m1) \<Rightarrow>
             (case read_file f chunk_offset first_chunk_size m1 of
                Inl e \<Rightarrow> Inl e
              | Inr bytes \<Rightarrow>
                  if bytes \<noteq> take first_chunk_size buffer then Inr (False, m1)
                  else if length buffer = first_chunk_size then Inr (True, m1)
                  else (case GetChunk fs (chunk_number + 1) m1 of
                          Inl e \<Rightarrow> Inl e
                        | Inr (g, m2) \<Rightarrow>
                            (case read_file g 0 (length buffer - first_chunk_size) m2 of
                               Inl e \<Rightarrow> Inl e
                             | Inr bytes2 \<Rightarrow> Inr (bytes2 = drop first_chunk_size buffer, m2)))))"

text \<open>
  \<open>Write\<close>: the whole chunk files once the buffer is persisted, else the first \<open>end\<close> bytes through the
  mappings.  The output is the list of bytes written to the stream.
\<close>

function Write_loop :: "mmap \<Rightarrow> nat \<Rightarrow> nat \<Rightarrow> mm_error + u8 list" where
  "Write_loop m chunk remaining =
     (if remaining = 0 then Inr []
      else let bytes_in_chunk = min (chunk_size m) remaining
           in if chunk < length (mappings m) \<and> bytes_in_chunk > 0
              then (case read_file (mappings m ! chunk) 0 bytes_in_chunk m of
                      Inl e \<Rightarrow> Inl e
                    | Inr bytes \<Rightarrow>
                        (case Write_loop m (chunk + 1) (remaining - bytes_in_chunk) of
                           Inl e \<Rightarrow> Inl e
                         | Inr rest \<Rightarrow> Inr (bytes @ rest)))
              else Inl Out_Of_Bounds)"
  by pat_completeness auto
termination by (relation "measure (\<lambda>(m, chunk, remaining). remaining)") auto

declare Write_loop.simps [simp del]

definition mm_Write :: "nat \<Rightarrow> mmap \<Rightarrow> mm_error + u8 list" where
  "mm_Write end m =
     (if persisted m then Inr (concat (take (number_of_chunks m) (files m)))
      else if number_of_chunks m = 0 then Inr []
      else Write_loop m 0 end)"

definition mm_GetSize :: "mmap \<Rightarrow> nat" where
  "mm_GetSize m = tail m"

text \<open>
  \<open>Persist\<close> truncates the last file to the bytes written.  When chunks were mapped beyond the tail the
  new size wraps around to more than any file system holds, and \<open>resize_file\<close> reports an error.
\<close>

definition Persist :: "mmap \<Rightarrow> mm_error + mmap" where
  "Persist m =
     (let m1 = m\<lparr>persisted := True\<rparr>;
          last_size = tail m1 - (number_of_chunks m1 - 1) * chunk_size m1
      in if number_of_chunks m1 > 0
         then (if tail m1 < (number_of_chunks m1 - 1) * chunk_size m1 then Inl Resize_Failed
               else Inr (m1\<lparr>files := (files m1)[number_of_chunks m1 - 1 :=
                        take last_size (files m1 ! (number_of_chunks m1 - 1))],
                      mappings := []\<rparr>))
         else Inr (m1\<lparr>mappings := []\<rparr>))"

lemma upt_split: "n \<le> len \<Longrightarrow> [a ..< a + len] = [a ..< a + n] @ [a + n ..< a + len]" for a :: nat
  using upt_add_eq_append [of a "a + n" "len - n"] by simp

section \<open>The buffer as a function from offsets to bytes\<close>

definition mm_byte :: "mmap \<Rightarrow> nat \<Rightarrow> u8" where
  "mm_byte m i = (if i div chunk_size m < length (files m)
     then files m ! (i div chunk_size m) ! (i mod chunk_size m) else 0)"

definition mm_invar :: "mmap \<Rightarrow> bool" where
  "mm_invar m \<longleftrightarrow> 0 < chunk_size m \<and> \<not> persisted m \<and> number_of_chunks m = length (files m)
     \<and> mappings m = [0..<number_of_chunks m] \<and> (\<forall>f \<in> set (files m). length f = chunk_size m)
     \<and> tail m \<le> number_of_chunks m * chunk_size m"

definition no_failure :: fs where
  "no_failure = (\<lambda>_. None)"

lemma mm_invar_init [simp]: "0 < csize \<Longrightarrow> mm_invar (MemoryMapManager csize)"
  by (simp add: mm_invar_def MemoryMapManager_def)

definition grow :: "nat \<Rightarrow> mmap \<Rightarrow> mmap" where
  "grow n m = m\<lparr>files := files m @ replicate (Suc n - number_of_chunks m) (replicate (chunk_size m) 0),
     mappings := [0..<max (Suc n) (number_of_chunks m)],
     number_of_chunks := max (Suc n) (number_of_chunks m)\<rparr>"

lemma grow_simps [simp]:
  "chunk_size (grow n m) = chunk_size m" "tail (grow n m) = tail m"
  "number_of_chunks (grow n m) = max (Suc n) (number_of_chunks m)"
  by (simp_all add: grow_def)

lemma grow_id: "mm_invar m \<Longrightarrow> n < number_of_chunks m \<Longrightarrow> grow n m = m"
  by (simp add: grow_def mm_invar_def max_def)

lemma mm_invar_grow [simp]: "mm_invar m \<Longrightarrow> mm_invar (grow n m)"
proof -
  assume m: "mm_invar m"
  then have "tail m \<le> max (Suc n) (number_of_chunks m) * chunk_size m"
    unfolding mm_invar_def by (meson max.cobounded2 mult_le_mono1 order.trans)
  with m show ?thesis by (auto simp: mm_invar_def grow_def max_def)
qed

lemma mm_byte_grow [simp]: "mm_invar m \<Longrightarrow> mm_byte (grow n m) = mm_byte m"
  by (auto simp: mm_byte_def grow_def mm_invar_def nth_append fun_eq_iff less_diff_conv2)

lemma GetChunk_grow:
  assumes "mm_invar m"
  shows "GetChunk no_failure n m = Inr (n, grow n m)"
  using assms
proof (induction "no_failure" n m rule: GetChunk.induct)
  case (1 n m)
  show ?case
  proof (cases "n < number_of_chunks m")
    case True
    then show ?thesis
      using "1.prems" grow_id [OF "1.prems" True] by (simp add: GetChunk.simps [of _ n m] mm_invar_def)
  next
    case False
    define m' where "m' = grow (number_of_chunks m) m"
    have c: "CreateMapping no_failure m = Inr m'"
      using "1.prems" by (simp add: CreateMapping_def no_failure_def m'_def grow_def mm_invar_def)
    have "GetChunk no_failure n m' = Inr (n, grow n m')"
      using False "1.prems" c by (intro "1.hyps") (simp_all add: m'_def)
    moreover have "grow n m' = grow n m"
      using False by (simp add: m'_def grow_def flip: replicate_add replicate_Suc)
    ultimately show ?thesis using False c by (simp add: GetChunk.simps [of _ n m])
  qed
qed

lemma read_file_bytes:
  assumes "mm_invar m" "c < number_of_chunks m" "offset + len \<le> chunk_size m"
  shows "read_file c offset len m =
    Inr (map (mm_byte m) [c * chunk_size m + offset ..< c * chunk_size m + offset + len])"
proof -
  have l: "length (files m ! c) = chunk_size m" using assms by (simp add: mm_invar_def)
  have "take len (drop offset (files m ! c)) =
      map (mm_byte m) [c * chunk_size m + offset ..< c * chunk_size m + offset + len]"
  proof (rule nth_equalityI)
    fix i assume "i < length (take len (drop offset (files m ! c)))"
    then have i: "i < len" by simp
    with assms(3) have "(c * chunk_size m + offset + i) div chunk_size m = c"
      "(c * chunk_size m + offset + i) mod chunk_size m = offset + i"
      by (simp_all add: add.assoc div_add1_eq [where a = "c * chunk_size m"])
    with i assms l show "take len (drop offset (files m ! c)) ! i =
        map (mm_byte m) [c * chunk_size m + offset ..< c * chunk_size m + offset + len] ! i"
      by (simp add: mm_byte_def mm_invar_def)
  qed (use assms l in simp)
  with assms l show ?thesis by (simp add: read_file_def mm_invar_def)
qed

definition overwrite :: "nat \<Rightarrow> 'a list \<Rightarrow> (nat \<Rightarrow> 'a) \<Rightarrow> nat \<Rightarrow> 'a" where
  "overwrite p bytes f i = (if p \<le> i \<and> i < p + length bytes then bytes ! (i - p) else f i)"

lemma overwrite_Nil [simp]: "overwrite p [] f = f"
  by (auto simp: overwrite_def fun_eq_iff)

lemma overwrite_append: "overwrite (p + length xs) ys (overwrite p xs f) = overwrite p (xs @ ys) f"
  by (auto simp: overwrite_def fun_eq_iff nth_append)

lemma write_file_bytes:
  assumes "mm_invar m" "c < number_of_chunks m" "offset + length bytes \<le> chunk_size m"
  shows "\<exists>m'. write_file c offset bytes m = Inr m' \<and> mm_invar m' \<and> tail m' = tail m
    \<and> chunk_size m' = chunk_size m \<and> number_of_chunks m' = number_of_chunks m
    \<and> mm_byte m' = overwrite (c * chunk_size m + offset) bytes (mm_byte m)"
proof -
  let ?cs = "chunk_size m" and ?p = "c * chunk_size m + offset"
  let ?new = "take offset (files m ! c) @ bytes @ drop (offset + length bytes) (files m ! c)"
  let ?m' = "m\<lparr>files := (files m)[c := ?new]\<rparr>"
  have l: "length (files m ! c) = ?cs" "c < length (files m)" using assms by (simp_all add: mm_invar_def)
  have "mm_byte ?m' i = overwrite ?p bytes (mm_byte m) i" for i
  proof (cases "i div ?cs = c")
    case True
    then have i: "i = c * ?cs + i mod ?cs" by (metis div_mult_mod_eq)
    have lt: "i mod ?cs < ?cs" using assms by (simp add: mm_invar_def)
    have "?p \<le> i \<longleftrightarrow> offset \<le> i mod ?cs" "i < ?p + length bytes \<longleftrightarrow> i mod ?cs < offset + length bytes"
      "i - ?p = i mod ?cs - offset"
      using i by linarith+
    then show ?thesis using True assms(3) l lt
      by (auto simp: mm_byte_def overwrite_def nth_append)
  next
    case False
    have "i < ?p \<or> ?p + length bytes \<le> i"
    proof (rule ccontr)
      assume "\<not> ?thesis"
      then have "c * ?cs \<le> i" "i < c * ?cs + ?cs" using assms(3) by linarith+
      then have "i div ?cs = c" by (intro div_nat_eqI) (simp_all add: mult.commute)
      with False show False by simp
    qed
    with False show ?thesis by (auto simp: mm_byte_def overwrite_def)
  qed
  moreover have "mm_invar ?m'"
    using assms l by (auto simp: mm_invar_def dest!: set_update_subset_insert [THEN subsetD])
  ultimately show ?thesis using assms l
    by (intro exI [of _ ?m']) (simp add: write_file_def fun_eq_iff)
qed

section \<open>What the operations do\<close>

text \<open>
  Every operation leaves the bytes alone or overwrites a range of them, whatever chunks it maps on
  the way.  \<open>same_bytes\<close> is what all reads keep.
\<close>

definition same_bytes :: "mmap \<Rightarrow> mmap \<Rightarrow> bool" where
  "same_bytes m m' \<longleftrightarrow> mm_invar m' \<and> mm_byte m' = mm_byte m \<and> tail m' = tail m \<and> chunk_size m' = chunk_size m
     \<and> number_of_chunks m \<le> number_of_chunks m'"

lemma same_bytes_grow: "mm_invar m \<Longrightarrow> same_bytes m (grow n m)"
  by (simp add: same_bytes_def)

lemma two_chunks:
  fixes offset :: nat
  assumes "mm_invar m" "len \<le> chunk_size m"
  defines "c \<equiv> offset div chunk_size m" and "k \<equiv> offset mod chunk_size m"
  defines "a \<equiv> min len (chunk_size m - k)"
  shows "k + a \<le> chunk_size m" "len - a \<le> chunk_size m" "c * chunk_size m + k = offset"
    "0 < len - a \<Longrightarrow> (c + 1) * chunk_size m = offset + a"
proof -
  have cs: "0 < chunk_size m" using assms(1) by (simp add: mm_invar_def)
  then have k: "k < chunk_size m" by (simp add: k_def)
  show off: "c * chunk_size m + k = offset" by (simp add: c_def k_def)
  show "k + a \<le> chunk_size m" using k by (simp add: a_def)
  show "len - a \<le> chunk_size m" using assms(2) by simp
  assume "0 < len - a"
  then have "a = chunk_size m - k" by (simp add: a_def min_def split: if_splits)
  with k off show "(c + 1) * chunk_size m = offset + a" by simp
qed

lemma GetBuffer_bytes:
  assumes "mm_invar m" "len \<le> chunk_size m"
  shows "\<exists>m'. GetBuffer no_failure offset len m = Inr (map (mm_byte m) [offset ..< offset + len], m')
    \<and> same_bytes m m'"
proof -
  define c where "c = offset div chunk_size m"
  define k where "k = offset mod chunk_size m"
  define a where "a = min len (chunk_size m - k)"
  define m1 where "m1 = grow c m"
  have m1: "mm_invar m1" "mm_byte m1 = mm_byte m" "chunk_size m1 = chunk_size m" "c < number_of_chunks m1"
    "tail m1 = tail m"
    using assms(1) by (simp_all add: m1_def)
  have parts: "k + a \<le> chunk_size m" "len - a \<le> chunk_size m" "c * chunk_size m + k = offset"
    "0 < len - a \<Longrightarrow> (c + 1) * chunk_size m = offset + a"
    unfolding c_def k_def a_def using two_chunks [OF assms] by blast+
  have r1: "read_file c k a m1 = Inr (map (mm_byte m) [offset ..< offset + a])"
    using read_file_bytes [OF m1(1,4), of k a] parts(1,3) m1 by simp
  show ?thesis
  proof (cases "0 < len - a")
    case False
    then have "len = a" by (simp add: a_def)
    with r1 [unfolded m1_def] show ?thesis
      unfolding GetBuffer_def Let_def c_def [symmetric] k_def [symmetric] a_def [symmetric]
        GetChunk_grow [OF assms(1)]
      by (simp add: same_bytes_grow [OF assms(1)])
  next
    case True
    define m2 where "m2 = grow (c + 1) m1"
    have m2: "mm_invar m2" "mm_byte m2 = mm_byte m" "chunk_size m2 = chunk_size m" "c + 1 < number_of_chunks m2"
      "same_bytes m m2"
      using m1 by (simp_all add: m2_def same_bytes_def) (simp add: m1_def)
    have "read_file (c + 1) 0 (len - a) m2 = Inr (map (mm_byte m) [offset + a ..< offset + len])"
      using read_file_bytes [OF m2(1,4), of 0 "len - a"] parts(2) parts(4) [OF True] m2 True by simp
    moreover have "[offset ..< offset + len] = [offset ..< offset + a] @ [offset + a ..< offset + len]"
      using True by (intro upt_split) simp
    ultimately show ?thesis using True r1 m2(5) unfolding m2_def
      unfolding GetBuffer_def Let_def c_def [symmetric] k_def [symmetric] a_def [symmetric]
        GetChunk_grow [OF assms(1)]
      by (simp add: m1_def [symmetric] GetChunk_grow [OF m1(1)] del: upt_Suc)
  qed
qed

lemma Compare_bytes:
  assumes "mm_invar m" "length buffer \<le> chunk_size m"
  shows "\<exists>m'. mm_Compare no_failure offset buffer m =
      Inr (buffer = map (mm_byte m) [offset ..< offset + length buffer], m') \<and> same_bytes m m'"
proof -
  let ?len = "length buffer"
  define c where "c = offset div chunk_size m"
  define k where "k = offset mod chunk_size m"
  define a where "a = min ?len (chunk_size m - k)"
  define m1 where "m1 = grow c m"
  define m2 where "m2 = grow (c + 1) m1"
  have m1: "mm_invar m1" "mm_byte m1 = mm_byte m" "chunk_size m1 = chunk_size m" "c < number_of_chunks m1"
    "same_bytes m m1" using assms(1) by (simp_all add: m1_def same_bytes_grow)
  have parts: "k + a \<le> chunk_size m" "?len - a \<le> chunk_size m" "c * chunk_size m + k = offset"
    "0 < ?len - a \<Longrightarrow> (c + 1) * chunk_size m = offset + a"
    unfolding c_def k_def a_def using two_chunks [OF assms] by blast+
  have m2: "mm_invar m2" "mm_byte m2 = mm_byte m" "chunk_size m2 = chunk_size m" "c + 1 < number_of_chunks m2"
    "same_bytes m m2" using m1 by (simp_all add: m2_def same_bytes_def) (simp add: m1_def)
  have a: "a \<le> ?len" by (simp add: a_def)
  have r1: "read_file c k a m1 = Inr (map (mm_byte m) [offset ..< offset + a])"
    using read_file_bytes [OF m1(1,4), of k a] parts(1,3) m1 by simp
  have r2: "read_file (c + 1) 0 (?len - a) m2 = Inr (map (mm_byte m) [offset + a ..< offset + ?len])"
    if "?len \<noteq> a"
    using read_file_bytes [OF m2(1,4), of 0 "?len - a"] parts(2,4) that m2 a by simp
  have "map (mm_byte m) [offset ..< offset + ?len] =
      map (mm_byte m) [offset ..< offset + a] @ map (mm_byte m) [offset + a ..< offset + ?len]"
    using upt_split [OF a, of offset] by simp
  moreover have "buffer = take a buffer @ drop a buffer" by simp
  ultimately have eq: "buffer = map (mm_byte m) [offset ..< offset + ?len] \<longleftrightarrow>
      map (mm_byte m) [offset ..< offset + a] = take a buffer
      \<and> map (mm_byte m) [offset + a ..< offset + ?len] = drop a buffer"
    using a by (metis (no_types, lifting) append_eq_append_conv length_map length_take length_upt
        min.absorb2 diff_add_inverse)
  have unfold: "mm_Compare no_failure offset buffer m =
      (if map (mm_byte m) [offset ..< offset + a] \<noteq> take a buffer then Inr (False, m1)
       else if ?len = a then Inr (True, m1)
       else case read_file (c + 1) 0 (?len - a) m2 of
              Inl e \<Rightarrow> Inl e | Inr bytes2 \<Rightarrow> Inr (bytes2 = drop a buffer, m2))"
    unfolding mm_Compare_def Let_def c_def [symmetric] k_def [symmetric] a_def [symmetric] m2_def
      GetChunk_grow [OF assms(1)]
    by (simp add: m1_def [symmetric] GetChunk_grow [OF m1(1)] r1 cong: sum.case_cong)
  show ?thesis
    unfolding eq unfold using m1(5) m2(5) r2 by auto
qed

lemma Append_step_bytes:
  assumes "mm_invar m" "buffer \<noteq> []"
  shows "\<exists>n m'. Append_step no_failure buffer m = Inr (n, m') \<and> 0 < n \<and> n \<le> length buffer
    \<and> mm_invar m' \<and> tail m' = tail m + n \<and> chunk_size m' = chunk_size m
    \<and> number_of_chunks m' = max (Suc (tail m div chunk_size m)) (number_of_chunks m)
    \<and> mm_byte m' = overwrite (tail m) (take n buffer) (mm_byte m)"
proof -
  define c where "c = tail m div chunk_size m"
  define k where "k = tail m mod chunk_size m"
  define n where "n = min (length buffer) (chunk_size m - k)"
  define m1 where "m1 = grow c m"
  have m1: "mm_invar m1" "mm_byte m1 = mm_byte m" "chunk_size m1 = chunk_size m" "c < number_of_chunks m1"
    "tail m1 = tail m" using assms(1) by (simp_all add: m1_def)
  have k: "k < chunk_size m" using assms(1) by (simp add: k_def mm_invar_def)
  have off: "c * chunk_size m + k = tail m" by (simp add: c_def k_def)
  have n: "0 < n" "n \<le> length buffer" "k + n \<le> chunk_size m" using k assms(2) by (simp_all add: n_def)
  from write_file_bytes [OF m1(1,4), of k "take n buffer"] obtain m2
    where m2: "write_file c k (take n buffer) m1 = Inr m2" "mm_invar m2" "tail m2 = tail m"
      "chunk_size m2 = chunk_size m" "number_of_chunks m2 = number_of_chunks m1"
      "mm_byte m2 = overwrite (tail m) (take n buffer) (mm_byte m)"
    using n m1 off by auto
  have "tail m + n \<le> (c + 1) * chunk_size m" using off n(3) by simp
  also have "\<dots> \<le> number_of_chunks m2 * chunk_size m" using m1(4) m2(5) by (intro mult_le_mono1) simp
  finally have "mm_invar (m2\<lparr>tail := tail m + n\<rparr>)" using m2 by (simp add: mm_invar_def)
  moreover have "mm_byte (m2\<lparr>tail := tail m + n\<rparr>) = mm_byte m2" by (simp add: mm_byte_def fun_eq_iff)
  moreover have "Append_step no_failure buffer m = Inr (n, m2\<lparr>tail := tail m + n\<rparr>)"
    unfolding Append_step_def Let_def c_def [symmetric] k_def [symmetric] GetChunk_grow [OF assms(1)]
    by (simp add: m1_def [symmetric] m1 n_def [symmetric] m2)
  moreover have "number_of_chunks m1 = max (Suc (tail m div chunk_size m)) (number_of_chunks m)"
    by (simp add: m1_def c_def)
  ultimately show ?thesis using n m2 by auto
qed

text \<open>\<open>mm_tight\<close>: the tail lies in the last chunk, so no chunk was mapped in advance.\<close>

definition mm_tight :: "mmap \<Rightarrow> bool" where
  "mm_tight m \<longleftrightarrow> (number_of_chunks m - 1) * chunk_size m \<le> tail m"

lemma mm_tight_step:
  assumes "mm_tight m" "number_of_chunks m' = max (Suc (tail m div chunk_size m)) (number_of_chunks m)"
    "tail m \<le> tail m'" "chunk_size m' = chunk_size m"
  shows "mm_tight m'"
  using assms by (auto simp: mm_tight_def max_def intro: order.trans [OF div_times_less_eq_dividend])

lemma Append_bytes:
  assumes "mm_invar m"
  shows "\<exists>m'. Append no_failure buffer m = Inr m' \<and> mm_invar m' \<and> chunk_size m' = chunk_size m
    \<and> tail m' = tail m + length buffer \<and> mm_byte m' = overwrite (tail m) buffer (mm_byte m)
    \<and> (mm_tight m \<longrightarrow> mm_tight m')"
  using assms
proof (induction "no_failure" buffer m rule: Append.induct)
  case (1 buffer m)
  show ?case
  proof (cases "buffer = []")
    case True
    with "1.prems" show ?thesis by (simp add: Append.simps [of _ "[]"])
  next
    case False
    from Append_step_bytes [OF "1.prems" False] obtain n m1
      where m1: "Append_step no_failure buffer m = Inr (n, m1)" "0 < n" "n \<le> length buffer"
        "mm_invar m1" "tail m1 = tail m + n" "chunk_size m1 = chunk_size m"
        "mm_byte m1 = overwrite (tail m) (take n buffer) (mm_byte m)"
        "number_of_chunks m1 = max (Suc (tail m div chunk_size m)) (number_of_chunks m)" by blast
    obtain m2 where m2: "Append no_failure (drop n buffer) m1 = Inr m2" "mm_invar m2"
      "chunk_size m2 = chunk_size m1" "tail m2 = tail m1 + length (drop n buffer)"
      "mm_byte m2 = overwrite (tail m1) (drop n buffer) (mm_byte m1)" "mm_tight m1 \<Longrightarrow> mm_tight m2"
      using "1.hyps" [OF False m1(1) refl _ m1(4)] m1(2) by auto
    have "mm_byte m2 = overwrite (tail m) buffer (mm_byte m)"
      using m2(5) m1(3,5,7) overwrite_append [of "tail m" "take n buffer" "drop n buffer"] by simp
    moreover have "Append no_failure buffer m = Inr m2"
      using m1 m2 False by (simp add: Append.simps [of _ buffer])
    moreover have "mm_tight m \<longrightarrow> mm_tight m2"
      using mm_tight_step [OF _ m1(8), of] m1(5,6) m2(6) by simp
    ultimately show ?thesis using m1 m2 by simp
  qed
qed

lemma push_back_is_Append:
  assumes "mm_invar m"
  shows "mm_push_back no_failure c m = Append no_failure [c] m"
proof -
  from Append_step_bytes [OF assms, of "[c]"] obtain m'
    where "Append_step no_failure [c] m = Inr (1, m')"
    by (metis One_nat_def Suc_leI antisym length_Cons list.distinct(1) list.size(3))
  moreover then have "mm_push_back no_failure c m = Inr m'"
    unfolding Append_step_def mm_push_back_def GetChunk_grow [OF assms] Let_def
    by (auto split: sum.splits)
  ultimately show ?thesis by (simp add: Append.simps [of _ "[c]"] Append.simps [of _ "[]"])
qed

text \<open>
  Writing out: unpersisted, the first \<open>end\<close> bytes; after \<open>Persist\<close>, exactly the bytes up to the tail.
\<close>

lemma Write_loop_bytes:
  assumes "mm_invar m" "chunk * chunk_size m + remaining \<le> number_of_chunks m * chunk_size m"
  shows "Write_loop m chunk remaining =
    Inr (map (mm_byte m) [chunk * chunk_size m ..< chunk * chunk_size m + remaining])"
  using assms
proof (induction m chunk remaining rule: Write_loop.induct)
  case (1 m chunk remaining)
  let ?cs = "chunk_size m" and ?n = "min (chunk_size m) remaining"
  have cs: "0 < ?cs" using "1.prems" by (simp add: mm_invar_def)
  show ?case
  proof (cases "remaining = 0")
    case False
    then have "chunk * ?cs < number_of_chunks m * ?cs" using "1.prems"(2) by linarith
    then have chunk: "chunk < number_of_chunks m" by simp
    then have map: "chunk < length (mappings m)" "mappings m ! chunk = chunk"
      using "1.prems"(1) by (simp_all add: mm_invar_def)
    have r: "read_file chunk 0 ?n m = Inr (map (mm_byte m) [chunk * ?cs ..< chunk * ?cs + ?n])"
      using read_file_bytes [OF "1.prems"(1) chunk, of 0 ?n] by simp
    then have r': "read_file (mappings m ! chunk) 0 ?n m =
        Inr (map (mm_byte m) [chunk * ?cs ..< chunk * ?cs + ?n])" using map(2) by simp
    have "Write_loop m (chunk + 1) (remaining - ?n) =
        Inr (map (mm_byte m) [chunk * ?cs + ?n ..< chunk * ?cs + remaining])"
    proof (cases "remaining \<le> ?cs")
      case True
      then show ?thesis by (simp add: Write_loop.simps)
    next
      case f: False
      then have eq: "(chunk + 1) * ?cs = chunk * ?cs + ?n" "(chunk + 1) * ?cs + (remaining - ?n) = chunk * ?cs + remaining"
        by simp_all
      have "Write_loop m (chunk + 1) (remaining - ?n) =
          Inr (map (mm_byte m) [(chunk + 1) * ?cs ..< (chunk + 1) * ?cs + (remaining - ?n)])"
        using "1.prems" map(1) cs False eq(2) by (intro "1.IH" [OF False refl _ r']) auto
      with eq show ?thesis by (simp add: add.commute)
    qed
    moreover have "[chunk * ?cs ..< chunk * ?cs + remaining] =
        [chunk * ?cs ..< chunk * ?cs + ?n] @ [chunk * ?cs + ?n ..< chunk * ?cs + remaining]"
      by (intro upt_split) simp
    ultimately show ?thesis
      using False map cs r by (simp add: Write_loop.simps [of m chunk] Let_def)
  qed (simp add: Write_loop.simps)
qed

lemma Write_bytes:
  assumes "mm_invar m" "end \<le> number_of_chunks m * chunk_size m"
  shows "mm_Write end m = Inr (map (mm_byte m) [0 ..< end])"
  using assms Write_loop_bytes [of m 0 "end"] by (auto simp: mm_Write_def mm_invar_def)

lemma length_concat_chunks: "\<forall>f \<in> set fs. length f = n \<Longrightarrow> length (concat fs) = length fs * n"
  by (induction fs) auto

lemma nth_concat_chunks:
  assumes "\<forall>f \<in> set fs. length f = n" "i < length fs * n"
  shows "concat fs ! i = fs ! (i div n) ! (i mod n)"
  using assms
proof (induction fs arbitrary: i)
  case (Cons f fs)
  then have n: "0 < n" by (cases n) auto
  show ?case
  proof (cases "i < n")
    case False
    then have "i div n = Suc ((i - n) div n)" "i mod n = (i - n) mod n"
      using n by (simp_all add: le_div_geq le_mod_geq)
    with Cons False show ?thesis by (simp add: nth_append)
  qed (use Cons in \<open>simp add: nth_append\<close>)
qed simp

lemma concat_files:
  assumes "mm_invar m"
  shows "concat (files m) = map (mm_byte m) [0 ..< number_of_chunks m * chunk_size m]"
proof (rule nth_equalityI)
  show len: "length (concat (files m)) = length (map (mm_byte m) [0 ..< number_of_chunks m * chunk_size m])"
    using assms by (simp add: length_concat_chunks mm_invar_def)
  fix i assume "i < length (concat (files m))"
  then have i: "i < length (files m) * chunk_size m" using len assms by (simp add: mm_invar_def)
  then have "i div chunk_size m < length (files m)" by (simp add: less_mult_imp_div_less)
  with i assms show "concat (files m) ! i = map (mm_byte m) [0 ..< number_of_chunks m * chunk_size m] ! i"
    by (simp add: nth_concat_chunks mm_byte_def mm_invar_def)
qed

lemma Persist_bytes:
  assumes "mm_invar m" "(number_of_chunks m - 1) * chunk_size m \<le> tail m"
  shows "\<exists>m'. Persist m = Inr m' \<and> mm_Write end m' = Inr (map (mm_byte m) [0 ..< tail m])"
proof (cases "files m = []")
  case True
  with assms(1) show ?thesis by (auto simp: Persist_def mm_invar_def mm_Write_def)
next
  case False
  let ?n = "number_of_chunks m" and ?cs = "chunk_size m"
  from False obtain fs f where files: "files m = fs @ [f]" by (meson rev_exhaust)
  with assms(1) have n: "?n = Suc (length fs)" and chunks: "\<forall>f \<in> set fs. length f = ?cs"
    by (simp_all add: mm_invar_def)
  have "concat (fs @ [take (tail m - length fs * ?cs) f]) = take (tail m) (concat (files m))"
    using length_concat_chunks [OF chunks] assms(2) n by (simp add: files)
  also have "\<dots> = map (mm_byte m) [0 ..< tail m]"
    unfolding concat_files [OF assms(1)] using assms(1) unfolding mm_invar_def take_map
    by (metis add_0 take_upt)
  finally show ?thesis using assms n files
    by (simp add: Persist_def mm_Write_def Let_def list_update_append)
qed

section \<open>The interface of an append-only store\<close>

text \<open>
  What the persistence and the value stores rely on: appended bytes stay where they were appended,
  and a read returns them.  Reads may change the representation (they map chunks) but no byte.
\<close>

locale append_store =
  fixes append_bytes :: "'b list \<Rightarrow> 's \<Rightarrow> 's" and size_of :: "'s \<Rightarrow> nat"
    and byte_at :: "'s \<Rightarrow> nat \<Rightarrow> 'b" and invar :: "'s \<Rightarrow> bool"
  assumes invar_append: "invar s \<Longrightarrow> invar (append_bytes bytes s)"
    and size_append: "invar s \<Longrightarrow> size_of (append_bytes bytes s) = size_of s + length bytes"
    and bytes_append: "invar s \<Longrightarrow> byte_at (append_bytes bytes s) = overwrite (size_of s) bytes (byte_at s)"
begin

lemma invar_appends: "invar s \<Longrightarrow> invar (fold append_bytes bs s)"
  by (induction bs arbitrary: s) (simp_all add: invar_append)

lemma size_appends: "invar s \<Longrightarrow> size_of (fold append_bytes bs s) = size_of s + length (concat bs)"
  by (induction bs arbitrary: s) (simp_all add: invar_append size_append)

lemma bytes_appends:
  "invar s \<Longrightarrow> byte_at (fold append_bytes bs s) = overwrite (size_of s) (concat bs) (byte_at s)"
proof (induction bs arbitrary: s)
  case (Cons b bs)
  then have "byte_at (fold append_bytes bs (append_bytes b s)) =
      overwrite (size_of s + length b) (concat bs) (overwrite (size_of s) b (byte_at s))"
    by (simp add: invar_append size_append bytes_append)
  then show ?case by (simp add: overwrite_append)
qed simp

text \<open>Every record is found at the offset it was appended at, whatever was appended later.\<close>

lemma record_survives:
  assumes "invar s" "off = size_of (fold append_bytes before s)"
  shows "map (byte_at (fold append_bytes (before @ b # after) s)) [off ..< off + length b] = b"
proof (rule nth_equalityI)
  have off: "off = size_of s + length (concat before)" using assms by (simp add: size_appends)
  fix i assume "i < length (map (byte_at (fold append_bytes (before @ b # after) s)) [off ..< off + length b])"
  then have i: "i < length b" by simp
  have "byte_at (fold append_bytes (before @ b # after) s) (off + i) = (concat before @ b @ concat after) ! (length (concat before) + i)"
    unfolding bytes_appends [OF assms(1)] overwrite_def using i by (simp add: off)
  with i show "map (byte_at (fold append_bytes (before @ b # after) s)) [off ..< off + length b] ! i = b ! i"
    by (simp add: nth_append)
qed simp

end

definition append_ok :: "u8 list \<Rightarrow> mmap \<Rightarrow> mmap" where
  "append_ok bytes m = projr (Append no_failure bytes m)"

lemma append_ok:
  assumes "mm_invar m"
  shows "Append no_failure bytes m = Inr (append_ok bytes m)" "mm_invar (append_ok bytes m)"
    "chunk_size (append_ok bytes m) = chunk_size m"
    "tail (append_ok bytes m) = tail m + length bytes"
    "mm_byte (append_ok bytes m) = overwrite (tail m) bytes (mm_byte m)"
    "mm_tight m \<Longrightarrow> mm_tight (append_ok bytes m)"
  using Append_bytes [OF assms, of bytes] by (auto simp: append_ok_def)

interpretation mm: append_store append_ok mm_GetSize mm_byte mm_invar
  by unfold_locales (simp_all add: append_ok mm_GetSize_def)

lemma chunk_size_appends: "mm_invar m \<Longrightarrow> chunk_size (fold append_ok bs m) = chunk_size m"
  by (induction bs arbitrary: m) (simp_all add: append_ok)

lemma mm_tight_appends: "mm_invar m \<Longrightarrow> mm_tight m \<Longrightarrow> mm_tight (fold append_ok bs m)"
  by (induction bs arbitrary: m) (simp_all add: append_ok)

section \<open>Properties\<close>

text \<open>
  C34: the chunked buffer is one array.  Whatever records are appended, in whatever chunk size, reading
  the range where a record was appended returns the record, also when the range crosses a chunk
  boundary, and \<open>Compare\<close> accepts exactly the same bytes; \<open>GetSize\<close> is the number of bytes appended.
\<close>

theorem memory_map_read_back:
  fixes m :: mmap
  assumes "0 < csize" and "m = fold append_ok (before @ b # after) (MemoryMapManager csize)"
    and "length b \<le> csize" and "length other = length b"
  shows "\<exists>m1 m2. GetBuffer no_failure (length (concat before)) (length b) m = Inr (b, m1)
      \<and> mm_Compare no_failure (length (concat before)) other m = Inr (other = b, m2)
      \<and> mm_GetSize m = length (concat (before @ b # after))"
proof -
  let ?m0 = "MemoryMapManager csize"
  have inv0: "mm_invar ?m0" and s0: "mm_GetSize ?m0 = 0"
    using assms(1) mm_invar_init by (simp, simp add: mm_GetSize_def MemoryMapManager_def)
  have inv: "mm_invar m" using mm.invar_appends [OF inv0] assms(2) by metis
  have cs: "chunk_size m = csize"
    using chunk_size_appends [OF inv0] assms(2) by (simp add: MemoryMapManager_def del: fold_append)
  have b: "map (mm_byte m) [length (concat before) ..< length (concat before) + length b] = b"
    using mm.record_survives [OF inv0, of _ before b after] mm.size_appends [OF inv0, of before] s0 assms(2)
    by simp
  have "mm_GetSize m = length (concat (before @ b # after))"
    using mm.size_appends [OF inv0, of "before @ b # after"] s0 assms(2) by simp
  moreover obtain m1 where "GetBuffer no_failure (length (concat before)) (length b) m = Inr (b, m1)"
    using GetBuffer_bytes [OF inv, of "length b"] cs assms(3) b by metis
  moreover obtain m2 where "mm_Compare no_failure (length (concat before)) other m = Inr (other = b, m2)"
    using Compare_bytes [OF inv, of other "length (concat before)"] cs assms(3,4) b by metis
  ultimately show ?thesis by blast
qed

theorem memory_map_read_back_witness:
  "\<exists>m1 m2. GetBuffer no_failure 3 4 (fold append_ok [[1, 2, 3], [4, 5, 6, 7]] (MemoryMapManager 5)) =
       Inr ([4, 5, 6, 7], m1)
    \<and> mm_Compare no_failure 3 [4, 5, 6, 8] (fold append_ok [[1, 2, 3], [4, 5, 6, 7]] (MemoryMapManager 5)) =
       Inr (False, m2)"
  using memory_map_read_back [of 5 _ "[[1, 2, 3]]" "[4, 5, 6, 7]" "[]" "[4, 5, 6, 8]", OF _ refl]
  by (auto simp: numeral_eq_Suc)

text \<open>
  Nothing but the appended bytes reaches the output.  Written with the buffer's size, or after
  \<open>Persist\<close>, the stream gets exactly the appended bytes in order.
\<close>

theorem memory_map_write_out:
  fixes m :: mmap
  assumes "0 < csize" and "m = fold append_ok bs (MemoryMapManager csize)"
  shows "mm_Write (mm_GetSize m) m = Inr (concat bs)
    \<and> (\<exists>m'. Persist m = Inr m' \<and> mm_Write end m' = Inr (concat bs))"
proof -
  let ?m0 = "MemoryMapManager csize"
  have inv0: "mm_invar ?m0" and s0: "mm_GetSize ?m0 = 0"
    using assms(1) mm_invar_init by (simp, simp add: mm_GetSize_def MemoryMapManager_def)
  have inv: "mm_invar m" using mm.invar_appends [OF inv0] assms(2) by metis
  have cs: "chunk_size m = csize"
    using chunk_size_appends [OF inv0] assms(2) by (simp add: MemoryMapManager_def)
  have size: "tail m = length (concat bs)"
    using mm.size_appends [OF inv0, of bs] s0 assms(2) by (simp add: mm_GetSize_def)
  have bytes: "map (mm_byte m) [0 ..< tail m] = concat bs"
    unfolding assms(2) mm.bytes_appends [OF inv0] s0 using size assms(2)
    by (intro nth_equalityI) (simp_all add: overwrite_def)
  have "mm_tight m"
    using mm_tight_appends [OF inv0, of bs] assms(2) by (simp add: mm_tight_def MemoryMapManager_def)
  moreover have "tail m \<le> number_of_chunks m * chunk_size m" using inv unfolding mm_invar_def by blast
  ultimately show ?thesis
    using Write_bytes [OF inv] Persist_bytes [OF inv, of "end"] bytes by (simp add: mm_GetSize_def mm_tight_def)
qed

theorem memory_map_write_out_witness:
  "mm_Write 7 (fold append_ok [[1, 2, 3], [4, 5, 6, 7]] (MemoryMapManager 5)) = Inr [1, 2, 3, 4, 5, 6, 7]"
proof -
  let ?m = "fold append_ok [[1, 2, 3], [4, 5, 6, 7]] (MemoryMapManager 5)"
  have "mm_GetSize ?m = 7" by code_simp
  with memory_map_write_out [of 5 ?m "[[1, 2, 3], [4, 5, 6, 7]]"] show ?thesis by simp
qed

text \<open>
  \<open>GetBuffer\<close> handles one chunk boundary only.  A read longer than a chunk that starts inside one
  runs past the end of the second mapping.
\<close>

theorem get_buffer_two_chunks_only:
  "GetBuffer no_failure 1 5 (append_ok [1, 2, 3, 4, 5, 6] (MemoryMapManager 2)) = Inl Out_Of_Bounds"
  by code_simp

end
