(* ===== verification/Sparse_Array.thy ===== *)
theory Sparse_Array
  imports Vint Memory_Map
begin

text \<open>
  The persistence of the sparse array (\<open>keyvi/dictionary/fsa/internal/sparse_array_persistence.h\<close>, the
  instance for 16-bit buckets) on a little-endian host.  The head of the array lives in two memory
  buffers; \<open>BeginNewState\<close> flushes the lower part of the buffers to external memory when a state may
  reach beyond them.  A file offset is a natural number; a resolved pointer is a 64-bit word.
\<close>

section \<open>Constants of the file format\<close>

definition NUMBER_OF_STATE_CODINGS :: nat where "NUMBER_OF_STATE_CODINGS = 255"
definition FINAL_OFFSET_TRANSITION :: nat where "FINAL_OFFSET_TRANSITION = 256"
definition FINAL_OFFSET_CODE :: nat where "FINAL_OFFSET_CODE = 1"
definition INNER_WEIGHT_TRANSITION_COMPACT :: nat where "INNER_WEIGHT_TRANSITION_COMPACT = 260"
definition MAX_TRANSITIONS :: nat where "MAX_TRANSITIONS = 261"
definition COMPACT_SIZE_WINDOW :: nat where "COMPACT_SIZE_WINDOW = 512"

lemmas format_constants = NUMBER_OF_STATE_CODINGS_def FINAL_OFFSET_TRANSITION_def FINAL_OFFSET_CODE_def
  INNER_WEIGHT_TRANSITION_COMPACT_def MAX_TRANSITIONS_def COMPACT_SIZE_WINDOW_def

section \<open>16-bit values in byte memory\<close>

definition le_bytes :: "u16 \<Rightarrow> u8 list" where
  "le_bytes v = [ucast v, ucast (drop_bit 8 v)]"

definition le_word :: "u8 \<Rightarrow> u8 \<Rightarrow> u16" where
  "le_word b0 b1 = ucast b0 OR push_bit 8 (ucast b1)"

lemma le_word_le_bytes [simp]: "le_word (ucast v) (ucast (drop_bit 8 v)) = v"
  by (rule bit_word_eqI) (auto simp: le_word_def bit_simps)

lemma ucast_le_word [simp]:
  "ucast (le_word b0 b1) = b0" "ucast (drop_bit 8 (le_word b0 b1)) = b1"
  by (rule bit_word_eqI, auto simp: le_word_def bit_simps dest: bit_imp_le_length)+

lemma length_le_bytes [simp]: "length (le_bytes v) = 2"
  by (simp add: le_bytes_def)

fun le_words :: "u8 list \<Rightarrow> u16 list" where
  "le_words (b0 # b1 # bs) = le_word b0 b1 # le_words bs"
| "le_words _ = []"

text \<open>
  \<open>decodeVarShort\<close> on a pointer into memory of which only \<open>n\<close> more buckets may be read.
\<close>

definition decode_within :: "nat \<Rightarrow> u16 ptr \<Rightarrow> mm_error + u64" where
  "decode_within n p =
     (case find (\<lambda>i. p i AND 0x8000 = 0) [0..<n] of
        None \<Rightarrow> Inl Out_Of_Bounds
      | Some _ \<Rightarrow> (case decodeVarShort p of None \<Rightarrow> Inl Out_Of_Bounds | Some v \<Rightarrow> Inr v))"

section \<open>The operations\<close>

record persistence =
  labels :: "u8 list option"
  labels_extern :: mmap
  transitions :: "u16 list"
  transitions_extern :: mmap
  in_memory_buffer_offset :: nat
  buffer_size :: nat
  flush_size :: nat
  highest_state_begin :: nat
  highest_raw_write_bucket :: nat

definition align16 :: "nat \<Rightarrow> nat" where
  "align16 n = n + (16 - n mod 16)"

definition external_chunk_size :: "nat \<Rightarrow> nat" where
  "external_chunk_size flush = (let c = min (flush * 2) 1073741824 in c - c mod flush)"

definition SparseArrayPersistence :: "nat \<Rightarrow> persistence" where
  "SparseArrayPersistence memory_limit =
     (let b = align16 (memory_limit div (1 + 2)); f = align16 ((b * 3) div 5)
      in \<lparr>labels = Some ((replicate b 0)[0 := 42, 1 := 42]),
          labels_extern = MemoryMapManager (external_chunk_size f),
          transitions = replicate b 0,
          transitions_extern = MemoryMapManager (external_chunk_size f * 2),
          in_memory_buffer_offset = 0, buffer_size = b, flush_size = f,
          highest_state_begin = 0, highest_raw_write_bucket = 0\<rparr>)"

text \<open>The byte order of the file is little endian, the host's own: the conversions are identities.\<close>

definition HostOrderToPersistenceOrder :: "u16 list \<Rightarrow> u16 list" where
  "HostOrderToPersistenceOrder vs = vs"

definition FlushBuffers :: "fs \<Rightarrow> persistence \<Rightarrow> mm_error + persistence" where
  "FlushBuffers fs p =
     (case labels p of
        None \<Rightarrow> Inl Out_Of_Bounds
      | Some ls \<Rightarrow>
          bind_sum (Append fs (take (flush_size p) ls) (labels_extern p)) (\<lambda>le.
          bind_sum (Append fs (concat (map le_bytes (HostOrderToPersistenceOrder
                                 (take (flush_size p) (transitions p))))) (transitions_extern p)) (\<lambda>te.
          Inr (p\<lparr>labels_extern := le, transitions_extern := te,
                 labels := Some (drop (flush_size p) ls @ replicate (flush_size p) 0),
                 transitions := drop (flush_size p) (transitions p) @ replicate (flush_size p) 0,
                 in_memory_buffer_offset := in_memory_buffer_offset p + flush_size p\<rparr>))))"

text \<open>The loop of \<open>BeginNewState\<close>; \<open>flush_size_\<close> is at least 16, so every turn makes room.\<close>

function make_room :: "fs \<Rightarrow> nat \<Rightarrow> persistence \<Rightarrow> mm_error + persistence" where
  "make_room fs offset p =
     (if offset + COMPACT_SIZE_WINDOW + NUMBER_OF_STATE_CODINGS \<ge> buffer_size p + in_memory_buffer_offset p
         \<and> 0 < flush_size p
      then (case FlushBuffers fs p of Inl e \<Rightarrow> Inl e | Inr p' \<Rightarrow> make_room fs offset p')
      else Inr p)"
  by pat_completeness auto
termination
  by (relation "measure (\<lambda>(fs, offset, p). Suc (offset + COMPACT_SIZE_WINDOW + NUMBER_OF_STATE_CODINGS)
        - (buffer_size p + in_memory_buffer_offset p))")
     (auto simp: FlushBuffers_def bind_sum_Inr_iff split: option.splits)

declare make_room.simps [simp del]

definition BeginNewState :: "fs \<Rightarrow> nat \<Rightarrow> persistence \<Rightarrow> mm_error + persistence" where
  "BeginNewState fs offset p =
     bind_sum (make_room fs offset p) (\<lambda>p'.
       Inr (if offset > highest_state_begin p' then p'\<lparr>highest_state_begin := offset\<rparr> else p'))"

definition SAP_WriteTransition :: "fs \<Rightarrow> nat \<Rightarrow> u8 \<Rightarrow> u16 \<Rightarrow> persistence \<Rightarrow> mm_error + persistence" where
  "SAP_WriteTransition fs offset transitionId transitionPointer p0 =
     (let p = p0\<lparr>highest_raw_write_bucket := max (highest_raw_write_bucket p0) offset\<rparr>;
          i = offset - in_memory_buffer_offset p
      in if offset \<ge> in_memory_buffer_offset p
         then (case labels p of
                 None \<Rightarrow> Inl Out_Of_Bounds
               | Some ls \<Rightarrow>
                   if i < length ls \<and> i < length (transitions p)
                   then Inr (p\<lparr>labels := Some (ls[i := transitionId]),
                               transitions := (transitions p)[i := transitionPointer]\<rparr>)
                   else Inl Out_Of_Bounds)
         else bind_sum (GetAddress fs offset (labels_extern p)) (\<lambda>((f, k), le).
              bind_sum (write_file f k [transitionId] le) (\<lambda>le'.
              bind_sum (GetAddress fs (offset * 2) (transitions_extern p)) (\<lambda>((g, j), te).
              bind_sum (write_file g j (le_bytes transitionPointer) te) (\<lambda>te'.
                Inr (p\<lparr>labels_extern := le', transitions_extern := te'\<rparr>))))))"

definition ReadTransitionLabel :: "fs \<Rightarrow> nat \<Rightarrow> persistence \<Rightarrow> mm_error + u8 \<times> persistence" where
  "ReadTransitionLabel fs offset p =
     (if offset \<ge> in_memory_buffer_offset p
      then (case labels p of
              None \<Rightarrow> Inl Out_Of_Bounds
            | Some ls \<Rightarrow> if offset - in_memory_buffer_offset p < length ls
                         then Inr (ls ! (offset - in_memory_buffer_offset p), p) else Inl Out_Of_Bounds)
      else bind_sum (GetAddress fs offset (labels_extern p)) (\<lambda>((f, k), le).
           bind_sum (read_file f k 1 le) (\<lambda>bytes. Inr (hd bytes, p\<lparr>labels_extern := le\<rparr>))))"

definition ReadTransitionValue :: "fs \<Rightarrow> nat \<Rightarrow> persistence \<Rightarrow> mm_error + u16 \<times> persistence" where
  "ReadTransitionValue fs offset p =
     (if offset \<ge> in_memory_buffer_offset p
      then (if offset - in_memory_buffer_offset p < length (transitions p)
            then Inr (transitions p ! (offset - in_memory_buffer_offset p), p) else Inl Out_Of_Bounds)
      else bind_sum (GetAddress fs (offset * 2) (transitions_extern p)) (\<lambda>((f, k), te).
           bind_sum (read_file f k 2 te) (\<lambda>bytes.
             Inr (hd (le_words bytes), p\<lparr>transitions_extern := te\<rparr>))))"

text \<open>A variable length short in the in-memory buffer, and in a chunk of the external memory.\<close>

definition decode_in_memory :: "nat \<Rightarrow> persistence \<Rightarrow> mm_error + u64" where
  "decode_in_memory i p = decode_within (length (transitions p) - i) (\<lambda>j. transitions p ! (i + j))"

definition decode_in_chunk :: "nat \<Rightarrow> nat \<Rightarrow> mmap \<Rightarrow> mm_error + u64" where
  "decode_in_chunk f k m =
     (if f < length (files m)
      then decode_within ((length (files m ! f) - k) div 2)
             (\<lambda>j. le_word (files m ! f ! (k + 2 * j)) (files m ! f ! (k + 2 * j + 1)))
      else Inl Out_Of_Bounds)"

definition decode_in_buffer :: "u8 list \<Rightarrow> mm_error + u64" where
  "decode_in_buffer bytes = decode_within (length (le_words bytes)) (\<lambda>j. le_words bytes ! j)"

text \<open>
  The shared part of \<open>ResolveTransitionValue\<close> and \<open>ReadFinalValue\<close>: read the variable length short at a
  bucket of the external memory, directly when the quick test over \<open>window\<close> bytes succeeds, else
  through a copy of \<open>copy\<close> bytes.
\<close>

definition decode_external :: "fs \<Rightarrow> nat \<Rightarrow> nat \<Rightarrow> nat \<Rightarrow> persistence \<Rightarrow> mm_error + u64 \<times> persistence" where
  "decode_external fs window copy bucket p =
     (if GetAddressQuickTestOk (bucket * 2) window (transitions_extern p)
      then bind_sum (GetAddress fs (bucket * 2) (transitions_extern p)) (\<lambda>((f, k), te).
           bind_sum (decode_in_chunk f k te) (\<lambda>v. Inr (v, p\<lparr>transitions_extern := te\<rparr>)))
      else bind_sum (GetBuffer fs (bucket * 2) copy (transitions_extern p)) (\<lambda>(bytes, te).
           bind_sum (decode_in_buffer bytes) (\<lambda>v. Inr (v, p\<lparr>transitions_extern := te\<rparr>))))"

definition ResolveTransitionValue :: "fs \<Rightarrow> nat \<Rightarrow> u16 \<Rightarrow> persistence \<Rightarrow> mm_error + u64 \<times> persistence" where
  "ResolveTransitionValue fs offset value p =
     (if value AND 0xC000 = 0xC000 then Inr (ucast (value AND 0x3FFF), p)
      else if value AND 0x8000 \<noteq> 0
      then (let pt = value AND 0x7FFF;
                position = unat (drop_bit 4 pt) + offset;
                overflow_bucket = position - COMPACT_SIZE_WINDOW
            in if position < COMPACT_SIZE_WINDOW then Inl Out_Of_Bounds
               else bind_sum (if overflow_bucket \<ge> in_memory_buffer_offset p
                              then bind_sum (decode_in_memory (overflow_bucket - in_memory_buffer_offset p) p)
                                     (\<lambda>v. Inr (v, p))
                              else decode_external fs (3 * 2) (3 * 2) overflow_bucket p) (\<lambda>(high, p').
                 let resolved = push_bit 3 high + ucast (pt AND 0x7)
                 in Inr (if pt AND 0x8 \<noteq> 0 then of_nat offset - resolved + of_nat COMPACT_SIZE_WINDOW
                         else resolved, p')))
      else Inr (of_nat offset - ucast value + of_nat COMPACT_SIZE_WINDOW, p))"

definition ReadFinalValue :: "fs \<Rightarrow> nat \<Rightarrow> persistence \<Rightarrow> mm_error + u64 \<times> persistence" where
  "ReadFinalValue fs offset p =
     (if offset + FINAL_OFFSET_TRANSITION \<ge> in_memory_buffer_offset p
      then bind_sum (decode_in_memory (offset + FINAL_OFFSET_TRANSITION - in_memory_buffer_offset p) p)
             (\<lambda>v. Inr (v, p))
      else decode_external fs 5 (10 * 2) (offset + FINAL_OFFSET_TRANSITION) p)"

definition SAP_GetSize :: "persistence \<Rightarrow> nat" where
  "SAP_GetSize p = max (highest_state_begin p + MAX_TRANSITIONS) (highest_raw_write_bucket p + 1)"

text \<open>
  \<open>Flush\<close> appends the used part of the buffers; a used part below the buffers' start or beyond their
  end would be a copy out of range.
\<close>

definition SAP_Flush :: "fs \<Rightarrow> persistence \<Rightarrow> mm_error + persistence" where
  "SAP_Flush fs p =
     (case labels p of
        None \<Rightarrow> Inr p
      | Some ls \<Rightarrow>
          (let highest_write_position =
                 max (highest_state_begin p + MAX_TRANSITIONS) (highest_raw_write_bucket p + 1);
               n = highest_write_position - in_memory_buffer_offset p
           in if highest_write_position < in_memory_buffer_offset p \<or> length ls < n then Inl Out_Of_Bounds
              else bind_sum (Append fs (take n ls) (labels_extern p)) (\<lambda>le.
                   bind_sum (Append fs (concat (map le_bytes (HostOrderToPersistenceOrder
                                          (take n (transitions p))))) (transitions_extern p)) (\<lambda>te.
                   Inr (p\<lparr>labels_extern := le, transitions_extern := te,
                          labels := None, transitions := []\<rparr>)))))"

definition SAP_Write :: "persistence \<Rightarrow> mm_error + u8 list" where
  "SAP_Write p =
     (let sz = SAP_GetSize p in
      bind_sum (mm_Write sz (labels_extern p)) (\<lambda>ls.
      bind_sum (mm_Write (sz * 2) (transitions_extern p)) (\<lambda>ts. Inr (ls @ ts))))"

section \<open>The array as two functions\<close>

text \<open>
  What the persistence stands for: a label and a value for every bucket, wherever they are kept.
\<close>

definition sap_label :: "persistence \<Rightarrow> nat \<Rightarrow> u8" where
  "sap_label p i =
     (if i < in_memory_buffer_offset p then mm_byte (labels_extern p) i
      else case labels p of
             None \<Rightarrow> mm_byte (labels_extern p) i
           | Some ls \<Rightarrow> if i - in_memory_buffer_offset p < length ls
                        then ls ! (i - in_memory_buffer_offset p) else 0)"

definition extern_value :: "mmap \<Rightarrow> nat \<Rightarrow> u16" where
  "extern_value m i = le_word (mm_byte m (2 * i)) (mm_byte m (2 * i + 1))"

definition sap_value :: "persistence \<Rightarrow> nat \<Rightarrow> u16" where
  "sap_value p i =
     (if i < in_memory_buffer_offset p \<or> labels p = None then extern_value (transitions_extern p) i
      else if i - in_memory_buffer_offset p < length (transitions p)
      then transitions p ! (i - in_memory_buffer_offset p) else 0)"

definition sap_invar :: "persistence \<Rightarrow> bool" where
  "sap_invar p \<longleftrightarrow>
     labels p \<noteq> None \<and> length (the (labels p)) = buffer_size p \<and> length (transitions p) = buffer_size p
   \<and> mm_invar (labels_extern p) \<and> mm_invar (transitions_extern p)
   \<and> tail (labels_extern p) = in_memory_buffer_offset p
   \<and> tail (transitions_extern p) = 2 * in_memory_buffer_offset p
   \<and> chunk_size (transitions_extern p) = 2 * chunk_size (labels_extern p)
   \<and> 16 \<le> chunk_size (labels_extern p) \<and> 16 \<le> flush_size p \<and> flush_size p \<le> buffer_size p"

text \<open>\<open>sap_clean\<close>: the mapped external memory beyond the flushed part is still zero.\<close>

definition sap_clean :: "persistence \<Rightarrow> bool" where
  "sap_clean p \<longleftrightarrow> (\<forall>i \<ge> in_memory_buffer_offset p. extern_value (transitions_extern p) i = 0)"

text \<open>Everything but the representation is kept.\<close>

definition same_array :: "persistence \<Rightarrow> persistence \<Rightarrow> bool" where
  "same_array p p' \<longleftrightarrow> sap_invar p' \<and> sap_label p' = sap_label p \<and> sap_value p' = sap_value p
     \<and> buffer_size p' = buffer_size p \<and> flush_size p' = flush_size p
     \<and> highest_state_begin p' = highest_state_begin p
     \<and> highest_raw_write_bucket p' = highest_raw_write_bucket p
     \<and> in_memory_buffer_offset p \<le> in_memory_buffer_offset p'
     \<and> (sap_clean p \<longrightarrow> sap_clean p')"

lemma same_array_refl [simp]: "sap_invar p \<Longrightarrow> same_array p p"
  by (simp add: same_array_def)

lemma same_array_trans: "same_array p q \<Longrightarrow> same_array q r \<Longrightarrow> same_array p r"
  by (simp add: same_array_def)

lemma length_concat_le_bytes [simp]: "length (concat (map le_bytes vs)) = 2 * length vs"
  by (induction vs) auto

lemma nth_concat_le_bytes:
  assumes "j < length vs"
  shows "concat (map le_bytes vs) ! (2 * j) = ucast (vs ! j)"
    "concat (map le_bytes vs) ! (2 * j + 1) = ucast (drop_bit 8 (vs ! j))"
  using assms
  by (induction vs arbitrary: j) (auto simp: le_bytes_def nth_Cons' nth_append less_Suc_eq_0_disj)

lemma extern_value_append:
  assumes "tail m = 2 * im" "mm_byte m' = overwrite (tail m) (concat (map le_bytes vs)) (mm_byte m)"
  shows "extern_value m' = overwrite im vs (extern_value m)"
proof
  fix i
  have "extern_value m' i = overwrite im vs (extern_value m) i" if "im \<le> i" "i < im + length vs"
  proof -
    have "2 * i - 2 * im = 2 * (i - im)" "Suc (2 * i) - 2 * im = Suc (2 * (i - im))" using that by simp_all
    moreover have "i - im < length vs" using that by simp
    ultimately show ?thesis using that assms nth_concat_le_bytes [of "i - im" vs]
      by (simp add: extern_value_def overwrite_def)
  qed
  moreover have "extern_value m' i = overwrite im vs (extern_value m) i" if "i < im"
    using that assms by (simp add: extern_value_def overwrite_def)
  moreover have "extern_value m' i = overwrite im vs (extern_value m) i" if "im + length vs \<le> i"
    using that assms by (simp add: extern_value_def overwrite_def)
  ultimately show "extern_value m' i = overwrite im vs (extern_value m) i" by linarith
qed

lemma FlushBuffers_same:
  assumes "sap_invar p"
  shows "\<exists>p'. FlushBuffers no_failure p = Inr p' \<and> same_array p p'
    \<and> in_memory_buffer_offset p' = in_memory_buffer_offset p + flush_size p"
proof -
  from assms obtain ls where ls: "labels p = Some ls" "length ls = buffer_size p"
    by (auto simp: sap_invar_def)
  let ?f = "flush_size p" and ?im = "in_memory_buffer_offset p"
  let ?le = "append_ok (take ?f ls) (labels_extern p)"
  let ?vs = "take ?f (transitions p)"
  let ?te = "append_ok (concat (map le_bytes ?vs)) (transitions_extern p)"
  have le: "mm_invar (labels_extern p)" "tail (labels_extern p) = ?im"
    and te: "mm_invar (transitions_extern p)" "tail (transitions_extern p) = 2 * ?im"
    and f: "?f \<le> buffer_size p" "length (transitions p) = buffer_size p"
    using assms by (simp_all add: sap_invar_def)
  define p' where "p' = p\<lparr>labels_extern := ?le, transitions_extern := ?te,
      labels := Some (drop ?f ls @ replicate ?f 0),
      transitions := drop ?f (transitions p) @ replicate ?f 0,
      in_memory_buffer_offset := ?im + ?f\<rparr>"
  have run: "FlushBuffers no_failure p = Inr p'"
    using ls by (simp add: FlushBuffers_def append_ok(1) [OF le(1)] append_ok(1) [OF te(1)] p'_def
        HostOrderToPersistenceOrder_def)
  have inv: "sap_invar p'"
    using assms ls f by (simp add: sap_invar_def p'_def append_ok [OF le(1)] append_ok [OF te(1)])
  have lab: "sap_label p' i = sap_label p i" for i
    using ls f le append_ok(5) [OF le(1)]
    by (auto simp: sap_label_def p'_def overwrite_def nth_append)
  have ext: "extern_value ?te = overwrite ?im ?vs (extern_value (transitions_extern p))"
    using te append_ok(5) [OF te(1)] by (intro extern_value_append) auto
  have val: "sap_value p' i = sap_value p i" for i
    using ls f ext by (auto simp: sap_value_def p'_def overwrite_def nth_append)
  have "sap_clean p \<longrightarrow> sap_clean p'"
    using ext f by (auto simp: sap_clean_def p'_def overwrite_def)
  then have "same_array p p'"
    using inv lab val by (simp add: same_array_def fun_eq_iff) (simp add: p'_def)
  with run show ?thesis by (auto simp: p'_def)
qed

lemma make_room_same:
  assumes "sap_invar p"
  shows "\<exists>p'. make_room no_failure offset p = Inr p' \<and> same_array p p'
    \<and> offset + 767 < buffer_size p' + in_memory_buffer_offset p'
    \<and> in_memory_buffer_offset p' \<le> max (in_memory_buffer_offset p) (offset + 767 + flush_size p - buffer_size p)"
  using assms
proof (induction "no_failure" offset p rule: make_room.induct)
  case (1 offset p)
  from FlushBuffers_same [OF "1.prems"] obtain q where q: "FlushBuffers no_failure p = Inr q" "same_array p q"
    "in_memory_buffer_offset q = in_memory_buffer_offset p + flush_size p" by blast
  show ?case
  proof (cases "offset + COMPACT_SIZE_WINDOW + NUMBER_OF_STATE_CODINGS \<ge> buffer_size p + in_memory_buffer_offset p")
    case True
    have f: "0 < flush_size p" using "1.prems" by (simp add: sap_invar_def)
    have q': "sap_invar q" "flush_size q = flush_size p" "buffer_size q = buffer_size p"
      using q(2) by (simp_all add: same_array_def)
    from "1.hyps" [OF _ q(1) q'(1)] True f obtain p' where
      p': "make_room no_failure offset q = Inr p'" "same_array q p'"
      "offset + 767 < buffer_size p' + in_memory_buffer_offset p'"
      "in_memory_buffer_offset p' \<le> max (in_memory_buffer_offset q) (offset + 767 + flush_size p - buffer_size p)"
      unfolding q'(2,3) by blast
    moreover have "in_memory_buffer_offset q \<le> offset + 767 + flush_size p - buffer_size p"
      using True q(3) by (simp add: format_constants)
    ultimately have "in_memory_buffer_offset p' \<le> max (in_memory_buffer_offset p) (offset + 767 + flush_size p - buffer_size p)"
      by linarith
    moreover have "make_room no_failure offset p = Inr p'"
      using True f q(1) p'(1) by (simp add: make_room.simps [of _ offset p])
    ultimately show ?thesis using same_array_trans [OF q(2) p'(2)] p'(3) by blast
  next
    case False
    with "1.prems" show ?thesis by (simp add: make_room.simps [of _ offset p] format_constants)
  qed
qed

lemma bookkeeping [simp]:
  "sap_label (p\<lparr>highest_state_begin := n\<rparr>) = sap_label p"
  "sap_value (p\<lparr>highest_state_begin := n\<rparr>) = sap_value p"
  "sap_invar (p\<lparr>highest_state_begin := n\<rparr>) = sap_invar p"
  "sap_clean (p\<lparr>highest_state_begin := n\<rparr>) = sap_clean p"
  "sap_label (p\<lparr>highest_raw_write_bucket := n\<rparr>) = sap_label p"
  "sap_value (p\<lparr>highest_raw_write_bucket := n\<rparr>) = sap_value p"
  "sap_invar (p\<lparr>highest_raw_write_bucket := n\<rparr>) = sap_invar p"
  by (simp_all add: sap_label_def sap_value_def sap_invar_def sap_clean_def fun_eq_iff split: option.splits)

text \<open>After \<open>BeginNewState\<close> every bucket a state at the offset can write is inside the buffers.\<close>

lemma BeginNewState_same:
  assumes "sap_invar p"
  shows "\<exists>p'. BeginNewState no_failure offset p = Inr p' \<and> sap_invar p'
    \<and> sap_label p' = sap_label p \<and> sap_value p' = sap_value p
    \<and> offset + 767 < buffer_size p' + in_memory_buffer_offset p'
    \<and> highest_state_begin p' = max (highest_state_begin p) offset
    \<and> highest_raw_write_bucket p' = highest_raw_write_bucket p
    \<and> buffer_size p' = buffer_size p \<and> flush_size p' = flush_size p
    \<and> in_memory_buffer_offset p \<le> in_memory_buffer_offset p'
    \<and> in_memory_buffer_offset p' \<le> max (in_memory_buffer_offset p) (offset + 767 + flush_size p - buffer_size p)
    \<and> (sap_clean p \<longrightarrow> sap_clean p')"
proof -
  from make_room_same [OF assms, of offset] obtain q where
    q: "make_room no_failure offset p = Inr q" "same_array p q"
    "offset + 767 < buffer_size q + in_memory_buffer_offset q"
    "in_memory_buffer_offset q \<le> max (in_memory_buffer_offset p) (offset + 767 + flush_size p - buffer_size p)" by blast
  then show ?thesis
    by (auto simp: BeginNewState_def same_array_def max_def)
qed

text \<open>A bucket of the external memory: its label byte and its two value bytes lie in one chunk.\<close>

lemma GetAddress_grow:
  "mm_invar m \<Longrightarrow> GetAddress no_failure offset m =
     Inr ((offset div chunk_size m, offset mod chunk_size m), grow (offset div chunk_size m) m)"
  by (simp add: GetAddress_def GetChunk_grow)

lemma write_at:
  assumes "mm_invar m" "offset mod chunk_size m + length bytes \<le> chunk_size m"
  shows "\<exists>m'. write_file (offset div chunk_size m) (offset mod chunk_size m) bytes (grow (offset div chunk_size m) m) = Inr m'
    \<and> mm_invar m' \<and> tail m' = tail m \<and> chunk_size m' = chunk_size m
    \<and> mm_byte m' = overwrite offset bytes (mm_byte m)"
  using write_file_bytes [OF mm_invar_grow [OF assms(1)], of "offset div chunk_size m" "offset div chunk_size m"
      "offset mod chunk_size m" bytes] assms by (auto simp: less_max_iff_disj)

lemma read_at:
  assumes "mm_invar m" "offset mod chunk_size m + len \<le> chunk_size m"
  shows "read_file (offset div chunk_size m) (offset mod chunk_size m) len (grow (offset div chunk_size m) m)
    = Inr (map (mm_byte m) [offset ..< offset + len])"
  using read_file_bytes [OF mm_invar_grow [OF assms(1)], of "offset div chunk_size m" "offset div chunk_size m"
      "offset mod chunk_size m" len] assms by (simp add: less_max_iff_disj)

lemma label_in_chunk: "mm_invar m \<Longrightarrow> offset mod chunk_size m + 1 \<le> chunk_size m"
  by (simp add: mm_invar_def Suc_leI)

lemma value_in_chunk:
  assumes "mm_invar m" "chunk_size m = 2 * c"
  shows "(offset * 2) mod chunk_size m + 2 \<le> chunk_size m"
proof -
  have "(offset * 2) mod chunk_size m = 2 * (offset mod c)" using assms(2) by (simp add: mult.commute)
  moreover have "offset mod c < c" using assms by (simp add: mm_invar_def)
  ultimately show ?thesis using assms(2) by simp
qed

lemma WriteTransition_writes:
  assumes "sap_invar p" "offset < in_memory_buffer_offset p + buffer_size p"
  shows "\<exists>p'. SAP_WriteTransition no_failure offset l v p = Inr p' \<and> sap_invar p'
    \<and> sap_label p' = (sap_label p)(offset := l) \<and> sap_value p' = (sap_value p)(offset := v)
    \<and> buffer_size p' = buffer_size p \<and> flush_size p' = flush_size p
    \<and> in_memory_buffer_offset p' = in_memory_buffer_offset p
    \<and> highest_state_begin p' = highest_state_begin p
    \<and> highest_raw_write_bucket p' = max (highest_raw_write_bucket p) offset
    \<and> (sap_clean p \<longrightarrow> sap_clean p')"
proof (cases "in_memory_buffer_offset p \<le> offset")
  case True
  from assms obtain ls where ls: "labels p = Some ls" "length ls = buffer_size p"
    "length (transitions p) = buffer_size p" by (auto simp: sap_invar_def)
  let ?i = "offset - in_memory_buffer_offset p"
  let ?p' = "p\<lparr>highest_raw_write_bucket := max (highest_raw_write_bucket p) offset,
    labels := Some (ls[?i := l]), transitions := (transitions p)[?i := v]\<rparr>"
  have "SAP_WriteTransition no_failure offset l v p = Inr ?p'"
    using True assms ls by (auto simp: SAP_WriteTransition_def Let_def)
  moreover have "sap_invar ?p'" using assms ls by (simp add: sap_invar_def)
  moreover have "sap_label ?p' j = ((sap_label p)(offset := l)) j" for j
    using True assms(2) ls by (auto simp: sap_label_def nth_list_update)
  moreover have "sap_value ?p' j = ((sap_value p)(offset := v)) j" for j
    using True assms(2) ls by (auto simp: sap_value_def nth_list_update)
  moreover have "sap_clean p \<longrightarrow> sap_clean ?p'" by (simp add: sap_clean_def)
  ultimately show ?thesis by (intro exI [of _ ?p']) (simp add: fun_eq_iff)
next
  case False
  have le: "mm_invar (labels_extern p)" and te: "mm_invar (transitions_extern p)"
    "chunk_size (transitions_extern p) = 2 * chunk_size (labels_extern p)"
    using assms by (simp_all add: sap_invar_def)
  from write_at [OF le, of offset "[l]"] label_in_chunk [OF le] obtain lm where
    lm: "write_file (offset div chunk_size (labels_extern p)) (offset mod chunk_size (labels_extern p)) [l]
        (grow (offset div chunk_size (labels_extern p)) (labels_extern p)) = Inr lm" "mm_invar lm"
      "tail lm = tail (labels_extern p)" "chunk_size lm = chunk_size (labels_extern p)"
      "mm_byte lm = overwrite offset [l] (mm_byte (labels_extern p))" by auto
  from write_at [OF te(1), of "offset * 2" "le_bytes v"] value_in_chunk [OF te] obtain tm where
    tm: "write_file (offset * 2 div chunk_size (transitions_extern p)) (offset * 2 mod chunk_size (transitions_extern p))
        (le_bytes v) (grow (offset * 2 div chunk_size (transitions_extern p)) (transitions_extern p)) = Inr tm"
      "mm_invar tm" "tail tm = tail (transitions_extern p)"
      "chunk_size tm = chunk_size (transitions_extern p)"
      "mm_byte tm = overwrite (offset * 2) (le_bytes v) (mm_byte (transitions_extern p))" by auto
  let ?p' = "p\<lparr>highest_raw_write_bucket := max (highest_raw_write_bucket p) offset,
    labels_extern := lm, transitions_extern := tm\<rparr>"
  have "SAP_WriteTransition no_failure offset l v p = Inr ?p'"
    using False lm(1) tm(1)
    by (simp add: SAP_WriteTransition_def Let_def GetAddress_grow [OF le] GetAddress_grow [OF te(1)])
  moreover have "sap_invar ?p'" using assms lm tm by (simp add: sap_invar_def)
  moreover have "sap_label ?p' j = ((sap_label p)(offset := l)) j" for j
    using False lm(5) by (auto simp: sap_label_def overwrite_def split: option.splits)
  moreover have ev: "extern_value tm j = ((extern_value (transitions_extern p))(offset := v)) j" for j
    by (cases "j = offset") (auto simp: tm(5) extern_value_def overwrite_def le_bytes_def nth_Cons')
  moreover have "sap_value ?p' j = ((sap_value p)(offset := v)) j" for j
    using False ev by (auto simp: sap_value_def)
  moreover have "sap_clean p \<longrightarrow> sap_clean ?p'" using False ev by (auto simp: sap_clean_def)
  ultimately show ?thesis by (intro exI [of _ ?p']) (simp add: fun_eq_iff)
qed

lemma sap_invar_extern:
  assumes "sap_invar p" "same_bytes (labels_extern p) le" "same_bytes (transitions_extern p) te"
  shows "same_array p (p\<lparr>labels_extern := le\<rparr>)" "same_array p (p\<lparr>transitions_extern := te\<rparr>)"
proof -
  have "extern_value te = extern_value (transitions_extern p)"
    using assms(3) by (simp add: same_bytes_def extern_value_def fun_eq_iff)
  then show "same_array p (p\<lparr>labels_extern := le\<rparr>)" "same_array p (p\<lparr>transitions_extern := te\<rparr>)"
    using assms by (auto simp: same_array_def sap_invar_def same_bytes_def sap_label_def sap_value_def
        sap_clean_def fun_eq_iff)
qed

lemma ReadTransitionLabel_reads:
  assumes "sap_invar p" "offset < in_memory_buffer_offset p + buffer_size p"
  shows "\<exists>p'. ReadTransitionLabel no_failure offset p = Inr (sap_label p offset, p') \<and> same_array p p'"
proof (cases "in_memory_buffer_offset p \<le> offset")
  case True
  with assms show ?thesis by (auto simp: ReadTransitionLabel_def sap_invar_def sap_label_def)
next
  case False
  have le: "mm_invar (labels_extern p)" and te: "mm_invar (transitions_extern p)" using assms by (simp_all add: sap_invar_def)
  have "same_array p (p\<lparr>labels_extern := grow (offset div chunk_size (labels_extern p)) (labels_extern p)\<rparr>)"
    by (intro sap_invar_extern(1) [OF assms(1) same_bytes_grow [OF le] same_bytes_grow [OF te]])
  with False show ?thesis
    using read_at [OF le label_in_chunk [OF le]]
    by (auto simp: ReadTransitionLabel_def GetAddress_grow [OF le] sap_label_def)
qed

lemma ReadTransitionValue_reads:
  assumes "sap_invar p" "offset < in_memory_buffer_offset p + buffer_size p"
  shows "\<exists>p'. ReadTransitionValue no_failure offset p = Inr (sap_value p offset, p') \<and> same_array p p'"
proof (cases "in_memory_buffer_offset p \<le> offset")
  case True
  with assms show ?thesis by (auto simp: ReadTransitionValue_def sap_invar_def sap_value_def)
next
  case False
  have le: "mm_invar (labels_extern p)" and te: "mm_invar (transitions_extern p)"
    "chunk_size (transitions_extern p) = 2 * chunk_size (labels_extern p)" using assms by (simp_all add: sap_invar_def)
  have "same_array p (p\<lparr>transitions_extern := grow (offset * 2 div chunk_size (transitions_extern p)) (transitions_extern p)\<rparr>)"
    by (intro sap_invar_extern(2) [OF assms(1) same_bytes_grow [OF le] same_bytes_grow [OF te(1)]])
  with False show ?thesis
    using read_at [OF te(1) value_in_chunk [OF te], of offset]
    by (auto simp: ReadTransitionValue_def GetAddress_grow [OF te(1)] sap_value_def extern_value_def
        upt_conv_Cons mult.commute)
qed

section \<open>Variable length shorts in the array\<close>

lemma last_varshort_group: "last (varshort_groups v) AND 0x8000 = 0"
proof (induction v rule: varshort_groups.induct)
  case (1 v)
  then show ?case
    by (cases "0x7FFF < v") (simp_all add: varshort_groups.simps [of v] and.assoc)
qed

lemma decode_within_groups:
  assumes "holds_at p 0 (varshort_groups v)" "length (varshort_groups v) \<le> n"
  shows "decode_within n p = Inr v"
proof -
  let ?k = "length (varshort_groups v) - 1"
  have k: "?k < length (varshort_groups v)" by simp
  then have "p ?k = last (varshort_groups v)"
    using assms(1) by (simp add: holds_at_def last_conv_nth)
  then have "p ?k AND 0x8000 = 0" by (simp add: last_varshort_group)
  moreover have "?k < n" using k assms(2) by linarith
  ultimately have "find (\<lambda>i. p i AND 0x8000 = 0) [0..<n] \<noteq> None" by (auto simp: find_None_iff)
  then show ?thesis
    using decodeVarShort_groups [OF assms(1)] by (auto simp: decode_within_def)
qed

text \<open>\<open>decodes xs v\<close>: wherever the buckets \<open>xs\<close> lie, decoding there gives \<open>v\<close>.\<close>

definition decodes :: "u16 list \<Rightarrow> u64 \<Rightarrow> bool" where
  "decodes xs v \<longleftrightarrow> (\<forall>p n. holds_at p 0 xs \<longrightarrow> length xs \<le> n \<longrightarrow> decode_within n p = Inr v)"

lemma decodes_groups: "decodes (varshort_groups v) v"
  by (simp add: decodes_def decode_within_groups)

lemma decodes_cut:
  assumes "x AND 0x8000 \<noteq> 0"
  shows "decodes [x, 0] (ucast (x AND 0x7FFF))"
  unfolding decodes_def
proof (intro allI impI)
  fix p :: "u16 ptr" and n
  assume p: "holds_at p 0 [x, 0]" and n: "length [x, 0] \<le> n"
  have "find (\<lambda>i. p i AND 0x8000 = 0) [0..<n] \<noteq> None"
    using p n by (auto simp: find_None_iff intro!: exI [of _ 1])
  moreover have "decodeVarShort p = Some (ucast (x AND 0x7FFF))"
    using p assms by (simp add: decodeVarShort_def decodeVarShort_loop.simps [of p] Let_def)
  ultimately show "decode_within n p = Inr (ucast (x AND 0x7FFF))" by (auto simp: decode_within_def)
qed

lemma decode_in_memory_groups:
  assumes "sap_invar p" "in_memory_buffer_offset p \<le> bucket"
    and "bucket + length (varshort_groups v) \<le> in_memory_buffer_offset p + buffer_size p"
    and "holds_at (sap_value p) bucket (varshort_groups v)"
  shows "decode_in_memory (bucket - in_memory_buffer_offset p) p = Inr v"
  unfolding decode_in_memory_def
proof (rule decode_within_groups)
  show "length (varshort_groups v) \<le> length (transitions p) - (bucket - in_memory_buffer_offset p)"
    using assms by (simp add: sap_invar_def)
  show "holds_at (\<lambda>j. transitions p ! (bucket - in_memory_buffer_offset p + j)) 0 (varshort_groups v)"
    unfolding holds_at_def
  proof (intro allI impI)
    fix k assume k: "k < length (varshort_groups v)"
    have "bucket + k - in_memory_buffer_offset p < length (transitions p)" "labels p \<noteq> None"
      using assms(1-3) k by (auto simp: sap_invar_def)
    then have "sap_value p (bucket + k) = transitions p ! (bucket - in_memory_buffer_offset p + k)"
      using assms(2) by (auto simp: sap_value_def)
    with assms(4) k show "transitions p ! (bucket - in_memory_buffer_offset p + (0 + k)) = varshort_groups v ! k"
      by (simp add: holds_at_def)
  qed
qed

lemma extern_value_chunk:
  assumes "mm_invar m" "c < number_of_chunks m" "k + 2 * j + 2 \<le> chunk_size m" "c * chunk_size m + k = 2 * bucket"
  shows "le_word (files m ! c ! (k + 2 * j)) (files m ! c ! (k + 2 * j + 1)) = extern_value m (bucket + j)"
proof -
  have cs: "0 < chunk_size m" using assms(1) by (simp add: mm_invar_def)
  have byte: "files m ! c ! i = mm_byte m (c * chunk_size m + i)" if "i < chunk_size m" for i
    using that assms(1,2) by (simp add: mm_byte_def mm_invar_def)
  have pos: "c * chunk_size m + (k + 2 * j) = 2 * (bucket + j)"
    "c * chunk_size m + (k + 2 * j + 1) = 2 * (bucket + j) + 1" using assms(4) by simp_all
  show ?thesis
    using byte [of "k + 2 * j", unfolded pos] byte [of "k + 2 * j + 1", unfolded pos] assms(3)
    by (simp add: extern_value_def)
qed

lemma le_words_map:
  "le_words (map f [2 * a ..< 2 * a + 2 * n]) = map (\<lambda>i. le_word (f (2 * i)) (f (2 * i + 1))) [a ..< a + n]"
proof (induction n arbitrary: a)
  case (Suc n)
  have "[2 * a ..< 2 * a + 2 * Suc n] = 2 * a # (2 * a + 1) # [2 * Suc a ..< 2 * Suc a + 2 * n]"
    by (simp add: upt_conv_Cons)
  moreover have "[a ..< a + Suc n] = a # [Suc a ..< Suc a + n]" by (simp add: upt_conv_Cons)
  ultimately show ?case using Suc.IH [of "Suc a"] by (simp del: upt_Suc)
qed simp

lemma even_room: "5 \<le> 2 * a - 2 * b \<Longrightarrow> 2 * b + 6 \<le> 2 * (a :: nat)"
  by arith

text \<open>
  An encoded value that lies in the external part is read back when it is no longer than the window
  of the quick test and the copy.
\<close>

lemma decode_external_groups:
  assumes p: "sap_invar p" and d: "decodes xs v" and g: "holds_at (extern_value (transitions_extern p)) bucket xs"
    and w: "length xs \<le> 3" "window = 5 \<or> window = 6"
    and n: "copy = 2 * n" "3 \<le> n" "n \<le> 10"
  shows "\<exists>p'. decode_external no_failure window copy bucket p = Inr (v, p') \<and> same_array p p'"
proof -
  let ?m = "transitions_extern p"
  let ?c = "bucket * 2 div chunk_size ?m" and ?k = "bucket * 2 mod chunk_size ?m"
  have le: "mm_invar (labels_extern p)" and te: "mm_invar ?m" "chunk_size ?m = 2 * chunk_size (labels_extern p)"
    "32 \<le> chunk_size ?m" using p by (simp_all add: sap_invar_def)
  note keep = sap_invar_extern(2) [OF p same_bytes_grow [OF le]]
  show ?thesis
  proof (cases "GetAddressQuickTestOk (bucket * 2) window ?m")
    case True
    let ?g = "grow ?c ?m"
    have "5 \<le> chunk_size ?m - ?k" using True w(2) by (auto simp: GetAddressQuickTestOk_def)
    moreover have "?k = 2 * (bucket mod chunk_size (labels_extern p))" using te(2) by (simp add: mult.commute)
    ultimately have room: "?k + 6 \<le> chunk_size ?m" using te(2) even_room by metis
    have g': "mm_invar ?g" "?c < number_of_chunks ?g" "chunk_size ?g = chunk_size ?m"
      using te by (simp_all add: less_max_iff_disj)
    then have f: "?c < length (files ?g)" "length (files ?g ! ?c) = chunk_size ?m" by (simp_all add: mm_invar_def)
    have ev: "extern_value ?g = extern_value ?m" using te by (simp add: extern_value_def fun_eq_iff)
    have "le_word (files ?g ! ?c ! (?k + 2 * j)) (files ?g ! ?c ! (?k + 2 * j + 1)) = extern_value ?m (bucket + j)"
      if "j < 3" for j
      unfolding ev [symmetric] using that room g'
      by (intro extern_value_chunk) (simp_all add: mult.commute)
    then have "holds_at (\<lambda>j. le_word (files ?g ! ?c ! (?k + 2 * j)) (files ?g ! ?c ! (?k + 2 * j + 1))) 0 xs"
      using g w(1) by (simp add: holds_at_def)
    then have "decode_in_chunk ?c ?k ?g = Inr v"
      unfolding decode_in_chunk_def using f room w(1) d by (auto simp: decodes_def)
    with True show ?thesis
      using keep [OF same_bytes_grow [OF te(1)]] by (auto simp: decode_external_def GetAddress_grow [OF te(1)])
  next
    case False
    from GetBuffer_bytes [OF te(1), of copy "bucket * 2"] n te(3) obtain m' where
      m': "GetBuffer no_failure (bucket * 2) copy ?m = Inr (map (mm_byte ?m) [bucket * 2 ..< bucket * 2 + copy], m')"
        "same_bytes ?m m'" by auto
    have words: "le_words (map (mm_byte ?m) [bucket * 2 ..< bucket * 2 + copy]) =
        map (extern_value ?m) [bucket ..< bucket + n]"
      using le_words_map [of "mm_byte ?m" bucket n] n(1) by (simp add: extern_value_def [abs_def] mult.commute)
    have "decode_in_buffer (map (mm_byte ?m) [bucket * 2 ..< bucket * 2 + copy]) = Inr v"
      unfolding decode_in_buffer_def words using g w(1) n(2) d
      by (simp add: decodes_def holds_at_def)
    with False m' keep show ?thesis by (auto simp: decode_external_def)
  qed
qed

lemma ReadFinalValue_reads:
  assumes "sap_invar p" "holds_at (sap_value p) (offset + 256) (varshort_groups v)"
    and "length (varshort_groups v) \<le> 3"
    and "offset + 256 + length (varshort_groups v) \<le> in_memory_buffer_offset p + buffer_size p"
    and "offset + 256 < in_memory_buffer_offset p \<Longrightarrow>
           offset + 256 + length (varshort_groups v) \<le> in_memory_buffer_offset p"
  shows "\<exists>p'. ReadFinalValue no_failure offset p = Inr (v, p') \<and> same_array p p'"
proof (cases "offset + 256 < in_memory_buffer_offset p")
  case True
  then have "holds_at (extern_value (transitions_extern p)) (offset + 256) (varshort_groups v)"
    using assms(2,5) by (auto simp: holds_at_def sap_value_def)
  from decode_external_groups [OF assms(1) decodes_groups this assms(3), of 5 20 10] True show ?thesis
    by (auto simp: ReadFinalValue_def format_constants)
next
  case False
  with decode_in_memory_groups [OF assms(1) _ assms(4) assms(2)] assms(1) show ?thesis
    by (auto simp: ReadFinalValue_def format_constants)
qed

section \<open>Writing the array out\<close>

lemma Flush_Write_out:
  assumes "sap_invar p" and "in_memory_buffer_offset p \<le> SAP_GetSize p"
    and "SAP_GetSize p \<le> in_memory_buffer_offset p + buffer_size p"
  shows "\<exists>p'. SAP_Flush no_failure p = Inr p' \<and> SAP_Flush no_failure p' = Inr p'
    \<and> SAP_Write p' = Inr (map (sap_label p) [0 ..< SAP_GetSize p] @
                      concat (map (\<lambda>i. le_bytes (sap_value p i)) [0 ..< SAP_GetSize p]))"
proof -
  let ?im = "in_memory_buffer_offset p" and ?n = "SAP_GetSize p - in_memory_buffer_offset p"
  from assms(1) obtain ls where ls: "labels p = Some ls" "length ls = buffer_size p"
    "length (transitions p) = buffer_size p" by (auto simp: sap_invar_def)
  have le: "mm_invar (labels_extern p)" "tail (labels_extern p) = ?im"
    and te: "mm_invar (transitions_extern p)" "tail (transitions_extern p) = 2 * ?im"
    using assms(1) by (simp_all add: sap_invar_def)
  let ?vs = "take ?n (transitions p)"
  let ?le = "append_ok (take ?n ls) (labels_extern p)"
  let ?te = "append_ok (concat (map le_bytes ?vs)) (transitions_extern p)"
  let ?p' = "p\<lparr>labels_extern := ?le, transitions_extern := ?te, labels := None, transitions := []\<rparr>"
  have n: "?n \<le> buffer_size p" using assms(3) by simp
  have run: "SAP_Flush no_failure p = Inr ?p'"
    using ls assms(2) n unfolding SAP_Flush_def Let_def SAP_GetSize_def [symmetric]
    by (simp add: append_ok(1) [OF le(1)] append_ok(1) [OF te(1)] HostOrderToPersistenceOrder_def)
  have tails: "tail ?le = SAP_GetSize p" "tail ?te = 2 * SAP_GetSize p"
    using append_ok(4) [OF le(1)] append_ok(4) [OF te(1)] le te ls n assms(2) by simp_all
  have in_chunks: "tail m \<le> number_of_chunks m * chunk_size m" if "mm_invar m" for m
    using that unfolding mm_invar_def by blast
  have wl: "mm_Write (SAP_GetSize p) ?le = Inr (map (mm_byte ?le) [0 ..< SAP_GetSize p])"
    using Write_bytes [OF append_ok(2) [OF le(1)]] in_chunks [OF append_ok(2) [OF le(1)]] tails(1) by metis
  have wt: "mm_Write (2 * SAP_GetSize p) ?te = Inr (map (mm_byte ?te) [0 ..< 2 * SAP_GetSize p])"
    using Write_bytes [OF append_ok(2) [OF te(1)]] in_chunks [OF append_ok(2) [OF te(1)]] tails(2) by metis
  have lab: "mm_byte ?le i = sap_label p i" if "i < SAP_GetSize p" for i
    using that append_ok(5) [OF le(1)] le ls n assms(2) by (auto simp: sap_label_def overwrite_def)
  have "extern_value ?te = overwrite ?im ?vs (extern_value (transitions_extern p))"
    using te append_ok(5) [OF te(1)] by (intro extern_value_append) auto
  then have val: "extern_value ?te i = sap_value p i" if "i < SAP_GetSize p" for i
    using that ls n assms(2) by (auto simp: sap_value_def overwrite_def)
  have bytes: "map (mm_byte m) [0 ..< 2 * n] = concat (map (\<lambda>i. le_bytes (extern_value m i)) [0 ..< n])" for m n
    by (induction n) (simp_all add: le_bytes_def extern_value_def ucast_le_word)
  have "SAP_Write ?p' = Inr (map (sap_label p) [0 ..< SAP_GetSize p] @
      concat (map (\<lambda>i. le_bytes (sap_value p i)) [0 ..< SAP_GetSize p]))"
  proof -
    have "SAP_GetSize ?p' = SAP_GetSize p" by (simp add: SAP_GetSize_def)
    moreover have "map (mm_byte ?le) [0 ..< SAP_GetSize p] = map (sap_label p) [0 ..< SAP_GetSize p]"
      using lab by simp
    moreover have "map (mm_byte ?te) [0 ..< 2 * SAP_GetSize p] =
        concat (map (\<lambda>i. le_bytes (sap_value p i)) [0 ..< SAP_GetSize p])"
      unfolding bytes using val by (intro arg_cong [where f = concat]) simp
    ultimately show ?thesis using wl wt by (simp add: SAP_Write_def Let_def mult.commute [of _ 2])
  qed
  moreover have "SAP_Flush no_failure ?p' = Inr ?p'" by (simp add: SAP_Flush_def)
  ultimately show ?thesis using run by blast
qed

section \<open>Histories of the array\<close>

text \<open>
  The persistences the builder can reach, with the two functions they stand for.  The limits on the
  memory are those of a usable configuration: at least 4000 bytes, so that the buffers hold a state
  with its window, and less than 5.368 GB, beyond which the chunk size of the external memory is 0.
\<close>

inductive sap_run :: "persistence \<Rightarrow> (nat \<Rightarrow> u8) \<Rightarrow> (nat \<Rightarrow> u16) \<Rightarrow> bool" where
  initial: "4000 \<le> memory_limit \<Longrightarrow> memory_limit \<le> 5368000000 \<Longrightarrow>
    sap_run (SparseArrayPersistence memory_limit) (\<lambda>i. if i < 2 then 42 else 0) (\<lambda>i. 0)"
| begin_state: "sap_run p L V \<Longrightarrow> BeginNewState no_failure offset p = Inr p' \<Longrightarrow> sap_run p' L V"
| write_bucket: "sap_run p L V \<Longrightarrow> SAP_WriteTransition no_failure offset l v p = Inr p' \<Longrightarrow>
    sap_run p' (L(offset := l)) (V(offset := v))"

definition sap_sized :: "persistence \<Rightarrow> bool" where
  "sap_sized p \<longleftrightarrow> flush_size p + 506 \<le> buffer_size p
     \<and> in_memory_buffer_offset p \<le> highest_state_begin p + 261
     \<and> highest_state_begin p + 767 < in_memory_buffer_offset p + buffer_size p
     \<and> highest_raw_write_bucket p < in_memory_buffer_offset p + buffer_size p"

lemma align16_bounds: "n < align16 n" "align16 n \<le> n + 16" "align16 n mod 16 = 0"
  unfolding align16_def by presburger+

lemma external_chunk_size_ge: "0 < f \<Longrightarrow> f \<le> 1073741824 \<Longrightarrow> f \<le> external_chunk_size f"
proof -
  assume f: "0 < f" "f \<le> 1073741824"
  let ?c = "min (f * 2) 1073741824"
  have "1 \<le> ?c div f" using f by (simp add: div_greater_zero_iff Suc_leI)
  then have "1 * f \<le> ?c div f * f" by (rule mult_le_mono1)
  moreover have "?c - ?c mod f = ?c div f * f" by (simp add: minus_mod_eq_div_mult)
  ultimately show ?thesis by (simp add: external_chunk_size_def Let_def)
qed

lemma sap_initial:
  assumes "4000 \<le> memory_limit" "memory_limit \<le> 5368000000"
  defines "p \<equiv> SparseArrayPersistence memory_limit"
  shows "sap_invar p" "sap_sized p" "sap_label p = (\<lambda>i. if i < 2 then 42 else 0)" "sap_value p = (\<lambda>i. 0)"
    "sap_clean p"
proof -
  define b where "b = align16 (memory_limit div 3)"
  define f where "f = align16 (b * 3 div 5)"
  have b: "memory_limit div 3 < b" "b \<le> memory_limit div 3 + 16"
    and f0: "b * 3 div 5 < f" "f \<le> b * 3 div 5 + 16"
    using align16_bounds by (simp_all add: b_def f_def)
  have f: "f + 506 \<le> b" "f \<le> 1073741824" "16 \<le> f" "1305 \<le> b" using b f0 assms(1,2) by linarith+
  have c: "16 \<le> external_chunk_size f" using external_chunk_size_ge [of f] f by linarith
  have p: "p = \<lparr>labels = Some ((replicate b 0)[0 := 42, 1 := 42]),
      labels_extern = MemoryMapManager (external_chunk_size f), transitions = replicate b 0,
      transitions_extern = MemoryMapManager (external_chunk_size f * 2),
      in_memory_buffer_offset = 0, buffer_size = b, flush_size = f,
      highest_state_begin = 0, highest_raw_write_bucket = 0\<rparr>"
    by (simp add: p_def SparseArrayPersistence_def Let_def b_def f_def)
  show "sap_invar p" using f c by (simp add: p sap_invar_def) (simp add: MemoryMapManager_def)
  show "sap_sized p" using f by (simp add: p sap_sized_def)
  show "sap_label p = (\<lambda>i. if i < 2 then 42 else 0)"
    using f by (auto simp: p sap_label_def nth_list_update fun_eq_iff)
  show "sap_value p = (\<lambda>i. 0)" by (simp add: p sap_value_def fun_eq_iff)
  show "sap_clean p"
    by (simp add: p sap_clean_def MemoryMapManager_def extern_value_def mm_byte_def le_word_def)
qed

lemma WriteTransition_bound:
  "SAP_WriteTransition no_failure offset l v p = Inr p' \<Longrightarrow> sap_invar p \<Longrightarrow>
     offset < in_memory_buffer_offset p + buffer_size p"
  by (auto simp: SAP_WriteTransition_def Let_def sap_invar_def split: if_splits option.splits)

lemma sap_run_invar:
  assumes "sap_run p L V"
  shows "sap_invar p \<and> sap_sized p \<and> sap_clean p \<and> sap_label p = L \<and> sap_value p = V"
  using assms
proof induction
  case (initial memory_limit)
  with sap_initial show ?case by blast
next
  case (begin_state p L V offset p')
  then have p: "sap_invar p" "sap_sized p" "sap_clean p" "sap_label p = L" "sap_value p = V" by blast+
  from BeginNewState_same [OF p(1), of offset] begin_state.hyps(2) show ?case
    using p by (auto simp: sap_sized_def)
next
  case (write_bucket p L V offset l v p')
  then have p: "sap_invar p" "sap_sized p" "sap_clean p" "sap_label p = L" "sap_value p = V" by blast+
  from WriteTransition_writes [OF p(1) WriteTransition_bound [OF write_bucket.hyps(2) p(1)], of l v]
    WriteTransition_bound [OF write_bucket.hyps(2) p(1)] write_bucket.hyps(2) show ?case
    using p by (auto simp: sap_sized_def)
qed

section \<open>Properties\<close>

text \<open>
  C11: the persistence is one array.  Whatever was flushed to external memory in between, reading a
  bucket returns the label and the value written there last.
\<close>

theorem sparse_array_reads_back:
  assumes "sap_run p L V" "offset < in_memory_buffer_offset p + buffer_size p"
  shows "\<exists>p1 p2. ReadTransitionLabel no_failure offset p = Inr (L offset, p1)
      \<and> ReadTransitionValue no_failure offset p = Inr (V offset, p2)"
proof -
  from sap_run_invar [OF assms(1)] have p: "sap_invar p" "sap_label p = L" "sap_value p = V" by blast+
  from ReadTransitionLabel_reads [OF p(1) assms(2)] ReadTransitionValue_reads [OF p(1) assms(2)] show ?thesis
    unfolding p(2,3) by blast
qed

definition example_array :: persistence where
  "example_array = projr (SAP_WriteTransition no_failure 300 7 9 (SparseArrayPersistence 4000))"

lemma example_array:
  "sap_run example_array ((\<lambda>i. if i < 2 then 42 else 0)(300 := 7)) ((\<lambda>i. 0)(300 := 9))"
  "300 < in_memory_buffer_offset example_array + buffer_size example_array"
  "SAP_GetSize example_array = 301"
  "in_memory_buffer_offset example_array = 0"
proof -
  let ?p = "SparseArrayPersistence 4000"
  have p: "sap_run ?p (\<lambda>i. if i < 2 then 42 else 0) (\<lambda>i. 0)" by (rule sap_run.initial) simp_all
  have inv: "sap_invar ?p" "sap_sized ?p" using sap_initial [of 4000] by simp_all
  then have bound: "300 < in_memory_buffer_offset ?p + buffer_size ?p" by (auto simp: sap_sized_def)
  from WriteTransition_writes [OF inv(1) bound, of 7 9] have
    w: "SAP_WriteTransition no_failure 300 7 9 ?p = Inr example_array"
      "in_memory_buffer_offset example_array = in_memory_buffer_offset ?p"
      "buffer_size example_array = buffer_size ?p"
      "highest_state_begin example_array = highest_state_begin ?p"
      "highest_raw_write_bucket example_array = max (highest_raw_write_bucket ?p) 300"
    by (auto simp: example_array_def)
  show "sap_run example_array ((\<lambda>i. if i < 2 then 42 else 0)(300 := 7)) ((\<lambda>i. 0)(300 := 9))"
    by (rule sap_run.write_bucket [OF p w(1)])
  show "300 < in_memory_buffer_offset example_array + buffer_size example_array"
    using bound w by simp
  show "in_memory_buffer_offset example_array = 0"
    using w by (simp add: SparseArrayPersistence_def Let_def)
  show "SAP_GetSize example_array = 301"
    using w by (simp add: SAP_GetSize_def SparseArrayPersistence_def Let_def format_constants)
qed

theorem sparse_array_reads_back_witness:
  "\<exists>p1 p2. ReadTransitionLabel no_failure 300 example_array = Inr (7, p1)
      \<and> ReadTransitionValue no_failure 300 example_array = Inr (9, p2)"
  using sparse_array_reads_back [OF example_array(1,2)] by simp

text \<open>
  \<open>Flush\<close> followed by \<open>Write\<close> puts the whole array on the stream, the labels first and then the values
  in little-endian order, and flushing twice is the same as flushing once.
\<close>

theorem sparse_array_written_out:
  assumes "sap_run p L V"
  shows "\<exists>p'. SAP_Flush no_failure p = Inr p' \<and> SAP_Flush no_failure p' = Inr p'
    \<and> SAP_Write p' = Inr (map L [0 ..< SAP_GetSize p] @ concat (map (\<lambda>i. le_bytes (V i)) [0 ..< SAP_GetSize p]))"
proof -
  from sap_run_invar [OF assms] have p: "sap_invar p" "sap_sized p" "sap_label p = L" "sap_value p = V" by blast+
  from p(2) have "in_memory_buffer_offset p \<le> SAP_GetSize p"
    "SAP_GetSize p \<le> in_memory_buffer_offset p + buffer_size p"
    by (auto simp: sap_sized_def SAP_GetSize_def format_constants)
  from Flush_Write_out [OF p(1) this] p(3,4) show ?thesis by blast
qed

theorem sparse_array_written_out_witness:
  "\<exists>p' bytes. SAP_Flush no_failure example_array = Inr p' \<and> SAP_Write p' = Inr bytes \<and> length bytes = 903"
proof -
  from sparse_array_written_out [OF example_array(1)] obtain p' where
    "SAP_Flush no_failure example_array = Inr p'"
    "SAP_Write p' = Inr (map ((\<lambda>i. if i < 2 then 42 else 0)(300 := 7)) [0 ..< 301] @
       concat (map (\<lambda>i. le_bytes (((\<lambda>i. 0)(300 := 9)) i)) [0 ..< 301]))"
    unfolding example_array(3) by blast
  moreover have "length (concat (map (\<lambda>i. le_bytes (f i)) [0 ..< 301])) = 602" for f
    using length_concat_le_bytes [of "map f [0 ..< 301]"] by (simp add: comp_def)
  ultimately show ?thesis by auto
qed

text \<open>
  A final value is read back wherever it was written, as long as it takes at most three buckets (values
  below \<open>2 ^ 45\<close>) and lies on one side of the flush position.
\<close>

theorem final_value_reads_back:
  assumes "sap_run p L V" "holds_at V (offset + 256) (varshort_groups v)" "length (varshort_groups v) \<le> 3"
    and "offset + 256 + length (varshort_groups v) \<le> in_memory_buffer_offset p
       \<or> in_memory_buffer_offset p \<le> offset + 256
         \<and> offset + 256 + length (varshort_groups v) \<le> in_memory_buffer_offset p + buffer_size p"
  shows "\<exists>p'. ReadFinalValue no_failure offset p = Inr (v, p')"
proof -
  from sap_run_invar [OF assms(1)] have p: "sap_invar p" "sap_value p = V" by blast+
  from ReadFinalValue_reads [OF p(1), of offset v] assms(2-4) p(2) show ?thesis by auto
qed

theorem final_value_reads_back_witness:
  "\<exists>p'. ReadFinalValue no_failure 44 example_array = Inr (9, p')"
proof -
  have g: "varshort_groups 9 = [9]" by (simp add: varshort_groups.simps)
  show ?thesis
    by (rule final_value_reads_back [OF example_array(1)]) (use example_array(2,4) in \<open>simp_all add: g\<close>)
qed

text \<open>
  A value that is cut by the flush position is misread.  When the first bucket of a final value is the
  last flushed one and the value continues in the in-memory buffer, the continuation is read from the
  external memory, where it is not yet written: only the low 15 bits come back.
\<close>

theorem final_value_cut_at_flush_position:
  assumes "sap_run p L V" "offset + 257 = in_memory_buffer_offset p" "V (offset + 256) AND 0x8000 \<noteq> 0"
  shows "\<exists>p'. ReadFinalValue no_failure offset p = Inr (ucast (V (offset + 256) AND 0x7FFF), p')"
proof -
  from sap_run_invar [OF assms(1)] have p: "sap_invar p" "sap_clean p" "sap_value p = V" by blast+
  have "extern_value (transitions_extern p) (offset + 256) = V (offset + 256)"
    unfolding p(3) [symmetric] using assms(2) by (simp add: sap_value_def)
  moreover have "extern_value (transitions_extern p) (offset + 257) = 0"
    using p(2) assms(2) by (simp add: sap_clean_def)
  ultimately have "holds_at (extern_value (transitions_extern p)) (offset + 256) [V (offset + 256), 0]"
    by (simp add: add.commute)
  from decode_external_groups [OF p(1) decodes_cut [OF assms(3)] this, of 5 20 10] assms(2) show ?thesis
    by (auto simp: ReadFinalValue_def format_constants)
qed

lemma straddling_array:
  "\<exists>p L V. sap_run p L V \<and> in_memory_buffer_offset p = 816 \<and> V 815 = 0x8001 \<and> V 816 = 1"
proof -
  let ?p0 = "SparseArrayPersistence 4000"
  have run0: "sap_run ?p0 (\<lambda>i. if i < 2 then 42 else 0) (\<lambda>i. 0)" by (rule sap_run.initial) simp_all
  have inv0: "sap_invar ?p0" using sap_initial [of 4000] by simp
  have sizes: "buffer_size ?p0 = 1344" "flush_size ?p0 = 816" "in_memory_buffer_offset ?p0 = 0"
    by (simp_all add: SparseArrayPersistence_def Let_def align16_def)
  from WriteTransition_writes [OF inv0, where offset = 815 and l = 1 and v = "0x8001"] sizes obtain p1 where
    p1: "SAP_WriteTransition no_failure 815 1 0x8001 ?p0 = Inr p1" "sap_invar p1" "buffer_size p1 = 1344"
      "flush_size p1 = 816" "in_memory_buffer_offset p1 = 0" by auto
  from WriteTransition_writes [OF p1(2), where offset = 816 and l = 2 and v = 1] p1 obtain p2 where
    p2: "SAP_WriteTransition no_failure 816 2 1 p1 = Inr p2" "sap_invar p2" "buffer_size p2 = 1344"
      "flush_size p2 = 816" "in_memory_buffer_offset p2 = 0" by auto
  from FlushBuffers_same [OF p2(2)] p2 obtain q where q: "FlushBuffers no_failure p2 = Inr q"
    "same_array p2 q" "in_memory_buffer_offset q = 816" by auto
  then have "make_room no_failure 600 p2 = Inr q"
    using p2 by (simp add: make_room.simps [of _ 600] format_constants same_array_def)
  then obtain p3 where p3: "BeginNewState no_failure 600 p2 = Inr p3" "in_memory_buffer_offset p3 = 816"
    using q(3) by (simp add: BeginNewState_def)
  have "sap_run p3 (((\<lambda>i. if i < 2 then 42 else 0)(815 := 1))(816 := 2)) (((\<lambda>i. 0)(815 := 0x8001))(816 := 1))"
    by (rule sap_run.begin_state [OF sap_run.write_bucket [OF sap_run.write_bucket [OF run0 p1(1)] p2(1)] p3(1)])
  with p3(2) show ?thesis by fastforce
qed

theorem final_value_cut_at_flush_position_witness:
  "\<exists>p L V p'. sap_run p L V \<and> V 815 = 0x8001 \<and> V 816 = 1 \<and> ReadFinalValue no_failure 559 p = Inr (1, p')"
proof -
  from straddling_array obtain p L V where
    p: "sap_run p L V" "in_memory_buffer_offset p = 816" "V 815 = 0x8001" "V 816 = 1" by blast
  from final_value_cut_at_flush_position [OF p(1), of 559] p show ?thesis by auto
qed

text \<open>
  With a memory limit of 6 GB the chunk size of the external memory is 0 (\<open>GetAddress\<close> and \<open>Append\<close>
  then divide by it): the rounding down to a multiple of the flush size leaves nothing once the flush
  size exceeds the 1 GB cap.
\<close>

theorem chunk_size_defect:
  "chunk_size (labels_extern (SparseArrayPersistence 6442450944)) = 0"
  by (simp add: SparseArrayPersistence_def Let_def align16_def MemoryMapManager_def external_chunk_size_def)

end
