(* ===== verification/Automata.thy ===== *)
theory Automata
  imports Sparse_Array
begin

text \<open>
  The automaton as it is read (\<open>keyvi/dictionary/fsa/automata.h\<close>).  The two mapped regions are functions
  from 64-bit indexes, and index arithmetic wraps like the source's \<open>uint64_t\<close>.  The number of keys and
  the start state come from the dictionary properties.  The portable version of
  \<open>GetOutGoingTransitions\<close> is modelled, which compares eight labels at a time; the host is little endian.
\<close>

section \<open>The operations\<close>

record automata =
  a_labels :: "u64 \<Rightarrow> u8"
  transitions_compact :: "u64 \<Rightarrow> u16"
  properties_start_state :: u64
  number_of_keys :: u64

definition GetStartState :: "automata \<Rightarrow> u64" where
  "GetStartState A = (if number_of_keys A \<noteq> 0 then properties_start_state A else 0)"

definition GetNumberOfKeys :: "automata \<Rightarrow> u64" where
  "GetNumberOfKeys A = number_of_keys A"

definition Empty :: "automata \<Rightarrow> bool" where
  "Empty A \<longleftrightarrow> 0 = GetNumberOfKeys A"

text \<open>\<open>transitions_compact_ + bucket\<close> as a pointer.\<close>

definition transition_ptr :: "automata \<Rightarrow> u64 \<Rightarrow> u16 ptr" where
  "transition_ptr A bucket = (\<lambda>i. transitions_compact A (bucket + of_nat i))"

text \<open>
  A variable length short of more than five buckets shifts by more than the width of its type, which is
  undefined; its value is left unspecified.
\<close>

definition ResolvePointer :: "automata \<Rightarrow> u64 \<Rightarrow> u8 \<Rightarrow> u64" where
  "ResolvePointer A starting_state c =
     (let pt = transitions_compact A (starting_state + ucast c)
      in if pt AND 0xC000 = 0xC000 then ucast (pt AND 0x3FFF)
         else if pt AND 0x8000 \<noteq> 0
         then (let pt = pt AND 0x7FFF;
                   overflow_bucket = ucast (drop_bit 4 pt) + starting_state + ucast c - 512;
                   resolved_ptr = the (decodeVarShort (transition_ptr A overflow_bucket));
                   resolved_ptr = push_bit 3 resolved_ptr + ucast (pt AND 0x7)
               in if pt AND 0x8 \<noteq> 0 then (starting_state + ucast c) - resolved_ptr + 512
                  else resolved_ptr)
         else (starting_state + ucast c) - ucast pt + 512)"

definition TryWalkTransition :: "automata \<Rightarrow> u64 \<Rightarrow> u8 \<Rightarrow> u64" where
  "TryWalkTransition A starting_state c =
     (if a_labels A (starting_state + ucast c) = c then ResolvePointer A starting_state c else 0)"

definition IsFinalState :: "automata \<Rightarrow> u64 \<Rightarrow> bool" where
  "IsFinalState A state_to_check \<longleftrightarrow> a_labels A (state_to_check + 256) = 1"

definition GetStateValue :: "automata \<Rightarrow> u64 \<Rightarrow> u64" where
  "GetStateValue A state = the (decodeVarShort (transition_ptr A (state + 256)))"

definition GetInnerWeight :: "automata \<Rightarrow> u64 \<Rightarrow> u32" where
  "GetInnerWeight A state =
     (if a_labels A (state + 260) \<noteq> 0 then 0 else ucast (transitions_compact A (state + 260)))"

text \<open>Eight bytes read as a 64-bit integer, and the table \<open>0x00, 0x01, ..., 0xff\<close>.\<close>

definition load64 :: "(nat \<Rightarrow> u8) \<Rightarrow> u64" where
  "load64 p = foldr (\<lambda>k acc. ucast (p k) OR push_bit 8 acc) [0..<8] 0"

definition OUTGOING_TRANSITIONS_MASK :: "nat \<Rightarrow> u8" where
  "OUTGOING_TRANSITIONS_MASK i = of_nat i"

text \<open>
  The loop over the 32 groups of eight labels.  \<open>add\<close> is the traversal state's \<open>Add\<close> together with what
  each instance computes before it; it is called for every label that is found, in order.
\<close>

definition match_group :: "automata \<Rightarrow> u64 \<Rightarrow> nat \<Rightarrow> (u8 \<Rightarrow> 't \<Rightarrow> 't) \<Rightarrow> 't \<Rightarrow> 't" where
  "match_group A starting_state offset add st =
     (let symbol = of_nat (8 * offset);
          xor_labels_with_mask = load64 (\<lambda>k. a_labels A (starting_state + of_nat (8 * offset + k)))
                                   XOR load64 (\<lambda>k. OUTGOING_TRANSITIONS_MASK (8 * offset + k))
      in fold (\<lambda>k st. if xor_labels_with_mask AND push_bit (8 * k) 0xFF = 0
                       then add (symbol + of_nat k) st else st) [0..<8] st)"

definition match_labels :: "automata \<Rightarrow> u64 \<Rightarrow> (u8 \<Rightarrow> 't \<Rightarrow> 't) \<Rightarrow> 't \<Rightarrow> 't" where
  "match_labels A starting_state add st =
     fold (\<lambda>offset. match_group A starting_state offset add) [0..<32] st"

section \<open>Eight labels at a time\<close>

lemma bit_load_bytes:
  fixes p :: "nat \<Rightarrow> u8"
  assumes "m \<le> 8"
  shows "bit (foldr (\<lambda>k acc. ucast (p k) OR push_bit 8 acc) [a ..< a + m] (0 :: u64)) n \<longleftrightarrow>
    n < 8 * m \<and> bit (p (a + n div 8)) (n mod 8)"
  using assms
proof (induction m arbitrary: a n)
  case (Suc m)
  let ?rest = "foldr (\<lambda>k acc. ucast (p k) OR push_bit 8 acc) [Suc a ..< Suc a + m] (0 :: u64)"
  have unfold: "foldr (\<lambda>k acc. ucast (p k) OR push_bit 8 acc) [a ..< a + Suc m] 0 = ucast (p a) OR push_bit 8 ?rest"
    by (simp add: upt_conv_Cons del: upt_Suc)
  show ?case
  proof (cases "n < 8")
    case True
    then show ?thesis unfolding unfold by (simp add: bit_simps)
  next
    case False
    then have "n div 8 = Suc ((n - 8) div 8)" "n mod 8 = (n - 8) mod 8"
      by (simp_all add: le_div_geq le_mod_geq)
    moreover have "\<not> bit (p a) n" using False bit_imp_le_length [of "p a" n] by auto
    moreover have "bit (push_bit 8 ?rest) n \<longleftrightarrow> bit ?rest (n - 8) \<and> n < 64" using False by (auto simp: bit_simps)
    ultimately show ?thesis unfolding unfold
      using False Suc.IH [of "Suc a" "n - 8"] Suc.prems
      by (auto simp: bit_or_iff bit_ucast_iff simp del: upt_Suc)
  qed
qed simp

lemma bit_load64: "bit (load64 p) n \<longleftrightarrow> n < 64 \<and> bit (p (n div 8)) (n mod 8)"
  using bit_load_bytes [of 8 p 0 n] by (simp add: load64_def)

lemma byte_equal_iff:
  assumes "k < 8"
  shows "(load64 p XOR load64 q) AND push_bit (8 * k) 0xFF = 0 \<longleftrightarrow> p k = q k"
proof -
  have mask: "bit (push_bit (8 * k) 0xFF :: u64) n \<longleftrightarrow> n < 64 \<and> n div 8 = k" for n
  proof -
    have m: "(0xFF :: u64) = mask 8" by (simp add: mask_eq_exp_minus_1)
    have "bit (push_bit (8 * k) 0xFF :: u64) n \<longleftrightarrow> 8 * k \<le> n \<and> n < 64 \<and> n - 8 * k < 8"
      unfolding m by (auto simp: bit_simps)
    also have "\<dots> \<longleftrightarrow> n < 64 \<and> n div 8 = k" by auto
    finally show ?thesis .
  qed
  have "(load64 p XOR load64 q) AND push_bit (8 * k) 0xFF = 0 \<longleftrightarrow>
      (\<forall>n. n < 64 \<and> n div 8 = k \<longrightarrow> (bit (p k) (n mod 8) \<longleftrightarrow> bit (q k) (n mod 8)))"
    by (auto simp: bit_eq_iff [of _ 0] bit_and_iff bit_xor_iff bit_load64 mask)
  also have "\<dots> \<longleftrightarrow> p k = q k"
  proof
    assume all: "\<forall>n. n < 64 \<and> n div 8 = k \<longrightarrow> (bit (p k) (n mod 8) \<longleftrightarrow> bit (q k) (n mod 8))"
    show "p k = q k"
    proof (rule bit_word_eqI)
      fix m assume "m < LENGTH(8)"
      then show "bit (p k) m \<longleftrightarrow> bit (q k) m" using all [rule_format, of "8 * k + m"] assms by simp
    qed
  qed simp
  finally show ?thesis .
qed

text \<open>The labels a state has, one test per label.\<close>

definition out_labels :: "automata \<Rightarrow> u64 \<Rightarrow> u8 list" where
  "out_labels A s = filter (\<lambda>c. a_labels A (s + ucast c) = c) (map of_nat [0..<256])"

lemma fold_filter: "fold (\<lambda>x st. if P x then f x st else st) xs st = fold f (filter P xs) st"
  by (induction xs arbitrary: st) auto

lemma match_group_eq:
  assumes "offset < 32"
  shows "match_group A s offset add st =
    fold add (filter (\<lambda>c. a_labels A (s + ucast c) = c) (map of_nat [8 * offset ..< 8 * offset + 8])) st"
proof -
  let ?lab = "\<lambda>k. a_labels A (s + of_nat (8 * offset + k))"
  let ?msk = "\<lambda>k. OUTGOING_TRANSITIONS_MASK (8 * offset + k)"
  have label: "?lab k = ?msk k \<longleftrightarrow> a_labels A (s + ucast (of_nat (8 * offset + k) :: u8)) = of_nat (8 * offset + k)"
    if "k < 8" for k
  proof -
    have "8 * offset + k < 256" using that assms by simp
    then have "(ucast (of_nat (8 * offset + k) :: u8) :: u64) = of_nat (8 * offset + k)"
      by (simp add: unsigned_of_nat take_bit_nat_eq_self del: of_nat_add)
    then show ?thesis by (simp add: OUTGOING_TRANSITIONS_MASK_def del: of_nat_add)
  qed
  have "match_group A s offset add st =
      fold (\<lambda>k st. if ?lab k = ?msk k then add (of_nat (8 * offset + k)) st else st) [0..<8] st"
    unfolding match_group_def Let_def
    by (rule fold_cong) (simp_all add: byte_equal_iff cong: if_cong)
  also have "\<dots> = fold (\<lambda>k st. if a_labels A (s + ucast (of_nat (8 * offset + k) :: u8)) = of_nat (8 * offset + k)
        then add (of_nat (8 * offset + k)) st else st) [0..<8] st"
    by (rule fold_cong) (simp_all add: label del: of_nat_add)
  also have "\<dots> = fold (\<lambda>c st. if a_labels A (s + ucast c) = c then add c st else st)
      (map of_nat (map (\<lambda>k. 8 * offset + k) [0..<8])) st"
    by (simp add: fold_map comp_def del: of_nat_add)
  also have "map (\<lambda>k. 8 * offset + k) [0..<8] = [8 * offset ..< 8 * offset + 8]"
    using map_add_upt [of "8 * offset" 8] by (simp add: add.commute)
  finally show ?thesis by (simp add: fold_filter)
qed

text \<open>The grouped search calls \<open>add\<close> for exactly the state's labels, in ascending order.\<close>

lemma match_labels_eq: "match_labels A s add st = fold add (out_labels A s) st"
proof -
  have "fold (\<lambda>offset. match_group A s offset add) [0..<n] st =
      fold add (filter (\<lambda>c. a_labels A (s + ucast c) = c) (map of_nat [0 ..< 8 * n])) st" if "n \<le> 32" for n
    using that
  proof (induction n)
    case (Suc n)
    have "[0 ..< 8 * Suc n] = [0 ..< 8 * n] @ [8 * n ..< 8 * n + 8]"
      using upt_add_eq_append [of 0 "8 * n" 8] by (simp add: add.commute)
    moreover have "[0 ..< Suc n] = [0 ..< n] @ [n]" by simp
    ultimately show ?case using Suc by (simp add: match_group_eq del: upt_Suc)
  qed simp
  from this [of 32] show ?thesis by (simp add: match_labels_def out_labels_def)
qed

lemma set_all_labels: "set (map of_nat [0..<256]) = (UNIV :: u8 set)"
proof -
  have "c \<in> of_nat ` {0..<256}" for c :: u8
    by (rule image_eqI [of _ _ "unat c"]) simp_all
  then show ?thesis by auto
qed

lemma set_out_labels: "c \<in> set (out_labels A s) \<longleftrightarrow> a_labels A (s + ucast c) = c"
  using set_all_labels by (auto simp: out_labels_def)

lemma sorted_out_labels: "sorted_wrt (<) (out_labels A s)"
proof -
  have "sorted_wrt (<) (map of_nat [0..<256] :: u8 list)"
    by (auto simp: sorted_wrt_map sorted_wrt_iff_nth_less word_less_nat_alt unat_of_nat)
  then show ?thesis unfolding out_labels_def by (rule sorted_wrt_filter)
qed

section \<open>The pointer coding\<close>

text \<open>
  The three ways the builder codes a target in a bucket, and that \<open>ResolvePointer\<close> reads each of them
  back.  \<open>overflow_code\<close> holds the distance to the overflow bucket, the relative flag and the low bits.
\<close>

definition overflow_code :: "bool \<Rightarrow> u16 \<Rightarrow> u16 \<Rightarrow> u16" where
  "overflow_code relative overflow_bucket low =
     ((0x8000 OR (if relative then 0x8 else 0)) OR push_bit 4 overflow_bucket) + low"

lemma bit_push_bit_mask: "bit (push_bit k (mask m) :: 'a::len word) n \<longleftrightarrow> k \<le> n \<and> n < LENGTH('a) \<and> n - k < m"
  by (auto simp: bit_push_bit_iff bit_mask_iff)

lemma u16_bits:
  "bit (0x8000 :: u16) n \<longleftrightarrow> n = 15" "bit (0xC000 :: u16) n \<longleftrightarrow> n = 14 \<or> n = 15"
  "bit (0x8 :: u16) n \<longleftrightarrow> n = 3" "bit (0x7FFF :: u16) n \<longleftrightarrow> n < 15" "bit (0x7 :: u16) n \<longleftrightarrow> n < 3"
  "bit (0x3FFF :: u16) n \<longleftrightarrow> n < 14"
proof -
  have m: "(0x8000 :: u16) = push_bit 15 (mask 1)" "(0xC000 :: u16) = push_bit 14 (mask 2)"
    "(0x8 :: u16) = push_bit 3 (mask 1)" "(0x7FFF :: u16) = push_bit 0 (mask 15)"
    "(0x7 :: u16) = push_bit 0 (mask 3)" "(0x3FFF :: u16) = push_bit 0 (mask 14)"
    by (simp_all add: mask_eq_exp_minus_1)
  show "bit (0x8000 :: u16) n \<longleftrightarrow> n = 15" "bit (0xC000 :: u16) n \<longleftrightarrow> n = 14 \<or> n = 15"
    "bit (0x8 :: u16) n \<longleftrightarrow> n = 3" "bit (0x7FFF :: u16) n \<longleftrightarrow> n < 15" "bit (0x7 :: u16) n \<longleftrightarrow> n < 3"
    "bit (0x3FFF :: u16) n \<longleftrightarrow> n < 14"
    unfolding m bit_push_bit_mask by auto
qed

declare bit_numeral_word_iff [simp del]

lemma bit_neqI: "bit x n \<noteq> bit y n \<Longrightarrow> x \<noteq> y"
  by auto

lemma bit_bound: "unat (x :: 'a::len word) < 2 ^ k \<Longrightarrow> bit x n \<Longrightarrow> n < k"
  by (metis bit_take_bit_iff word_take_bit_self_iff)

lemma overflow_code_fields:
  fixes r :: bool
  assumes "unat ob < 1024" "unat low < 8"
  defines "pt \<equiv> overflow_code r ob low"
  shows "pt AND 0xC000 \<noteq> 0xC000" "pt AND 0x8000 \<noteq> 0" "drop_bit 4 (pt AND 0x7FFF) = ob"
    "(pt AND 0x7FFF) AND 0x7 = low" "(pt AND 0x7FFF) AND 0x8 \<noteq> 0 \<longleftrightarrow> r"
proof -
  have obz: "n < 10" if "bit ob n" for n using bit_bound [of ob 10 n] assms(1) that by simp
  have lowz: "n < 3" if "bit low n" for n using bit_bound [of low 3 n] assms(2) that by simp
  let ?hi = "(0x8000 OR (if r then 0x8 else 0)) OR push_bit 4 ob"
  have "?hi AND low = 0"
    by (rule bit_word_eqI) (auto simp: bit_and_iff bit_or_iff bit_push_bit_iff u16_bits dest: lowz)
  then have pt: "pt = ?hi OR low" by (simp add: pt_def overflow_code_def disjunctive_add_eq_or)
  have bits: "bit pt n \<longleftrightarrow> n = 15 \<or> (r \<and> n = 3) \<or> (4 \<le> n \<and> n < 14 \<and> bit ob (n - 4)) \<or> (n < 3 \<and> bit low n)"
    for n
    unfolding pt by (auto simp: bit_or_iff bit_push_bit_iff u16_bits dest: obz lowz)
  show "pt AND 0xC000 \<noteq> 0xC000"
    by (rule bit_neqI [of _ 14]) (simp add: bits bit_and_iff u16_bits)
  show "pt AND 0x8000 \<noteq> 0"
    by (rule bit_neqI [of _ 15]) (simp add: bits bit_and_iff u16_bits)
  have "(pt AND 0x7FFF) AND 0x8 = (if r then 0x8 else 0)"
    by (rule bit_word_eqI) (auto simp: bits bit_and_iff u16_bits)
  then show "(pt AND 0x7FFF) AND 0x8 \<noteq> 0 \<longleftrightarrow> r" by simp
  show "drop_bit 4 (pt AND 0x7FFF) = ob"
    by (rule bit_word_eqI) (auto simp: bits bit_and_iff bit_drop_bit_eq u16_bits simp del: drop_bit_and dest: obz)
  show "(pt AND 0x7FFF) AND 0x7 = low"
    by (rule bit_word_eqI) (auto simp: bits bit_and_iff u16_bits dest: lowz)
qed

definition encodes_pointer :: "(u64 \<Rightarrow> u16) \<Rightarrow> u64 \<Rightarrow> u64 \<Rightarrow> bool" where
  "encodes_pointer T bucket target \<longleftrightarrow>
     unat (bucket + 512 - target) < 32768 \<and> T bucket = ucast (bucket + 512 - target)
   \<or> unat target < 16384 \<and> T bucket = ucast target OR 0xC000
   \<or> (\<exists>relative overflow_bucket.
        let code = (if relative then bucket + 512 - target else target) in
        unat overflow_bucket < 1024
      \<and> T bucket = overflow_code relative overflow_bucket (ucast (code AND 0x7))
      \<and> holds_at (\<lambda>i. T (ucast overflow_bucket + bucket - 512 + of_nat i)) 0 (varshort_groups (drop_bit 3 code)))"

lemma u64_low3: "push_bit 3 (drop_bit 3 x) + (x AND 0x7) = x" for x :: u64
  using word_split_bits [of x 3] by (simp add: mask_eq_exp_minus_1 add.commute)

lemma low3_cast: "ucast (ucast (x AND 0x7) :: u16) = (x AND 0x7 :: u64)" "unat (ucast (x AND 0x7) :: u16) < 8"
proof -
  have "unat (x AND 0x7) = unat x mod 8" using unat_and_mask [of x 3] by (simp add: mask_eq_exp_minus_1)
  then have "unat (x AND 0x7) < 8" by simp
  then have u: "unat (ucast (x AND 0x7) :: u16) = unat (x AND 0x7)"
    by (simp add: unsigned_ucast_eq take_bit_nat_eq_self)
  then show "unat (ucast (x AND 0x7) :: u16) < 8" using \<open>unat (x AND 0x7) < 8\<close> by simp
  show "ucast (ucast (x AND 0x7) :: u16) = (x AND 0x7 :: u64)"
    using u by (simp add: word_unat_eq_iff unat_ucast_up)
qed

lemma u16_u64_cast: "unat (x :: u64) < 65536 \<Longrightarrow> (ucast (ucast x :: u16) :: u64) = x"
  by (simp add: word_unat_eq_iff unat_ucast_up) (simp add: unsigned_ucast_eq take_bit_nat_eq_self)

lemma ResolvePointer_encoded:
  assumes "encodes_pointer (transitions_compact A) (s + ucast c) target"
  shows "ResolvePointer A s c = target"
proof -
  let ?b = "s + ucast c"
  let ?pt = "transitions_compact A ?b"
  consider (relative) "unat (?b + 512 - target) < 32768" "?pt = ucast (?b + 512 - target)"
    | (absolute) "unat target < 16384" "?pt = ucast target OR 0xC000"
    | (overflow) r ob where "unat ob < 1024"
      "?pt = overflow_code r ob (ucast ((if r then ?b + 512 - target else target) AND 0x7))"
      "holds_at (\<lambda>i. transitions_compact A (ucast ob + ?b - 512 + of_nat i)) 0
         (varshort_groups (drop_bit 3 (if r then ?b + 512 - target else target)))"
    using assms unfolding encodes_pointer_def Let_def by blast
  then show ?thesis
  proof cases
    case relative
    have small: "unat ?pt < 2 ^ 15"
      using relative by (simp add: unsigned_ucast_eq take_bit_nat_eq_self)
    then have z: "n < 15" if "bit ?pt n" for n using bit_bound that by blast
    have "?pt AND 0x8000 = 0"
      by (rule bit_word_eqI) (auto simp: bit_and_iff u16_bits dest: z)
    moreover have "?pt AND 0xC000 \<noteq> 0xC000"
      by (rule bit_neqI [of _ 15]) (use z [of 15] in \<open>auto simp: bit_and_iff u16_bits\<close>)
    ultimately show ?thesis
      using relative u16_u64_cast [of "?b + 512 - target"] by (simp add: ResolvePointer_def Let_def)
  next
    case absolute
    have t: "unat (ucast target :: u16) = unat target"
      using absolute by (simp add: unsigned_ucast_eq take_bit_nat_eq_self)
    then have z: "n < 14" if "bit (ucast target :: u16) n" for n
      using bit_bound [of "ucast target :: u16" 14 n] absolute(1) that by simp
    have "?pt AND 0xC000 = 0xC000"
      unfolding absolute(2) by (rule bit_word_eqI) (auto simp: bit_or_iff bit_and_iff u16_bits)
    moreover have "?pt AND 0x3FFF = ucast target"
      unfolding absolute(2)
      by (rule bit_word_eqI) (auto simp: bit_or_iff bit_and_iff u16_bits simp del: bit_ucast_iff dest: z)
    ultimately show ?thesis
      using absolute(1) u16_u64_cast [of target] by (simp add: ResolvePointer_def Let_def)
  next
    case overflow
    let ?code = "if r then ?b + 512 - target else target"
    note fields = overflow_code_fields [OF overflow(1) low3_cast(2), of r ?code, folded overflow(2)]
    have "decodeVarShort (transition_ptr A (ucast ob + s + ucast c - 512)) = Some (drop_bit 3 ?code)"
      using overflow(3) unfolding transition_ptr_def by (intro decodeVarShort_groups) (simp add: add.assoc)
    then have "ResolvePointer A s c = (if r then ?b - ?code + 512 else ?code)"
      by (simp add: ResolvePointer_def Let_def fields low3_cast(1) u64_low3 del: drop_bit_and)
    then show ?thesis by (cases r) simp_all
  qed
qed

section \<open>The interface of an acceptor\<close>

text \<open>
  What the traversals and the lookups rely on, independent of the sparse array: a state has a list of
  outgoing transitions sorted by label, and walking a label agrees with that list.  The specification
  of all of them is the list of nodes below a state in depth-first order, and the list of entries, the
  nodes that are final.
\<close>

primrec walk :: "('s \<Rightarrow> 'c \<Rightarrow> 's) \<Rightarrow> 's \<Rightarrow> 's \<Rightarrow> 'c list \<Rightarrow> 's" where
  "walk step none s [] = s"
| "walk step none s (c # cs) = (if step s c = none then none else walk step none (step s c) cs)"

primrec nodes :: "('s \<Rightarrow> ('s \<times> 'c) list) \<Rightarrow> nat \<Rightarrow> 'c list \<Rightarrow> 's \<Rightarrow> ('c list \<times> 's) list" where
  "nodes out 0 path s = []"
| "nodes out (Suc n) path s =
     concat (map (\<lambda>(t, c). (path @ [c], t) # nodes out n (path @ [c]) t) (out s))"

text \<open>\<open>depth_ok out none n s\<close>: no path from \<open>s\<close> is longer than \<open>n\<close>, and no transition leads to \<open>none\<close>.\<close>

primrec depth_ok :: "('s \<Rightarrow> ('s \<times> 'c) list) \<Rightarrow> 's \<Rightarrow> nat \<Rightarrow> 's \<Rightarrow> bool" where
  "depth_ok out none 0 s \<longleftrightarrow> out s = []"
| "depth_ok out none (Suc n) s \<longleftrightarrow> (\<forall>(t, c) \<in> set (out s). t \<noteq> none \<and> depth_ok out none n t)"

lemma depth_ok_mono: "depth_ok out none n s \<Longrightarrow> n \<le> m \<Longrightarrow> depth_ok out none m s"
proof (induction n arbitrary: m s)
  case 0
  then show ?case by (cases m) auto
next
  case (Suc n)
  then show ?case by (cases m) fastforce+
qed

lemma nodes_path: "nodes out n path s = map (\<lambda>(w, t). (path @ w, t)) (nodes out n [] s)"
proof (induction n arbitrary: path s)
  case (Suc n)
  have "(path @ [c], t) # nodes out n (path @ [c]) t =
      map (\<lambda>(w, t). (path @ w, t)) (([c], t) # nodes out n [c] t)" for t c
    unfolding Suc.IH [of "path @ [c]" t] Suc.IH [of "[c]" t] by (simp add: split_def comp_def)
  then show ?case by (simp add: map_concat comp_def split_def)
qed simp

lemma nodes_cons: "nodes out n [c] t = map (\<lambda>(w, u). (c # w, u)) (nodes out n [] t)"
  using nodes_path [of out n "[c]" t] by simp

lemma set_nodes_Suc:
  "(w, t) \<in> set (nodes out (Suc n) [] s) \<longleftrightarrow>
     (\<exists>c cs u. w = c # cs \<and> (u, c) \<in> set (out s) \<and> (cs = [] \<and> t = u \<or> (cs, t) \<in> set (nodes out n [] u)))"
proof -
  have "set (nodes out (Suc n) [] s) =
      (\<Union>x \<in> set (out s). insert ([snd x], fst x) ((\<lambda>(w, t). (snd x # w, t)) ` set (nodes out n [] (fst x))))"
    by (simp add: nodes_cons split_def)
  then have "(w, t) \<in> set (nodes out (Suc n) [] s) \<longleftrightarrow>
      (\<exists>u c. (u, c) \<in> set (out s) \<and> ((w, t) = ([c], u) \<or> (w, t) \<in> (\<lambda>(w, t). (c # w, t)) ` set (nodes out n [] u)))"
    by (simp only: UN_iff insert_iff Bex_def split_paired_Ex fst_conv snd_conv)
  also have "\<dots> \<longleftrightarrow> (\<exists>c cs u. w = c # cs \<and> (u, c) \<in> set (out s) \<and> (cs = [] \<and> t = u \<or> (cs, t) \<in> set (nodes out n [] u)))"
    by (simp only: image_iff Bex_def split_paired_Ex prod.case prod.inject) blast
  finally show ?thesis .
qed

lemma nodes_nonempty: "(w, t) \<in> set (nodes out n [] s) \<Longrightarrow> w \<noteq> []"
  by (cases n) (simp, auto simp only: set_nodes_Suc)

abbreviation key_less :: "'c::linorder list \<Rightarrow> 'c list \<Rightarrow> bool" where
  "key_less \<equiv> ord_class.lexordp"

lemma key_less_irrefl [simp]: "\<not> key_less k (k :: u8 list)"
  by (simp add: lexordp_irreflexive)

lemma key_less_trans: "key_less a b \<Longrightarrow> key_less b c \<Longrightarrow> key_less a (c :: u8 list)"
  by (rule lexordp_trans)

lemma key_less_linear: "key_less a b \<or> a = b \<or> key_less b (a :: u8 list)"
  by (rule lexordp_linear)

lemma sorted_wrt_concat:
  "sorted_wrt R (concat xss) \<longleftrightarrow> (\<forall>xs \<in> set xss. sorted_wrt R xs)
     \<and> sorted_wrt (\<lambda>xs ys. \<forall>x \<in> set xs. \<forall>y \<in> set ys. R x y) xss"
  by (induction xss) (auto simp: sorted_wrt_append)

locale acceptor =
  fixes out :: "'s \<Rightarrow> ('s \<times> 'c::linorder) list" and step :: "'s \<Rightarrow> 'c \<Rightarrow> 's" and none :: 's
  assumes out_step: "(t, c) \<in> set (out s) \<Longrightarrow> step s c = t"
    and step_out: "step s c \<noteq> none \<Longrightarrow> (step s c, c) \<in> set (out s)"
    and sorted_out: "sorted_wrt (<) (map snd (out s))"
begin

text \<open>Exactly the non-empty words that can be walked are nodes.\<close>

lemma nodes_iff:
  assumes "depth_ok out none n s"
  shows "(w, t) \<in> set (nodes out n [] s) \<longleftrightarrow> w \<noteq> [] \<and> t = walk step none s w \<and> t \<noteq> none"
  using assms
proof (induction n arbitrary: s w t)
  case 0
  have "walk step none s w = none" if "w \<noteq> []"
  proof -
    from that obtain c cs where "w = c # cs" by (cases w) auto
    with 0 step_out [of s c] show ?thesis by auto
  qed
  then show ?case by auto
next
  case (Suc n)
  show ?case
  proof (cases w)
    case Nil
    then show ?thesis using nodes_nonempty [of w t out "Suc n" s] by auto
  next
    case (Cons c cs)
    have "(w, t) \<in> set (nodes out (Suc n) [] s) \<longleftrightarrow>
        (\<exists>u. (u, c) \<in> set (out s) \<and> (cs = [] \<and> t = u \<or> (cs, t) \<in> set (nodes out n [] u)))"
      unfolding set_nodes_Suc Cons by blast
    also have "\<dots> \<longleftrightarrow> step s c \<noteq> none \<and> (cs = [] \<and> t = step s c \<or> (cs, t) \<in> set (nodes out n [] (step s c)))"
      using Suc.prems out_step [of _ c s] step_out [of s c] unfolding depth_ok.simps by blast
    also have "\<dots> \<longleftrightarrow> w \<noteq> [] \<and> t = walk step none s w \<and> t \<noteq> none"
    proof (cases "step s c = none")
      case False
      with Suc.prems step_out [of s c] have "depth_ok out none n (step s c)" unfolding depth_ok.simps by blast
      from Suc.IH [OF this, of cs t] False show ?thesis unfolding Cons by (cases cs) auto
    qed (simp add: Cons)
    finally show ?thesis .
  qed
qed

text \<open>The nodes come in lexicographic order.\<close>

lemma nodes_sorted: "sorted_wrt key_less (map fst (nodes out n [] s))"
proof (induction n arbitrary: s)
  case (Suc n)
  let ?block = "\<lambda>(t, c). ([c], t) # nodes out n [c] t"
  have head: "\<exists>v. w = snd x # v" if "w \<in> set (map fst (?block x))" for w x
    using that by (cases x) (auto simp: nodes_cons)
  have inside: "sorted_wrt key_less (map fst (?block x))" for x
  proof -
    have "map fst (nodes out n [snd x] (fst x)) = map ((#) (snd x)) (map fst (nodes out n [] (fst x)))"
      by (simp add: nodes_cons comp_def split_def)
    moreover have "sorted_wrt key_less (map ((#) (snd x)) (map fst (nodes out n [] (fst x))))"
      using Suc.IH [of "fst x"] by (simp add: sorted_wrt_map)
    moreover have "key_less [snd x] w" if "w \<in> set (map fst (nodes out n [snd x] (fst x)))" for w
    proof -
      from that obtain v t where "w = snd x # v" "(v, t) \<in> set (nodes out n [] (fst x))"
        by (auto simp: nodes_cons)
      with nodes_nonempty [of v t] show ?thesis by (cases v) auto
    qed
    ultimately show ?thesis by (simp add: split_def)
  qed
  have "sorted_wrt (\<lambda>x y. snd x < snd y) (out s)" using sorted_out [of s] by (simp add: sorted_wrt_map)
  then have "sorted_wrt (\<lambda>x y. \<forall>v \<in> set (map fst (?block x)). \<forall>w \<in> set (map fst (?block y)). key_less v w) (out s)"
  proof (rule sorted_wrt_mono_rel [rotated], intro ballI)
    fix x y v w
    assume xy: "snd x < snd y" and v: "v \<in> set (map fst (?block x))" and w: "w \<in> set (map fst (?block y))"
    from head [OF v] head [OF w] obtain v' w' where "v = snd x # v'" "w = snd y # w'" by blast
    with xy show "key_less v w" by simp
  qed
  with inside show ?case
    by (simp add: map_concat sorted_wrt_concat sorted_wrt_map comp_def split_def)
qed simp

end

section \<open>The automaton as an acceptor\<close>

definition outgoing :: "automata \<Rightarrow> u64 \<Rightarrow> (u64 \<times> u8) list" where
  "outgoing A s = map (\<lambda>c. (ResolvePointer A s c, c)) (out_labels A s)"

lemma map_snd_outgoing [simp]: "map snd (outgoing A s) = out_labels A s"
  by (simp add: outgoing_def comp_def)

interpretation fsa: acceptor "outgoing A" "TryWalkTransition A" 0 for A
proof
  show "sorted_wrt (<) (map snd (outgoing A s))" for s by (simp add: sorted_out_labels)
qed (auto simp: outgoing_def set_out_labels TryWalkTransition_def image_iff split: if_splits)

text \<open>The keys below a state with the values of their final states, and the walk of a key.\<close>

definition entries :: "automata \<Rightarrow> nat \<Rightarrow> u64 \<Rightarrow> (u8 list \<times> u64) list" where
  "entries A n s = map (\<lambda>(w, t). (w, GetStateValue A t))
     (filter (\<lambda>(w, t). IsFinalState A t) (nodes (outgoing A) n [] s))"

abbreviation fsa_walk :: "automata \<Rightarrow> u64 \<Rightarrow> u8 list \<Rightarrow> u64" where
  "fsa_walk A \<equiv> walk (TryWalkTransition A) 0"

abbreviation fsa_depth :: "automata \<Rightarrow> nat \<Rightarrow> u64 \<Rightarrow> bool" where
  "fsa_depth A \<equiv> depth_ok (outgoing A) 0"

lemma entries_iff:
  assumes "fsa_depth A n s"
  shows "(w, v) \<in> set (entries A n s) \<longleftrightarrow> w \<noteq> [] \<and> fsa_walk A s w \<noteq> 0
    \<and> IsFinalState A (fsa_walk A s w) \<and> v = GetStateValue A (fsa_walk A s w)"
proof -
  have "(w, v) \<in> set (entries A n s) \<longleftrightarrow>
      (\<exists>t. (w, t) \<in> set (nodes (outgoing A) n [] s) \<and> IsFinalState A t \<and> v = GetStateValue A t)"
    by (auto simp: entries_def image_iff)
  then show ?thesis unfolding fsa.nodes_iff [OF assms] by blast
qed

lemma entries_sorted: "sorted_wrt key_less (map fst (entries A n s))"
proof -
  have "sorted_wrt (\<lambda>x y. key_less (fst x) (fst y)) (nodes (outgoing A) n [] s)"
    using fsa.nodes_sorted [of A n s] by (simp add: sorted_wrt_map)
  then have "sorted_wrt (\<lambda>x y. key_less (fst x) (fst y)) (filter (\<lambda>(w, t). IsFinalState A t) (nodes (outgoing A) n [] s))"
    by (rule sorted_wrt_filter)
  then show ?thesis by (simp add: entries_def sorted_wrt_map comp_def split_def)
qed

section \<open>Properties\<close>

text \<open>
  Comparing eight labels at a time through 64-bit integers finds exactly the labels a test per label
  finds, in ascending order, whatever is done with them.
\<close>

theorem grouped_label_search:
  "match_labels A s add st =
     fold add (filter (\<lambda>c. a_labels A (s + ucast c) = c) (map of_nat [0..<256])) st"
  by (simp add: match_labels_eq out_labels_def)

text \<open>
  C12: the three pointer codings (relative, absolute, overflow bucket with a variable length short) are read
  back: a bucket that encodes a target resolves to that target.
\<close>

theorem resolve_pointer_decodes:
  assumes "encodes_pointer (transitions_compact A) (s + ucast c) target"
  shows "ResolvePointer A s c = target"
  by (rule ResolvePointer_encoded [OF assms])

definition example_automata :: automata where
  "example_automata = \<lparr>a_labels = (\<lambda>_. 0),
     transitions_compact = (\<lambda>i. if i = 1065 then overflow_code False 600 5
       else if i = 1153 then 0x7FFF AND 12500 else 0),
     properties_start_state = 1, number_of_keys = 1\<rparr>"

theorem resolve_pointer_decodes_witness: "ResolvePointer example_automata 1000 65 = 100005"
proof (rule resolve_pointer_decodes)
  have g: "varshort_groups 12500 = [12500]" by (simp add: varshort_groups.simps)
  show "encodes_pointer (transitions_compact example_automata) (1000 + ucast (65 :: u8)) 100005"
    unfolding encodes_pointer_def Let_def
    by (intro disjI2 exI [of _ False] exI [of _ 600]) (simp add: example_automata_def g)
qed


text \<open>An automaton for the keys \<open>a\<close> (value 7) and \<open>ab\<close> (value 8).\<close>

definition small_automata :: automata where
  "small_automata = \<lparr>
     a_labels = (\<lambda>i. if i = 1000 \<or> i = 500 \<or> i = 300 then 1
                     else if i = 1097 then 97 else if i = 598 then 98
                     else if i = 756 \<or> i = 556 then 1 else 0),
     transitions_compact = (\<lambda>i. if i = 1097 then 1109 else if i = 598 then 810
                                else if i = 756 then 7 else if i = 556 then 8 else 0),
     properties_start_state = 1000, number_of_keys = 2\<rparr>"

lemma unat_index: "unat (s + ucast (c :: u8) :: u64) = unat s + unat c" if "unat s < 65536"
proof -
  have "unat s + unat c < 18446744073709551616" using that unat_u8_less [of c] by linarith
  then show ?thesis by (simp add: unat_word_ariths unat_ucast_up)
qed

lemma out_labels_eqI:
  assumes "sorted_wrt (<) cs" "\<And>c. a_labels A (s + ucast c) = c \<longleftrightarrow> c \<in> set cs"
  shows "out_labels A s = cs"
  using assms sorted_out_labels by (intro strict_sorted_equal) (auto simp: set_out_labels)

lemma small_automata_out:
  "outgoing small_automata 1000 = [(500, 97)]" "outgoing small_automata 500 = [(300, 98)]"
  "outgoing small_automata 300 = []"
proof -
  have "out_labels small_automata 1000 = [97]"
    by (rule out_labels_eqI) (auto simp: small_automata_def unat_index word_unat_eq_iff)
  moreover have "out_labels small_automata 500 = [98]"
    by (rule out_labels_eqI) (auto simp: small_automata_def unat_index word_unat_eq_iff)
  moreover have "out_labels small_automata 300 = []"
    by (rule out_labels_eqI) (auto simp: small_automata_def unat_index word_unat_eq_iff)
  moreover have "ResolvePointer small_automata 1000 97 = 500" "ResolvePointer small_automata 500 98 = 300"
    by code_simp+
  ultimately show "outgoing small_automata 1000 = [(500, 97)]" "outgoing small_automata 500 = [(300, 98)]"
    "outgoing small_automata 300 = []" by (simp_all add: outgoing_def)
qed

lemma small_automata_final:
  "IsFinalState small_automata 500" "IsFinalState small_automata 300" "\<not> IsFinalState small_automata 1000"
  "GetStateValue small_automata 500 = 7" "GetStateValue small_automata 300 = 8"
  by code_simp+

lemma small_automata_depth: "fsa_depth small_automata (Suc (Suc 0)) 1000"
  by (simp add: small_automata_out)

lemma small_automata_entries: "entries small_automata (Suc (Suc 0)) 1000 = [([97], 7), ([97, 98], 8)]"
  by (simp add: entries_def small_automata_out small_automata_final)


end
