(* ===== verification/Traversal.thy ===== *)
theory Traversal
  imports Automata
begin

text \<open>
  Depth-first traversal of the automaton: the traversal state and stack
  (\<open>keyvi/dictionary/fsa/traversal/traversal_base.h\<close>, \<open>weighted_traversal.h\<close>, \<open>near_traversal.h\<close>), the state
  traverser (\<open>state_traverser.h\<close>) and the entry iterator (\<open>entry_iterator.h\<close>).  The C++ templates are
  specialised per transition type; \<open>traversal_ops\<close> collects what the specialisations differ in, and the
  traverser is defined once over it.
\<close>

section \<open>Transitions, payloads and traversal states\<close>

record Transition =
  tr_state :: u64
  tr_label :: u8

record WeightedTransition =
  wt_state :: u64
  wt_weight :: u32
  wt_label :: u8

record TraversalPayload =
  current_depth :: nat

record WeightedPayload = TraversalPayload +
  min_weight :: u32

record NearPayload = TraversalPayload +
  lookup_key :: "u8 list"
  exact_depth :: nat
  exact :: bool

record 't TraversalState =
  ts_transitions :: "'t list"
  ts_position :: nat

definition empty_state :: "'t TraversalState" where
  "empty_state = \<lparr>ts_transitions = [], ts_position = 0\<rparr>"

definition TS_push_back :: "'t \<Rightarrow> 't TraversalState \<Rightarrow> 't TraversalState" where
  "TS_push_back t ts = ts\<lparr>ts_transitions := ts_transitions ts @ [t]\<rparr>"

definition TS_Add :: "u64 \<Rightarrow> u8 \<Rightarrow> Transition TraversalState \<Rightarrow> Transition TraversalState" where
  "TS_Add s l = TS_push_back \<lparr>tr_state = s, tr_label = l\<rparr>"

definition TS_Clear :: "'t TraversalState \<Rightarrow> 't TraversalState" where
  "TS_Clear ts = ts\<lparr>ts_position := 0, ts_transitions := []\<rparr>"

definition TS_size :: "'t TraversalState \<Rightarrow> nat" where
  "TS_size ts = length (ts_transitions ts)"

definition TS_inc :: "'t TraversalState \<Rightarrow> 't TraversalState" where
  "TS_inc ts = ts\<lparr>ts_position := ts_position ts + 1\<rparr>"

section \<open>The specialisations\<close>

definition TS_Add_weighted ::
  "u64 \<Rightarrow> u32 \<Rightarrow> u8 \<Rightarrow> WeightedPayload \<Rightarrow> WeightedTransition TraversalState \<Rightarrow> WeightedTransition TraversalState" where
  "TS_Add_weighted s weight l payload ts =
     (if weight \<ge> min_weight payload
      then TS_push_back \<lparr>wt_state = s, wt_weight = weight, wt_label = l\<rparr> ts else ts)"

text \<open>\<open>std::stable_sort\<close> by descending weight: insertion sort that keeps equal elements in order.\<close>

definition WeightedTransitionCompare :: "WeightedTransition \<Rightarrow> WeightedTransition \<Rightarrow> bool" where
  "WeightedTransitionCompare a b \<longleftrightarrow> wt_weight a > wt_weight b"

fun stable_insert :: "('t \<Rightarrow> 't \<Rightarrow> bool) \<Rightarrow> 't \<Rightarrow> 't list \<Rightarrow> 't list" where
  "stable_insert before x [] = [x]"
| "stable_insert before x (y # ys) = (if before y x then y # stable_insert before x ys else x # y # ys)"

definition stable_sort :: "('t \<Rightarrow> 't \<Rightarrow> bool) \<Rightarrow> 't list \<Rightarrow> 't list" where
  "stable_sort before xs = foldr (stable_insert before) xs []"

definition TS_PostProcess_weighted :: "WeightedTransition TraversalState \<Rightarrow> WeightedTransition TraversalState" where
  "TS_PostProcess_weighted ts =
     (if TS_size ts > 0
      then ts\<lparr>ts_transitions := stable_sort WeightedTransitionCompare (ts_transitions ts)\<rparr> else ts)"

definition near_Clear :: "Transition TraversalState \<Rightarrow> Transition TraversalState" where
  "near_Clear ts = TS_Add 0 0 (ts\<lparr>ts_position := 1, ts_transitions := []\<rparr>)"

definition near_Add ::
  "u64 \<Rightarrow> u8 \<Rightarrow> NearPayload \<Rightarrow> Transition TraversalState \<Rightarrow> Transition TraversalState" where
  "near_Add s l payload ts =
     (if exact payload \<and> current_depth payload < length (lookup_key payload)
         \<and> lookup_key payload ! current_depth payload = l
      then ts\<lparr>ts_position := 0, ts_transitions := (ts_transitions ts)[0 := \<lparr>tr_state = s, tr_label = l\<rparr>]\<rparr>
      else TS_Add s l ts)"

definition near_PostProcess :: "Transition TraversalState \<Rightarrow> NearPayload \<Rightarrow> NearPayload" where
  "near_PostProcess ts payload =
     (if exact payload
      then (let p = payload\<lparr>exact_depth := current_depth payload\<rparr>
            in if ts_position ts \<noteq> 0 then p\<lparr>exact := False\<rparr> else p)
      else payload)"

definition near_dec :: "NearPayload \<Rightarrow> NearPayload" where
  "near_dec payload =
     (let p = (if exact_depth payload = current_depth payload
               then payload\<lparr>exact_depth := exact_depth payload - 1\<rparr> else payload)
      in p\<lparr>current_depth := current_depth p - 1\<rparr>)"

text \<open>\<open>GetOutGoingTransitions\<close> for the three transition types.\<close>

definition GetOutGoingTransitions :: "automata \<Rightarrow> u64 \<Rightarrow> Transition TraversalState \<Rightarrow> Transition TraversalState" where
  "GetOutGoingTransitions A starting_state ts =
     match_labels A starting_state (\<lambda>c. TS_Add (ResolvePointer A starting_state c) c) (TS_Clear ts)"

definition GetOutGoingTransitions_weighted ::
  "automata \<Rightarrow> u64 \<Rightarrow> WeightedPayload \<Rightarrow> u32 \<Rightarrow> WeightedTransition TraversalState \<Rightarrow> WeightedTransition TraversalState" where
  "GetOutGoingTransitions_weighted A starting_state payload parent_weight ts =
     TS_PostProcess_weighted
       (match_labels A starting_state
          (\<lambda>c ts. let child_state = ResolvePointer A starting_state c;
                       weight = GetInnerWeight A child_state;
                       weight = (if weight \<noteq> 0 then weight else parent_weight)
                   in TS_Add_weighted child_state weight c payload ts)
          (TS_Clear ts))"

definition GetOutGoingTransitions_near ::
  "automata \<Rightarrow> u64 \<Rightarrow> NearPayload \<Rightarrow> Transition TraversalState \<Rightarrow> Transition TraversalState \<times> NearPayload" where
  "GetOutGoingTransitions_near A starting_state payload ts =
     (let ts' = match_labels A starting_state
                  (\<lambda>c. near_Add (ResolvePointer A starting_state c) c payload) (near_Clear ts)
      in (ts', near_PostProcess ts' payload))"

record ('t, 'p) traversal_ops =
  op_outgoing :: "automata \<Rightarrow> u64 \<Rightarrow> u32 \<Rightarrow> 'p \<Rightarrow> 't TraversalState \<Rightarrow> 't TraversalState \<times> 'p"
  op_state :: "'t \<Rightarrow> u64"
  op_label :: "'t \<Rightarrow> u8"
  op_weight :: "'t \<Rightarrow> u32"
  op_depth :: "'p \<Rightarrow> nat"
  op_inc :: "'p \<Rightarrow> 'p"
  op_dec :: "'p \<Rightarrow> 'p"
  op_filter :: "'p \<Rightarrow> 't \<Rightarrow> bool"

definition plain_ops :: "(Transition, TraversalPayload) traversal_ops" where
  "plain_ops = \<lparr>op_outgoing = (\<lambda>A s w p ts. (GetOutGoingTransitions A s ts, p)),
     op_state = tr_state, op_label = tr_label, op_weight = (\<lambda>_. 0), op_depth = current_depth,
     op_inc = (\<lambda>p. p\<lparr>current_depth := current_depth p + 1\<rparr>),
     op_dec = (\<lambda>p. p\<lparr>current_depth := current_depth p - 1\<rparr>), op_filter = (\<lambda>_ _. True)\<rparr>"

definition weighted_ops :: "(WeightedTransition, WeightedPayload) traversal_ops" where
  "weighted_ops = \<lparr>op_outgoing = (\<lambda>A s w p ts. (GetOutGoingTransitions_weighted A s p w ts, p)),
     op_state = wt_state, op_label = wt_label, op_weight = wt_weight, op_depth = current_depth,
     op_inc = (\<lambda>p. p\<lparr>current_depth := current_depth p + 1\<rparr>),
     op_dec = (\<lambda>p. p\<lparr>current_depth := current_depth p - 1\<rparr>),
     op_filter = (\<lambda>p t. wt_weight t \<ge> min_weight p)\<rparr>"

definition near_ops :: "(Transition, NearPayload) traversal_ops" where
  "near_ops = \<lparr>op_outgoing = (\<lambda>A s w p ts. GetOutGoingTransitions_near A s p ts),
     op_state = tr_state, op_label = tr_label, op_weight = (\<lambda>_. 0), op_depth = current_depth,
     op_inc = (\<lambda>p. p\<lparr>current_depth := current_depth p + 1\<rparr>), op_dec = near_dec, op_filter = (\<lambda>_ _. True)\<rparr>"

section \<open>The traversal stack\<close>

record ('t, 'p) TraversalStack =
  traversal_states :: "'t TraversalState list"
  traversal_stack_payload :: 'p

definition TraversalStack :: "'p \<Rightarrow> ('t, 'p) TraversalStack" where
  "TraversalStack payload = \<lparr>traversal_states = replicate 20 empty_state, traversal_stack_payload = payload\<rparr>"

definition GetDepth :: "('t, 'p) traversal_ops \<Rightarrow> ('t, 'p) TraversalStack \<Rightarrow> nat" where
  "GetDepth ops stk = op_depth ops (traversal_stack_payload stk)"

definition GetStates :: "('t, 'p) traversal_ops \<Rightarrow> ('t, 'p) TraversalStack \<Rightarrow> 't TraversalState" where
  "GetStates ops stk = traversal_states stk ! GetDepth ops stk"

definition update_states ::
  "('t, 'p) traversal_ops \<Rightarrow> ('t TraversalState \<Rightarrow> 't TraversalState) \<Rightarrow> ('t, 'p) TraversalStack \<Rightarrow> ('t, 'p) TraversalStack" where
  "update_states ops f stk =
     stk\<lparr>traversal_states := (traversal_states stk)[GetDepth ops stk := f (GetStates ops stk)]\<rparr>"

definition resize_states :: "nat \<Rightarrow> 't TraversalState list \<Rightarrow> 't TraversalState list" where
  "resize_states n xs = take n xs @ replicate (n - length xs) empty_state"

definition stack_inc :: "('t, 'p) traversal_ops \<Rightarrow> ('t, 'p) TraversalStack \<Rightarrow> ('t, 'p) TraversalStack" where
  "stack_inc ops stk =
     (let stk1 = stk\<lparr>traversal_stack_payload := op_inc ops (traversal_stack_payload stk)\<rparr>
      in if length (traversal_states stk1) < GetDepth ops stk1 + 1
         then stk1\<lparr>traversal_states := resize_states (GetDepth ops stk1 + 10) (traversal_states stk1)\<rparr>
         else stk1)"

definition stack_dec :: "('t, 'p) traversal_ops \<Rightarrow> ('t, 'p) TraversalStack \<Rightarrow> ('t, 'p) TraversalStack" where
  "stack_dec ops stk = stk\<lparr>traversal_stack_payload := op_dec ops (traversal_stack_payload stk)\<rparr>"

definition GetNextState :: "('t, 'p) traversal_ops \<Rightarrow> 't TraversalState \<Rightarrow> u64" where
  "GetNextState ops ts =
     (if ts_position ts < length (ts_transitions ts) then op_state ops (ts_transitions ts ! ts_position ts) else 0)"

definition GetNextTransition :: "('t, 'p) traversal_ops \<Rightarrow> 't TraversalState \<Rightarrow> u8" where
  "GetNextTransition ops ts = op_label ops (ts_transitions ts ! ts_position ts)"

definition GetNextInnerWeight :: "('t, 'p) traversal_ops \<Rightarrow> 't TraversalState \<Rightarrow> u32" where
  "GetNextInnerWeight ops ts = op_weight ops (ts_transitions ts ! ts_position ts)"

text \<open>\<open>GetOutGoingTransitions\<close> into the state at the current depth.\<close>

definition fill_states ::
  "('t, 'p) traversal_ops \<Rightarrow> automata \<Rightarrow> u64 \<Rightarrow> u32 \<Rightarrow> ('t, 'p) TraversalStack \<Rightarrow> ('t, 'p) TraversalStack" where
  "fill_states ops A s parent_weight stk =
     (let (ts, p) = op_outgoing ops A s parent_weight (traversal_stack_payload stk) (GetStates ops stk)
      in (update_states ops (\<lambda>_. ts) stk)\<lparr>traversal_stack_payload := p\<rparr>)"

section \<open>The state traverser\<close>

record ('t, 'p) StateTraverser =
  current_state :: u64
  current_weight :: u32
  current_label :: u8
  stack :: "('t, 'p) TraversalStack"

definition FilterByMinWeight :: "('t, 'p) traversal_ops \<Rightarrow> ('t, 'p) TraversalStack \<Rightarrow> u64" where
  "FilterByMinWeight ops stk =
     (let ts = GetStates ops stk; state = GetNextState ops ts
      in if state > 0 \<and> op_filter ops (traversal_stack_payload stk) (ts_transitions ts ! ts_position ts)
         then state else 0)"

text \<open>Go up until there is a next state or the stack is at its bottom; the state is 0 when exhausted.\<close>

function go_up :: "('t, 'p) traversal_ops \<Rightarrow> nat \<Rightarrow> ('t, 'p) TraversalStack \<Rightarrow> u64 \<times> ('t, 'p) TraversalStack" where
  "go_up ops depth stk =
     (if FilterByMinWeight ops stk \<noteq> 0 \<or> depth = 0 then (FilterByMinWeight ops stk, stk)
      else go_up ops (depth - 1) (update_states ops TS_inc (stack_dec ops stk)))"
  by pat_completeness auto
termination by (relation "measure (\<lambda>(ops, depth, stk). depth)") auto

declare go_up.simps [simp del]

definition traverser_next ::
  "('t, 'p) traversal_ops \<Rightarrow> automata \<Rightarrow> ('t, 'p) StateTraverser \<Rightarrow> ('t, 'p) StateTraverser" where
  "traverser_next ops A t =
     (if current_state t = 0 then t
      else (let (s, stk) = go_up ops (GetDepth ops (stack t)) (stack t)
            in if s = 0 then t\<lparr>current_label := 0, current_state := 0, stack := stk\<rparr>
               else (let label = GetNextTransition ops (GetStates ops stk);
                         weight = GetNextInnerWeight ops (GetStates ops stk)
                     in t\<lparr>current_state := s, current_label := label, current_weight := weight,
                          stack := fill_states ops A s weight (stack_inc ops stk)\<rparr>)))"

definition StateTraverser ::
  "('t, 'p) traversal_ops \<Rightarrow> automata \<Rightarrow> 'p \<Rightarrow> ('t, 'p) StateTraverser" where
  "StateTraverser ops A payload =
     traverser_next ops A \<lparr>current_state = GetStartState A, current_weight = 0, current_label = 0,
       stack = fill_states ops A (GetStartState A) 0 (TraversalStack payload)\<rparr>"

definition StateTraverser_from ::
  "('t, 'p) traversal_ops \<Rightarrow> automata \<Rightarrow> u64 \<Rightarrow> 'p \<Rightarrow> bool \<Rightarrow> ('t, 'p) StateTraverser" where
  "StateTraverser_from ops A start_state payload advance =
     (let t = \<lparr>current_state = start_state, current_weight = 0, current_label = 0,
               stack = fill_states ops A start_state (GetInnerWeight A start_state) (TraversalStack payload)\<rparr>
      in if advance then traverser_next ops A t else t)"

definition Prune :: "('t, 'p) traversal_ops \<Rightarrow> ('t, 'p) StateTraverser \<Rightarrow> ('t, 'p) StateTraverser" where
  "Prune ops t = t\<lparr>stack := update_states ops TS_inc (stack_dec ops (stack t))\<rparr>"

definition SetMinWeight ::
  "u32 \<Rightarrow> (WeightedTransition, WeightedPayload) StateTraverser \<Rightarrow> (WeightedTransition, WeightedPayload) StateTraverser" where
  "SetMinWeight w t =
     t\<lparr>stack := (stack t)\<lparr>traversal_stack_payload := (traversal_stack_payload (stack t))\<lparr>min_weight := w\<rparr>\<rparr>\<rparr>"

section \<open>The entry iterator\<close>

type_synonym plain_stack = "(Transition, TraversalPayload) TraversalStack"

record EntryIterator =
  ei_fsa :: "automata option"
  ei_state :: u64
  ei_value :: u64
  traversal_stack :: "u8 list"
  ei_stack :: plain_stack

definition plain_stack :: plain_stack where
  "plain_stack = TraversalStack \<lparr>current_depth = 0\<rparr>"

definition end_iterator :: EntryIterator where
  "end_iterator = \<lparr>ei_fsa = None, ei_state = 0, ei_value = 0, traversal_stack = [], ei_stack = plain_stack\<rparr>"

definition EI_Clear :: "EntryIterator \<Rightarrow> EntryIterator" where
  "EI_Clear it = it\<lparr>ei_fsa := None, ei_state := 0, ei_value := 0\<rparr>"

function EI_go_up :: "nat \<Rightarrow> u8 list \<Rightarrow> plain_stack \<Rightarrow> u64 \<times> u8 list \<times> plain_stack" where
  "EI_go_up depth path stk =
     (let s = GetNextState plain_ops (GetStates plain_ops stk) in
      if s \<noteq> 0 \<or> depth = 0 then (s, path, stk)
      else EI_go_up (depth - 1) (butlast path) (update_states plain_ops TS_inc (stack_dec plain_ops stk)))"
  by pat_completeness auto
termination by (relation "measure (\<lambda>(depth, path, stk). depth)") auto

declare EI_go_up.simps [simp del]

text \<open>The endless loop: \<open>None\<close> stands for a traversal that never meets a final state again.\<close>

partial_function (option) EI_loop :: "automata \<Rightarrow> EntryIterator \<Rightarrow> EntryIterator option" where
  "EI_loop A it =
     (let (s, path, stk) = EI_go_up (GetDepth plain_ops (ei_stack it)) (traversal_stack it) (ei_stack it)
      in if s = 0 then Some (EI_Clear (it\<lparr>ei_state := s, traversal_stack := path, ei_stack := stk\<rparr>))
         else (let it' = it\<lparr>ei_state := s,
                            traversal_stack := path @ [GetNextTransition plain_ops (GetStates plain_ops stk)],
                            ei_stack := fill_states plain_ops A s 0 (stack_inc plain_ops stk)\<rparr>
               in if IsFinalState A s then Some (it'\<lparr>ei_value := GetStateValue A s\<rparr>)
                  else EI_loop A it'))"

definition TraverseToNextFinalState :: "EntryIterator \<Rightarrow> EntryIterator option" where
  "TraverseToNextFinalState it =
     (if ei_state it = 0 then Some it else EI_loop (the (ei_fsa it)) it)"

definition EntryIterator :: "automata \<Rightarrow> u64 \<Rightarrow> EntryIterator option" where
  "EntryIterator A start_state =
     (if GetNumberOfKeys A > 0
      then TraverseToNextFinalState \<lparr>ei_fsa = Some A, ei_state = start_state, ei_value = 0, traversal_stack = [],
             ei_stack = fill_states plain_ops A start_state 0 plain_stack\<rparr>
      else Some end_iterator)"

definition EI_next :: "EntryIterator \<Rightarrow> EntryIterator option" where
  "EI_next it = TraverseToNextFinalState it"

definition EI_GetDepth :: "EntryIterator \<Rightarrow> nat" where
  "EI_GetDepth it = GetDepth plain_ops (ei_stack it)"

definition EI_GetKey :: "EntryIterator \<Rightarrow> u8 list" where
  "EI_GetKey it = take (EI_GetDepth it) (traversal_stack it)"

definition EI_GetValueId :: "EntryIterator \<Rightarrow> u64" where
  "EI_GetValueId it = ei_value it"

text \<open>The comparisons: iterators by their state, keys by \<open>memcmp\<close> and length.\<close>

definition EI_eq :: "EntryIterator \<Rightarrow> EntryIterator \<Rightarrow> bool" where
  "EI_eq it other \<longleftrightarrow> ei_state it = ei_state other"

definition EI_eq_key :: "EntryIterator \<Rightarrow> u8 list \<Rightarrow> bool" where
  "EI_eq_key it other_key \<longleftrightarrow>
     (if EI_GetDepth it \<noteq> length other_key then False
      else take (length other_key) (traversal_stack it) = other_key)"

fun memcmp :: "u8 list \<Rightarrow> u8 list \<Rightarrow> int" where
  "memcmp (x # xs) (y # ys) = (if x < y then -1 else if x > y then 1 else memcmp xs ys)"
| "memcmp _ _ = 0"

definition EI_less :: "EntryIterator \<Rightarrow> EntryIterator \<Rightarrow> bool" where
  "EI_less it other =
     (let n = min (length (traversal_stack it)) (length (traversal_stack other));
          compare_result = memcmp (take n (traversal_stack other)) (take n (traversal_stack it))
      in if compare_result = 0 then length (traversal_stack it) < length (traversal_stack other)
         else compare_result > 0)"

definition EI_greater :: "EntryIterator \<Rightarrow> EntryIterator \<Rightarrow> bool" where
  "EI_greater it other \<longleftrightarrow> \<not> EI_less it other"

section \<open>The traversal as a list of pending nodes\<close>

text \<open>
  The stack of the plain traversal, read as the list of nodes still to visit in depth-first order.  On
  the levels below the top the transition at the current position is being explored; on the top level
  it is the next one.
\<close>

definition transition_pair :: "Transition \<Rightarrow> u64 \<times> u8" where
  "transition_pair t = (tr_state t, tr_label t)"

definition level :: "plain_stack \<Rightarrow> nat \<Rightarrow> (u64 \<times> u8) list" where
  "level stk k = map transition_pair (ts_transitions (traversal_states stk ! k))"

definition pos :: "plain_stack \<Rightarrow> nat \<Rightarrow> nat" where
  "pos stk k = ts_position (traversal_states stk ! k)"

abbreviation depth :: "plain_stack \<Rightarrow> nat" where
  "depth stk \<equiv> current_depth (traversal_stack_payload stk)"

definition path_to :: "plain_stack \<Rightarrow> nat \<Rightarrow> u8 list" where
  "path_to stk k = map (\<lambda>j. snd (level stk j ! pos stk j)) [0..<k]"

definition subtree :: "automata \<Rightarrow> nat \<Rightarrow> u8 list \<Rightarrow> (u64 \<times> u8) list \<Rightarrow> (u8 list \<times> u64) list" where
  "subtree A n path ts = concat (map (\<lambda>(t, c). (path @ [c], t) # nodes (outgoing A) n (path @ [c]) t) ts)"

text \<open>The nodes pending on the levels below \<open>k\<close>.\<close>

definition lower :: "automata \<Rightarrow> nat \<Rightarrow> plain_stack \<Rightarrow> nat \<Rightarrow> (u8 list \<times> u64) list" where
  "lower A N stk k = concat (map (\<lambda>j. subtree A (N - Suc j) (path_to stk j) (drop (Suc (pos stk j)) (level stk j)))
     (rev [0..<k]))"

definition pending :: "automata \<Rightarrow> nat \<Rightarrow> plain_stack \<Rightarrow> (u8 list \<times> u64) list" where
  "pending A N stk =
     subtree A (N - Suc (depth stk)) (path_to stk (depth stk)) (drop (pos stk (depth stk)) (level stk (depth stk)))
     @ lower A N stk (depth stk)"

definition stack_ok :: "automata \<Rightarrow> nat \<Rightarrow> plain_stack \<Rightarrow> bool" where
  "stack_ok A N stk \<longleftrightarrow> depth stk < length (traversal_states stk) \<and> depth stk \<le> N
     \<and> (\<forall>k < depth stk. pos stk k < length (level stk k))
     \<and> (\<forall>k \<le> depth stk. \<forall>(t, c) \<in> set (level stk k). k < N \<and> t \<noteq> 0 \<and> fsa_depth A (N - Suc k) t)"

lemma plain_ops_simps [simp]:
  "GetDepth plain_ops stk = depth stk" "GetStates plain_ops stk = traversal_states stk ! depth stk"
  "op_filter plain_ops = (\<lambda>_ _. True)" "op_weight plain_ops = (\<lambda>_. 0)"
  by (simp_all add: GetDepth_def GetStates_def plain_ops_def)

lemma FilterByMinWeight_plain: "FilterByMinWeight plain_ops stk = GetNextState plain_ops (traversal_states stk ! depth stk)"
  by (simp add: FilterByMinWeight_def Let_def word_gt_0)

lemma next_state_level:
  "GetNextState plain_ops (traversal_states stk ! k) =
     (if pos stk k < length (level stk k) then fst (level stk k ! pos stk k) else 0)"
  by (simp add: GetNextState_def plain_ops_def level_def pos_def transition_pair_def)

lemma next_label_level:
  "pos stk k < length (level stk k) \<Longrightarrow>
     GetNextTransition plain_ops (traversal_states stk ! k) = snd (level stk k ! pos stk k)"
  by (simp add: GetNextTransition_def plain_ops_def level_def pos_def transition_pair_def)

text \<open>One step up: leave the exhausted top level and move on in the level below.\<close>

definition up :: "plain_stack \<Rightarrow> plain_stack" where
  "up stk = update_states plain_ops TS_inc (stack_dec plain_ops stk)"

lemma up_levels:
  assumes "0 < depth stk" "depth stk < length (traversal_states stk)"
  shows "depth (up stk) = depth stk - 1" "length (traversal_states (up stk)) = length (traversal_states stk)"
    "level (up stk) k = level stk k"
    "pos (up stk) k = (if k = depth stk - 1 then Suc (pos stk k) else pos stk k)"
proof -
  have stk: "stack_dec plain_ops stk = stk\<lparr>traversal_stack_payload :=
      (traversal_stack_payload stk)\<lparr>current_depth := depth stk - 1\<rparr>\<rparr>"
    by (simp add: stack_dec_def plain_ops_def)
  show "depth (up stk) = depth stk - 1" "length (traversal_states (up stk)) = length (traversal_states stk)"
    "level (up stk) k = level stk k"
    "pos (up stk) k = (if k = depth stk - 1 then Suc (pos stk k) else pos stk k)"
    using assms by (simp_all add: up_def update_states_def stk level_def pos_def TS_inc_def nth_list_update)
qed

lemma path_to_cong:
  "(\<And>j. j < k \<Longrightarrow> level stk' j = level stk j \<and> pos stk' j = pos stk j) \<Longrightarrow> path_to stk' k = path_to stk k"
  by (simp add: path_to_def)

lemma lower_cong:
  assumes "\<And>j. j < k \<Longrightarrow> level stk' j = level stk j \<and> pos stk' j = pos stk j"
  shows "lower A N stk' k = lower A N stk k"
  unfolding lower_def using assms path_to_cong [of _ stk' stk]
  by (intro arg_cong [where f = concat] map_cong) auto

lemma stack_ok_up:
  assumes "stack_ok A N stk" "0 < depth stk" "length (level stk (depth stk)) \<le> pos stk (depth stk)"
  shows "stack_ok A N (up stk)" "pending A N (up stk) = pending A N stk"
proof -
  let ?d = "depth stk - 1"
  have len: "depth stk < length (traversal_states stk)" using assms(1) by (simp add: stack_ok_def)
  note u = up_levels [OF assms(2) len]
  show "stack_ok A N (up stk)" using assms(1,2) by (auto simp: stack_ok_def u)
  have same: "level (up stk) j = level stk j \<and> pos (up stk) j = pos stk j" if "j < ?d" for j
    using that by (simp add: u)
  have d: "depth stk = Suc ?d" using assms(2) by simp
  have "lower A N stk (depth stk) =
      subtree A (N - Suc ?d) (path_to stk ?d) (drop (Suc (pos stk ?d)) (level stk ?d)) @ lower A N stk ?d"
    unfolding lower_def by (subst d) simp
  moreover have "subtree A (N - Suc (depth stk)) (path_to stk (depth stk))
      (drop (pos stk (depth stk)) (level stk (depth stk))) = []"
    using assms(3) by (simp add: subtree_def)
  ultimately show "pending A N (up stk) = pending A N stk"
    using path_to_cong [OF same] lower_cong [OF same] by (simp add: pending_def u)
qed

lemma subtree_Cons:
  "subtree A n path (x # ts) =
     (path @ [snd x], fst x) # nodes (outgoing A) n (path @ [snd x]) (fst x) @ subtree A n path ts"
  by (simp add: subtree_def split_def)

lemma top_next:
  assumes "stack_ok A N stk" "pos stk (depth stk) < length (level stk (depth stk))"
  defines "x \<equiv> level stk (depth stk) ! pos stk (depth stk)"
  shows "fst x \<noteq> 0" "depth stk < N" "fsa_depth A (N - Suc (depth stk)) (fst x)"
    "pending A N stk = (path_to stk (depth stk) @ [snd x], fst x)
       # nodes (outgoing A) (N - Suc (depth stk)) (path_to stk (depth stk) @ [snd x]) (fst x)
       @ lower A N stk (Suc (depth stk))"
proof -
  have "x \<in> set (level stk (depth stk))" using assms(2) by (simp add: x_def)
  then have "(fst x, snd x) \<in> set (level stk (depth stk))" by simp
  with assms(1) show "fst x \<noteq> 0" "depth stk < N" "fsa_depth A (N - Suc (depth stk)) (fst x)"
    unfolding stack_ok_def by blast+
  have "drop (pos stk (depth stk)) (level stk (depth stk)) =
      x # drop (Suc (pos stk (depth stk))) (level stk (depth stk))"
    using assms(2) by (simp add: x_def Cons_nth_drop_Suc)
  then show "pending A N stk = (path_to stk (depth stk) @ [snd x], fst x)
       # nodes (outgoing A) (N - Suc (depth stk)) (path_to stk (depth stk) @ [snd x]) (fst x)
       @ lower A N stk (Suc (depth stk))"
    by (simp add: pending_def subtree_Cons lower_def)
qed

text \<open>
  Going up finds the first pending node, or 0 when none is pending.
\<close>

lemma go_up_pending:
  assumes "stack_ok A N stk"
  defines "r \<equiv> go_up plain_ops (depth stk) stk"
  shows "stack_ok A N (snd r) \<and> pending A N (snd r) = pending A N stk
    \<and> (if pending A N stk = [] then fst r = 0
       else pos (snd r) (depth (snd r)) < length (level (snd r) (depth (snd r)))
         \<and> fst r = fst (level (snd r) (depth (snd r)) ! pos (snd r) (depth (snd r))))"
  using assms(1) unfolding r_def
proof (induction "depth stk" arbitrary: stk)
  case 0
  show ?case
  proof (cases "pos stk (depth stk) < length (level stk (depth stk))")
    case True
    from top_next [OF "0.prems" True] True "0.prems" show ?thesis
      by (simp add: go_up.simps FilterByMinWeight_plain next_state_level)
  next
    case False
    then have "pending A N stk = []" using "0.hyps" by (simp add: pending_def subtree_def lower_def)
    with 0 False show ?thesis by (simp add: go_up.simps FilterByMinWeight_plain next_state_level)
  qed
next
  case (Suc d)
  show ?case
  proof (cases "pos stk (depth stk) < length (level stk (depth stk))")
    case True
    from top_next [OF Suc.prems True] True Suc.prems show ?thesis
      by (simp add: go_up.simps [of _ _ stk] FilterByMinWeight_plain next_state_level)
  next
    case False
    have up: "stack_ok A N (up stk)" "pending A N (up stk) = pending A N stk"
      using stack_ok_up [OF Suc.prems] Suc.hyps(2) False by auto
    have d: "d = depth (up stk)"
      using up_levels(1) [of stk] Suc.hyps(2) Suc.prems by (simp add: stack_ok_def)
    have "go_up plain_ops (depth stk) stk = go_up plain_ops (depth (up stk)) (up stk)"
    proof -
      have "depth stk - 1 = depth (up stk)" "depth stk \<noteq> 0" using d Suc.hyps(2) by simp_all
      moreover have "FilterByMinWeight plain_ops stk = 0"
        using False by (simp add: FilterByMinWeight_plain next_state_level)
      ultimately show ?thesis
        unfolding go_up.simps [of _ "depth stk" stk] up_def [symmetric] by simp
    qed
    with Suc.hyps(1) [OF d up(1)] up(2) show ?thesis by simp
  qed
qed

text \<open>One step down: open a new top level with the outgoing transitions of the state found.\<close>

definition down :: "automata \<Rightarrow> u64 \<Rightarrow> plain_stack \<Rightarrow> plain_stack" where
  "down A s stk = fill_states plain_ops A s 0 (stack_inc plain_ops stk)"

lemma GetOutGoingTransitions_plain:
  "map transition_pair (ts_transitions (GetOutGoingTransitions A s ts)) = outgoing A s"
  "ts_position (GetOutGoingTransitions A s ts) = 0"
proof -
  have "ts_transitions (fold (\<lambda>c. TS_Add (f c) c) cs ts) =
      ts_transitions ts @ map (\<lambda>c. \<lparr>tr_state = f c, tr_label = c\<rparr>) cs"
    "ts_position (fold (\<lambda>c. TS_Add (f c) c) cs ts) = ts_position ts" for f cs ts
    by (induction cs arbitrary: ts) (simp_all add: TS_Add_def TS_push_back_def)
  then show "map transition_pair (ts_transitions (GetOutGoingTransitions A s ts)) = outgoing A s"
    "ts_position (GetOutGoingTransitions A s ts) = 0"
    by (simp_all add: GetOutGoingTransitions_def match_labels_eq TS_Clear_def outgoing_def transition_pair_def comp_def)
qed

lemma down_levels:
  assumes "depth stk < length (traversal_states stk)"
  shows "depth (down A s stk) = Suc (depth stk)" "Suc (depth stk) < length (traversal_states (down A s stk))"
    "level (down A s stk) (Suc (depth stk)) = outgoing A s" "pos (down A s stk) (Suc (depth stk)) = 0"
    "k \<le> depth stk \<Longrightarrow> level (down A s stk) k = level stk k" "k \<le> depth stk \<Longrightarrow> pos (down A s stk) k = pos stk k"
proof -
  define st where "st = stack_inc plain_ops stk"
  have st: "depth st = Suc (depth stk)" "Suc (depth stk) < length (traversal_states st)"
    "\<And>k. k \<le> depth stk \<Longrightarrow> traversal_states st ! k = traversal_states stk ! k"
    using assms by (auto simp: st_def stack_inc_def Let_def plain_ops_def GetDepth_def resize_states_def nth_append)
  have d: "down A s stk = st\<lparr>traversal_states := (traversal_states st)
      [depth st := GetOutGoingTransitions A s (traversal_states st ! depth st)]\<rparr>"
    by (simp add: down_def fill_states_def st_def [symmetric] update_states_def) (simp add: plain_ops_def)
  show "depth (down A s stk) = Suc (depth stk)" "Suc (depth stk) < length (traversal_states (down A s stk))"
    "level (down A s stk) (Suc (depth stk)) = outgoing A s" "pos (down A s stk) (Suc (depth stk)) = 0"
    "k \<le> depth stk \<Longrightarrow> level (down A s stk) k = level stk k" "k \<le> depth stk \<Longrightarrow> pos (down A s stk) k = pos stk k"
    using st by (auto simp: d level_def pos_def GetOutGoingTransitions_plain)
qed

lemma stack_ok_down:
  assumes "stack_ok A N stk" "pos stk (depth stk) < length (level stk (depth stk))"
  defines "x \<equiv> level stk (depth stk) ! pos stk (depth stk)"
  shows "stack_ok A N (down A (fst x) stk)"
    "pending A N stk = (path_to stk (depth stk) @ [snd x], fst x) # pending A N (down A (fst x) stk)"
    "path_to (down A (fst x) stk) (Suc (depth stk)) = path_to stk (depth stk) @ [snd x]"
proof -
  let ?s = "down A (fst x) stk"
  have len: "depth stk < length (traversal_states stk)" using assms(1) by (simp add: stack_ok_def)
  note dl = down_levels [OF len, where A = A and s = "fst x"]
  note top = top_next [OF assms(1,2), folded x_def]
  obtain m where m: "N - depth stk = Suc m" using top(2) by (metis Suc_diff_Suc)
  then have m': "N - Suc (depth stk) = m" "N - Suc (Suc (depth stk)) = m - 1" by simp_all
  have below: "level ?s j = level stk j \<and> pos ?s j = pos stk j" if "j < Suc (depth stk)" for j
    using that dl(5,6) by simp
  show path: "path_to ?s (Suc (depth stk)) = path_to stk (depth stk) @ [snd x]"
    using path_to_cong [OF below] by (simp add: path_to_def x_def)
  have new: "Suc (depth stk) < N \<and> t \<noteq> 0 \<and> fsa_depth A (N - Suc (Suc (depth stk))) t"
    if "(t, c) \<in> set (outgoing A (fst x))" for t c
    using top(3) that m' by (cases m) auto
  show "stack_ok A N ?s"
  proof -
    have "pos ?s k < length (level ?s k)" if "k < Suc (depth stk)" for k
      using that assms(1,2) below [OF that] by (cases "k = depth stk") (auto simp: stack_ok_def)
    moreover have "\<forall>(t, c) \<in> set (level ?s k). k < N \<and> t \<noteq> 0 \<and> fsa_depth A (N - Suc k) t"
      if "k \<le> Suc (depth stk)" for k
    proof (cases "k = Suc (depth stk)")
      case True
      with new dl(3) show ?thesis by auto
    next
      case False
      with that have "k \<le> depth stk" by simp
      with assms(1) dl(5) show ?thesis unfolding stack_ok_def by simp
    qed
    ultimately show ?thesis using top(2) dl(1,2) unfolding stack_ok_def by simp
  qed
  have "nodes (outgoing A) (N - Suc (depth stk)) (path_to stk (depth stk) @ [snd x]) (fst x) =
      subtree A (N - Suc (Suc (depth stk))) (path_to stk (depth stk) @ [snd x]) (outgoing A (fst x))"
    using top(3) m' by (cases m) (auto simp: subtree_def)
  then show "pending A N stk = (path_to stk (depth stk) @ [snd x], fst x) # pending A N ?s"
    unfolding top(4) using path lower_cong [OF below] dl(1,3,4) by (simp add: pending_def)
qed

section \<open>The traverser visits the nodes in order\<close>

lemma traverser_next_unfold:
  assumes "current_state t \<noteq> 0" "go_up plain_ops (depth (stack t)) (stack t) = (s, stk)" "s \<noteq> 0"
  shows "traverser_next plain_ops A t =
    t\<lparr>current_state := s, current_label := GetNextTransition plain_ops (traversal_states stk ! depth stk),
      current_weight := 0, stack := down A s stk\<rparr>"
  using assms by (simp add: traverser_next_def Let_def GetNextInnerWeight_def down_def)

lemma length_path_to [simp]: "length (path_to stk k) = k"
  by (simp add: path_to_def)

lemma traverser_next_pending:
  assumes t: "current_state t \<noteq> 0" "stack_ok A N (stack t)"
  shows "pending A N (stack t) = [] \<Longrightarrow> current_state (traverser_next plain_ops A t) = 0"
    and "pending A N (stack t) = (w, s) # rest \<Longrightarrow>
      (let t' = traverser_next plain_ops A t in
        current_state t' = s \<and> s \<noteq> 0 \<and> stack_ok A N (stack t') \<and> pending A N (stack t') = rest
      \<and> depth (stack t') = length w \<and> w \<noteq> [] \<and> current_label t' = last w \<and> path_to (stack t') (length w) = w)"
proof -
  obtain s' stk where r: "go_up plain_ops (depth (stack t)) (stack t) = (s', stk)" by fastforce
  note up = go_up_pending [OF t(2), unfolded r fst_conv snd_conv]
  show "pending A N (stack t) = [] \<Longrightarrow> current_state (traverser_next plain_ops A t) = 0"
    using up r t by (simp add: traverser_next_def)
  assume p: "pending A N (stack t) = (w, s) # rest"
  then have top: "stack_ok A N stk" "pos stk (depth stk) < length (level stk (depth stk))"
    "s' = fst (level stk (depth stk) ! pos stk (depth stk))" using up by simp_all
  note d = stack_ok_down [OF top(1,2), folded top(3)]
  have s: "w = path_to stk (depth stk) @ [snd (level stk (depth stk) ! pos stk (depth stk))]" "s' = s"
    "pending A N (down A s' stk) = rest"
    using d(2) up p by auto
  have ne: "s' \<noteq> 0" using top_next(1) [OF top(1,2)] top(3) by simp
  have len: "depth stk < length (traversal_states stk)" using top(1) by (simp add: stack_ok_def)
  show "let t' = traverser_next plain_ops A t in
        current_state t' = s \<and> s \<noteq> 0 \<and> stack_ok A N (stack t') \<and> pending A N (stack t') = rest
      \<and> depth (stack t') = length w \<and> w \<noteq> [] \<and> current_label t' = last w \<and> path_to (stack t') (length w) = w"
    unfolding traverser_next_unfold [OF t(1) r ne] Let_def
    using d s ne top next_label_level [OF top(2)] down_levels(1) [OF len, of A s'] by simp
qed

text \<open>The \<open>k\<close>-th increment.\<close>

definition traverser_at :: "automata \<Rightarrow> (Transition, TraversalPayload) StateTraverser \<Rightarrow> nat \<Rightarrow> (Transition, TraversalPayload) StateTraverser" where
  "traverser_at A t k = (traverser_next plain_ops A ^^ k) t"

lemma traverser_run:
  assumes "current_state t \<noteq> 0" "stack_ok A N (stack t)" "k < length (pending A N (stack t))"
  shows "let t' = traverser_at A t (Suc k) in
      current_state t' \<noteq> 0 \<and> current_state t' = snd (pending A N (stack t) ! k) \<and> stack_ok A N (stack t')
    \<and> pending A N (stack t') = drop (Suc k) (pending A N (stack t))
    \<and> depth (stack t') = length (fst (pending A N (stack t) ! k))
    \<and> current_label t' = last (fst (pending A N (stack t) ! k))"
  using assms(3)
proof (induction k)
  case 0
  then obtain w s rest where p: "pending A N (stack t) = (w, s) # rest" by (cases "pending A N (stack t)") auto
  from traverser_next_pending(2) [OF assms(1,2) p] p show ?case by (simp add: traverser_at_def Let_def)
next
  case (Suc k)
  define t1 where "t1 = traverser_at A t (Suc k)"
  have t1: "current_state t1 \<noteq> 0" "stack_ok A N (stack t1)"
    "pending A N (stack t1) = drop (Suc k) (pending A N (stack t))"
    using Suc.IH Suc.prems by (auto simp: t1_def Let_def)
  obtain w s where ws: "pending A N (stack t) ! Suc k = (w, s)" by fastforce
  then have "pending A N (stack t1) = (w, s) # drop (Suc (Suc k)) (pending A N (stack t))"
    using t1(3) Suc.prems by (metis Cons_nth_drop_Suc)
  from traverser_next_pending(2) [OF t1(1,2) this] ws show ?case
    by (simp add: traverser_at_def t1_def Let_def)
qed

lemma initial_stack:
  fixes w :: u32
  assumes "fsa_depth A N s"
  defines "stk \<equiv> fill_states plain_ops A s w plain_stack"
  shows "stack_ok A N stk" "pending A N stk = nodes (outgoing A) N [] s" "depth stk = 0"
proof -
  let ?ts = "GetOutGoingTransitions A s empty_state"
  have stk: "stk = \<lparr>traversal_states = (replicate 20 empty_state)[0 := ?ts],
      traversal_stack_payload = \<lparr>current_depth = 0\<rparr>\<rparr>"
    by (simp add: stk_def fill_states_def update_states_def plain_stack_def TraversalStack_def)
       (simp add: plain_ops_def)
  have l: "level stk 0 = outgoing A s" "pos stk 0 = 0" "depth stk = 0"
    by (simp_all add: stk level_def pos_def GetOutGoingTransitions_plain)
  show "stack_ok A N stk"
    using assms(1) l by (cases N) (auto simp: stack_ok_def stk)
  show "pending A N stk = nodes (outgoing A) N [] s"
    using assms(1) l by (cases N) (auto simp: pending_def subtree_def lower_def path_to_def)
  show "depth stk = 0" by (rule l)
qed

section \<open>The entry iterator visits the entries in order\<close>

text \<open>The iterator's own way up keeps the path in step with the stack.\<close>

lemma EI_go_up_eq:
  assumes "stack_ok A N stk"
  shows "EI_go_up (depth stk) (path_to stk (depth stk)) stk =
    (let (s, stk') = go_up plain_ops (depth stk) stk in (s, path_to stk' (depth stk'), stk'))"
  using assms
proof (induction "depth stk" arbitrary: stk)
  case 0
  then show ?case
    by (simp add: EI_go_up.simps [of _ _ stk] go_up.simps [of _ _ stk] FilterByMinWeight_plain Let_def)
next
  case (Suc d)
  show ?case
  proof (cases "GetNextState plain_ops (traversal_states stk ! depth stk) = 0")
    case False
    then show ?thesis
      by (simp add: EI_go_up.simps [of _ _ stk] go_up.simps [of _ _ stk] FilterByMinWeight_plain Let_def)
  next
    case True
    then have "length (level stk (depth stk)) \<le> pos stk (depth stk)"
      using top_next(1) [OF Suc.prems] by (fastforce simp: next_state_level not_le split: if_splits)
    then have up: "stack_ok A N (up stk)" using stack_ok_up(1) [OF Suc.prems] Suc.hyps(2) by simp
    have len: "depth stk < length (traversal_states stk)" using Suc.prems by (simp add: stack_ok_def)
    note u = up_levels [OF _ len]
    have d: "d = depth (up stk)" "depth stk - 1 = depth (up stk)" "depth stk \<noteq> 0"
      using u(1) Suc.hyps(2) by simp_all
    have "path_to (up stk) d = path_to stk d"
      using Suc.hyps(2) by (intro path_to_cong) (simp add: u)
    moreover have "butlast (path_to stk (depth stk)) = path_to stk d"
      unfolding Suc.hyps(2) [symmetric] by (simp add: path_to_def)
    ultimately have path: "butlast (path_to stk (depth stk)) = path_to (up stk) (depth (up stk))"
      using d(1) by simp
    have "EI_go_up (depth stk) (path_to stk (depth stk)) stk =
        EI_go_up (depth (up stk)) (path_to (up stk) (depth (up stk))) (up stk)"
      unfolding EI_go_up.simps [of "depth stk" _ stk] up_def [symmetric] path d(2) using True d(3) by simp
    moreover have "go_up plain_ops (depth stk) stk = go_up plain_ops (depth (up stk)) (up stk)"
      unfolding go_up.simps [of _ "depth stk" stk] up_def [symmetric] d(2)
      using True d(3) by (simp add: FilterByMinWeight_plain)
    ultimately show ?thesis using Suc.hyps(1) [OF d(1) up] by simp
  qed
qed

definition ei_ok :: "automata \<Rightarrow> nat \<Rightarrow> (u8 list \<times> u64) list \<Rightarrow> EntryIterator \<Rightarrow> bool" where
  "ei_ok A N pd it \<longleftrightarrow> ei_fsa it = Some A \<and> ei_state it \<noteq> 0 \<and> stack_ok A N (ei_stack it)
     \<and> traversal_stack it = path_to (ei_stack it) (depth (ei_stack it)) \<and> pending A N (ei_stack it) = pd"

text \<open>One turn of the loop takes the first pending node.\<close>

lemma EI_loop_turn:
  assumes "ei_ok A N pd it"
  shows "pd = [] \<Longrightarrow> \<exists>it'. EI_loop A it = Some it' \<and> ei_state it' = 0"
    and "pd = (w, s) # rest \<Longrightarrow> \<exists>it'. ei_ok A N rest it' \<and> EI_GetKey it' = w \<and> ei_value it' = ei_value it
      \<and> traversal_stack it' = w
      \<and> EI_loop A it = (if IsFinalState A s then Some (it'\<lparr>ei_value := GetStateValue A s\<rparr>) else EI_loop A it')"
proof -
  let ?stk = "ei_stack it"
  have it: "ei_fsa it = Some A" "ei_state it \<noteq> 0" "stack_ok A N ?stk"
    "traversal_stack it = path_to ?stk (depth ?stk)" "pending A N ?stk = pd"
    using assms by (simp_all add: ei_ok_def)
  obtain s' stk where r: "go_up plain_ops (depth ?stk) ?stk = (s', stk)" by fastforce
  have g: "EI_go_up (depth ?stk) (traversal_stack it) ?stk = (s', path_to stk (depth stk), stk)"
    using EI_go_up_eq [OF it(3)] r it(4) by simp
  note up = go_up_pending [OF it(3), unfolded r fst_conv snd_conv it(5)]
  show "\<exists>it'. EI_loop A it = Some it' \<and> ei_state it' = 0" if "pd = []"
    using up that g by (subst EI_loop.simps) (simp add: EI_Clear_def)
  assume p: "pd = (w, s) # rest"
  then have top: "stack_ok A N stk" "pos stk (depth stk) < length (level stk (depth stk))"
    "s' = fst (level stk (depth stk) ! pos stk (depth stk))" using up by simp_all
  note d = stack_ok_down [OF top(1,2), folded top(3)]
  have s: "w = path_to stk (depth stk) @ [snd (level stk (depth stk) ! pos stk (depth stk))]" "s' = s"
    "pending A N (down A s' stk) = rest"
    using d(2) up p by auto
  have ne: "s' \<noteq> 0" using top_next(1) [OF top(1,2)] top(3) by simp
  have len: "depth stk < length (traversal_states stk)" using top(1) by (simp add: stack_ok_def)
  let ?it' = "it\<lparr>ei_state := s, traversal_stack := w, ei_stack := down A s stk\<rparr>"
  have "ei_ok A N rest ?it'"
    using it(1) d s ne down_levels(1) [OF len] by (simp add: ei_ok_def)
  moreover have "EI_GetKey ?it' = w"
    using s(1) down_levels(1) [OF len] by (simp add: EI_GetKey_def EI_GetDepth_def)
  moreover have "EI_loop A it = (if IsFinalState A s then Some (?it'\<lparr>ei_value := GetStateValue A s\<rparr>) else EI_loop A ?it')"
    using g s ne next_label_level [OF top(2)]
    by (subst EI_loop.simps) (simp add: down_def Let_def)
  ultimately show "\<exists>it'. ei_ok A N rest it' \<and> EI_GetKey it' = w \<and> ei_value it' = ei_value it
      \<and> traversal_stack it' = w
      \<and> EI_loop A it = (if IsFinalState A s then Some (it'\<lparr>ei_value := GetStateValue A s\<rparr>) else EI_loop A it')"
    by (intro exI [of _ ?it']) simp
qed

abbreviation final_nodes :: "automata \<Rightarrow> (u8 list \<times> u64) list \<Rightarrow> (u8 list \<times> u64) list" where
  "final_nodes A \<equiv> filter (\<lambda>(w, t). IsFinalState A t)"

lemma EI_loop_final:
  assumes "ei_ok A N pd it"
  shows "case final_nodes A pd of
      [] \<Rightarrow> (\<exists>it'. EI_loop A it = Some it' \<and> ei_state it' = 0)
    | (w, s) # rest \<Rightarrow> (\<exists>it' pd'. EI_loop A it = Some it' \<and> ei_ok A N pd' it' \<and> final_nodes A pd' = rest
        \<and> EI_GetKey it' = w \<and> traversal_stack it' = w \<and> EI_GetValueId it' = GetStateValue A s)"
  using assms
proof (induction pd arbitrary: it)
  case Nil
  with EI_loop_turn(1) [OF Nil] show ?case by simp
next
  case (Cons x pd)
  obtain w s where x: "x = (w, s)" by (cases x)
  from EI_loop_turn(2) [OF Cons.prems] x obtain it1 where it1: "ei_ok A N pd it1" "EI_GetKey it1 = w"
    "traversal_stack it1 = w"
    "EI_loop A it = (if IsFinalState A s then Some (it1\<lparr>ei_value := GetStateValue A s\<rparr>) else EI_loop A it1)"
    by blast
  show ?case
  proof (cases "IsFinalState A s")
    case True
    have "ei_ok A N pd (it1\<lparr>ei_value := GetStateValue A s\<rparr>)" using it1(1) by (simp add: ei_ok_def)
    moreover have "EI_GetKey (it1\<lparr>ei_value := GetStateValue A s\<rparr>) = w"
      using it1(2) by (simp add: EI_GetKey_def EI_GetDepth_def)
    ultimately show ?thesis using True it1 x by (auto simp: EI_GetValueId_def)
  next
    case False
    then have "EI_loop A it = EI_loop A it1" "final_nodes A (x # pd) = final_nodes A pd"
      using it1(4) x by simp_all
    with Cons.IH [OF it1(1)] show ?thesis by metis
  qed
qed

text \<open>The iterator after \<open>k\<close> increments from the beginning.\<close>

primrec EI_at :: "automata \<Rightarrow> u64 \<Rightarrow> nat \<Rightarrow> EntryIterator option" where
  "EI_at A start 0 = EntryIterator A start"
| "EI_at A start (Suc k) = Option.bind (EI_at A start k) EI_next"

text \<open>
  \<open>yields A N items it\<close>: the iterator stands on the first of the items, the remaining ones follow, and
  after them comes the end.
\<close>

definition yields :: "automata \<Rightarrow> nat \<Rightarrow> (u8 list \<times> u64) list \<Rightarrow> EntryIterator \<Rightarrow> bool" where
  "yields A N items it \<longleftrightarrow>
     (case items of
        [] \<Rightarrow> ei_state it = 0
      | (w, s) # rest \<Rightarrow> \<exists>pd. ei_ok A N pd it \<and> final_nodes A pd = rest
          \<and> EI_GetKey it = w \<and> traversal_stack it = w \<and> EI_GetValueId it = GetStateValue A s)"

lemma EI_loop_yields:
  assumes "ei_ok A N pd it"
  shows "\<exists>it'. EI_loop A it = Some it' \<and> yields A N (final_nodes A pd) it'"
  using EI_loop_final [OF assms] by (cases "final_nodes A pd") (auto simp: yields_def)

lemma EI_next_yields:
  assumes "yields A N items it"
  shows "\<exists>it'. EI_next it = Some it' \<and> yields A N (tl items) it'"
proof (cases items)
  case Nil
  with assms show ?thesis by (auto simp: yields_def EI_next_def TraverseToNextFinalState_def)
next
  case (Cons x rest)
  with assms obtain pd where pd: "ei_ok A N pd it" "final_nodes A pd = rest"
    by (cases x) (auto simp: yields_def)
  then have "EI_next it = EI_loop A it"
    by (simp add: EI_next_def TraverseToNextFinalState_def ei_ok_def)
  with EI_loop_yields [OF pd(1)] pd(2) Cons show ?thesis by simp
qed

lemma EntryIterator_yields:
  assumes "number_of_keys A \<noteq> 0" "start \<noteq> 0" "fsa_depth A N start"
  shows "\<exists>it. EntryIterator A start = Some it \<and> yields A N (final_nodes A (nodes (outgoing A) N [] start)) it"
proof -
  let ?it = "\<lparr>ei_fsa = Some A, ei_state = start, ei_value = 0, traversal_stack = [],
             ei_stack = fill_states plain_ops A start 0 plain_stack\<rparr>"
  have "ei_ok A N (nodes (outgoing A) N [] start) ?it"
    using assms(2) initial_stack [OF assms(3), of 0] by (simp add: ei_ok_def path_to_def)
  from EI_loop_yields [OF this] assms(1,2) show ?thesis
    by (simp add: EntryIterator_def GetNumberOfKeys_def TraverseToNextFinalState_def word_gt_0)
qed

lemma EI_at_yields:
  assumes "number_of_keys A \<noteq> 0" "start \<noteq> 0" "fsa_depth A N start"
  shows "\<exists>it. EI_at A start k = Some it \<and> yields A N (drop k (final_nodes A (nodes (outgoing A) N [] start))) it"
proof (induction k)
  case 0
  show ?case using EntryIterator_yields [OF assms] by simp
next
  case (Suc k)
  then obtain it where it: "EI_at A start k = Some it"
    "yields A N (drop k (final_nodes A (nodes (outgoing A) N [] start))) it" by blast
  from EI_next_yields [OF it(2)] it(1) show ?case by (simp add: tl_drop drop_Suc [symmetric])
qed

section \<open>The weighted and the near traversal\<close>

text \<open>
  The weighted specialisation orders the transitions of a state by descending weight, keeps the label
  order among equal weights, and drops what is below the minimum weight.
\<close>

lemma set_stable_insert [simp]: "set (stable_insert R x xs) = insert x (set xs)"
  by (induction xs) auto

lemma length_stable_insert [simp]: "length (stable_insert R x xs) = Suc (length xs)"
  by (induction xs) auto

lemma sorted_stable_insert:
  assumes "sorted_wrt (\<lambda>a b. wt_weight a \<ge> wt_weight b) xs"
  shows "sorted_wrt (\<lambda>a b. wt_weight a \<ge> wt_weight b) (stable_insert WeightedTransitionCompare x xs)"
  using assms by (induction xs) (auto simp: WeightedTransitionCompare_def not_less)

lemma sorted_stable_sort: "sorted_wrt (\<lambda>a b. wt_weight a \<ge> wt_weight b) (stable_sort WeightedTransitionCompare xs)"
  unfolding stable_sort_def by (induction xs) (simp_all add: sorted_stable_insert)

lemma filter_stable_insert:
  "filter (\<lambda>t. wt_weight t = v) (stable_insert WeightedTransitionCompare x xs) =
     filter (\<lambda>t. wt_weight t = v) (x # xs)"
  by (induction xs) (auto simp: WeightedTransitionCompare_def)

lemma filter_stable_sort:
  "filter (\<lambda>t. wt_weight t = v) (stable_sort WeightedTransitionCompare xs) = filter (\<lambda>t. wt_weight t = v) xs"
  unfolding stable_sort_def by (induction xs) (simp_all add: filter_stable_insert)

definition weighted_outgoing :: "automata \<Rightarrow> u64 \<Rightarrow> u32 \<Rightarrow> WeightedTransition list" where
  "weighted_outgoing A s parent_weight =
     map (\<lambda>(t, c). \<lparr>wt_state = t,
        wt_weight = (if GetInnerWeight A t \<noteq> 0 then GetInnerWeight A t else parent_weight), wt_label = c\<rparr>)
       (outgoing A s)"

lemma weighted_transitions:
  "ts_transitions (GetOutGoingTransitions_weighted A s payload parent_weight ts) =
     stable_sort WeightedTransitionCompare
       (filter (\<lambda>t. wt_weight t \<ge> min_weight payload) (weighted_outgoing A s parent_weight))"
proof -
  let ?w = "\<lambda>t. if GetInnerWeight A t \<noteq> 0 then GetInnerWeight A t else parent_weight"
  let ?mk = "\<lambda>c. \<lparr>wt_state = ResolvePointer A s c, wt_weight = ?w (ResolvePointer A s c), wt_label = c\<rparr>"
  have "ts_transitions (fold (\<lambda>c ts. let child_state = ResolvePointer A s c; weight = GetInnerWeight A child_state;
          weight = (if weight \<noteq> 0 then weight else parent_weight)
        in TS_Add_weighted child_state weight c payload ts) cs ts) =
      ts_transitions ts @ filter (\<lambda>t. wt_weight t \<ge> min_weight payload) (map ?mk cs)" for cs ts
    by (induction cs arbitrary: ts) (simp_all add: TS_Add_weighted_def TS_push_back_def Let_def)
  moreover have "map ?mk (out_labels A s) = weighted_outgoing A s parent_weight"
    by (simp add: weighted_outgoing_def outgoing_def comp_def)
  ultimately show ?thesis
    by (simp add: GetOutGoingTransitions_weighted_def match_labels_eq TS_Clear_def TS_PostProcess_weighted_def
        TS_size_def stable_sort_def)
qed

text \<open>
  The near specialisation puts the transition on the path of the lookup key first, as long as the
  path is exact, and the others after it in label order.
\<close>

definition near_label :: "NearPayload \<Rightarrow> u8 \<Rightarrow> bool" where
  "near_label payload c \<longleftrightarrow> exact payload \<and> current_depth payload < length (lookup_key payload)
     \<and> lookup_key payload ! current_depth payload = c"

lemma near_fold:
  fixes f :: "u8 \<Rightarrow> u64" and payload :: NearPayload
  assumes "sorted_wrt (<) cs" "ts_transitions ts \<noteq> []"
  defines "r \<equiv> fold (\<lambda>c. near_Add (f c) c payload) cs ts"
  shows "ts_transitions r =
      (case find (near_label payload) cs of None \<Rightarrow> hd (ts_transitions ts)
       | Some c \<Rightarrow> \<lparr>tr_state = f c, tr_label = c\<rparr>)
      # tl (ts_transitions ts) @ map (\<lambda>c. \<lparr>tr_state = f c, tr_label = c\<rparr>) (filter (\<lambda>c. \<not> near_label payload c) cs)
    \<and> ts_position r = (if find (near_label payload) cs = None then ts_position ts else 0)"
  using assms(1,2) unfolding r_def
proof (induction cs arbitrary: ts)
  case (Cons c cs)
  let ?ts = "near_Add (f c) c payload ts"
  have add: "?ts = (if near_label payload c
      then ts\<lparr>ts_position := 0, ts_transitions := (ts_transitions ts)[0 := \<lparr>tr_state = f c, tr_label = c\<rparr>]\<rparr>
      else TS_Add (f c) c ts)" by (simp add: near_Add_def near_label_def)
  have ne: "ts_transitions ?ts \<noteq> []" using Cons.prems(2) by (simp add: add TS_Add_def TS_push_back_def)
  note IH = Cons.IH [OF _ ne]
  show ?case
  proof (cases "near_label payload c")
    case True
    then have "\<not> near_label payload c'" if "c' \<in> set cs" for c'
      using that Cons.prems(1) by (auto simp: near_label_def)
    then have none: "find (near_label payload) cs = None" "filter (\<lambda>c. \<not> near_label payload c) cs = cs"
      by (auto simp: find_None_iff filter_id_conv)
    with True IH Cons.prems show ?thesis by (cases "ts_transitions ts") (simp_all add: add)
  next
    case False
    with IH Cons.prems show ?thesis
      by (cases "ts_transitions ts") (auto simp: add TS_Add_def TS_push_back_def split: option.splits)
  qed
qed simp

lemma near_transitions:
  fixes payload :: NearPayload and A :: automata and s :: u64 and ts :: "Transition TraversalState"
  defines "r \<equiv> fst (GetOutGoingTransitions_near A s payload ts)"
  shows "map transition_pair (drop (ts_position r) (ts_transitions r)) =
    filter (\<lambda>(t, c). near_label payload c) (outgoing A s) @ filter (\<lambda>(t, c). \<not> near_label payload c) (outgoing A s)"
proof -
  let ?mk = "\<lambda>c. \<lparr>tr_state = ResolvePointer A s c, tr_label = c\<rparr>" and ?cs = "out_labels A s"
  let ?o = "find (near_label payload) ?cs"
  have clear: "ts_transitions (near_Clear ts) = [\<lparr>tr_state = 0, tr_label = 0\<rparr>]" "ts_position (near_Clear ts) = 1"
    by (simp_all add: near_Clear_def TS_Add_def TS_push_back_def)
  have r: "r = fold (\<lambda>c. near_Add (ResolvePointer A s c) c payload) ?cs (near_Clear ts)"
    by (simp add: r_def GetOutGoingTransitions_near_def Let_def match_labels_eq)
  have f: "ts_transitions r = (case ?o of None \<Rightarrow> \<lparr>tr_state = 0, tr_label = 0\<rparr> | Some c \<Rightarrow> ?mk c)
      # map ?mk (filter (\<lambda>c. \<not> near_label payload c) ?cs)" "ts_position r = (if ?o = None then 1 else 0)"
    using near_fold [OF sorted_out_labels, of "near_Clear ts" "ResolvePointer A s" payload A s] clear r by (simp_all split: option.splits)
  have rest: "filter (\<lambda>(t, c). P c) (outgoing A s) = map (transition_pair \<circ> ?mk) (filter P ?cs)" for P
    by (simp add: outgoing_def filter_map comp_def transition_pair_def)
  show ?thesis
  proof (cases ?o)
    case None
    then have "filter (near_label payload) ?cs = []" by (simp add: find_None_iff filter_empty_conv)
    with None f show ?thesis by (simp add: rest)
  next
    case (Some c)
    then have "c \<in> set ?cs" "near_label payload c" by (auto simp: find_Some_iff)
    then have "filter (near_label payload) ?cs = [c]"
      using sorted_wrt_filter [OF sorted_out_labels [of A s]]
      by (intro strict_sorted_equal) (auto simp: near_label_def)
    with Some f show ?thesis by (simp add: rest)
  qed
qed

section \<open>The order of the iterators\<close>

lemma memcmp_prefix:
  "memcmp (take (min (length xs) (length ys)) ys) (take (min (length xs) (length ys)) xs) =
     (if take (min (length xs) (length ys)) ys = take (min (length xs) (length ys)) xs then 0
      else if key_less xs ys then 1 else -1)"
  by (induction ys xs rule: memcmp.induct) auto

lemma key_less_prefix:
  "take (min (length xs) (length ys)) ys = take (min (length xs) (length ys)) xs \<Longrightarrow>
     key_less xs ys \<longleftrightarrow> length xs < length ys" for xs :: "u8 list"
  by (induction ys xs rule: memcmp.induct) (auto simp: lexordp_simps neq_Nil_conv)

lemma EI_less_iff: "EI_less it other \<longleftrightarrow> key_less (traversal_stack it) (traversal_stack other)"
  using key_less_prefix [of "traversal_stack it" "traversal_stack other"]
  by (simp add: EI_less_def Let_def memcmp_prefix)

section \<open>Properties\<close>

text \<open>
  C16: the state traverser is a depth-first traversal.  From a start state of bounded depth, the \<open>k\<close>-th
  state it stands on is the \<open>k\<close>-th node below the start state in depth-first order, with the label of
  its last transition and the depth of its path; after the last node it is exhausted (state 0), and it
  stays so.
\<close>

theorem state_traverser_depth_first:
  assumes "fsa_depth A N start" "start \<noteq> 0"
  defines "ns \<equiv> nodes (outgoing A) N [] start"
    and "t \<equiv> StateTraverser_from plain_ops A start \<lparr>current_depth = 0\<rparr> True"
  shows "if k < length ns
    then current_state (traverser_at A t k) = snd (ns ! k) \<and> current_label (traverser_at A t k) = last (fst (ns ! k))
       \<and> GetDepth plain_ops (stack (traverser_at A t k)) = length (fst (ns ! k))
    else current_state (traverser_at A t k) = 0"
proof -
  let ?t0 = "StateTraverser_from plain_ops A start \<lparr>current_depth = 0\<rparr> False"
  have t0: "current_state ?t0 \<noteq> 0" "stack_ok A N (stack ?t0)" "pending A N (stack ?t0) = ns"
    using initial_stack [OF assms(1)] assms(2)
    by (simp_all add: StateTraverser_from_def ns_def plain_stack_def)
  have t: "traverser_at A t k = traverser_at A ?t0 (Suc k)" for k
    by (simp add: traverser_at_def t_def StateTraverser_from_def Let_def funpow_Suc_right del: funpow.simps)
  show ?thesis
  proof (cases "k < length ns")
    case True
    with traverser_run [OF t0(1,2)] t0(3) show ?thesis by (simp add: t Let_def)
  next
    case False
    have "current_state (traverser_at A ?t0 (Suc (length ns + j))) = 0" for j
    proof (induction j)
      case 0
      show ?case
      proof (cases ns)
        case Nil
        with traverser_next_pending(1) [OF t0(1,2)] t0(3) show ?thesis by (simp add: traverser_at_def)
      next
        case (Cons x xs)
        let ?t1 = "traverser_at A ?t0 (length ns)"
        have "current_state ?t1 \<noteq> 0 \<and> stack_ok A N (stack ?t1) \<and> pending A N (stack ?t1) = []"
          using traverser_run [OF t0(1,2), of "length xs"] t0(3) Cons by (auto simp: Let_def)
        then have "current_state (traverser_next plain_ops A ?t1) = 0"
          using traverser_next_pending(1) by blast
        then show ?thesis by (simp add: traverser_at_def)
      qed
    next
      case (Suc j)
      then have "traverser_next plain_ops A (traverser_at A ?t0 (Suc (length ns + j))) =
          traverser_at A ?t0 (Suc (length ns + j))" by (simp add: traverser_next_def)
      with Suc show ?case by (simp add: traverser_at_def)
    qed
    from this [of "k - length ns"] False show ?thesis by (simp add: t)
  qed
qed

lemma small_automata_nodes:
  "nodes (outgoing small_automata) (Suc (Suc 0)) [] 1000 = [([97], 500), ([97, 98], 300)]"
  by (simp add: small_automata_out)

theorem state_traverser_depth_first_witness:
  "current_state (traverser_at small_automata (StateTraverser_from plain_ops small_automata 1000 \<lparr>current_depth = 0\<rparr> True) 1) = 300"
  using state_traverser_depth_first [OF small_automata_depth, of 1] unfolding small_automata_nodes by simp

text \<open>
  C15: the entry iterator enumerates the dictionary.  After \<open>k\<close> increments it stands on the \<open>k\<close>-th entry in
  ascending order of the keys, with the value of its final state, and after the last entry it equals the
  end iterator; every increment terminates.
\<close>

theorem entry_iterator_enumerates:
  assumes "number_of_keys A \<noteq> 0" "start \<noteq> 0" "fsa_depth A N start"
  shows "\<exists>it. EI_at A start k = Some it \<and>
    (if k < length (entries A N start)
     then (EI_GetKey it, EI_GetValueId it) = entries A N start ! k \<and> \<not> EI_eq it end_iterator
     else EI_eq it end_iterator)"
proof -
  let ?fn = "final_nodes A (nodes (outgoing A) N [] start)"
  have len: "length (entries A N start) = length ?fn" by (simp add: entries_def)
  from EI_at_yields [OF assms, of k] obtain it where it: "EI_at A start k = Some it" "yields A N (drop k ?fn) it"
    by blast
  show ?thesis
  proof (cases "k < length ?fn")
    case True
    then have "drop k ?fn = ?fn ! k # drop (Suc k) ?fn" by (simp add: Cons_nth_drop_Suc)
    with it(2) have "(EI_GetKey it, EI_GetValueId it) = (\<lambda>(w, t). (w, GetStateValue A t)) (?fn ! k)" "ei_state it \<noteq> 0"
      by (auto simp: yields_def ei_ok_def split: prod.splits)
    with True it(1) len show ?thesis by (simp add: entries_def EI_eq_def end_iterator_def)
  next
    case False
    with it len show ?thesis by (simp add: yields_def EI_eq_def end_iterator_def)
  qed
qed

theorem entry_iterator_enumerates_witness:
  "\<exists>it. EI_at small_automata 1000 1 = Some it \<and> EI_GetKey it = [97, 98] \<and> EI_GetValueId it = 8"
  using entry_iterator_enumerates [OF _ _ small_automata_depth, of 1] small_automata_entries
  by (auto simp: small_automata_def)

text \<open>
  The empty key is never enumerated, even when the start state is final, so that the dictionary
  contains the empty key: the iterator moves to the first transition before it looks for a final state.
\<close>

theorem empty_key_not_enumerated:
  assumes "number_of_keys A \<noteq> 0" "start \<noteq> 0" "fsa_depth A N start"
    and "EI_at A start k = Some it" "\<not> EI_eq it end_iterator"
  shows "EI_GetKey it \<noteq> []"
proof -
  let ?fn = "final_nodes A (nodes (outgoing A) N [] start)"
  from EI_at_yields [OF assms(1-3), of k] assms(4) have y: "yields A N (drop k ?fn) it" by simp
  with assms(5) obtain w s rest where d: "drop k ?fn = (w, s) # rest"
    by (cases "drop k ?fn") (auto simp: yields_def EI_eq_def end_iterator_def)
  then have "(w, s) \<in> set ?fn" by (metis in_set_dropD list.set_intros(1))
  with nodes_nonempty [of w s "outgoing A" N start] have "w \<noteq> []" by simp
  with y d show ?thesis by (auto simp: yields_def)
qed

definition empty_key_automata :: automata where
  "empty_key_automata = small_automata\<lparr>a_labels := (a_labels small_automata)(1256 := 1)\<rparr>"

lemma empty_key_automata_out:
  "outgoing empty_key_automata 1000 = [(500, 97)]" "outgoing empty_key_automata 500 = [(300, 98)]"
  "outgoing empty_key_automata 300 = []"
proof -
  have out: "outgoing empty_key_automata s = outgoing small_automata s" if "unat s \<le> 1000" for s
  proof -
    have "a_labels empty_key_automata (s + ucast c) = a_labels small_automata (s + ucast c)" for c :: u8
    proof -
      have "unat s + unat c \<noteq> 1256" using that unat_u8_less [of c] by linarith
      then have "unat (s + ucast c) \<noteq> 1256" using that by (simp add: unat_index)
      then have "s + ucast c \<noteq> 1256" by (auto simp: word_unat_eq_iff)
      then show ?thesis by (simp add: empty_key_automata_def)
    qed
    then show ?thesis
      by (simp add: outgoing_def out_labels_def ResolvePointer_def transition_ptr_def empty_key_automata_def Let_def)
  qed
  show "outgoing empty_key_automata 1000 = [(500, 97)]" "outgoing empty_key_automata 500 = [(300, 98)]"
    "outgoing empty_key_automata 300 = []" by (simp_all add: out small_automata_out)
qed

theorem empty_key_not_enumerated_witness:
  "IsFinalState empty_key_automata 1000 \<and> (\<exists>it. EI_at empty_key_automata 1000 0 = Some it \<and> EI_GetKey it \<noteq> [])"
proof -
  have final: "IsFinalState empty_key_automata 1000" "IsFinalState empty_key_automata 500" by code_simp+
  have keys: "number_of_keys empty_key_automata \<noteq> 0" by (simp add: empty_key_automata_def small_automata_def)
  have depth: "fsa_depth empty_key_automata (Suc (Suc 0)) 1000" by (simp add: empty_key_automata_out)
  from EI_at_yields [OF keys _ depth, of 0] obtain it where it: "EI_at empty_key_automata 1000 0 = Some it"
    "yields empty_key_automata (Suc (Suc 0))
       (final_nodes empty_key_automata (nodes (outgoing empty_key_automata) (Suc (Suc 0)) [] 1000)) it" by auto
  then have "\<not> EI_eq it end_iterator"
    by (simp add: empty_key_automata_out final yields_def ei_ok_def EI_eq_def end_iterator_def)
  from empty_key_not_enumerated [OF keys _ depth it(1) this] final(1) it(1) show ?thesis by auto
qed

text \<open>
  The weighted traversal sees the transitions of a state that reach the minimum weight, heaviest
  first, and those of equal weight in the order of their labels.  A state without inner weight takes the
  weight of its parent.
\<close>

theorem weighted_transitions_order:
  "let r = GetOutGoingTransitions_weighted A s payload parent_weight ts in
    sorted_wrt (\<lambda>a b. wt_weight a \<ge> wt_weight b) (ts_transitions r)
    \<and> filter (\<lambda>t. wt_weight t = v) (ts_transitions r) =
        filter (\<lambda>t. wt_weight t = v \<and> min_weight payload \<le> v) (weighted_outgoing A s parent_weight)"
proof -
  have "filter (\<lambda>t. wt_weight t = v) (filter (\<lambda>t. min_weight payload \<le> wt_weight t) xs) =
      filter (\<lambda>t. wt_weight t = v \<and> min_weight payload \<le> v) xs" for xs
    by (auto simp: filter_filter intro: filter_cong)
  then show ?thesis
    unfolding Let_def weighted_transitions by (simp add: sorted_stable_sort filter_stable_sort)
qed

text \<open>
  The near traversal takes the transition that follows the lookup key first and the other transitions
  of the state after it, in label order and none lost.
\<close>

theorem near_transitions_order:
  "let r = fst (GetOutGoingTransitions_near A s payload ts) in
    map transition_pair (drop (ts_position r) (ts_transitions r)) =
    filter (\<lambda>(t, c). near_label payload c) (outgoing A s) @ filter (\<lambda>(t, c). \<not> near_label payload c) (outgoing A s)"
  unfolding Let_def by (rule near_transitions)

text \<open>
  Iterators compare like their keys: the less-than of two iterators is the lexicographic order of the
  keys they stand on.
\<close>

theorem entry_iterator_order:
  "EI_less it other \<longleftrightarrow> key_less (traversal_stack it) (traversal_stack other)"
  by (rule EI_less_iff)

end
