(* ===== verification/Traversal_Tree.thy ===== *)
theory Traversal_Tree
  imports Traversal "HOL-Library.Multiset"
begin

text \<open>
  The traverser with pruning, for every specialisation of the traversal whose transitions do not depend on the depth.
  What is still to visit is a list of trees: an increment takes the first one and puts its children in front of the
  rest, pruning drops these children again.
\<close>

section \<open>Trees of nodes\<close>

datatype ('l, 'n) visit = Visit (v_path: "'l list") (v_state: 'n) (v_below: "('l, 'n) visit list")

fun visits :: "('l, 'n) visit \<Rightarrow> ('l list \<times> 'n) list" where
  "visits (Visit w s vs) = (w, s) # concat (map visits vs)"

abbreviation all_visits :: "('l, 'n) visit list \<Rightarrow> ('l list \<times> 'n) list" where
  "all_visits vs \<equiv> concat (map visits vs)"

lemma length_visits_below: "v \<in> set vs \<Longrightarrow> length (visits v) \<le> length (all_visits vs)"
  by (induction vs) auto

text \<open>
  The pending trees of a depth-first traversal hang from the path \<open>u\<close> of the current node: the parent of every tree is
  on this path, the deeper ones come first.
\<close>

fun wf_visit :: "('l, 'n) visit \<Rightarrow> bool" where
  "wf_visit (Visit w s vs) \<longleftrightarrow> list_all (\<lambda>v. wf_visit v \<and> v_path v \<noteq> [] \<and> butlast (v_path v) = w) vs"

definition hangs :: "'l list \<Rightarrow> ('l, 'n) visit list \<Rightarrow> bool" where
  "hangs u vs \<longleftrightarrow> list_all (\<lambda>v. wf_visit v \<and> v_path v \<noteq> [] \<and> butlast (v_path v) = take (length (v_path v) - 1) u) vs \<and>
     sorted_wrt (\<lambda>v v'. length (v_path v') \<le> length (v_path v)) vs"

lemma hangs_next:
  assumes "hangs u (v # vs)"
  shows "hangs (v_path v) (v_below v @ vs)" "hangs (butlast (v_path v)) vs"
proof -
  obtain w s ks where v: "v = Visit w s ks" by (cases v)
  have u: "wf_visit v" "w \<noteq> []" "butlast w = take (length w - 1) u" "sorted_wrt (\<lambda>v v'. length (v_path v') \<le> length (v_path v)) vs"
    using assms by (simp_all add: hangs_def v)
  have rest: "wf_visit v' \<and> v_path v' \<noteq> [] \<and> length (v_path v') \<le> length w \<and>
      butlast (v_path v') = take (length (v_path v') - 1) (butlast w) \<and> butlast (v_path v') = take (length (v_path v') - 1) w"
    if "v' \<in> set vs" for v'
  proof -
    have *: "wf_visit v'" "v_path v' \<noteq> []" "butlast (v_path v') = take (length (v_path v') - 1) u" "length (v_path v') \<le> length w"
      using assms that by (auto simp: hangs_def v list_all_iff)
    then have b: "butlast (v_path v') = take (length (v_path v') - 1) (butlast w)" unfolding u(3) by (simp add: min_def)
    moreover have "take (length (v_path v') - 1) (butlast w) = take (length (v_path v') - 1) w"
      using *(4) by (simp add: butlast_conv_take min_def)
    ultimately show ?thesis using * by simp
  qed
  then show "hangs (butlast (v_path v)) vs" using u(4) by (simp add: hangs_def list_all_iff v)
  have kid: "wf_visit k \<and> v_path k \<noteq> [] \<and> butlast (v_path k) = w \<and> length (v_path k) = Suc (length w)" if "k \<in> set ks" for k
    using u(1) that by (auto simp: v list_all_iff)
  have "sorted_wrt (\<lambda>v v'. length (v_path v') \<le> length (v_path v)) ks"
    using kid by (intro sorted_wrt_mono_rel [OF _ sorted_wrt_true]) simp
  moreover have "length (v_path v') \<le> Suc (length w)" if "v' \<in> set vs" for v' using rest [OF that] by simp
  ultimately show "hangs (v_path v) (v_below v @ vs)"
    using rest kid u(4) by (auto simp: hangs_def list_all_iff v sorted_wrt_append) 
qed

lemma visits_extend: "wf_visit v \<Longrightarrow> (w, s) \<in> set (visits v) \<Longrightarrow> \<exists>x. w = v_path v @ x"
proof (induction v arbitrary: w s)
  case (Visit p t vs)
  show ?case
  proof (cases "(w, s) = (p, t)")
    case False
    then obtain v where v: "v \<in> set vs" "(w, s) \<in> set (visits v)" using Visit.prems(2) by auto
    then have wf: "wf_visit v" "v_path v \<noteq> []" "butlast (v_path v) = p" using Visit.prems(1) by (auto simp: list_all_iff)
    from Visit.IH [OF v(1) wf(1) v(2)] obtain x where "w = v_path v @ x" by blast
    moreover have "v_path v = p @ [last (v_path v)]" using wf(2,3) by (metis append_butlast_last_id)
    ultimately show ?thesis by (metis append.assoc visit.sel(1))
  qed simp
qed

lemma hangs_drop: "hangs u (vs @ vs') \<Longrightarrow> hangs u vs'"
  by (simp add: hangs_def sorted_wrt_append)

section \<open>What a traverser promises\<close>

text \<open>
  The operations that wrapping traversers and matchers use; \<open>node_of\<close> is what they may know of the node.  \<open>waiting t vs\<close>: the trees \<open>vs\<close> are left to visit;
  \<open>standing t v vs\<close>: the traverser stands on the root of \<open>v\<close>, with the trees \<open>vs\<close> left beside those below \<open>v\<close>.
\<close>

record ('l, 's) traverser =
  increment :: "'s \<Rightarrow> 's"
  prune :: "'s \<Rightarrow> 's"
  state_label :: "'s \<Rightarrow> 'l"
  state_depth :: "'s \<Rightarrow> nat"
  valid :: "'s \<Rightarrow> bool"
  state_id :: "'s \<Rightarrow> u64"
  is_final :: "'s \<Rightarrow> bool"
  value_of :: "'s \<Rightarrow> u64"
  fsa_of :: "'s \<Rightarrow> nat"

locale pruning_traverser =
  fixes T :: "('l, 's) traverser"
    and waiting :: "'s \<Rightarrow> ('l, 'n) visit list \<Rightarrow> bool"
    and standing :: "'s \<Rightarrow> ('l, 'n) visit \<Rightarrow> ('l, 'n) visit list \<Rightarrow> bool"
    and node_of :: "'s \<Rightarrow> 'n"
  assumes increment_end: "waiting t [] \<Longrightarrow> \<not> valid T (increment T t)"
    and increment_next: "waiting t (v # vs) \<Longrightarrow> standing (increment T t) v vs"
    and standing_waiting: "standing t v vs \<Longrightarrow> waiting t (v_below v @ vs)"
    and standing_node: "standing t v vs \<Longrightarrow>
      valid T t \<and> v_path v \<noteq> [] \<and> state_label T t = last (v_path v) \<and> state_depth T t = length (v_path v) \<and> node_of t = v_state v"
    and prune_waiting: "standing t v vs \<Longrightarrow> waiting (prune T t) vs"
    and prune_depth: "standing t v vs \<Longrightarrow> state_depth T (prune T t) = length (v_path v) - 1"

section \<open>The state traverser as a traverser of trees\<close>

definition state_traverser :: "('t, 'p) traversal_ops \<Rightarrow> automata \<Rightarrow> (u8, ('t, 'p) StateTraverser) traverser" where
  "state_traverser ops A = \<lparr>increment = traverser_next ops A, prune = Prune ops, state_label = current_label,
     state_depth = (\<lambda>t. GetDepth ops (stack t)), valid = (\<lambda>t. current_state t \<noteq> 0), state_id = current_state,
     is_final = (\<lambda>t. IsFinalState A (current_state t)), value_of = (\<lambda>t. GetStateValue A (current_state t)), fsa_of = (\<lambda>_. 0)\<rparr>"

text \<open>
  What the specialisations have in common: the transitions of a state are a list that depends on the state and the
  weight of the transition to it; increments and decrements count the depth.
\<close>

locale tree_traversal =
  fixes ops :: "('t, 'p) traversal_ops" and A :: automata and inv :: "'p \<Rightarrow> bool" and kids :: "u64 \<Rightarrow> u32 \<Rightarrow> 't list"
  assumes transitions: "inv p \<Longrightarrow> op_outgoing ops A s w p ts = (\<lparr>ts_transitions = kids s w, ts_position = 0\<rparr>, p)"
    and inc: "inv p \<Longrightarrow> inv (op_inc ops p) \<and> op_depth ops (op_inc ops p) = Suc (op_depth ops p)"
    and dec: "inv p \<Longrightarrow> inv (op_dec ops p) \<and> op_depth ops (op_dec ops p) = op_depth ops p - 1"
    and real: "mset (map (\<lambda>t. (op_state ops t, op_label ops t)) (kids s w)) = mset (Automata.outgoing A s)"
    and pass: "inv p \<Longrightarrow> t \<in> set (kids s w) \<Longrightarrow> op_filter ops p t"
begin

fun deep :: "nat \<Rightarrow> u64 \<Rightarrow> u32 \<Rightarrow> bool" where
  "deep 0 s w \<longleftrightarrow> kids s w = []"
| "deep (Suc n) s w \<longleftrightarrow> (\<forall>t \<in> set (kids s w). op_state ops t \<noteq> 0 \<and> deep n (op_state ops t) (op_weight ops t))"

fun trees :: "nat \<Rightarrow> u8 list \<Rightarrow> u64 \<Rightarrow> u32 \<Rightarrow> (u8, u64) visit list" where
  "trees 0 path s w = []"
| "trees (Suc n) path s w =
     map (\<lambda>t. Visit (path @ [op_label ops t]) (op_state ops t)
       (trees n (path @ [op_label ops t]) (op_state ops t) (op_weight ops t))) (kids s w)"

definition node :: "nat \<Rightarrow> u8 list \<Rightarrow> 't \<Rightarrow> (u8, u64) visit" where
  "node n path t = Visit (path @ [op_label ops t]) (op_state ops t)
     (trees n (path @ [op_label ops t]) (op_state ops t) (op_weight ops t))"

lemma trees_node: "trees (Suc n) path s w = map (node n path) (kids s w)"
  by (simp add: node_def)

definition lev :: "('t, 'p) TraversalStack \<Rightarrow> nat \<Rightarrow> 't list" where
  "lev stk k = ts_transitions (traversal_states stk ! k)"

definition at :: "('t, 'p) TraversalStack \<Rightarrow> nat \<Rightarrow> nat" where
  "at stk k = ts_position (traversal_states stk ! k)"

definition route :: "('t, 'p) TraversalStack \<Rightarrow> nat \<Rightarrow> u8 list" where
  "route stk k = map (\<lambda>j. op_label ops (lev stk j ! at stk j)) [0..<k]"

text \<open>The trees pending below level \<open>k\<close>, and all of them.\<close>

definition beneath :: "nat \<Rightarrow> ('t, 'p) TraversalStack \<Rightarrow> nat \<Rightarrow> (u8, u64) visit list" where
  "beneath N stk k = concat (map (\<lambda>j. map (node (N - Suc j) (route stk j)) (drop (Suc (at stk j)) (lev stk j))) (rev [0..<k]))"

definition todo :: "nat \<Rightarrow> ('t, 'p) TraversalStack \<Rightarrow> (u8, u64) visit list" where
  "todo N stk = (let d = GetDepth ops stk
     in map (node (N - Suc d) (route stk d)) (drop (at stk d) (lev stk d)) @ beneath N stk d)"

definition good :: "nat \<Rightarrow> ('t, 'p) TraversalStack \<Rightarrow> bool" where
  "good N stk \<longleftrightarrow> inv (traversal_stack_payload stk) \<and> GetDepth ops stk < length (traversal_states stk) \<and> GetDepth ops stk \<le> N
     \<and> (\<forall>k < GetDepth ops stk. at stk k < length (lev stk k))
     \<and> (\<forall>k \<le> GetDepth ops stk. \<forall>t \<in> set (lev stk k). k < N \<and> op_state ops t \<noteq> 0 \<and>
          deep (N - Suc k) (op_state ops t) (op_weight ops t) \<and> (\<forall>p. inv p \<longrightarrow> op_filter ops p t))"

lemma route_cong: "(\<And>j. j < k \<Longrightarrow> lev stk' j = lev stk j \<and> at stk' j = at stk j) \<Longrightarrow> route stk' k = route stk k"
  by (simp add: route_def)

lemma beneath_cong:
  assumes "\<And>j. j < k \<Longrightarrow> lev stk' j = lev stk j \<and> at stk' j = at stk j"
  shows "beneath N stk' k = beneath N stk k"
  unfolding beneath_def using assms route_cong [of _ stk' stk] by (intro arg_cong [where f = concat] map_cong) auto

text \<open>One level up, to the next transition there; this is also what pruning does.\<close>

definition ascend :: "('t, 'p) TraversalStack \<Rightarrow> ('t, 'p) TraversalStack" where
  "ascend stk = update_states ops TS_inc (stack_dec ops stk)"

lemma ascend_levels:
  assumes "inv (traversal_stack_payload stk)" "0 < GetDepth ops stk" "GetDepth ops stk < length (traversal_states stk)"
  shows "inv (traversal_stack_payload (ascend stk))" "GetDepth ops (ascend stk) = GetDepth ops stk - 1"
    "length (traversal_states (ascend stk)) = length (traversal_states stk)" "lev (ascend stk) k = lev stk k"
    "at (ascend stk) k = (if k = GetDepth ops stk - 1 then Suc (at stk k) else at stk k)"
  using assms dec [OF assms(1)]
  by (simp_all add: ascend_def update_states_def stack_dec_def GetDepth_def GetStates_def lev_def at_def TS_inc_def nth_list_update)

lemma ascend_good:
  assumes "good N stk" "0 < GetDepth ops stk"
  shows "good N (ascend stk)" "todo N (ascend stk) = beneath N stk (GetDepth ops stk)"
proof -
  let ?d = "GetDepth ops stk - 1"
  have len: "inv (traversal_stack_payload stk)" "GetDepth ops stk < length (traversal_states stk)"
    using assms(1) by (simp_all add: good_def)
  note u = ascend_levels [OF len(1) assms(2) len(2)]
  have "\<forall>k \<le> ?d. \<forall>t \<in> set (lev stk k). k < N \<and> op_state ops t \<noteq> 0 \<and>
      deep (N - Suc k) (op_state ops t) (op_weight ops t) \<and> (\<forall>p. inv p \<longrightarrow> op_filter ops p t)"
    using assms(1) unfolding good_def by (meson diff_le_self order_trans)
  then show "good N (ascend stk)" using assms unfolding good_def u(2-) by (auto simp: u(1))
  have same: "lev (ascend stk) j = lev stk j \<and> at (ascend stk) j = at stk j" if "j < ?d" for j using that by (simp add: u)
  have d: "GetDepth ops stk = Suc ?d" using assms(2) by simp
  have "beneath N stk (GetDepth ops stk) =
      map (node (N - Suc ?d) (route stk ?d)) (drop (Suc (at stk ?d)) (lev stk ?d)) @ beneath N stk ?d"
    unfolding beneath_def by (subst d) simp
  then show "todo N (ascend stk) = beneath N stk (GetDepth ops stk)"
    using route_cong [OF same] beneath_cong [OF same] by (simp add: todo_def Let_def u)
qed

lemma top_todo:
  assumes "good N stk" "at stk (GetDepth ops stk) < length (lev stk (GetDepth ops stk))"
  defines "x \<equiv> lev stk (GetDepth ops stk) ! at stk (GetDepth ops stk)"
  shows "op_state ops x \<noteq> 0" "GetDepth ops stk < N" "deep (N - Suc (GetDepth ops stk)) (op_state ops x) (op_weight ops x)"
    "FilterByMinWeight ops stk = op_state ops x"
    "todo N stk = node (N - Suc (GetDepth ops stk)) (route stk (GetDepth ops stk)) x # beneath N stk (Suc (GetDepth ops stk))"
proof -
  have x: "x \<in> set (lev stk (GetDepth ops stk))" using assms(2) by (simp add: x_def)
  with assms(1) show "op_state ops x \<noteq> 0" "GetDepth ops stk < N"
    "deep (N - Suc (GetDepth ops stk)) (op_state ops x) (op_weight ops x)"
    unfolding good_def by blast+
  moreover have "op_filter ops (traversal_stack_payload stk) x" using x assms(1) unfolding good_def by blast
  ultimately show "FilterByMinWeight ops stk = op_state ops x"
    using assms(2)
    by (simp add: FilterByMinWeight_def GetNextState_def GetStates_def lev_def at_def x_def Let_def word_gt_0)
  have "drop (at stk (GetDepth ops stk)) (lev stk (GetDepth ops stk)) =
      x # drop (Suc (at stk (GetDepth ops stk))) (lev stk (GetDepth ops stk))"
    using assms(2) by (simp add: x_def Cons_nth_drop_Suc)
  then show "todo N stk = node (N - Suc (GetDepth ops stk)) (route stk (GetDepth ops stk)) x # beneath N stk (Suc (GetDepth ops stk))"
    by (simp add: todo_def beneath_def Let_def)
qed

lemma exhausted_level:
  assumes "good N stk" "\<not> at stk (GetDepth ops stk) < length (lev stk (GetDepth ops stk))"
  shows "FilterByMinWeight ops stk = 0" "todo N stk = beneath N stk (GetDepth ops stk)"
  using assms by (simp_all add: FilterByMinWeight_def GetNextState_def GetStates_def lev_def at_def Let_def todo_def)

text \<open>Going up finds the first pending tree, or 0 when none is pending.\<close>

lemma go_up_todo:
  assumes "good N stk"
  defines "r \<equiv> go_up ops (GetDepth ops stk) stk"
  shows "good N (snd r) \<and> todo N (snd r) = todo N stk
    \<and> (if todo N stk = [] then fst r = 0
       else at (snd r) (GetDepth ops (snd r)) < length (lev (snd r) (GetDepth ops (snd r)))
         \<and> fst r = op_state ops (lev (snd r) (GetDepth ops (snd r)) ! at (snd r) (GetDepth ops (snd r))))"
  using assms(1) unfolding r_def
proof (induction "GetDepth ops stk" arbitrary: stk)
  case 0
  show ?case
  proof (cases "at stk (GetDepth ops stk) < length (lev stk (GetDepth ops stk))")
    case True
    from top_todo [OF "0.prems" True] True "0.prems" show ?thesis by (simp add: go_up.simps)
  next
    case False
    from exhausted_level [OF "0.prems" False] "0.hyps" "0.prems" show ?thesis by (simp add: go_up.simps beneath_def)
  qed
next
  case (Suc d)
  show ?case
  proof (cases "at stk (GetDepth ops stk) < length (lev stk (GetDepth ops stk))")
    case True
    from top_todo [OF Suc.prems True] True Suc.prems show ?thesis by (simp add: go_up.simps [of _ _ stk])
  next
    case False
    note ex = exhausted_level [OF Suc.prems False]
    have up: "good N (ascend stk)" "todo N (ascend stk) = todo N stk"
      using ascend_good [OF Suc.prems] Suc.hyps(2) ex by auto
    have d: "d = GetDepth ops (ascend stk)"
      using ascend_levels(2) [of stk] Suc.hyps(2) Suc.prems by (simp add: good_def)
    have "go_up ops (GetDepth ops stk) stk = go_up ops (GetDepth ops (ascend stk)) (ascend stk)"
    proof -
      have "GetDepth ops stk - 1 = GetDepth ops (ascend stk)" "GetDepth ops stk \<noteq> 0" using d Suc.hyps(2) by simp_all
      then show ?thesis unfolding go_up.simps [of _ "GetDepth ops stk" stk] ascend_def [symmetric] using ex(1) by simp
    qed
    with Suc.hyps(1) [OF d up(1)] up(2) show ?thesis by simp
  qed
qed

text \<open>One level down.\<close>

definition descend :: "u64 \<Rightarrow> u32 \<Rightarrow> ('t, 'p) TraversalStack \<Rightarrow> ('t, 'p) TraversalStack" where
  "descend s w stk = fill_states ops A s w (stack_inc ops stk)"

lemma descend_levels:
  assumes "inv (traversal_stack_payload stk)" "GetDepth ops stk < length (traversal_states stk)"
  shows "inv (traversal_stack_payload (descend s w stk))" "GetDepth ops (descend s w stk) = Suc (GetDepth ops stk)"
    "Suc (GetDepth ops stk) < length (traversal_states (descend s w stk))"
    "lev (descend s w stk) (Suc (GetDepth ops stk)) = kids s w" "at (descend s w stk) (Suc (GetDepth ops stk)) = 0"
    "k \<le> GetDepth ops stk \<Longrightarrow> lev (descend s w stk) k = lev stk k"
    "k \<le> GetDepth ops stk \<Longrightarrow> at (descend s w stk) k = at stk k"
proof -
  define st where "st = stack_inc ops stk"
  have st: "inv (traversal_stack_payload st)" "GetDepth ops st = Suc (GetDepth ops stk)"
    "Suc (GetDepth ops stk) < length (traversal_states st)"
    "\<And>k. k \<le> GetDepth ops stk \<Longrightarrow> traversal_states st ! k = traversal_states stk ! k"
    using assms inc [OF assms(1)] by (auto simp: st_def stack_inc_def Let_def GetDepth_def resize_states_def nth_append)
  have d: "descend s w stk = st\<lparr>traversal_states := (traversal_states st)
      [GetDepth ops st := \<lparr>ts_transitions = kids s w, ts_position = 0\<rparr>]\<rparr>"
    by (simp add: descend_def fill_states_def st_def [symmetric] update_states_def transitions [OF st(1)])
  have depth: "GetDepth ops (descend s w stk) = GetDepth ops st" by (simp add: d GetDepth_def)
  show "inv (traversal_stack_payload (descend s w stk))" "GetDepth ops (descend s w stk) = Suc (GetDepth ops stk)"
    "Suc (GetDepth ops stk) < length (traversal_states (descend s w stk))"
    "lev (descend s w stk) (Suc (GetDepth ops stk)) = kids s w" "at (descend s w stk) (Suc (GetDepth ops stk)) = 0"
    "k \<le> GetDepth ops stk \<Longrightarrow> lev (descend s w stk) k = lev stk k"
    "k \<le> GetDepth ops stk \<Longrightarrow> at (descend s w stk) k = at stk k"
    unfolding depth using st by (auto simp: d lev_def at_def)
qed

lemma deep_kids:
  assumes "deep n s w" "t \<in> set (kids s w)"
  shows "0 < n" "op_state ops t \<noteq> 0" "deep (n - 1) (op_state ops t) (op_weight ops t)"
  using assms by (cases n; auto)+

lemma descend_good:
  assumes "good N stk" "at stk (GetDepth ops stk) < length (lev stk (GetDepth ops stk))"
  defines "x \<equiv> lev stk (GetDepth ops stk) ! at stk (GetDepth ops stk)"
  defines "stk' \<equiv> descend (op_state ops x) (op_weight ops x) stk"
  shows "good N stk'" "route stk' (Suc (GetDepth ops stk)) = route stk (GetDepth ops stk) @ [op_label ops x]"
    "GetDepth ops stk' = Suc (GetDepth ops stk)"
    "\<exists>v. todo N stk = v # beneath N stk' (GetDepth ops stk') \<and> todo N stk' = v_below v @ beneath N stk' (GetDepth ops stk') \<and>
       v_path v = route stk' (GetDepth ops stk') \<and> v_state v = op_state ops x"
proof -
  let ?d = "GetDepth ops stk"
  have len: "inv (traversal_stack_payload stk)" "?d < length (traversal_states stk)" using assms(1) by (simp_all add: good_def)
  note dl = descend_levels [OF len, where s = "op_state ops x" and w = "op_weight ops x", folded stk'_def]
  note top = top_todo [OF assms(1,2), folded x_def]
  have below: "lev stk' j = lev stk j \<and> at stk' j = at stk j" if "j < Suc ?d" for j using that dl(6,7) by simp
  show path: "route stk' (Suc ?d) = route stk ?d @ [op_label ops x]"
    using route_cong [OF below] by (simp add: route_def x_def)
  show depth: "GetDepth ops stk' = Suc ?d" by (rule dl(2))
  have new: "Suc ?d < N \<and> op_state ops t \<noteq> 0 \<and> deep (N - Suc (Suc ?d)) (op_state ops t) (op_weight ops t)
      \<and> (\<forall>p. inv p \<longrightarrow> op_filter ops p t)" if "t \<in> set (kids (op_state ops x) (op_weight ops x))" for t
    using deep_kids [OF top(3) that] pass [OF _ that] by auto
  show "good N stk'"
  proof -
    have "at stk' k < length (lev stk' k)" if "k < Suc ?d" for k
      using that assms(1,2) below [OF that] by (cases "k = ?d") (auto simp: good_def)
    moreover have "\<forall>t \<in> set (lev stk' k). k < N \<and> op_state ops t \<noteq> 0 \<and> deep (N - Suc k) (op_state ops t) (op_weight ops t)
        \<and> (\<forall>p. inv p \<longrightarrow> op_filter ops p t)" if "k \<le> Suc ?d" for k
    proof (cases "k = Suc ?d")
      case True
      with new dl(4) show ?thesis by simp
    next
      case False
      with that have "k \<le> ?d" by simp
      with assms(1) dl(6) show ?thesis unfolding good_def by simp
    qed
    ultimately show ?thesis using top(2) dl(1-3) unfolding good_def by simp
  qed
  have sub: "trees (N - Suc ?d) p (op_state ops x) (op_weight ops x) =
      map (node (N - Suc (Suc ?d)) p) (kids (op_state ops x) (op_weight ops x))" for p
  proof -
    have "N - Suc (Suc ?d) = N - Suc ?d - 1" by simp
    then show ?thesis using top(3) by (cases "N - Suc ?d") (auto simp: trees_node simp del: trees.simps(2))
  qed
  have "beneath N stk' (Suc ?d) = beneath N stk (Suc ?d)" by (rule beneath_cong [OF below])
  then show "\<exists>v. todo N stk = v # beneath N stk' (GetDepth ops stk') \<and> todo N stk' = v_below v @ beneath N stk' (GetDepth ops stk') \<and>
       v_path v = route stk' (GetDepth ops stk') \<and> v_state v = op_state ops x"
    unfolding top(5) depth
    by (intro exI [of _ "node (N - Suc ?d) (route stk ?d) x"])
      (simp add: todo_def [of N stk'] Let_def depth dl(4,5) path node_def [of "N - Suc ?d"] sub)
qed

definition waits :: "nat \<Rightarrow> ('t, 'p) StateTraverser \<Rightarrow> (u8, u64) visit list \<Rightarrow> bool" where
  "waits N t vs \<longleftrightarrow> current_state t \<noteq> 0 \<and> good N (stack t) \<and> todo N (stack t) = vs"

definition stands :: "nat \<Rightarrow> ('t, 'p) StateTraverser \<Rightarrow> (u8, u64) visit \<Rightarrow> (u8, u64) visit list \<Rightarrow> bool" where
  "stands N t v vs \<longleftrightarrow> waits N t (v_below v @ vs) \<and> vs = beneath N (stack t) (GetDepth ops (stack t)) \<and>
     0 < GetDepth ops (stack t) \<and> v_path v = route (stack t) (GetDepth ops (stack t)) \<and>
     current_label t = last (v_path v) \<and> current_state t = v_state v"

lemma length_route [simp]: "length (route stk k) = k"
  by (simp add: route_def)

lemma waits_end: "waits N t [] \<Longrightarrow> current_state (traverser_next ops A t) = 0"
  using go_up_todo [of N "stack t"] by (auto simp: waits_def traverser_next_def Let_def split: prod.splits)

lemma waits_next:
  assumes "waits N t (v # vs)"
  shows "stands N (traverser_next ops A t) v vs"
proof -
  obtain s stk where r: "go_up ops (GetDepth ops (stack t)) (stack t) = (s, stk)" by fastforce
  have t: "current_state t \<noteq> 0" "good N (stack t)" "todo N (stack t) = v # vs" using assms by (simp_all add: waits_def)
  let ?x = "lev stk (GetDepth ops stk) ! at stk (GetDepth ops stk)"
  have up: "good N stk" "todo N stk = v # vs" "at stk (GetDepth ops stk) < length (lev stk (GetDepth ops stk))"
    "s = op_state ops ?x" using go_up_todo [OF t(2)] r t(3) by simp_all
  note d = descend_good [OF up(1,3)]
  have s: "s \<noteq> 0" using top_todo(1) [OF up(1,3)] up(4) by simp
  have next_t: "traverser_next ops A t = t\<lparr>current_state := s, current_label := op_label ops ?x, current_weight := op_weight ops ?x,
      stack := descend (op_state ops ?x) (op_weight ops ?x) stk\<rparr>"
    using t(1) r s up(4)
    by (simp add: traverser_next_def Let_def descend_def GetNextTransition_def GetNextInnerWeight_def GetStates_def lev_def at_def)
  from d(4) up(2) show ?thesis
    unfolding stands_def waits_def next_t using d(1-3) s up(4) by auto
qed

lemma stands_prune:
  assumes "stands N t v vs"
  shows "waits N (Prune ops t) vs" "GetDepth ops (stack (Prune ops t)) = length (v_path v) - 1"
proof -
  have t: "current_state t \<noteq> 0" "good N (stack t)" "0 < GetDepth ops (stack t)" "vs = beneath N (stack t) (GetDepth ops (stack t))"
    "length (v_path v) = GetDepth ops (stack t)" using assms by (auto simp: stands_def waits_def)
  have p: "stack (Prune ops t) = ascend (stack t)" "current_state (Prune ops t) = current_state t"
    by (simp_all add: Prune_def ascend_def)
  show "waits N (Prune ops t) vs" using ascend_good [OF t(2,3)] t unfolding waits_def p by simp
  show "GetDepth ops (stack (Prune ops t)) = length (v_path v) - 1"
    using ascend_levels(2) [of "stack t"] t unfolding p good_def by simp
qed

lemma traverses_trees: "pruning_traverser (state_traverser ops A) (waits N) (stands N) current_state"
proof
  show "\<not> valid (state_traverser ops A) (increment (state_traverser ops A) t)" if "waits N t []" for t
    using waits_end [OF that] by (simp add: state_traverser_def)
  show "stands N (increment (state_traverser ops A) t) v vs" if "waits N t (v # vs)" for t v vs
    using waits_next [OF that] by (simp add: state_traverser_def)
  fix t v vs assume v: "stands N t v vs"
  then show "waits N t (v_below v @ vs)" by (auto simp: stands_def)
  have "length (v_path v) > 0" using v by (simp add: stands_def)
  then have "v_path v \<noteq> []" by simp
  then show "valid (state_traverser ops A) t \<and> v_path v \<noteq> [] \<and> state_label (state_traverser ops A) t = last (v_path v) \<and>
      state_depth (state_traverser ops A) t = length (v_path v) \<and> current_state t = v_state v"
    using v by (auto simp: state_traverser_def stands_def waits_def)
  show "waits N (prune (state_traverser ops A) t) vs" "state_depth (state_traverser ops A) (prune (state_traverser ops A) t) = length (v_path v) - 1"
    using stands_prune [OF v] by (simp_all add: state_traverser_def)
qed

text \<open>The traverser that starts at a state.\<close>

lemma start_waits:
  assumes "inv payload" "op_depth ops payload = 0" "start \<noteq> 0" "deep N start (GetInnerWeight A start)"
  shows "waits N (StateTraverser_from ops A start payload False) (trees N [] start (GetInnerWeight A start))"
proof -
  let ?w = "GetInnerWeight A start"
  let ?stk = "\<lparr>traversal_states = (replicate 20 empty_state)[0 := \<lparr>ts_transitions = kids start ?w, ts_position = 0\<rparr>],
     traversal_stack_payload = payload\<rparr>"
  have t: "StateTraverser_from ops A start payload False =
      \<lparr>current_state = start, current_weight = 0, current_label = 0, stack = ?stk\<rparr>"
    using assms(1,2)
    by (simp add: StateTraverser_from_def Let_def fill_states_def TraversalStack_def update_states_def GetDepth_def transitions)
  have l: "lev ?stk 0 = kids start ?w" "at ?stk 0 = 0" "GetDepth ops ?stk = 0"
    using assms(2) by (simp_all add: lev_def at_def GetDepth_def)
  have "good N ?stk"
    unfolding good_def l(3) using assms(1) deep_kids [OF assms(4)] pass by (auto simp: l)
  moreover have "todo N ?stk = map (node (N - Suc 0) []) (kids start ?w)"
    by (simp add: todo_def Let_def l route_def beneath_def)
  then have "todo N ?stk = trees N [] start ?w"
    using assms(4) by (cases N) (simp_all add: trees_node del: trees.simps(2))
  ultimately show ?thesis using assms(3) by (simp add: waits_def t)
qed

lemma real_set: "(\<lambda>t. (op_state ops t, op_label ops t)) ` set (kids s w) = set (Automata.outgoing A s)"
  using arg_cong [OF real, where f = set_mset] by simp

lemma deep_fsa: "fsa_depth A N s \<Longrightarrow> deep N s w"
proof (induction N arbitrary: s w)
  case (0 s w)
  then show ?case using real_set [of s w] by simp
next
  case (Suc N s w)
  have "op_state ops t \<noteq> 0 \<and> fsa_depth A N (op_state ops t)" if "t \<in> set (kids s w)" for t
  proof -
    have "(op_state ops t, op_label ops t) \<in> set (Automata.outgoing A s)" using real_set [of s w] that by blast
    then show ?thesis using Suc.prems by auto
  qed
  then show ?case using Suc.IH by simp
qed

lemma trees_wf: "v \<in> set (trees N path s w) \<Longrightarrow> wf_visit v \<and> v_path v \<noteq> [] \<and> butlast (v_path v) = path"
proof (induction N arbitrary: path s w v)
  case (Suc N path s w v)
  then obtain t where v: "v = node N path t" by (auto simp: node_def)
  have "wf_visit k \<and> v_path k \<noteq> [] \<and> butlast (v_path k) = path @ [op_label ops t]"
    if "k \<in> set (trees N (path @ [op_label ops t]) (op_state ops t) (op_weight ops t))" for k by (rule Suc.IH [OF that])
  then show ?case by (simp add: v node_def list_all_iff)
qed simp

lemma trees_hang: "hangs [] (trees N [] s w)"
proof -
  have len: "length (v_path v) = 1" if "v \<in> set (trees N [] s w)" for v
    using trees_wf [OF that] by (cases "v_path v" rule: rev_cases) auto
  have "sorted_wrt (\<lambda>v v'. length (v_path v') \<le> length (v_path v)) (trees N [] s w)"
    using len by (intro sorted_wrt_mono_rel [OF _ sorted_wrt_true]) simp
  then show ?thesis using trees_wf [of _ N "[]" s w] by (simp add: hangs_def list_all_iff)
qed

lemma mset_concat_map: "mset (concat (map f xs)) = \<Sum>\<^sub># (image_mset (\<lambda>x. mset (f x)) (mset xs))"
  by (induction xs) simp_all

text \<open>The trees contain the nodes of the automaton.\<close>

lemma trees_nodes: "mset (all_visits (trees N path s w)) = mset (nodes (Automata.outgoing A) N path s)"
proof (induction N arbitrary: path s w)
  case (Suc N)
  let ?f = "\<lambda>(t, c). add_mset (path @ [c], t) (mset (nodes (Automata.outgoing A) N (path @ [c]) t))"
  have tree: "mset (visits (node N path t)) = ?f (op_state ops t, op_label ops t)" for t
    using Suc [of "path @ [op_label ops t]" "op_state ops t" "op_weight ops t"] by (simp add: node_def)
  have "mset (all_visits (trees (Suc N) path s w)) = \<Sum>\<^sub># (image_mset (\<lambda>t. mset (visits (node N path t))) (mset (kids s w)))"
    unfolding trees_node map_map comp_def by (rule mset_concat_map)
  also have "\<dots> = \<Sum>\<^sub># (image_mset ?f (image_mset (\<lambda>t. (op_state ops t, op_label ops t)) (mset (kids s w))))"
    unfolding tree by (simp add: multiset.map_comp comp_def)
  also have "\<dots> = \<Sum>\<^sub># (image_mset ?f (mset (Automata.outgoing A s)))" using real [of s w] by simp
  also have "\<dots> = mset (nodes (Automata.outgoing A) (Suc N) path s)"
    by (simp add: mset_concat_map comp_def split_def)
  finally show ?case .
qed simp

end

section \<open>The plain and the weighted traversal\<close>

definition plain_kids :: "automata \<Rightarrow> u64 \<Rightarrow> u32 \<Rightarrow> Transition list" where
  "plain_kids A s w = ts_transitions (GetOutGoingTransitions A s empty_state)"

lemma TS_Clear_empty: "TS_Clear ts = empty_state"
  by (simp add: TS_Clear_def empty_state_def)

interpretation plain: tree_traversal plain_ops A "\<lambda>_. True" "plain_kids A" for A
proof
  have "GetOutGoingTransitions A s ts = GetOutGoingTransitions A s empty_state" for s ts
    by (simp add: GetOutGoingTransitions_def TS_Clear_empty)
  moreover have "GetOutGoingTransitions A s empty_state = \<lparr>ts_transitions = plain_kids A s w, ts_position = 0\<rparr>" for s w
    using GetOutGoingTransitions_plain(2) [of A s empty_state] unfolding plain_kids_def
    by (cases "GetOutGoingTransitions A s empty_state") simp
  ultimately show "op_outgoing plain_ops A s w p ts = (\<lparr>ts_transitions = plain_kids A s w, ts_position = 0\<rparr>, p)" for s w p ts
    by (simp add: plain_ops_def)
  show "mset (map (\<lambda>t. (op_state plain_ops t, op_label plain_ops t)) (plain_kids A s w)) = mset (Automata.outgoing A s)" for s w
    using GetOutGoingTransitions_plain(1) [of A s empty_state]
    unfolding plain_kids_def transition_pair_def by (simp add: plain_ops_def)
qed (simp_all add: plain_ops_def)

text \<open>Without a minimum weight all transitions are kept; they are sorted by weight.\<close>

lemma mset_stable_sort: "mset (stable_sort before xs) = mset xs"
proof -
  have "mset (stable_insert before x ys) = add_mset x (mset ys)" for x ys by (induction ys) auto
  then show ?thesis unfolding stable_sort_def by (induction xs) simp_all
qed

definition weighted_child :: "automata \<Rightarrow> u64 \<Rightarrow> u32 \<Rightarrow> u8 \<Rightarrow> WeightedTransition" where
  "weighted_child A s w c = (let child = ResolvePointer A s c; weight = GetInnerWeight A child
     in \<lparr>wt_state = child, wt_weight = (if weight \<noteq> 0 then weight else w), wt_label = c\<rparr>)"

definition weighted_kids :: "automata \<Rightarrow> u64 \<Rightarrow> u32 \<Rightarrow> WeightedTransition list" where
  "weighted_kids A s w = stable_sort WeightedTransitionCompare (map (weighted_child A s w) (out_labels A s))"

lemma GetOutGoingTransitions_weighted_kids:
  assumes "min_weight p = 0"
  shows "GetOutGoingTransitions_weighted A s p w ts = \<lparr>ts_transitions = weighted_kids A s w, ts_position = 0\<rparr>"
proof -
  let ?add = "\<lambda>c ts. let child_state = ResolvePointer A s c; weight = GetInnerWeight A child_state;
                       weight = (if weight \<noteq> 0 then weight else w)
                   in TS_Add_weighted child_state weight c p ts"
  have add: "?add c ts = ts\<lparr>ts_transitions := ts_transitions ts @ [weighted_child A s w c]\<rparr>" for c ts
    using assms by (simp add: TS_Add_weighted_def TS_push_back_def weighted_child_def Let_def)
  have "fold ?add cs ts = ts\<lparr>ts_transitions := ts_transitions ts @ map (weighted_child A s w) cs\<rparr>" for cs ts
    by (induction cs arbitrary: ts) (simp_all only: fold.simps comp_def id_def list.map add, simp_all)
  then have "match_labels A s ?add (TS_Clear ts) = \<lparr>ts_transitions = map (weighted_child A s w) (out_labels A s), ts_position = 0\<rparr>"
    by (simp add: match_labels_eq TS_Clear_empty empty_state_def)
  then show ?thesis
    by (simp add: GetOutGoingTransitions_weighted_def TS_PostProcess_weighted_def TS_size_def weighted_kids_def stable_sort_def)
qed

interpretation weighted: tree_traversal weighted_ops A "\<lambda>p. min_weight p = 0" "weighted_kids A" for A
proof
  show "mset (map (\<lambda>t. (op_state weighted_ops t, op_label weighted_ops t)) (weighted_kids A s w)) = mset (Automata.outgoing A s)" for s w
    by (simp add: weighted_kids_def mset_stable_sort outgoing_def weighted_ops_def weighted_child_def Let_def multiset.map_comp comp_def)
qed (simp_all add: weighted_ops_def GetOutGoingTransitions_weighted_kids)

end
