(* ===== verification/Code_Points.thy ===== *)
theory Code_Points
  imports Traversal_Tree
begin

unbundle bit_operations_syntax

text \<open>
  The traverser of code points (\<open>dictionary/fsa/codepoint_state_traverser.h\<close>) with the UTF-8 helpers of
  \<open>dictionary/util/utf8_utils.h\<close>: it wraps a traverser of bytes and stops where a code point is complete.
\<close>

section \<open>UTF-8 bytes\<close>

datatype utf8_error = Illegal_Byte u8 | Illegal_Lead_Byte u8 | Outside_Of_Stack

definition IsLeadByte :: "u8 \<Rightarrow> utf8_error + bool" where
  "IsLeadByte utf8_byte =
     (if utf8_byte \<ge> 0xF8 then Inl (Illegal_Byte utf8_byte) else Inr (utf8_byte < 0x80 \<or> utf8_byte \<ge> 0xC0))"

definition GetCharLength :: "u8 \<Rightarrow> utf8_error + nat" where
  "GetCharLength leadByte =
     (if leadByte AND 0x80 = 0x00 then Inr 1
      else if leadByte AND 0xE0 = 0xC0 then Inr 2
      else if leadByte AND 0xF0 = 0xE0 then Inr 3
      else if leadByte AND 0xF8 = 0xF0 then Inr 4
      else Inl (Illegal_Lead_Byte leadByte))"

section \<open>The traverser\<close>

record 's CodePointStateTraverser =
  wrapped_state_traverser :: 's
  transitions_stack :: "u8 list"
  utf8_length_stack :: "nat list"
  codepoint :: u32
  cp_depth :: nat

function PruneHistory :: "nat \<Rightarrow> 's CodePointStateTraverser \<Rightarrow> utf8_error + 's CodePointStateTraverser" where
  "PruneHistory new_history_top c =
     (if length (transitions_stack c) > new_history_top
      then bind_sum (IsLeadByte (last (transitions_stack c))) (\<lambda>lead.
        PruneHistory new_history_top
          (c\<lparr>transitions_stack := butlast (transitions_stack c), utf8_length_stack := butlast (utf8_length_stack c),
             cp_depth := (if lead then cp_depth c - 1 else cp_depth c)\<rparr>))
      else Inr c)"
  by pat_completeness auto
termination by (relation "measure (\<lambda>(n, c). length (transitions_stack c))") auto

declare PruneHistory.simps [simp del]

fun lead_position :: "u8 list \<Rightarrow> nat \<Rightarrow> utf8_error + nat" where
  "lead_position st 0 =
     bind_sum (IsLeadByte (st ! 0)) (\<lambda>lead. if lead then Inr 0 else Inl Outside_Of_Stack)"
| "lead_position st (Suc position) =
     bind_sum (IsLeadByte (st ! Suc position)) (\<lambda>lead.
       if lead then Inr (Suc position) else lead_position st position)"

definition code_point_at :: "u8 list \<Rightarrow> nat \<Rightarrow> nat \<Rightarrow> u32 \<Rightarrow> u32" where
  "code_point_at st position n old =
     (let byte = (\<lambda>k. ucast (st ! (position + k)) :: u32)
      in if n = 0 then byte 0
         else if n = 1 then push_bit 6 (byte 0 AND 0x1f) OR (byte 1 AND 0x3f)
         else if n = 2 then push_bit 12 (byte 0 AND 0x0f) OR push_bit 6 (byte 1 AND 0x3f) OR (byte 2 AND 0x3f)
         else if n = 3 then push_bit 18 (byte 0 AND 0x07) OR push_bit 12 (byte 1 AND 0x3f) OR push_bit 6 (byte 2 AND 0x3f)
           OR (byte 3 AND 0x3f)
         else old)"

definition ExtractCodePointFromStack :: "'s CodePointStateTraverser \<Rightarrow> utf8_error + 's CodePointStateTraverser" where
  "ExtractCodePointFromStack c =
     bind_sum (lead_position (transitions_stack c) (length (transitions_stack c) - 1)) (\<lambda>position.
       Inr (c\<lparr>codepoint := code_point_at (transitions_stack c) position (utf8_length_stack c ! position) (codepoint c)\<rparr>))"

definition cp_byte :: "u8 \<Rightarrow> 's CodePointStateTraverser \<Rightarrow> utf8_error + nat \<times> 's CodePointStateTraverser" where
  "cp_byte label c =
     bind_sum (if transitions_stack c = [] \<or> last (utf8_length_stack c) = 0
               then bind_sum (GetCharLength label) (\<lambda>n. Inr (n - 1, cp_depth c + 1))
               else Inr (last (utf8_length_stack c) - 1, cp_depth c)) (\<lambda>(remaining_bytes, depth).
       Inr (remaining_bytes, c\<lparr>transitions_stack := transitions_stack c @ [label],
         utf8_length_stack := utf8_length_stack c @ [remaining_bytes], cp_depth := depth\<rparr>))"

text \<open>The loop over the bytes of a code point; the wrapped traverser may run into a cycle, hence \<open>None\<close>.\<close>

partial_function (option) cp_next ::
  "(u8, 's) traverser \<Rightarrow> 's CodePointStateTraverser \<Rightarrow> (utf8_error + 's CodePointStateTraverser) option" where
  "cp_next T c =
     (let w = increment T (wrapped_state_traverser c); c1 = c\<lparr>wrapped_state_traverser := w\<rparr>
      in if \<not> valid T w
         then Some (Inr (c1\<lparr>transitions_stack := [], utf8_length_stack := [], cp_depth := 0, codepoint := 0\<rparr>))
         else (case bind_sum (PruneHistory (state_depth T w - 1) c1) (cp_byte (state_label T w)) of
             Inl e \<Rightarrow> Some (Inl e)
           | Inr (remaining_bytes, c2) \<Rightarrow>
               if remaining_bytes > 0 then cp_next T c2 else Some (ExtractCodePointFromStack c2)))"

definition CodePointStateTraverser :: "(u8, 's) traverser \<Rightarrow> 's \<Rightarrow> (utf8_error + 's CodePointStateTraverser) option" where
  "CodePointStateTraverser T traverser =
     cp_next T \<lparr>wrapped_state_traverser = traverser, transitions_stack = [], utf8_length_stack = [], codepoint = 0, cp_depth = 0\<rparr>"

definition cp_Prune :: "(u8, 's) traverser \<Rightarrow> 's CodePointStateTraverser \<Rightarrow> utf8_error + 's CodePointStateTraverser" where
  "cp_Prune T c =
     (let w = prune T (wrapped_state_traverser c)
      in PruneHistory (state_depth T w) (c\<lparr>wrapped_state_traverser := w\<rparr>))"

definition cp_valid :: "(u8, 's) traverser \<Rightarrow> 's CodePointStateTraverser \<Rightarrow> bool" where
  "cp_valid T c \<longleftrightarrow> valid T (wrapped_state_traverser c)"

definition cp_GetStateId :: "(u8, 's) traverser \<Rightarrow> 's CodePointStateTraverser \<Rightarrow> u64" where
  "cp_GetStateId T c = state_id T (wrapped_state_traverser c)"

definition cp_IsFinalState :: "(u8, 's) traverser \<Rightarrow> 's CodePointStateTraverser \<Rightarrow> bool" where
  "cp_IsFinalState T c = is_final T (wrapped_state_traverser c)"

definition cp_GetStateValue :: "(u8, 's) traverser \<Rightarrow> 's CodePointStateTraverser \<Rightarrow> u64" where
  "cp_GetStateValue T c = value_of T (wrapped_state_traverser c)"

definition cp_GetFsa :: "(u8, 's) traverser \<Rightarrow> 's CodePointStateTraverser \<Rightarrow> nat" where
  "cp_GetFsa T c = fsa_of T (wrapped_state_traverser c)"

definition cp_SetMinWeight ::
  "u32 \<Rightarrow> (WeightedTransition, WeightedPayload) StateTraverser CodePointStateTraverser \<Rightarrow>
     (WeightedTransition, WeightedPayload) StateTraverser CodePointStateTraverser" where
  "cp_SetMinWeight weight c = c\<lparr>wrapped_state_traverser := SetMinWeight weight (wrapped_state_traverser c)\<rparr>"

section \<open>Decoding\<close>

text \<open>The code points of a sequence of bytes and the bytes of an incomplete one at its end.\<close>

definition char_length :: "u8 \<Rightarrow> nat" where
  "char_length b = (case GetCharLength b of Inl _ \<Rightarrow> 1 | Inr n \<Rightarrow> n)"

definition code_of :: "u8 list \<Rightarrow> u32" where
  "code_of bytes = code_point_at bytes 0 (length bytes - 1) 0"

fun feed :: "u32 list \<times> u8 list \<Rightarrow> u8 \<Rightarrow> u32 list \<times> u8 list" where
  "feed (cs, open_bytes) b =
     (if length open_bytes + 1 = char_length (hd (open_bytes @ [b])) then (cs @ [code_of (open_bytes @ [b])], [])
      else (cs, open_bytes @ [b]))"

definition utf8_state :: "u8 list \<Rightarrow> u32 list \<times> u8 list" where
  "utf8_state bytes = foldl feed ([], []) bytes"

abbreviation codes :: "u8 list \<Rightarrow> u32 list" where
  "codes bytes \<equiv> fst (utf8_state bytes)"

abbreviation open_bytes :: "u8 list \<Rightarrow> u8 list" where
  "open_bytes bytes \<equiv> snd (utf8_state bytes)"

definition utf8_lead :: "u8 \<Rightarrow> bool" where
  "utf8_lead b \<longleftrightarrow> b < 0x80 \<or> (0xC0 \<le> b \<and> b < 0xF8)"

definition utf8_follow :: "u8 \<Rightarrow> bool" where
  "utf8_follow b \<longleftrightarrow> 0x80 \<le> b \<and> b < 0xC0"

text \<open>Lead bytes and following bytes come where they belong; the last code point may be incomplete.\<close>

definition utf8_ok :: "u8 list \<Rightarrow> bool" where
  "utf8_ok bytes \<longleftrightarrow> (\<forall>i < length bytes.
     if open_bytes (take i bytes) = [] then utf8_lead (bytes ! i) else utf8_follow (bytes ! i))"

lemma utf8_state_simps [simp]: "utf8_state [] = ([], [])" "utf8_state (w @ [b]) = feed (utf8_state w) b"
  by (simp_all add: utf8_state_def)

lemma utf8_ok_snoc:
  "utf8_ok (w @ [b]) \<longleftrightarrow> utf8_ok w \<and> (if open_bytes w = [] then utf8_lead b else utf8_follow b)"
  unfolding utf8_ok_def length_append_singleton All_less_Suc by (simp add: nth_append conj_commute cong: imp_cong)

lemma utf8_ok_Nil [simp]: "utf8_ok []"
  by (simp add: utf8_ok_def)

lemma utf8_ok_take: "utf8_ok w \<Longrightarrow> utf8_ok (take n w)"
  by (auto simp: utf8_ok_def min_def)

lemma IsLeadByte_lead: "utf8_lead b \<Longrightarrow> IsLeadByte b = Inr True"
  by (auto simp: IsLeadByte_def utf8_lead_def word_less_nat_alt word_le_nat_alt)

lemma IsLeadByte_follow: "utf8_follow b \<Longrightarrow> IsLeadByte b = Inr False"
  by (auto simp: IsLeadByte_def utf8_follow_def word_less_nat_alt word_le_nat_alt)

text \<open>The masks of \<open>GetCharLength\<close> as ranges.\<close>

lemma all_bytes:
  assumes "list_all (\<lambda>i. P (word_of_int i :: u8)) [0..255]"
  shows "P b"
proof -
  have "0 \<le> uint b" "uint b \<le> 255" using uint_lt2p [of b] by simp_all
  then have "uint b \<in> set [0..255]" by simp
  then have "P (word_of_int (uint b))" using assms unfolding list_all_iff by blast
  then show ?thesis by simp
qed

lemma GetCharLength_ranges:
  "GetCharLength b = (if b < 0x80 then Inr 1 else if b < 0xC0 then Inl (Illegal_Lead_Byte b) else if b < 0xE0 then Inr 2
     else if b < 0xF0 then Inr 3 else if b < 0xF8 then Inr 4 else Inl (Illegal_Lead_Byte b))"
  by (rule all_bytes) code_simp

lemma GetCharLength_lead: "utf8_lead b \<Longrightarrow> GetCharLength b = Inr (char_length b) \<and> 0 < char_length b \<and> char_length b \<le> 4"
  unfolding char_length_def GetCharLength_ranges utf8_lead_def by (auto simp: not_le)

text \<open>The bytes of an incomplete code point are at the end: a lead byte and following bytes, fewer than announced.\<close>

lemma open_bytes_suffix: "\<exists>x. w = x @ open_bytes w \<and> codes x = codes w \<and> open_bytes x = []"
proof (induction w rule: rev_induct)
  case (snoc b w)
  then obtain x where x: "w = x @ open_bytes w" "codes x = codes w" "open_bytes x = []" by blast
  obtain p q where s: "utf8_state w = (p, q)" by fastforce
  show ?case
  proof (cases "length q + 1 = char_length (hd (q @ [b]))")
    case True
    then show ?thesis using s by (intro exI [of _ "w @ [b]"]) simp
  next
    case False
    then have "utf8_state (w @ [b]) = (p, q @ [b])" using s by simp
    moreover have "w @ [b] = x @ (q @ [b])" "codes x = p" using x s by (simp_all flip: append_assoc)
    ultimately show ?thesis using x(3) by (intro exI [of _ x]) simp
  qed
qed simp

lemma open_bytes_legal:
  assumes "utf8_ok w" "open_bytes w \<noteq> []"
  shows "utf8_lead (hd (open_bytes w)) \<and> list_all utf8_follow (tl (open_bytes w)) \<and>
    length (open_bytes w) < char_length (hd (open_bytes w))"
  using assms
proof (induction w rule: rev_induct)
  case (snoc b w)
  obtain p q where s: "utf8_state w = (p, q)" by fastforce
  have ok: "utf8_ok w" "if q = [] then utf8_lead b else utf8_follow b" using snoc.prems(1) s by (simp_all add: utf8_ok_snoc)
  have new: "open_bytes (w @ [b]) = q @ [b]" "length q + 1 \<noteq> char_length (hd (q @ [b]))"
    using snoc.prems(2) s by (auto split: if_splits)
  show ?case
  proof (cases "q = []")
    case True
    then show ?thesis unfolding new(1) using ok(2) new(2) GetCharLength_lead [of b] by simp
  next
    case False
    then show ?thesis unfolding new(1) using snoc.IH [OF ok(1)] s ok(2) new(2) by (simp add: hd_append tl_append2)
  qed
qed simp

section \<open>The stacks of the traverser\<close>

definition missing :: "u8 list \<Rightarrow> nat" where
  "missing w = (case open_bytes w of [] \<Rightarrow> 0 | b # bs \<Rightarrow> char_length b - length (b # bs))"

definition lengths_of :: "u8 list \<Rightarrow> nat list" where
  "lengths_of w = map (\<lambda>i. missing (take (Suc i) w)) [0..<length w]"

definition started :: "u8 list \<Rightarrow> nat" where
  "started w = length (codes w) + (if open_bytes w = [] then 0 else 1)"

lemma lengths_of_Nil [simp]: "lengths_of [] = []"
  by (simp add: lengths_of_def)

lemma lengths_of_snoc [simp]: "lengths_of (w @ [b]) = lengths_of w @ [missing (w @ [b])]"
  by (auto simp: lengths_of_def)

lemma length_lengths_of [simp]: "length (lengths_of w) = length w"
  by (simp add: lengths_of_def)

lemma missing_0: "utf8_ok w \<Longrightarrow> missing w = 0 \<longleftrightarrow> open_bytes w = []"
  using open_bytes_legal [of w] by (auto simp: missing_def split: list.splits)

text \<open>The state of the stacks after the bytes \<open>w\<close>.\<close>

definition stacks_ok :: "'s CodePointStateTraverser \<Rightarrow> u8 list \<Rightarrow> bool" where
  "stacks_ok c w \<longleftrightarrow> utf8_ok w \<and> transitions_stack c = w \<and> utf8_length_stack c = lengths_of w \<and> cp_depth c = started w"

lemma started_snoc:
  assumes "utf8_ok (w @ [b])"
  shows "started (w @ [b]) = started w + (if utf8_lead b then 1 else 0)"
proof -
  obtain p q where s: "utf8_state w = (p, q)" by fastforce
  have "utf8_follow b \<Longrightarrow> \<not> utf8_lead b" by (auto simp: utf8_follow_def utf8_lead_def)
  then show ?thesis using assms s by (auto simp: started_def utf8_ok_snoc)
qed

lemma lead_or_follow: "utf8_ok (w @ [b]) \<Longrightarrow> IsLeadByte b = Inr (utf8_lead b)"
proof -
  assume "utf8_ok (w @ [b])"
  moreover have "utf8_follow b \<Longrightarrow> \<not> utf8_lead b" by (auto simp: utf8_follow_def utf8_lead_def)
  ultimately show ?thesis
    using IsLeadByte_lead [of b] IsLeadByte_follow [of b] by (auto simp: utf8_ok_snoc split: if_splits)
qed

text \<open>Popping the stacks.\<close>

lemma PruneHistory_stacks:
  "stacks_ok c w \<Longrightarrow> \<exists>c'. PruneHistory n c = Inr c' \<and> stacks_ok c' (take n w) \<and>
     wrapped_state_traverser c' = wrapped_state_traverser c \<and> codepoint c' = codepoint c"
proof (induction w arbitrary: c rule: rev_induct)
  case Nil
  then show ?case by (simp add: PruneHistory.simps stacks_ok_def)
next
  case (snoc b w)
  show ?case
  proof (cases "length w < n")
    case True
    then show ?thesis using snoc.prems by (simp add: PruneHistory.simps stacks_ok_def)
  next
    case False
    let ?c = "c\<lparr>transitions_stack := w, utf8_length_stack := lengths_of w,
      cp_depth := (if utf8_lead b then cp_depth c - 1 else cp_depth c)\<rparr>"
    have ok: "utf8_ok (w @ [b])" using snoc.prems by (simp add: stacks_ok_def)
    have "stacks_ok ?c w" using snoc.prems started_snoc [OF ok] by (auto simp: stacks_ok_def utf8_ok_snoc)
    moreover have "PruneHistory n c = PruneHistory n ?c"
      using snoc.prems False lead_or_follow [OF ok] by (subst PruneHistory.simps) (simp add: stacks_ok_def)
    ultimately show ?thesis using snoc.IH [of ?c] False by simp
  qed
qed

text \<open>Pushing a byte.\<close>

lemma cp_byte_stacks:
  assumes c: "stacks_ok c w" and ok: "utf8_ok (w @ [b])"
  shows "\<exists>c'. cp_byte b c = Inr (missing (w @ [b]), c') \<and> stacks_ok c' (w @ [b]) \<and>
     wrapped_state_traverser c' = wrapped_state_traverser c \<and> codepoint c' = codepoint c"
proof -
  obtain p q where s: "utf8_state w = (p, q)" by fastforce
  have w: "utf8_ok w" and b: "if q = [] then utf8_lead b else utf8_follow b" using ok s by (simp_all add: utf8_ok_snoc)
  have last: "w \<noteq> [] \<Longrightarrow> last (lengths_of w) = missing w" by (cases w rule: rev_cases) simp_all
  have empty: "transitions_stack c = [] \<or> last (utf8_length_stack c) = 0 \<longleftrightarrow> q = []"
    using c last missing_0 [OF w] s by (cases "w = []") (auto simp: stacks_ok_def)
  have "(if transitions_stack c = [] \<or> last (utf8_length_stack c) = 0
         then bind_sum (GetCharLength b) (\<lambda>n. Inr (n - 1, cp_depth c + 1))
         else Inr (last (utf8_length_stack c) - 1, cp_depth c)) = Inr (missing (w @ [b]), started (w @ [b]))"
  proof (cases "q = []")
    case True
    then have "utf8_lead b" using b by simp
    from GetCharLength_lead [OF this] True show ?thesis
      using empty c s started_snoc [OF ok] \<open>utf8_lead b\<close> by (auto simp: missing_def stacks_ok_def)
  next
    case False
    have nl: "\<not> utf8_lead b" using b False by (auto simp: utf8_follow_def utf8_lead_def)
    obtain l q' where q: "q = l # q'" using False by (cases q) auto
    have "w \<noteq> []" using False s by auto
    then have "last (utf8_length_stack c) = missing w" using c last by (simp add: stacks_ok_def)
    moreover have "missing w - 1 = missing (w @ [b])" using s q by (auto simp: missing_def)
    ultimately show ?thesis using empty False c started_snoc [OF ok] nl by (simp add: stacks_ok_def)
  qed
  then show ?thesis unfolding cp_byte_def using c ok by (simp add: stacks_ok_def)
qed

text \<open>A complete code point is read off the stacks.\<close>

lemma lead_position_found:
  assumes "utf8_lead (st ! n)" "\<And>i. n < i \<Longrightarrow> i \<le> n + k \<Longrightarrow> utf8_follow (st ! i)"
  shows "lead_position st (n + k) = Inr n"
  using assms
proof (induction k)
  case 0
  then show ?case by (cases n) (simp_all add: IsLeadByte_lead)
next
  case (Suc k)
  then show ?case using IsLeadByte_follow [of "st ! Suc (n + k)"] by simp
qed

lemma code_point_at_append: "n < 4 \<Longrightarrow> code_point_at (x @ bs) (length x) n old = code_point_at bs 0 n 0"
  by (auto simp: code_point_at_def Let_def nth_append)

lemma ExtractCodePoint_stacks:
  assumes c: "stacks_ok c (w @ [b])" and complete: "open_bytes (w @ [b]) = []"
  shows "\<exists>c'. ExtractCodePointFromStack c = Inr c' \<and> stacks_ok c' (w @ [b]) \<and>
    wrapped_state_traverser c' = wrapped_state_traverser c \<and> codepoint c' = last (codes (w @ [b]))"
proof -
  obtain p q where s: "utf8_state w = (p, q)" by fastforce
  have ok: "utf8_ok w" "if q = [] then utf8_lead b else utf8_follow b"
    using c s by (simp_all add: stacks_ok_def utf8_ok_snoc)
  obtain x where x: "w = x @ q" "open_bytes x = []" using open_bytes_suffix [of w] s by auto
  have full: "length q + 1 = char_length (hd (q @ [b]))" "last (codes (w @ [b])) = code_of (q @ [b])"
    using complete s by (auto split: if_splits)
  have lead: "utf8_lead (hd (q @ [b]))" "list_all utf8_follow (tl (q @ [b]))"
    using ok open_bytes_legal [OF ok(1)] s by (cases q; simp)+
  have pos: "lead_position (w @ [b]) (length w) = Inr (length x)"
  proof -
    have "utf8_lead ((w @ [b]) ! length x)" using lead(1) x(1) by (cases q) (simp_all add: nth_append)
    moreover have "utf8_follow ((w @ [b]) ! i)" if i: "length x < i" "i \<le> length x + length q" for i
    proof -
      have "(w @ [b]) ! i = tl (q @ [b]) ! (i - length x - 1)"
      proof -
        have "(w @ [b]) ! i = (q @ [b]) ! (i - length x)" using i x(1) by (simp add: nth_append_right)
        moreover have "i - length x = Suc (i - length x - 1)" using i by simp
        ultimately show ?thesis using i by (metis nth_tl length_append_singleton length_tl diff_Suc_1 less_Suc_eq_le le_diff_conv add.commute Suc_le_lessD)
      qed
      then show ?thesis using lead(2) i by (simp add: list_all_length)
    qed
    ultimately show ?thesis using lead_position_found [of "w @ [b]" "length x" "length q"] x(1) by simp
  qed
  have len: "utf8_length_stack c ! length x = length q"
  proof -
    let ?y = "take (Suc (length x)) (w @ [b])"
    have y: "?y = x @ [hd (q @ [b])]" using x(1) by (cases q) simp_all
    have "utf8_ok ?y" using c utf8_ok_take by (simp only: stacks_ok_def)
    obtain px where px: "utf8_state x = (px, [])" using x(2) by (cases "utf8_state x") simp
    have "missing ?y = length q" unfolding y using px full(1) by (cases q) (auto simp: missing_def)
    moreover have "utf8_length_stack c ! length x = missing ?y"
      using c x(1) by (simp add: stacks_ok_def lengths_of_def nth_append)
    ultimately show ?thesis by simp
  qed
  have "char_length (hd (q @ [b])) \<le> 4" using GetCharLength_lead [OF lead(1)] by simp
  moreover have "code_of (q @ [b]) = code_point_at (q @ [b]) 0 (length q) 0" by (simp add: code_of_def)
  ultimately have "code_point_at (w @ [b]) (length x) (length q) (codepoint c) = code_of (q @ [b])"
    using code_point_at_append [of "length q" x "q @ [b]" "codepoint c"] full(1) x(1) by simp
  then show ?thesis
    unfolding ExtractCodePointFromStack_def using c pos len full(2) by (simp add: stacks_ok_def)
qed

section \<open>The trees of code points\<close>

text \<open>The trees of bytes without the nodes inside a code point.\<close>

fun cp_visits :: "(u8, 'n) visit \<Rightarrow> (u32, 'n) visit list" where
  "cp_visits (Visit w s vs) =
     (let below = concat (map cp_visits vs) in if open_bytes w = [] then [Visit (codes w) s below] else below)"

abbreviation all_cp_visits :: "(u8, 'n) visit list \<Rightarrow> (u32, 'n) visit list" where
  "all_cp_visits vs \<equiv> concat (map cp_visits vs)"

lemma codes_prefix: "\<exists>ys. codes (x @ y) = codes x @ ys"
proof (induction y rule: rev_induct)
  case (snoc b y)
  then obtain ys where "codes (x @ y) = codes x @ ys" by blast
  then show ?case
    unfolding append_assoc [symmetric] utf8_state_simps by (cases "utf8_state (x @ y)") auto
qed simp

lemma complete_codes: "w \<noteq> [] \<Longrightarrow> open_bytes w = [] \<Longrightarrow> codes w \<noteq> []"
proof (cases w rule: rev_cases)
  case (snoc x b)
  assume "open_bytes w = []"
  then show ?thesis unfolding snoc by (cases "utf8_state x") (auto split: if_splits)
qed simp

lemma codes_take: "codes (take k u) = take (length (codes (take k u))) (codes u)"
  using codes_prefix [of "take k u" "drop k u"] by auto

lemma codes_take_mono: "j \<le> k \<Longrightarrow> length (codes (take j u)) \<le> length (codes (take k u))"
  using codes_prefix [of "take j u" "take (k - j) (drop j u)"] by (auto simp flip: take_add)

lemma cp_roots:
  "wf_visit v \<Longrightarrow> v_path v \<noteq> [] \<Longrightarrow> r \<in> set (cp_visits v) \<Longrightarrow>
     wf_visit r \<and> v_path r \<noteq> [] \<and> butlast (v_path r) = codes (butlast (v_path v))"
proof (induction v arbitrary: r)
  case (Visit w s vs)
  obtain x b where w: "w = x @ [b]" using Visit.prems(2) by (cases w rule: rev_cases) auto
  then have bw: "butlast w = x" by simp
  obtain p q where x: "utf8_state x = (p, q)" by fastforce
  have below: "wf_visit r' \<and> v_path r' \<noteq> [] \<and> butlast (v_path r') = codes w" if "r' \<in> set (all_cp_visits vs)" for r'
  proof -
    from that obtain v where v: "v \<in> set vs" "r' \<in> set (cp_visits v)" by auto
    then have "wf_visit v" "v_path v \<noteq> []" "butlast (v_path v) = w" using Visit.prems(1) by (auto simp: list_all_iff)
    with Visit.IH [OF v(1) _ _ v(2)] show ?thesis by simp
  qed
  show ?case
  proof (cases "open_bytes w = []")
    case True
    then have r: "r = Visit (codes w) s (all_cp_visits vs)" using Visit.prems(3) by (simp add: Let_def)
    obtain c where c: "codes w = codes x @ [c]" using True x unfolding w by (auto split: if_splits)
    have "wf_visit r" unfolding r wf_visit.simps list_all_iff using below by blast
    then show ?thesis using c by (simp add: r bw)
  next
    case False
    then have c: "codes w = codes x" using x unfolding w by (auto split: if_splits)
    have "r \<in> set (all_cp_visits vs)" using Visit.prems(3) False by (simp add: Let_def)
    from below [OF this] show ?thesis by (simp add: bw c)
  qed
qed

lemma cp_hangs:
  assumes "hangs u vs"
  shows "hangs (codes u) (all_cp_visits vs)"
proof -
  have root: "wf_visit r \<and> v_path r \<noteq> [] \<and> butlast (v_path r) = codes (take (length (v_path v) - 1) u)"
    if "v \<in> set vs" "r \<in> set (cp_visits v)" for v r
    using cp_roots [OF _ _ that(2)] assms that(1) by (auto simp: hangs_def list_all_iff)
  have len: "length (v_path r) = Suc (length (codes (take (length (v_path v) - 1) u)))"
    if "v \<in> set vs" "r \<in> set (cp_visits v)" for v r
    using root [OF that] by (cases "v_path r" rule: rev_cases) auto
  have "wf_visit r \<and> v_path r \<noteq> [] \<and> butlast (v_path r) = take (length (v_path r) - 1) (codes u)"
    if "r \<in> set (all_cp_visits vs)" for r
  proof -
    from that obtain v where v: "v \<in> set vs" "r \<in> set (cp_visits v)" by auto
    show ?thesis using root [OF v] len [OF v] codes_take [of "length (v_path v) - 1" u] by simp
  qed
  moreover have "sorted_wrt (\<lambda>r r'. length (v_path r') \<le> length (v_path r)) (all_cp_visits vs)"
  proof -
    have sorted: "sorted_wrt (\<lambda>v v'. length (v_path v') \<le> length (v_path v)) vs" using assms by (simp add: hangs_def)
    have shorter: "length (v_path r') \<le> length (v_path r)"
      if "v \<in> set vs" "v' \<in> set vs" "length (v_path v') \<le> length (v_path v)" "r \<in> set (cp_visits v)" "r' \<in> set (cp_visits v')"
      for v v' r r'
      using len [OF that(1,4)] len [OF that(2,5)] codes_take_mono [of "length (v_path v') - 1" "length (v_path v) - 1" u] that(3)
      by simp
    have "sorted_wrt (\<lambda>v v'. \<forall>r \<in> set (cp_visits v). \<forall>r' \<in> set (cp_visits v').
        length (v_path r') \<le> length (v_path r)) vs"
      by (rule sorted_wrt_mono_rel [OF _ sorted]) (use shorter in blast)
    moreover have "sorted_wrt (\<lambda>r r'. length (v_path r') \<le> length (v_path r)) (cp_visits v)" if "v \<in> set vs" for v
      using len [OF that] by (intro sorted_wrt_mono_rel [OF _ sorted_wrt_true]) simp
    ultimately show ?thesis by (simp add: sorted_wrt_concat sorted_wrt_map)
  qed
  ultimately show ?thesis by (simp add: hangs_def list_all_iff)
qed

section \<open>The traverser walks the trees of code points\<close>

definition utf8_paths :: "(u8, 'n) visit list \<Rightarrow> bool" where
  "utf8_paths vs \<longleftrightarrow> (\<forall>(w, s) \<in> set (all_visits vs). utf8_ok w)"

lemma utf8_paths_Cons: "utf8_paths (v # vs) \<longleftrightarrow> utf8_ok (v_path v) \<and> utf8_paths (v_below v) \<and> utf8_paths vs"
  by (cases v) (auto simp: utf8_paths_def)

lemma utf8_paths_append [simp]: "utf8_paths (vs @ vs') \<longleftrightarrow> utf8_paths vs \<and> utf8_paths vs'"
  by (auto simp: utf8_paths_def)

definition cp_state :: "'s CodePointStateTraverser \<Rightarrow> u8 list \<Rightarrow> (u8, 'n) visit list \<Rightarrow> bool" where
  "cp_state c u vs \<longleftrightarrow> stacks_ok c u \<and> hangs u vs \<and> utf8_paths vs"

lemma cp_visits_root:
  assumes "open_bytes (v_path v) = []"
  shows "cp_visits v = [Visit (codes (v_path v)) (v_state v) (all_cp_visits (v_below v))]"
  using assms by (cases v) (simp add: Let_def)

lemma cp_visits_inside:
  assumes "open_bytes (v_path v) \<noteq> []"
  shows "cp_visits v = all_cp_visits (v_below v)"
  using assms by (cases v) (simp add: Let_def)

text \<open>What a matcher reads at a node: whether it is final, its value and which automaton it is from.\<close>

locale byte_traverser = pruning_traverser T waiting standing node_of
  for T :: "(u8, 's) traverser" and waiting :: "'s \<Rightarrow> (u8, 'n) visit list \<Rightarrow> bool"
    and standing :: "'s \<Rightarrow> (u8, 'n) visit \<Rightarrow> (u8, 'n) visit list \<Rightarrow> bool" and node_of :: "'s \<Rightarrow> 'n" +
  fixes final :: "'n \<Rightarrow> bool" and val :: "'n \<Rightarrow> u64" and src :: "'n \<Rightarrow> nat"
  assumes reading: "is_final T t = final (node_of t)" "value_of T t = val (node_of t)" "fsa_of T t = src (node_of t)"
begin

text \<open>The inner traverser waits for the trees of bytes that make up the trees \<open>rs\<close>, or stands on the last byte of the root of \<open>r\<close>.\<close>

definition cp_waits :: "'s CodePointStateTraverser \<Rightarrow> (u32, 'n) visit list \<Rightarrow> bool" where
  "cp_waits c rs \<longleftrightarrow> (\<exists>u vs. waiting (wrapped_state_traverser c) vs \<and> cp_state c u vs \<and> rs = all_cp_visits vs)"

definition cp_stands :: "'s CodePointStateTraverser \<Rightarrow> (u32, 'n) visit \<Rightarrow> (u32, 'n) visit list \<Rightarrow> bool" where
  "cp_stands c r rs \<longleftrightarrow> (\<exists>v vs. standing (wrapped_state_traverser c) v vs \<and> cp_state c (v_path v) (v_below v @ vs) \<and>
     hangs (butlast (v_path v)) vs \<and> open_bytes (v_path v) = [] \<and> r = Visit (codes (v_path v)) (v_state v) (all_cp_visits (v_below v)) \<and>
     rs = all_cp_visits vs \<and> codepoint c = last (codes (v_path v)))"

lemma cp_waits_start: "waiting t vs \<Longrightarrow> hangs [] vs \<Longrightarrow> utf8_paths vs \<Longrightarrow>
    cp_waits \<lparr>wrapped_state_traverser = t, transitions_stack = [], utf8_length_stack = [], codepoint = 0, cp_depth = 0\<rparr> (all_cp_visits vs)"
  unfolding cp_waits_def cp_state_def stacks_ok_def started_def
  by (intro exI [of _ "[]"] exI [of _ vs]) simp

lemma cp_stands_waits: "cp_stands c r rs \<Longrightarrow> cp_waits c (v_below r @ rs)"
  unfolding cp_stands_def cp_waits_def using standing_waiting by fastforce

lemma cp_stands_node:
  assumes "cp_stands c r rs"
  shows "cp_valid T c \<and> v_path r \<noteq> [] \<and> codepoint c = last (v_path r) \<and> cp_depth c = length (v_path r) \<and>
    cp_IsFinalState T c = final (v_state r) \<and> cp_GetStateValue T c = val (v_state r) \<and> cp_GetFsa T c = src (v_state r)"
proof -
  obtain v vs where v: "standing (wrapped_state_traverser c) v vs" "cp_state c (v_path v) (v_below v @ vs)" "open_bytes (v_path v) = []"
    "r = Visit (codes (v_path v)) (v_state v) (all_cp_visits (v_below v))" "codepoint c = last (codes (v_path v))"
    using assms unfolding cp_stands_def by blast
  note n = standing_node [OF v(1)]
  have "codes (v_path v) \<noteq> []" using n v(3) complete_codes by blast
  then show ?thesis using n v by (simp add: cp_valid_def cp_IsFinalState_def cp_GetStateValue_def cp_GetFsa_def reading cp_state_def stacks_ok_def started_def)
qed

lemma cp_stands_prune:
  assumes "cp_stands c r rs"
  shows "\<exists>c'. cp_Prune T c = Inr c' \<and> cp_waits c' rs"
proof -
  obtain v vs where v: "standing (wrapped_state_traverser c) v vs" "stacks_ok c (v_path v)" "utf8_paths vs"
    "hangs (butlast (v_path v)) vs" "rs = all_cp_visits vs"
    using assms unfolding cp_stands_def cp_state_def by auto
  let ?w = "prune T (wrapped_state_traverser c)"
  have "stacks_ok (c\<lparr>wrapped_state_traverser := ?w\<rparr>) (v_path v)" using v(2) by (simp add: stacks_ok_def)
  from PruneHistory_stacks [OF this, of "length (v_path v) - 1"] obtain c' where
    c': "PruneHistory (length (v_path v) - 1) (c\<lparr>wrapped_state_traverser := ?w\<rparr>) = Inr c'"
    "stacks_ok c' (butlast (v_path v))" "wrapped_state_traverser c' = ?w"
    by (auto simp: butlast_conv_take)
  then show ?thesis
    using prune_depth [OF v(1)] prune_waiting [OF v(1)] v(3-5)
    unfolding cp_Prune_def Let_def cp_waits_def cp_state_def by auto
qed

text \<open>The increment walks to the next complete code point.\<close>

lemma cp_next_walks:
  assumes "waiting (wrapped_state_traverser c) vs" "cp_state c u vs"
  shows "\<exists>c'. cp_next T c = Some (Inr c') \<and>
    (case all_cp_visits vs of [] \<Rightarrow> \<not> cp_valid T c' | r # rs \<Rightarrow> cp_stands c' r rs)"
  using assms
proof (induction "length (all_visits vs)" arbitrary: c u vs rule: less_induct)
  case less
  show ?case
  proof (cases vs)
    case Nil
    then show ?thesis using increment_end less.prems(1) by (simp add: cp_next.simps Let_def cp_valid_def)
  next
    case (Cons v vs')
    let ?w = "increment T (wrapped_state_traverser c)" and ?n = "length (v_path v) - 1"
    have st: "standing ?w v vs'" using increment_next less.prems(1) Cons by simp
    note node = standing_node [OF st]
    have u: "stacks_ok c u" "hangs u (v # vs')" "utf8_ok (v_path v)" "utf8_paths (v_below v @ vs')"
      using less.prems(2) Cons by (simp_all add: cp_state_def utf8_paths_Cons)
    have "take ?n u = butlast (v_path v)" using u(2) by (simp add: hangs_def)
    moreover have "butlast (v_path v) @ [last (v_path v)] = v_path v" using node by simp
    ultimately have parent: "take ?n u = butlast (v_path v)" "butlast (v_path v) @ [last (v_path v)] = v_path v" .
    have "stacks_ok (c\<lparr>wrapped_state_traverser := ?w\<rparr>) u" using u(1) by (simp add: stacks_ok_def)
    from PruneHistory_stacks [OF this, of ?n] obtain c1 where
      c1: "PruneHistory ?n (c\<lparr>wrapped_state_traverser := ?w\<rparr>) = Inr c1" "stacks_ok c1 (butlast (v_path v))"
      "wrapped_state_traverser c1 = ?w" unfolding parent(1) by auto
    from cp_byte_stacks [OF c1(2), of "last (v_path v)"] u(3) obtain c2 where
      c2: "cp_byte (last (v_path v)) c1 = Inr (missing (v_path v), c2)" "stacks_ok c2 (v_path v)" "wrapped_state_traverser c2 = ?w"
      unfolding parent(2) using c1(3) by auto
    have step: "cp_next T c = (if missing (v_path v) > 0 then cp_next T c2 else Some (ExtractCodePointFromStack c2))"
      using node c1(1) c2(1) by (subst cp_next.simps) (simp add: Let_def)
    note h = hangs_next [OF u(2)]
    show ?thesis
    proof (cases "open_bytes (v_path v) = []")
      case False
      have "cp_state c2 (v_path v) (v_below v @ vs')" using c2(2) h(1) u(4) by (simp add: cp_state_def)
      moreover have "waiting (wrapped_state_traverser c2) (v_below v @ vs')" using standing_waiting [OF st] c2(3) by simp
      moreover have "length (all_visits (v_below v @ vs')) < length (all_visits vs)" unfolding Cons by (cases v) simp
      ultimately show ?thesis
        using less.hyps [of "v_below v @ vs'" c2 "v_path v"] step False missing_0 [OF u(3)] cp_visits_inside [OF False] Cons by simp
    next
      case True
      obtain x b where x: "v_path v = x @ [b]" using node by (cases "v_path v" rule: rev_cases) auto
      from ExtractCodePoint_stacks [of c2 x b] c2(2,3) True obtain c3 where
        c3: "ExtractCodePointFromStack c2 = Inr c3" "stacks_ok c3 (v_path v)" "wrapped_state_traverser c3 = ?w"
        "codepoint c3 = last (codes (v_path v))"
        unfolding x by metis
      have "cp_stands c3 (Visit (codes (v_path v)) (v_state v) (all_cp_visits (v_below v))) (all_cp_visits vs')"
        unfolding cp_stands_def using st c3 h u(4) True by (auto simp: cp_state_def)
      then show ?thesis using step c3(1) missing_0 [OF u(3)] True cp_visits_root [OF True] Cons by simp
    qed
  qed
qed

lemma cp_waits_next:
  assumes "cp_waits c rs"
  shows "\<exists>c'. cp_next T c = Some (Inr c') \<and> (case rs of [] \<Rightarrow> \<not> cp_valid T c' | r # rs \<Rightarrow> cp_stands c' r rs)"
  using assms cp_next_walks unfolding cp_waits_def by blast

end

end
