(* ===== verification/Dictionary.thy ===== *)
theory Dictionary
  imports Traversal
begin

text \<open>
  Lookups in one dictionary (\<open>keyvi/dictionary/dictionary.h\<close>) and the iterator over matches
  (\<open>match_iterator.h\<close>).  A match iterator owns a functor and the functor's data; a functor call returns the
  next match, or no match when there is none left.  A call that never returns is \<open>None\<close>.
\<close>

section \<open>Matches and match iterators\<close>

record Match =
  m_start :: nat
  m_end :: nat
  matched_item :: "u8 list"
  score :: nat
  m_state :: u64
  m_fsa :: nat

text \<open>\<open>m_fsa\<close> tells which of the automata that are searched the match is from; it is 0 when there is only one.\<close>

type_synonym match_t = "Match option"

definition make_match :: "nat \<Rightarrow> nat \<Rightarrow> u8 list \<Rightarrow> u64 \<Rightarrow> Match" where
  "make_match a b item state = \<lparr>m_start = a, m_end = b, matched_item = item, score = 0, m_state = state, m_fsa = 0\<rparr>"

type_synonym 'd functor_t = "'d \<Rightarrow> (match_t \<times> 'd) option"

record 'd MatchIterator =
  match_functor :: "'d option"
  current_match :: match_t

definition MI_increment :: "'d functor_t \<Rightarrow> 'd MatchIterator \<Rightarrow> 'd MatchIterator option" where
  "MI_increment f it =
     (case match_functor it of
        None \<Rightarrow> Some it
      | Some d \<Rightarrow> map_option (\<lambda>(m, d'). if m = None then \<lparr>match_functor = None, current_match = None\<rparr>
                                         else \<lparr>match_functor = Some d', current_match = m\<rparr>) (f d))"

definition MakeIterator :: "'d functor_t \<Rightarrow> 'd \<Rightarrow> match_t \<Rightarrow> 'd MatchIterator option" where
  "MakeIterator f d first_match =
     (let it = \<lparr>match_functor = Some d, current_match = first_match\<rparr>
      in if first_match = None then MI_increment f it else Some it)"

definition EmptyIterator :: "'d MatchIterator" where
  "EmptyIterator = \<lparr>match_functor = None, current_match = None\<rparr>"

definition MI_equal :: "'d MatchIterator \<Rightarrow> 'd MatchIterator \<Rightarrow> bool" where
  "MI_equal it other \<longleftrightarrow> current_match it = None \<and> current_match other = None"

text \<open>\<open>produces f ms it\<close>: dereferencing and incrementing the iterator gives the matches \<open>ms\<close> and then the end.\<close>

primrec produces :: "'d functor_t \<Rightarrow> Match list \<Rightarrow> 'd MatchIterator option \<Rightarrow> bool" where
  "produces f [] it \<longleftrightarrow> (\<exists>i. it = Some i \<and> MI_equal i EmptyIterator)"
| "produces f (m # ms) it \<longleftrightarrow> (\<exists>i. it = Some i \<and> current_match i = Some m \<and> produces f ms (MI_increment f i))"

section \<open>The lookups\<close>

text \<open>The walk of the key; 0 as soon as a transition is missing.\<close>

fun walk_key :: "automata \<Rightarrow> u64 \<Rightarrow> u8 list \<Rightarrow> u64" where
  "walk_key A state [] = state"
| "walk_key A state (c # key) =
     (let state = TryWalkTransition A state c in if state = 0 then state else walk_key A state key)"

fun Contains_loop :: "automata \<Rightarrow> u64 \<Rightarrow> u8 list \<Rightarrow> bool" where
  "Contains_loop A state [] = (state \<noteq> 0 \<and> IsFinalState A state)"
| "Contains_loop A state (c # key) =
     (let state = TryWalkTransition A state c in if state = 0 then False else Contains_loop A state key)"

definition Contains_from :: "automata \<Rightarrow> u64 \<Rightarrow> u8 list \<Rightarrow> bool" where
  "Contains_from A start_state key = (if start_state = 0 then False else Contains_loop A start_state key)"

definition Contains :: "automata \<Rightarrow> u8 list \<Rightarrow> bool" where
  "Contains A key = Contains_from A (GetStartState A) key"

definition GetSubscript :: "automata \<Rightarrow> u64 \<Rightarrow> u8 list \<Rightarrow> match_t" where
  "GetSubscript A start_state key =
     (if start_state = 0 then None
      else let state = walk_key A start_state key
           in if \<not> IsFinalState A state then None
              else Some (make_match 0 (length key) key (GetStateValue A state)))"

definition no_more :: "unit functor_t" where
  "no_more d = Some (None, d)"

definition Get :: "automata \<Rightarrow> u64 \<Rightarrow> u8 list \<Rightarrow> unit MatchIterator option" where
  "Get A start_state key =
     (if start_state = 0 then Some EmptyIterator
      else let state = walk_key A start_state key
           in if \<not> IsFinalState A state then Some EmptyIterator
              else MakeIterator no_more () (Some (make_match 0 (length key) key (GetStateValue A state))))"

text \<open>Leftmost longest lookup; a match has to end at the end of the text or before a space.\<close>

function Lookup_loop :: "automata \<Rightarrow> u8 list \<Rightarrow> nat \<Rightarrow> u64 \<Rightarrow> u64 \<Rightarrow> nat \<Rightarrow> u64 \<times> nat" where
  "Lookup_loop A str i state last_final_state last_final_state_position =
     (if i < length str
      then let state = TryWalkTransition A state (str ! i)
           in if state = 0 then (last_final_state, last_final_state_position)
              else if IsFinalState A state \<and> (i + 1 = length str \<or> str ! (i + 1) = 32)
              then Lookup_loop A str (i + 1) state state (i + 1)
              else Lookup_loop A str (i + 1) state last_final_state last_final_state_position
      else (last_final_state, last_final_state_position))"
  by pat_completeness auto
termination by (relation "measure (\<lambda>(A, str, i, _). length str - i)") auto

declare Lookup_loop.simps [simp del]

definition Lookup :: "automata \<Rightarrow> u8 list \<Rightarrow> nat \<Rightarrow> match_t" where
  "Lookup A str offset =
     (let (last_final_state, last_final_state_position) = Lookup_loop A str offset (GetStartState A) 0 0
      in if last_final_state \<noteq> 0
         then Some (make_match offset last_final_state_position
                 (take (last_final_state_position - offset) (drop offset str)) (GetStateValue A last_final_state))
         else None)"

text \<open>
  \<open>LookupText\<close> queues one lookup at the beginning and one after every space; the functor skips the
  lookups without a match.  The iterator of a lookup has at most one match.
\<close>

function LookupText_queue :: "automata \<Rightarrow> u8 list \<Rightarrow> nat \<Rightarrow> match_t list" where
  "LookupText_queue A str position =
     (if position < length str
      then if str ! position \<noteq> 32 then LookupText_queue A str (position + 1)
           else Lookup A str (position + 1) # LookupText_queue A str (position + 1)
      else [])"
  by pat_completeness auto
termination by (relation "measure (\<lambda>(A, str, position). length str - position)") auto

declare LookupText_queue.simps [simp del]

function LookupText_func :: "(match_t list \<times> match_t) functor_t" where
  "LookupText_func (iterators, current_it) =
     (if iterators \<noteq> [] \<and> current_it = None
      then LookupText_func (tl iterators, hd iterators)
      else Some (current_it, (iterators, None)))"
  by pat_completeness auto
termination by (relation "measure (\<lambda>(iterators, _). length iterators)") auto

declare LookupText_func.simps [simp del]

definition LookupText :: "automata \<Rightarrow> u8 list \<Rightarrow> (match_t list \<times> match_t) MatchIterator option" where
  "LookupText A str = MakeIterator LookupText_func (LookupText_queue A str 1, Lookup A str 0) None"

text \<open>\<open>GetAllItems\<close>: the functor advances the state traverser to the next final state.\<close>

type_synonym all_items_data = "(Transition, TraversalPayload) StateTraverser \<times> u8 list"

partial_function (option) GetAllItems_func :: "automata \<Rightarrow> all_items_data \<Rightarrow> (match_t \<times> all_items_data) option" where
  "GetAllItems_func A data =
     (case data of (traverser, path) \<Rightarrow>
       if current_state traverser \<noteq> 0
       then (let d = GetDepth plain_ops (stack traverser);
                 ts = take (d - 1) path @ replicate (d - 1 - length path) 0
                        @ [current_label traverser];
                 next = traverser_next plain_ops A traverser
             in if IsFinalState A (current_state traverser)
                then Some (Some (make_match 0 d (take d ts) (GetStateValue A (current_state traverser))), (next, ts))
                else GetAllItems_func A (next, ts))
       else Some (None, data))"

definition GetAllItems :: "automata \<Rightarrow> u64 \<Rightarrow> all_items_data MatchIterator option" where
  "GetAllItems A state =
     (if state = 0 then Some EmptyIterator
      else MakeIterator (GetAllItems_func A)
             (StateTraverser_from plain_ops A state \<lparr>current_depth = 0\<rparr> True, []) None)"

section \<open>Exact lookups\<close>

lemma walk_key_eq: "walk_key A s key = fsa_walk A s key"
  by (induction A s key rule: walk_key.induct) (simp_all add: Let_def)

lemma Contains_loop_iff:
  "s \<noteq> 0 \<Longrightarrow> Contains_loop A s key \<longleftrightarrow> fsa_walk A s key \<noteq> 0 \<and> IsFinalState A (fsa_walk A s key)"
  by (induction A s key rule: Contains_loop.induct) (simp_all add: Let_def)

lemma Contains_from_iff:
  "Contains_from A s key \<longleftrightarrow> s \<noteq> 0 \<and> fsa_walk A s key \<noteq> 0 \<and> IsFinalState A (fsa_walk A s key)"
  by (simp add: Contains_from_def Contains_loop_iff)

section \<open>Longest lookup\<close>

text \<open>\<open>lookup_end A text offset e\<close>: the str from \<open>offset\<close> to \<open>e\<close> is a key that ends at a word boundary.\<close>

definition lookup_end :: "automata \<Rightarrow> u8 list \<Rightarrow> nat \<Rightarrow> nat \<Rightarrow> bool" where
  "lookup_end A str offset e \<longleftrightarrow> offset < e \<and> e \<le> length str
     \<and> (let s = fsa_walk A (GetStartState A) (take (e - offset) (drop offset str)) in s \<noteq> 0 \<and> IsFinalState A s)
     \<and> (e = length str \<or> str ! e = 32)"

lemma walk_snoc:
  "walk step none s (w @ [c]) =
     (if walk step none s w = none \<and> w \<noteq> [] then none else step (walk step none s w) c)"
  by (induction w arbitrary: s) auto

lemma walk_dead: "walk step none s u = none \<Longrightarrow> u \<noteq> [] \<Longrightarrow> walk step none s (u @ v) = none"
proof (induction u arbitrary: s)
  case (Cons c u)
  then show ?case by (cases "u = []") auto
qed simp

abbreviation walk_to :: "automata \<Rightarrow> u8 list \<Rightarrow> nat \<Rightarrow> nat \<Rightarrow> u64" where
  "walk_to A str offset e \<equiv> fsa_walk A (GetStartState A) (take (e - offset) (drop offset str))"

lemma walk_to_Suc:
  assumes "offset \<le> i" "i < length str" "offset < i \<longrightarrow> walk_to A str offset i \<noteq> 0"
  shows "walk_to A str offset (Suc i) = TryWalkTransition A (walk_to A str offset i) (str ! i)"
proof -
  have "take (Suc i - offset) (drop offset str) = take (i - offset) (drop offset str) @ [str ! i]"
    using assms(1,2) by (simp add: Suc_diff_le take_Suc_conv_app_nth)
  moreover have "\<not> (walk_to A str offset i = 0 \<and> take (i - offset) (drop offset str) \<noteq> [])"
    using assms by (cases "offset < i") auto
  ultimately show ?thesis using walk_snoc [of "TryWalkTransition A" 0] by metis
qed

lemma walk_to_dead:
  assumes "walk_to A str offset e = 0" "offset < e" "e \<le> e'" "e \<le> length str"
  shows "walk_to A str offset e' = 0"
proof -
  have "take (e' - offset) (drop offset str) = take (e - offset) (drop offset str) @ take (e' - e) (drop e str)"
    using assms(2-4) take_add [of "e - offset" "e' - e" "drop offset str"] by simp
  moreover have "take (e - offset) (drop offset str) \<noteq> []" using assms(2,4) by simp
  ultimately show ?thesis using walk_dead [OF assms(1)] by metis
qed

lemma Lookup_loop_spec:
  assumes "offset \<le> i" "state = walk_to A str offset i" "offset < i \<longrightarrow> state \<noteq> 0" "i \<le> length str"
  shows "((\<forall>e > i. \<not> lookup_end A str offset e) \<and> Lookup_loop A str i state lf lp = (lf, lp))
    \<or> (\<exists>e > i. lookup_end A str offset e \<and> (\<forall>e' > e. \<not> lookup_end A str offset e')
        \<and> Lookup_loop A str i state lf lp = (walk_to A str offset e, e))"
  using assms
proof (induction A str i state lf lp rule: Lookup_loop.induct)
  case (1 A str i state lf lp)
  show ?case
  proof (cases "i < length str")
    case False
    then have "\<forall>e > i. \<not> lookup_end A str offset e" by (auto simp: lookup_end_def)
    with False show ?thesis by (simp add: Lookup_loop.simps [of A str i])
  next
    case True
    define st where "st = TryWalkTransition A state (str ! i)"
    have st: "st = walk_to A str offset (Suc i)"
      using walk_to_Suc [of offset i str A] "1.prems" True by (simp add: st_def)
    show ?thesis
    proof (cases "st = 0")
      case dead: True
      have "\<not> lookup_end A str offset e" if "i < e" for e
        using walk_to_dead [where A = A and str = str and offset = offset and e = "Suc i" and e' = e] dead st that "1.prems"(1) True
        by (auto simp: lookup_end_def Let_def)
      with dead True show ?thesis by (simp add: Lookup_loop.simps [of A str i] st_def [symmetric])
    next
      case False
      show ?thesis
      proof (cases "IsFinalState A st \<and> (i + 1 = length str \<or> str ! (i + 1) = 32)")
        case hit: True
        have here: "lookup_end A str offset (Suc i)"
          using hit st False True "1.prems"(1) by (simp add: lookup_end_def Let_def)
        have eq: "Lookup_loop A str i state lf lp = Lookup_loop A str (i + 1) st st (i + 1)"
          using True False hit by (simp add: Lookup_loop.simps [of A str i] st_def [symmetric])
        from "1.IH"(1) [OF True st_def _ hit] False st True "1.prems"(1)
        have "((\<forall>e > i + 1. \<not> lookup_end A str offset e) \<and> Lookup_loop A str (i + 1) st st (i + 1) = (st, i + 1))
          \<or> (\<exists>e > i + 1. lookup_end A str offset e \<and> (\<forall>e' > e. \<not> lookup_end A str offset e')
              \<and> Lookup_loop A str (i + 1) st st (i + 1) = (walk_to A str offset e, e))" by simp
        then show ?thesis
        proof (elim disjE conjE exE)
          assume "\<forall>e > i + 1. \<not> lookup_end A str offset e"
            "Lookup_loop A str (i + 1) st st (i + 1) = (st, i + 1)"
          with here eq st show ?thesis by (intro disjI2 exI [of _ "Suc i"]) simp
        next
          fix e assume "i + 1 < e" "lookup_end A str offset e" "\<forall>e' > e. \<not> lookup_end A str offset e'"
            "Lookup_loop A str (i + 1) st st (i + 1) = (walk_to A str offset e, e)"
          with eq show ?thesis by (intro disjI2 exI [of _ e]) simp
        qed
      next
        case miss: False
        have here: "\<not> lookup_end A str offset (Suc i)"
          using miss st by (auto simp: lookup_end_def Let_def)
        have eq: "Lookup_loop A str i state lf lp = Lookup_loop A str (i + 1) st lf lp"
          using True False miss by (auto simp: Lookup_loop.simps [of A str i] st_def [symmetric])
        from "1.IH"(2) [OF True st_def _ miss] False st True "1.prems"(1)
        have "((\<forall>e > i + 1. \<not> lookup_end A str offset e) \<and> Lookup_loop A str (i + 1) st lf lp = (lf, lp))
          \<or> (\<exists>e > i + 1. lookup_end A str offset e \<and> (\<forall>e' > e. \<not> lookup_end A str offset e')
              \<and> Lookup_loop A str (i + 1) st lf lp = (walk_to A str offset e, e))" by simp
        then show ?thesis
        proof (elim disjE conjE exE)
          assume none: "\<forall>e > i + 1. \<not> lookup_end A str offset e" and r: "Lookup_loop A str (i + 1) st lf lp = (lf, lp)"
          have "\<not> lookup_end A str offset e" if "i < e" for e
            using that none here by (cases "e = Suc i") auto
          with r eq show ?thesis by simp
        next
          fix e assume "i + 1 < e" "lookup_end A str offset e" "\<forall>e' > e. \<not> lookup_end A str offset e'"
            "Lookup_loop A str (i + 1) st lf lp = (walk_to A str offset e, e)"
          with eq show ?thesis by (intro disjI2 exI [of _ e]) simp
        qed
      qed
    qed
  qed
qed

section \<open>Lookups in a text\<close>

lemma map_filter_map: "List.map_filter id (map f xs) = List.map_filter f xs"
  by (induction xs) (simp_all add: map_filter_simps split: option.splits)

lemma LookupText_func_pop: "LookupText_func (m # ms, None) = LookupText_func (ms, m)"
  by (subst LookupText_func.simps) simp

lemma LookupText_func_produces:
  "produces LookupText_func (List.map_filter id ms)
     (MI_increment LookupText_func \<lparr>match_functor = Some (ms, None), current_match = c\<rparr>)"
proof (induction ms arbitrary: c)
  case Nil
  then show ?case
    by (simp add: MI_increment_def LookupText_func.simps MI_equal_def EmptyIterator_def map_filter_simps)
next
  case (Cons m ms)
  show ?case
  proof (cases m)
    case None
    have "LookupText_func (m # ms, None) = LookupText_func (ms, None)"
      using None by (simp add: LookupText_func_pop)
    with None Cons.IH [of c] show ?thesis by (simp add: MI_increment_def map_filter_simps)
  next
    case (Some x)
    have "LookupText_func (m # ms, None) = Some (m, (ms, None))"
      using Some by (simp add: LookupText_func_pop LookupText_func.simps [of ms])
    then have "MI_increment LookupText_func \<lparr>match_functor = Some (m # ms, None), current_match = c\<rparr> =
        Some \<lparr>match_functor = Some (ms, None), current_match = Some x\<rparr>"
      using Some by (simp add: MI_increment_def)
    with Some Cons.IH [of "Some x"] show ?thesis by (simp add: map_filter_simps)
  qed
qed

lemma LookupText_produces:
  "produces LookupText_func (List.map_filter id (Lookup A str 0 # LookupText_queue A str 1)) (LookupText A str)"
proof -
  let ?q = "LookupText_queue A str 1" and ?m = "Lookup A str 0"
  have "LookupText_func (?q, ?m) = LookupText_func (?m # ?q, None)"
    by (simp add: LookupText_func_pop)
  then have "LookupText A str =
      MI_increment LookupText_func \<lparr>match_functor = Some (?m # ?q, None), current_match = None\<rparr>"
    by (simp add: LookupText_def MakeIterator_def MI_increment_def)
  with LookupText_func_produces show ?thesis by metis
qed

lemma LookupText_queue_eq:
  "LookupText_queue A str p = map (\<lambda>i. Lookup A str (Suc i)) (filter (\<lambda>i. str ! i = 32) [p ..< length str])"
proof (induction A str p rule: LookupText_queue.induct)
  case (1 A str p)
  then show ?case by (auto simp: LookupText_queue.simps [of A str p] upt_conv_Cons)
qed

section \<open>All items\<close>

lemma EI_go_up_prefix: "\<exists>k. fst (snd (EI_go_up d path stk)) = take k path"
proof (induction d path stk rule: EI_go_up.induct)
  case (1 d path stk)
  show ?case
  proof (cases "GetNextState plain_ops (GetStates plain_ops stk) \<noteq> 0 \<or> d = 0")
    case True
    then show ?thesis by (auto simp: EI_go_up.simps [of d] Let_def intro: exI [of _ "length path"])
  next
    case False
    with "1.IH" [OF refl False] obtain k where
      "fst (snd (EI_go_up d path stk)) = take k (butlast path)" by (auto simp: EI_go_up.simps [of d path] Let_def)
    then show ?thesis by (auto simp: butlast_conv_take)
  qed
qed

text \<open>The node found next extends a prefix of the current path.\<close>

lemma next_node_prefix:
  assumes "stack_ok A N stk" "pending A N stk = (w, s) # rest"
  shows "butlast w = take (length w - 1) (path_to stk (depth stk))" "length w - 1 \<le> depth stk"
proof -
  obtain s' stk' where r: "go_up plain_ops (depth stk) stk = (s', stk')" by fastforce
  note up = go_up_pending [OF assms(1), unfolded r fst_conv snd_conv]
  then have top: "stack_ok A N stk'" "pos stk' (depth stk') < length (level stk' (depth stk'))"
    using assms(2) by simp_all
  from stack_ok_down(2) [OF this] up assms(2)
  have w: "butlast w = path_to stk' (depth stk')" "length w - 1 = depth stk'" by auto
  from EI_go_up_prefix [of "depth stk" "path_to stk (depth stk)" stk] EI_go_up_eq [OF assms(1)] r
  obtain k where k: "path_to stk' (depth stk') = take k (path_to stk (depth stk))" by auto
  then have "depth stk' = min k (depth stk)" using length_path_to [of stk' "depth stk'"]
    by (metis length_path_to length_take min.commute)
  with k w show "butlast w = take (length w - 1) (path_to stk (depth stk))" "length w - 1 \<le> depth stk"
    by (simp_all add: min_def split: if_splits)
qed

definition items_ok :: "automata \<Rightarrow> nat \<Rightarrow> (u8 list \<times> u64) list \<Rightarrow> all_items_data \<Rightarrow> bool" where
  "items_ok A N ns data \<longleftrightarrow>
     (case ns of
        [] \<Rightarrow> current_state (fst data) = 0
      | (w, s) # pd \<Rightarrow> current_state (fst data) = s \<and> s \<noteq> 0 \<and> stack_ok A N (stack (fst data))
          \<and> pending A N (stack (fst data)) = pd \<and> depth (stack (fst data)) = length w \<and> w \<noteq> []
          \<and> current_label (fst data) = last w \<and> path_to (stack (fst data)) (length w) = w
          \<and> butlast w = take (length w - 1) (snd data) \<and> length w - 1 \<le> length (snd data))"

lemma items_ok_next:
  assumes "current_state t \<noteq> 0" "stack_ok A N (stack t)"
    and "path_to (stack t) (depth (stack t)) = path"
  shows "items_ok A N (pending A N (stack t)) (traverser_next plain_ops A t, path)"
proof (cases "pending A N (stack t)")
  case Nil
  with traverser_next_pending(1) [OF assms(1,2)] show ?thesis by (simp add: items_ok_def)
next
  case (Cons x rest)
  obtain w s where x: "x = (w, s)" by (cases x)
  have "length path = depth (stack t)" using assms(3) by auto
  with traverser_next_pending(2) [OF assms(1,2) Cons [unfolded x]] next_node_prefix [OF assms(2) Cons [unfolded x]]
    assms(3) Cons x show ?thesis
    by (simp add: items_ok_def Let_def)
qed

lemma GetAllItems_func_step:
  assumes "items_ok A N ns data"
  shows "case final_nodes A ns of
      [] \<Rightarrow> (\<exists>d'. GetAllItems_func A data = Some (None, d'))
    | (w, s) # rest \<Rightarrow> (\<exists>ns' d'. GetAllItems_func A data =
          Some (Some (make_match 0 (length w) w (GetStateValue A s)), d') \<and> items_ok A N ns' d' \<and> final_nodes A ns' = rest)"
  using assms
proof (induction ns arbitrary: data)
  case Nil
  then show ?case by (subst GetAllItems_func.simps) (auto simp: items_ok_def split: prod.splits)
next
  case (Cons x pd)
  obtain w s where x: "x = (w, s)" by (cases x)
  obtain t path where data: "data = (t, path)" by (cases data)
  from Cons.prems have ok: "current_state t = s" "s \<noteq> 0" "stack_ok A N (stack t)" "pending A N (stack t) = pd"
    "depth (stack t) = length w" "w \<noteq> []" "current_label t = last w" "path_to (stack t) (length w) = w"
    "butlast w = take (length w - 1) path" "length w - 1 \<le> length path"
    by (simp_all add: items_ok_def x data)
  have w: "take (length w - 1) path @ replicate (length w - 1 - length path) 0 @ [last w] = w"
    using ok(6,9,10) by (metis append_butlast_last_id append_self_conv2 diff_is_0_eq' replicate_0)
  have step: "GetAllItems_func A data =
      (if IsFinalState A s then Some (Some (make_match 0 (length w) w (GetStateValue A s)), (traverser_next plain_ops A t, w))
       else GetAllItems_func A (traverser_next plain_ops A t, w))"
    using ok(1,2,5,7) w by (subst GetAllItems_func.simps) (simp add: data Let_def)
  have nxt: "items_ok A N pd (traverser_next plain_ops A t, w)"
    using items_ok_next [of t A N w] ok by simp
  show ?case
  proof (cases "IsFinalState A s")
    case True
    with step nxt x show ?thesis by auto
  next
    case False
    then have "GetAllItems_func A data = GetAllItems_func A (traverser_next plain_ops A t, w)"
      "final_nodes A (x # pd) = final_nodes A pd" using step x by simp_all
    with Cons.IH [OF nxt] show ?thesis by metis
  qed
qed

definition item_match :: "u8 list \<times> u64 \<Rightarrow> Match" where
  "item_match = (\<lambda>(w, v). make_match 0 (length w) w v)"

lemma GetAllItems_func_produces:
  assumes "items_ok A N ns data"
  shows "produces (GetAllItems_func A) (map (\<lambda>(w, s). item_match (w, GetStateValue A s)) (final_nodes A ns))
    (MI_increment (GetAllItems_func A) \<lparr>match_functor = Some data, current_match = c\<rparr>)"
  using assms
proof (induction "final_nodes A ns" arbitrary: ns data c)
  case Nil
  from GetAllItems_func_step [OF Nil.prems] obtain d' where "GetAllItems_func A data = Some (None, d')"
    unfolding Nil.hyps [symmetric] by auto
  then show ?case
    unfolding Nil.hyps [symmetric] by (simp add: MI_increment_def MI_equal_def EmptyIterator_def)
next
  case (Cons x rest)
  obtain w s where x: "x = (w, s)" by (cases x)
  from GetAllItems_func_step [OF Cons.prems] obtain ns' d' where
    f: "GetAllItems_func A data = Some (Some (make_match 0 (length w) w (GetStateValue A s)), d')"
      "items_ok A N ns' d'" "rest = final_nodes A ns'"
    unfolding Cons.hyps(2) [symmetric] x by auto
  from Cons.hyps(1) [OF f(3,2), of "Some (make_match 0 (length w) w (GetStateValue A s))"] f x show ?case
    unfolding Cons.hyps(2) [symmetric] by (simp add: MI_increment_def item_match_def)
qed

lemma GetAllItems_produces:
  assumes "start \<noteq> 0" "fsa_depth A N start"
  shows "produces (GetAllItems_func A) (map item_match (entries A N start)) (GetAllItems A start)"
proof -
  let ?t = "\<lparr>current_state = start, current_weight = 0, current_label = 0,
      stack = fill_states plain_ops A start (GetInnerWeight A start) (TraversalStack \<lparr>current_depth = 0\<rparr>)\<rparr>"
  note init = initial_stack [OF assms(2), of "GetInnerWeight A start", unfolded plain_stack_def]
  have ok: "items_ok A N (nodes (outgoing A) N [] start) (traverser_next plain_ops A ?t, [])"
    using items_ok_next [of ?t A N "[]"] assms(1) init by (simp add: path_to_def)
  have "map item_match (entries A N start) =
      map (\<lambda>(w, s). item_match (w, GetStateValue A s)) (final_nodes A (nodes (outgoing A) N [] start))"
    by (simp add: entries_def split_def comp_def)
  then show ?thesis
    using GetAllItems_func_produces [OF ok] assms(1)
    by (simp add: GetAllItems_def MakeIterator_def StateTraverser_from_def Let_def)
qed

section \<open>Properties\<close>

text \<open>
  C1: \<open>Contains\<close> decides membership: it is true exactly for the keys whose walk from the start state ends in
  a final state; for a non-empty key that is membership in the entries a traversal enumerates.
\<close>

theorem contains_iff_entry:
  assumes "GetStartState A \<noteq> 0" "fsa_depth A N (GetStartState A)"
  shows "Contains A key \<longleftrightarrow>
    (if key = [] then IsFinalState A (GetStartState A) else key \<in> fst ` set (entries A N (GetStartState A)))"
proof (cases "key = []")
  case True
  with assms(1) show ?thesis by (simp add: Contains_def Contains_from_iff)
next
  case False
  then have "Contains A key \<longleftrightarrow> (\<exists>v. (key, v) \<in> set (entries A N (GetStartState A)))"
    using assms(1) entries_iff [OF assms(2)] by (auto simp: Contains_def Contains_from_iff)
  with False show ?thesis by force
qed

theorem contains_iff_entry_witness: "Contains small_automata [97, 98] \<and> \<not> Contains small_automata [98]"
proof -
  have s: "GetStartState small_automata = 1000" by (simp add: GetStartState_def small_automata_def)
  show ?thesis
    using contains_iff_entry [of small_automata "Suc (Suc 0)" "[97, 98]"]
      contains_iff_entry [of small_automata "Suc (Suc 0)" "[98]"]
      small_automata_depth small_automata_entries by (simp add: s)
qed



definition ghost_automata :: automata where
  "ghost_automata = small_automata\<lparr>a_labels := (a_labels small_automata)(256 := 1)\<rparr>"


text \<open>
  C3: \<open>GetAllItems\<close> returns the entries of the dictionary, each once, in ascending order of the keys, with
  key and value, and then ends.
\<close>

theorem get_all_items_complete:
  assumes "start \<noteq> 0" "fsa_depth A N start"
  shows "produces (GetAllItems_func A) (map item_match (entries A N start)) (GetAllItems A start)"
  by (rule GetAllItems_produces [OF assms])

theorem get_all_items_complete_witness:
  "produces (GetAllItems_func small_automata) [make_match 0 1 [97] 7, make_match 0 (Suc 1) [97, 98] 8]
     (GetAllItems small_automata 1000)"
  using get_all_items_complete [OF _ small_automata_depth] by (simp add: small_automata_entries item_match_def)

text \<open>
  C24: \<open>Lookup\<close> is a leftmost longest match.  It returns the longest key that starts at the offset and ends at
  the end of the text or before a space, and nothing when there is none.
\<close>

theorem lookup_longest:
  assumes "offset \<le> length str"
  shows "case Lookup A str offset of
      None \<Rightarrow> \<forall>e. \<not> lookup_end A str offset e
    | Some m \<Rightarrow> lookup_end A str offset (m_end m) \<and> (\<forall>e > m_end m. \<not> lookup_end A str offset e)
        \<and> m_start m = offset \<and> matched_item m = take (m_end m - offset) (drop offset str)
        \<and> m_state m = GetStateValue A (fsa_walk A (GetStartState A) (matched_item m))"
proof -
  have short: "offset < e" if "lookup_end A str offset e" for e using that by (simp add: lookup_end_def)
  have live: "walk_to A str offset e \<noteq> 0" if "lookup_end A str offset e" for e
    using that by (simp add: lookup_end_def Let_def)
  from Lookup_loop_spec [of offset offset "GetStartState A" A str 0 0] assms
  consider (none) "\<forall>e > offset. \<not> lookup_end A str offset e" "Lookup_loop A str offset (GetStartState A) 0 0 = (0, 0)"
    | (some) e where "lookup_end A str offset e" "\<forall>e' > e. \<not> lookup_end A str offset e'"
      "Lookup_loop A str offset (GetStartState A) 0 0 = (walk_to A str offset e, e)" by auto
  then show ?thesis
  proof cases
    case none
    then have "Lookup A str offset = None" by (simp add: Lookup_def)
    with none(1) short show ?thesis by auto
  next
    case some
    with live [OF some(1)] show ?thesis by (simp add: Lookup_def make_match_def)
  qed
qed

theorem lookup_longest_witness:
  "\<exists>m. Lookup small_automata [97, 98, 32, 97] 0 = Some m \<and> lookup_end small_automata [97, 98, 32, 97] 0 (m_end m)"
proof -
  have "Lookup small_automata [97, 98, 32, 97] 0 \<noteq> None" by code_simp
  with lookup_longest [of 0 "[97, 98, 32, 97]" small_automata] show ?thesis by (auto split: option.splits)
qed

text \<open>
  \<open>LookupText\<close> returns the matches of the lookups at the beginning of the text and after every space
  from the second character on, in order.
\<close>

theorem lookup_text_words:
  "produces LookupText_func
     (List.map_filter (Lookup A str) (0 # map Suc (filter (\<lambda>i. str ! i = 32) [1 ..< length str]))) (LookupText A str)"
proof -
  have "Lookup A str 0 # LookupText_queue A str 1 =
      map (Lookup A str) (0 # map Suc (filter (\<lambda>i. str ! i = 32) [1 ..< length str]))"
    by (simp add: LookupText_queue_eq)
  then show ?thesis using LookupText_produces [of A str] map_filter_map by metis
qed

text \<open>
  A word after a leading space is never looked up: the search for spaces starts at the second
  character of the text.
\<close>

theorem lookup_text_leading_space:
  "Lookup small_automata [32, 97] 1 \<noteq> None \<and> produces LookupText_func [] (LookupText small_automata [32, 97])"
proof -
  have "Lookup small_automata [32, 97] 1 \<noteq> None" "Lookup small_automata [32, 97] 0 = None" by code_simp+
  moreover have "filter (\<lambda>i. [32, 97 :: u8] ! i = 32) [1 ..< 2] = []" by code_simp
  ultimately show ?thesis using LookupText_produces [of small_automata "[32, 97]"]
    by (simp add: LookupText_queue_eq map_filter_simps numeral_2_eq_2)
qed

end
