(* ===== verification/String_Distance.thy ===== *)
theory String_Distance
  imports Prelude
begin

text \<open>
  The edit distance of fuzzy matching: \<open>stringdistance/distance_matrix.h\<close>, \<open>needleman_wunsch.h\<close> and the two cost
  functions of \<open>levenshtein.h\<close>.  A row of the matrix is computed for every code point of the candidate, in a corridor around
  the diagonal only.  Scores are integers here; they stay below the lengths of the sequences.
\<close>

section \<open>The matrix\<close>

text \<open>The matrix lies in memory row by row; \<open>junk\<close> is what fresh memory holds.\<close>

record DistanceMatrix =
  dm_cells :: "int list"
  number_of_columns :: nat
  number_of_rows :: nat

datatype matrix_error = Matrix_Without_Rows_Or_Columns

definition DistanceMatrix :: "int \<Rightarrow> nat \<Rightarrow> nat \<Rightarrow> matrix_error + DistanceMatrix" where
  "DistanceMatrix junk rows columns =
     (if rows < 1 \<or> columns < 1 then Inl Matrix_Without_Rows_Or_Columns
      else Inr \<lparr>dm_cells = replicate (rows * columns) junk, number_of_columns = columns, number_of_rows = rows\<rparr>)"

definition DM_Get :: "DistanceMatrix \<Rightarrow> nat \<Rightarrow> nat \<Rightarrow> int" where
  "DM_Get d row column = dm_cells d ! (row * number_of_columns d + column)"

definition DM_Set :: "nat \<Rightarrow> nat \<Rightarrow> int \<Rightarrow> DistanceMatrix \<Rightarrow> DistanceMatrix" where
  "DM_Set row column v d = d\<lparr>dm_cells := (dm_cells d)[row * number_of_columns d + column := v]\<rparr>"

definition EnsureRowCapacity :: "int \<Rightarrow> nat \<Rightarrow> DistanceMatrix \<Rightarrow> DistanceMatrix" where
  "EnsureRowCapacity junk minimum_rows d =
     (if minimum_rows > number_of_rows d
      then (let new_rows = max minimum_rows (number_of_rows d * 6 div 5)
            in d\<lparr>dm_cells := take (number_of_rows d * number_of_columns d) (dm_cells d)
                   @ replicate ((new_rows - number_of_rows d) * number_of_columns d) junk,
                 number_of_rows := new_rows\<rparr>)
      else d)"

definition dm_ok :: "DistanceMatrix \<Rightarrow> bool" where
  "dm_ok d \<longleftrightarrow> length (dm_cells d) = number_of_rows d * number_of_columns d"

lemma cell_index:
  fixes r c r' c' n :: nat
  assumes "c < n" "c' < n"
  shows "r * n + c = r' * n + c' \<longleftrightarrow> r = r' \<and> c = c'"
proof
  assume eq: "r * n + c = r' * n + c'"
  have "(r * n + c) div n = r" "(r' * n + c') div n = r'" using assms by simp_all
  with eq show "r = r' \<and> c = c'" by (metis add_left_cancel)
qed simp

lemma cell_bound: "r < rows \<Longrightarrow> c < n \<Longrightarrow> r * n + c < rows * n" for r c n rows :: nat
proof -
  assume "r < rows" "c < n"
  then have "r * n + c < Suc r * n" by simp
  also have "\<dots> \<le> rows * n" using \<open>r < rows\<close> by (intro mult_right_mono) simp_all
  finally show ?thesis .
qed

lemma DM_Set_simps [simp]: "number_of_columns (DM_Set r c v d) = number_of_columns d"
  "number_of_rows (DM_Set r c v d) = number_of_rows d" "dm_ok (DM_Set r c v d) = dm_ok d"
  by (simp_all add: DM_Set_def dm_ok_def)

lemma DM_Get_Set:
  assumes "dm_ok d" "r < number_of_rows d" "c < number_of_columns d" "c' < number_of_columns d"
  shows "DM_Get (DM_Set r c v d) r' c' = (if r' = r \<and> c' = c then v else DM_Get d r' c')"
proof (cases "r' = r \<and> c' = c")
  case True
  then show ?thesis
    using assms cell_bound [OF assms(2,3)] by (simp add: DM_Get_def DM_Set_def dm_ok_def)
next
  case False
  then have "r * number_of_columns d + c \<noteq> r' * number_of_columns d + c'" using cell_index [OF assms(3,4), of r r'] by blast
  then have "DM_Get (DM_Set r c v d) r' c' = DM_Get d r' c'" by (simp add: DM_Get_def DM_Set_def)
  then show ?thesis unfolding if_not_P [OF False] .
qed

lemma EnsureRowCapacity_ok:
  assumes "dm_ok d"
  shows "dm_ok (EnsureRowCapacity junk n d)" "number_of_columns (EnsureRowCapacity junk n d) = number_of_columns d"
    "number_of_rows (EnsureRowCapacity junk n d) \<ge> n" "number_of_rows (EnsureRowCapacity junk n d) \<ge> number_of_rows d"
    "r < number_of_rows d \<Longrightarrow> c < number_of_columns d \<Longrightarrow> DM_Get (EnsureRowCapacity junk n d) r c = DM_Get d r c"
proof -
  show "dm_ok (EnsureRowCapacity junk n d)"
  proof (cases "n > number_of_rows d")
    case True
    let ?r = "max n (number_of_rows d * 6 div 5)"
    have "number_of_rows d + (?r - number_of_rows d) = ?r" using True by simp
    then have "number_of_rows d * number_of_columns d + (?r - number_of_rows d) * number_of_columns d = ?r * number_of_columns d"
      by (metis add_mult_distrib)
    then show ?thesis using True assms by (simp add: EnsureRowCapacity_def dm_ok_def Let_def)
  qed (use assms in \<open>simp add: EnsureRowCapacity_def\<close>)
  show "number_of_columns (EnsureRowCapacity junk n d) = number_of_columns d"
    "number_of_rows (EnsureRowCapacity junk n d) \<ge> n" "number_of_rows (EnsureRowCapacity junk n d) \<ge> number_of_rows d"
    by (auto simp: EnsureRowCapacity_def Let_def)
  show "DM_Get (EnsureRowCapacity junk n d) r c = DM_Get d r c" if "r < number_of_rows d" "c < number_of_columns d"
    using assms cell_bound [OF that] by (auto simp: EnsureRowCapacity_def dm_ok_def Let_def DM_Get_def nth_append)
qed

section \<open>The distance\<close>

text \<open>The cost functions are the argument of the template.\<close>

record cost_function =
  GetSubstitutionCost :: "u32 \<Rightarrow> u32 \<Rightarrow> int"
  GetCompletionCost :: int
  GetInsertionCost :: "u32 \<Rightarrow> int"
  GetDeletionCost :: "u32 \<Rightarrow> int"
  GetTranspositionCost :: "u32 \<Rightarrow> u32 \<Rightarrow> int"

definition Damerau_Levenshtein :: cost_function where
  "Damerau_Levenshtein =
     \<lparr>GetSubstitutionCost = (\<lambda>from to. if from \<noteq> to then 1 else 0), GetCompletionCost = 1, GetInsertionCost = (\<lambda>_. 1),
      GetDeletionCost = (\<lambda>_. 1), GetTranspositionCost = (\<lambda>_ _. 1)\<rparr>"

definition Damerau_LevenshteinCompletion :: cost_function where
  "Damerau_LevenshteinCompletion =
     \<lparr>GetSubstitutionCost = (\<lambda>from to. if from \<noteq> to then 1 else 0), GetCompletionCost = 0, GetInsertionCost = (\<lambda>_. 1),
      GetDeletionCost = (\<lambda>_. 1), GetTranspositionCost = (\<lambda>_ _. 1)\<rparr>"

record NeedlemanWunsch =
  max_distance :: nat
  compare_sequence :: "u32 list"
  intermediate_scores :: "int list"
  last_put_position :: nat
  latest_calculated_row :: nat
  input_sequence :: "u32 list"
  distance_matrix :: DistanceMatrix
  cost_fun :: cost_function

definition first_row :: "cost_function \<Rightarrow> DistanceMatrix \<Rightarrow> DistanceMatrix" where
  "first_row cost d = fold (\<lambda>i. DM_Set 0 i (int i * GetDeletionCost cost 0)) [0..<number_of_columns d] d"

definition NeedlemanWunsch :: "int \<Rightarrow> cost_function \<Rightarrow> u32 list \<Rightarrow> nat \<Rightarrow> nat \<Rightarrow> matrix_error + NeedlemanWunsch" where
  "NeedlemanWunsch junk cost input rows maxd =
     bind_sum (DistanceMatrix junk rows (length input + 1)) (\<lambda>d.
       Inr \<lparr>max_distance = maxd, compare_sequence = [], intermediate_scores = [0], last_put_position = 0,
            latest_calculated_row = 1, input_sequence = input, distance_matrix = first_row cost d, cost_fun = cost\<rparr>)"

definition resize :: "nat \<Rightarrow> 'a \<Rightarrow> 'a list \<Rightarrow> 'a list" where
  "resize n x xs = take n xs @ replicate (n - length xs) x"

definition EnsureCapacity :: "int \<Rightarrow> nat \<Rightarrow> NeedlemanWunsch \<Rightarrow> NeedlemanWunsch" where
  "EnsureCapacity junk capacity s =
     (let s1 = s\<lparr>distance_matrix := EnsureRowCapacity junk (capacity + 1) (distance_matrix s)\<rparr>
      in if length (compare_sequence s1) < capacity
         then s1\<lparr>compare_sequence := resize capacity 0 (compare_sequence s1),
                 intermediate_scores := resize capacity 0 (intermediate_scores s1)\<rparr>
         else s1)"

text \<open>One cell, from the row above, the row above that, and the cell to the left.\<close>

definition INT32_MAX :: int where
  "INT32_MAX = 2147483647"

definition put_field :: "NeedlemanWunsch \<Rightarrow> u32 \<Rightarrow> nat \<Rightarrow> DistanceMatrix \<Rightarrow> nat \<Rightarrow> int" where
  "put_field s codepoint row d column =
     (let cost = cost_fun s; a = input_sequence s; b = compare_sequence s; columns = number_of_columns d;
          substitution_cost = GetSubstitutionCost cost (a ! (column - 1)) codepoint;
          substitution_result = substitution_cost + DM_Get d (row - 1) (column - 1);
          field_result =
            (if substitution_cost = 0 then substitution_result
             else (let deletion_result = DM_Get d row (column - 1) + GetDeletionCost cost (a ! (column - 1));
                       insertion_result = DM_Get d (row - 1) column + GetInsertionCost cost codepoint;
                       transposition_result =
                         (if row > 1 \<and> column > 1 \<and> a ! (column - 1) = b ! (row - 2) \<and> a ! (column - 2) = b ! (row - 1)
                          then DM_Get d (row - 2) (column - 2) + GetTranspositionCost cost (a ! (column - 1)) (a ! (column - 2))
                          else INT32_MAX)
                   in min (min deletion_result insertion_result) (min transposition_result substitution_result)))
      in if column + 1 = columns then min (DM_Get d (row - 1) column + GetCompletionCost cost) field_result
         else field_result)"

fun put_columns :: "NeedlemanWunsch \<Rightarrow> u32 \<Rightarrow> nat \<Rightarrow> nat \<Rightarrow> nat \<Rightarrow> DistanceMatrix \<Rightarrow> int \<Rightarrow> DistanceMatrix \<times> int" where
  "put_columns s codepoint row column 0 d score = (d, score)"
| "put_columns s codepoint row column (Suc n) d score =
     (let field_result = put_field s codepoint row d column; d' = DM_Set row column field_result d;
          score' = (if (column + 1 = number_of_columns d \<or> column + max_distance s \<ge> row) \<and> field_result \<le> score
                    then field_result else score)
      in put_columns s codepoint row (column + 1) n d' score')"

definition Put :: "int \<Rightarrow> u32 \<Rightarrow> nat \<Rightarrow> NeedlemanWunsch \<Rightarrow> int \<times> NeedlemanWunsch" where
  "Put junk codepoint position s0 =
     (let row = position + 1; s1 = EnsureCapacity junk (row + 1) s0;
          s = s1\<lparr>compare_sequence := (compare_sequence s1)[position := codepoint], last_put_position := position\<rparr>;
          columns = number_of_columns (distance_matrix s); cost = cost_fun s;
          right_cutoff = min columns (row + max_distance s + 1);
          left_cutoff = (if row > max_distance s then row - max_distance s else 1);
          intermediate_score = intermediate_scores s ! (row - 1) + GetInsertionCost cost codepoint
      in if left_cutoff \<ge> columns
         then (let r = intermediate_scores s ! (row - 1) + min (GetCompletionCost cost) (GetInsertionCost cost codepoint)
               in (r, s\<lparr>intermediate_scores := (intermediate_scores s)[row := r]\<rparr>))
         else (let d1 = DM_Set row (left_cutoff - 1) (int (row - left_cutoff + 1) * GetInsertionCost cost codepoint)
                          (distance_matrix s);
                   (d2, r) = put_columns s codepoint row left_cutoff (right_cutoff - left_cutoff) d1 intermediate_score;
                   d3 = (if right_cutoff < columns
                         then DM_Set row (columns - 1) (int (max_distance s) + 1)
                                (DM_Set row right_cutoff (int (max_distance s) + 1) d2)
                         else d2)
               in (r, s\<lparr>distance_matrix := d3, latest_calculated_row := row,
                        intermediate_scores := (intermediate_scores s)[row := r]\<rparr>)))"

definition GetScore :: "NeedlemanWunsch \<Rightarrow> int" where
  "GetScore s = DM_Get (distance_matrix s) (latest_calculated_row s) (number_of_columns (distance_matrix s) - 1)"

section \<open>The distance of two sequences\<close>

text \<open>
  The number of edits (insertions, deletions, substitutions and swaps of neighbours, no piece edited twice) that turn
  the first \<open>j\<close> code points of \<open>a\<close> into the first \<open>i\<close> of \<open>b\<close>.
\<close>

fun edits :: "'a list \<Rightarrow> 'a list \<Rightarrow> nat \<Rightarrow> nat \<Rightarrow> nat" where
  "edits a b 0 j = j"
| "edits a b (Suc i) 0 = Suc i"
| "edits a b (Suc i) (Suc j) =
     min (min (edits a b (Suc i) j + 1) (edits a b i (Suc j) + 1))
       (min (edits a b i j + (if a ! j = b ! i then 0 else 1))
         (if i > 0 \<and> j > 0 \<and> a ! j = b ! (i - 1) \<and> a ! (j - 1) = b ! i then edits a b (i - 1) (j - 1) + 1
          else edits a b i j + 1))"

lemma edits_0 [simp]: "edits a b i 0 = i"
  by (cases i) simp_all

lemmas edits_step = edits.simps(3)

declare edits_step [simp del]

lemma min4_le: "min (min p q) (min r t) \<le> p" "min (min p q) (min r t) \<le> q" "min (min p q) (min r t) \<le> r"
  "min (min p q) (min r t) \<le> t" for p q r t :: "'a :: linorder"
  by (simp_all add: min.coboundedI1 min.coboundedI2)

lemma le_min4: "x \<le> min (min p q) (min r t) \<longleftrightarrow> x \<le> p \<and> x \<le> q \<and> x \<le> r \<and> x \<le> t" for x p q r t :: "'a :: linorder"
  by auto

lemma edits_cases:
  obtains (deletion) "edits a b (Suc i) (Suc j) = edits a b (Suc i) j + 1"
  | (insertion) "edits a b (Suc i) (Suc j) = edits a b i (Suc j) + 1"
  | (substitution) "edits a b (Suc i) (Suc j) = edits a b i j + (if a ! j = b ! i then 0 else 1)"
  | (transposition) "i > 0" "j > 0" "a ! j = b ! (i - 1)" "a ! (j - 1) = b ! i"
      "edits a b (Suc i) (Suc j) = edits a b (i - 1) (j - 1) + 1"
proof -
  let ?s = "edits a b i j + (if a ! j = b ! i then 0 else 1)"
  let ?t = "if i > 0 \<and> j > 0 \<and> a ! j = b ! (i - 1) \<and> a ! (j - 1) = b ! i then edits a b (i - 1) (j - 1) + 1
            else edits a b i j + 1"
  have min4: "min (min p q) (min r t) \<in> {p, q, r, t}" for p q r t :: nat by (simp add: min_def)
  have upper: "edits a b (Suc i) (Suc j) \<le> ?s" unfolding edits_step by (rule min4_le)
  have mem: "edits a b (Suc i) (Suc j) \<in> {edits a b (Suc i) j + 1, edits a b i (Suc j) + 1, ?s, ?t}"
    unfolding edits_step by (rule min4)
  then consider "edits a b (Suc i) (Suc j) = edits a b (Suc i) j + 1" | "edits a b (Suc i) (Suc j) = edits a b i (Suc j) + 1"
    | "edits a b (Suc i) (Suc j) = ?s" | "edits a b (Suc i) (Suc j) = ?t" by blast
  then show thesis
  proof cases
    case 4
    show thesis
    proof (cases "i > 0 \<and> j > 0 \<and> a ! j = b ! (i - 1) \<and> a ! (j - 1) = b ! i")
      case True
      then show thesis using transposition 4 by simp
    next
      case False
      then have "edits a b (Suc i) (Suc j) = edits a b i j + 1" unfolding 4 by (rule if_not_P)
      with upper have "edits a b (Suc i) (Suc j) = ?s" by (simp split: if_splits)
      then show thesis by (rule substitution)
    qed
  qed (use deletion insertion substitution in blast)+
qed

text \<open>Neighbouring cells differ by one at most.\<close>

lemma edits_up: "edits a b (Suc i) j \<le> edits a b i j + 1"
  by (cases j) (simp_all only: edits_0 edits_step min4_le)

lemma edits_right: "edits a b i (Suc j) \<le> edits a b i j + 1"
  by (cases i) (simp_all only: edits.simps(1) edits_step min4_le)

lemma edits_substitute: "edits a b (Suc i) (Suc j) \<le> edits a b i j + (if a ! j = b ! i then 0 else 1)"
  unfolding edits_step by (rule min4_le)

lemma edits_diagonal: "edits a b (Suc i) (Suc j) \<le> edits a b i j + 1"
  using edits_substitute [of a b i j] by (simp split: if_splits)

lemma edits_diagonal': "i > 0 \<Longrightarrow> j > 0 \<Longrightarrow> edits a b i j \<le> edits a b (i - 1) (j - 1) + 1"
  using edits_diagonal [of a b "i - 1" "j - 1"] by simp

lemma edits_swap:
  "i > 0 \<Longrightarrow> j > 0 \<Longrightarrow> a ! j = b ! (i - 1) \<Longrightarrow> a ! (j - 1) = b ! i \<Longrightarrow>
   edits a b (Suc i) (Suc j) \<le> edits a b (i - 1) (j - 1) + 1"
  unfolding edits_step by (simp add: min.coboundedI2)

lemma edits_back: "edits a b i j \<le> edits a b (Suc i) j + 1 \<and> edits a b i j \<le> edits a b i (Suc j) + 1"
proof (induction "i + j" arbitrary: i j rule: less_induct)
  case less
  have down: "edits a b i j \<le> edits a b (Suc i) j + 1"
  proof (cases j)
    case (Suc j')
    have "edits a b i j' \<le> edits a b (Suc i) j' + 1" using less [of i j'] Suc by simp
    moreover have "edits a b i (Suc j') \<le> edits a b i j' + 1" by (rule edits_right)
    ultimately have "edits a b i (Suc j') \<le> edits a b (Suc i) (Suc j') + 1"
      using edits_diagonal' [of i j' a b] edits_right [of a b i j']
      by (cases rule: edits_cases [of a b i j']) (simp_all split: if_splits)
    then show ?thesis by (simp add: Suc)
  qed simp
  have "edits a b i j \<le> edits a b i (Suc j) + 1"
  proof (cases i)
    case (Suc i')
    have "edits a b i' j \<le> edits a b i' (Suc j) + 1" using less [of i' j] Suc by simp
    moreover have "edits a b (Suc i') j \<le> edits a b i' j + 1" by (rule edits_up)
    ultimately have "edits a b (Suc i') j \<le> edits a b (Suc i') (Suc j) + 1"
      using edits_diagonal' [of i' j a b] by (cases rule: edits_cases [of a b i' j]) (simp_all split: if_splits)
    then show ?thesis by (simp add: Suc)
  qed simp
  with down show ?case by simp
qed

text \<open>The difference of the lengths is a lower bound.\<close>

lemma edits_lengths: "i \<le> j + edits a b i j \<and> j \<le> i + edits a b i j"
proof (induction "i + j" arbitrary: i j rule: less_induct)
  case less
  show ?case
  proof (cases "i = 0 \<or> j = 0")
    case False
    then obtain i' j' where [simp]: "i = Suc i'" "j = Suc j'" by (metis not0_implies_Suc)
    show ?thesis
      using less [of i j'] less [of i' j] less [of i' j'] less [of "i' - 1" "j' - 1"]
      by (cases rule: edits_cases [of a b i' j']) (simp_all split: if_splits, linarith+)
  qed auto
qed

text \<open>Equal code points are not edited.\<close>

lemma edits_equal: "a ! j = b ! i \<Longrightarrow> edits a b (Suc i) (Suc j) = edits a b i j"
  using edits_substitute [of a b i j] edits_back [of a b i j] edits_diagonal' [of i j a b]
  by (cases rule: edits_cases [of a b i j]) simp_all

lemma edits_cong2:
  "(\<And>k. k < j \<Longrightarrow> a ! k = a' ! k) \<Longrightarrow> (\<And>k. k < i \<Longrightarrow> b ! k = b' ! k) \<Longrightarrow> edits a b i j = edits a' b' i j"
proof (induction a b i j rule: edits.induct)
  case (3 a b i j)
  have "edits a b (Suc i) j = edits a' b' (Suc i) j" "edits a b i (Suc j) = edits a' b' i (Suc j)"
    "edits a b i j = edits a' b' i j" "b ! i = b' ! i" "b ! (i - 1) = b' ! (i - 1)" "a ! j = a' ! j" "a ! (j - 1) = a' ! (j - 1)"
    using 3 by simp_all
  moreover have "edits a b (i - 1) (j - 1) = edits a' b' (i - 1) (j - 1)"
    if "i > 0 \<and> j > 0 \<and> a ! j = b ! (i - 1) \<and> a ! (j - 1) = b ! i" using 3(4) [OF that] 3(6,7) by simp
  ultimately show ?case unfolding edits_step by simp
qed simp_all

lemmas edits_cong = edits_cong2 [where a = a and a' = a for a, OF refl]

text \<open>The least cost of an edit script is what the recursion calculates.\<close>

inductive edit_script :: "nat \<Rightarrow> 'a list \<Rightarrow> 'a list \<Rightarrow> bool" where
  nothing: "edit_script 0 [] []"
| keep: "edit_script n a b \<Longrightarrow> edit_script n (a @ [x]) (b @ [x])"
| delete: "edit_script n a b \<Longrightarrow> edit_script (n + 1) (a @ [x]) b"
| insert: "edit_script n a b \<Longrightarrow> edit_script (n + 1) a (b @ [y])"
| substitute: "edit_script n a b \<Longrightarrow> edit_script (n + 1) (a @ [x]) (b @ [y])"
| swap: "edit_script n a b \<Longrightarrow> edit_script (n + 1) (a @ [x, y]) (b @ [y, x])"

lemma edits_append: "edits (a @ xs) (b @ ys) (length b) (length a) = edits a b (length b) (length a)"
  by (rule edits_cong2) (simp_all add: nth_append)

lemma edit_script_lower: "edit_script n a b \<Longrightarrow> edits a b (length b) (length a) \<le> n"
proof (induction rule: edit_script.induct)
  case (keep n a b x)
  then show ?case
    using edits_substitute [of "a @ [x]" "b @ [x]" "length b" "length a"] edits_append [of a "[x]" b "[x]"] by simp
next
  case (delete n a b x)
  then show ?case using edits_right [of "a @ [x]" b "length b" "length a"] edits_append [of a "[x]" b "[]"] by simp
next
  case (insert n a b y)
  then show ?case using edits_up [of a "b @ [y]" "length b" "length a"] edits_append [of a "[]" b "[y]"] by simp
next
  case (substitute n a b x y)
  then show ?case
    using edits_diagonal [of "a @ [x]" "b @ [y]" "length b" "length a"] edits_append [of a "[x]" b "[y]"] by simp
next
  case (swap n a b x y)
  have "edits (a @ [x, y]) (b @ [y, x]) (Suc (Suc (length b))) (Suc (Suc (length a)))
      \<le> edits (a @ [x, y]) (b @ [y, x]) (length b) (length a) + 1"
  proof -
    have "Suc (length b) > 0 \<and> Suc (length a) > 0 \<and> (a @ [x, y]) ! Suc (length a) = (b @ [y, x]) ! (Suc (length b) - 1) \<and>
      (a @ [x, y]) ! (Suc (length a) - 1) = (b @ [y, x]) ! Suc (length b)" by (simp add: nth_append)
    then show ?thesis using edits_swap [of "Suc (length b)" "Suc (length a)" "a @ [x, y]" "b @ [y, x]"] by simp
  qed
  then show ?case using swap edits_append [of a "[x, y]" b "[y, x]"] by simp
qed simp

lemma edit_script_exists: "j \<le> length a \<Longrightarrow> i \<le> length b \<Longrightarrow> edit_script (edits a b i j) (take j a) (take i b)"
proof (induction "i + j" arbitrary: i j rule: less_induct)
  case less
  show ?case
  proof (cases i)
    case 0
    have "k \<le> length a \<Longrightarrow> edit_script k (take k a) []" for k
      by (induction k) (use edit_script.nothing edit_script.delete in \<open>auto simp: take_Suc_conv_app_nth\<close>)
    then show ?thesis using 0 less by simp
  next
    case i: (Suc i')
    show ?thesis
    proof (cases j)
      case 0
      have "k \<le> length b \<Longrightarrow> edit_script k [] (take k b)" for k
        by (induction k) (use edit_script.nothing edit_script.insert in \<open>auto simp: take_Suc_conv_app_nth\<close>)
      then show ?thesis using 0 i less by simp
    next
      case j: (Suc j')
      have a: "take (Suc j') a = take j' a @ [a ! j']" and b: "take (Suc i') b = take i' b @ [b ! i']"
        using less.prems i j by (simp_all add: take_Suc_conv_app_nth)
      show ?thesis unfolding i j
      proof (cases rule: edits_cases [of a b i' j'])
        case deletion
        then show "edit_script (edits a b (Suc i') (Suc j')) (take (Suc j') a) (take (Suc i') b)"
          using edit_script.delete [OF less.hyps [of "Suc i'" j']] less.prems i j unfolding a by simp
      next
        case insertion
        then show "edit_script (edits a b (Suc i') (Suc j')) (take (Suc j') a) (take (Suc i') b)"
          using edit_script.insert [OF less.hyps [of i' "Suc j'"]] less.prems i j unfolding b by simp
      next
        case substitution
        then show "edit_script (edits a b (Suc i') (Suc j')) (take (Suc j') a) (take (Suc i') b)"
          using edit_script.substitute [OF less.hyps [of i' j']] edit_script.keep [OF less.hyps [of i' j']] less.prems i j
          unfolding a b by simp
      next
        case transposition
        have a2: "take j' a = take (j' - 1) a @ [a ! (j' - 1)]" and b2: "take i' b = take (i' - 1) b @ [b ! (i' - 1)]"
          using transposition less.prems i j take_Suc_conv_app_nth [of "j' - 1" a] take_Suc_conv_app_nth [of "i' - 1" b]
          by simp_all
        have "edit_script (edits a b (i' - 1) (j' - 1)) (take (j' - 1) a) (take (i' - 1) b)"
          using less.hyps [of "i' - 1" "j' - 1"] less.prems i j by simp
        from edit_script.swap [OF this, of "a ! (j' - 1)" "a ! j'"] transposition
        show "edit_script (edits a b (Suc i') (Suc j')) (take (Suc j') a) (take (Suc i') b)" unfolding a b a2 b2 by simp
      qed
    qed
  qed
qed

text \<open>The reference distance of the fuzzy matches is the least number of insertions, deletions, substitutions and
swaps of neighbours that turns one sequence into the other, no code point being edited twice.\<close>

theorem edits_least_script: "edits a b (length b) (length a) = (LEAST n. edit_script n a b)"
  using edit_script_exists [of "length a" a "length b" b] edit_script_lower by (intro Least_equality [symmetric]) simp_all

section \<open>The target of the calculation\<close>

text \<open>
  With completion the last column keeps the best score of all prefixes of the candidate: what follows the input costs
  nothing.
\<close>

fun closest :: "'a list \<Rightarrow> 'a list \<Rightarrow> nat \<Rightarrow> nat" where
  "closest a b 0 = length a"
| "closest a b (Suc i) = min (closest a b i) (edits a b (Suc i) (length a))"

lemma closest_Min: "closest a b i = Min ((\<lambda>k. edits a b k (length a)) ` {..i})"
  by (induction i) (simp_all add: atMost_Suc min.commute)

definition grid :: "bool \<Rightarrow> 'a list \<Rightarrow> 'a list \<Rightarrow> nat \<Rightarrow> nat \<Rightarrow> nat" where
  "grid completion a b i j = (if completion \<and> j = length a then closest a b i else edits a b i j)"

lemma closest_le: "closest a b i \<le> edits a b i (length a)"
  by (cases i) simp_all

lemma grid_le: "grid compl a b i j \<le> edits a b i j"
  by (simp add: grid_def closest_le)

lemma grid_inner: "j < length a \<Longrightarrow> grid compl a b i j = edits a b i j"
  by (simp add: grid_def)

lemma grid_0: "grid compl a b 0 j = j"
  by (simp add: grid_def)

lemma closest_cong: "(\<And>k. k < i \<Longrightarrow> b ! k = b' ! k) \<Longrightarrow> closest a b i = closest a b' i"
proof (induction i)
  case (Suc i)
  then show ?case using edits_cong [of "Suc i" b b' a "length a"] by simp
qed simp

lemma grid_cong: "(\<And>k. k < i \<Longrightarrow> b ! k = b' ! k) \<Longrightarrow> grid compl a b i j = grid compl a b' i j"
  unfolding grid_def using edits_cong [of i b b' a j] closest_cong [of i b b' a] by simp

text \<open>How the last column is computed: an insertion may be free there.\<close>

lemma grid_last:
  assumes "j < length a"
  shows "grid compl a b (Suc i) (Suc j) =
    (if Suc j = length a then min (grid compl a b i (Suc j) + (if compl then 0 else 1)) (edits a b (Suc i) (Suc j))
     else edits a b (Suc i) (Suc j))"
proof (cases "Suc j = length a")
  case True
  then have "edits a b (Suc i) (length a) \<le> edits a b i (length a) + 1" by (intro edits_up)
  then show ?thesis using True by (simp add: grid_def)
qed (use assms in \<open>simp add: grid_def\<close>)

section \<open>Scores up to the maximum distance\<close>

text \<open>Scores above the maximum distance are not told apart.\<close>

definition same_upto :: "nat \<Rightarrow> int \<Rightarrow> nat \<Rightarrow> bool" where
  "same_upto K x y \<longleftrightarrow> min x (int K + 1) = min (int y) (int K + 1)"

lemma same_upto_le: "same_upto K x y \<Longrightarrow> t \<le> int K \<Longrightarrow> x \<le> t \<longleftrightarrow> int y \<le> t"
  by (auto simp: same_upto_def min_def split: if_splits)

lemma same_uptoI: "(\<And>t. t \<le> int K \<Longrightarrow> x \<le> t \<longleftrightarrow> int y \<le> t) \<Longrightarrow> same_upto K x y"
proof -
  assume *: "\<And>t. t \<le> int K \<Longrightarrow> x \<le> t \<longleftrightarrow> int y \<le> t"
  show ?thesis using * [of x] * [of "int y"] * [of "int K"] by (auto simp: same_upto_def min_def)
qed

lemma same_upto_refl [simp]: "same_upto K (int y) y"
  by (simp add: same_upto_def)

lemma same_upto_far: "x > int K \<Longrightarrow> y > K \<Longrightarrow> same_upto K x y"
  by (simp add: same_upto_def)

lemma same_upto_1: "same_upto K x y \<Longrightarrow> same_upto K (x + 1) (y + 1)"
  by (auto simp: same_upto_def min_def split: if_splits)

lemma same_upto_min: "same_upto K x y \<Longrightarrow> same_upto K x' y' \<Longrightarrow> same_upto K (min x x') (min y y')"
  by (auto simp: same_upto_def min_def split: if_splits)

definition unit_costs :: "cost_function \<Rightarrow> bool \<Rightarrow> bool" where
  "unit_costs c completion \<longleftrightarrow> c = (if completion then Damerau_LevenshteinCompletion else Damerau_Levenshtein)"

lemma unit_costs_simps:
  assumes "unit_costs c compl"
  shows "GetSubstitutionCost c x y = (if x = y then 0 else 1)" "GetInsertionCost c x = 1" "GetDeletionCost c x = 1"
    "GetTranspositionCost c x y = 1" "GetCompletionCost c = (if compl then 0 else 1)"
  using assms by (simp_all add: unit_costs_def Damerau_Levenshtein_def Damerau_LevenshteinCompletion_def)

lemma min_absorbed: "w \<le> y \<Longrightarrow> w \<le> z \<Longrightarrow> min w (min (min p y) r) = min w (min (min p z) r)" for w :: nat
  by (simp add: min_def)

text \<open>One cell follows from its neighbours.\<close>

lemma put_field_edits:
  fixes s :: NeedlemanWunsch
  defines "a \<equiv> input_sequence s" and "b \<equiv> compare_sequence s"
  assumes costs: "unit_costs (cost_fun s) compl" and K: "int K + 1 \<le> INT32_MAX"
    and j: "j < length a" "number_of_columns d = Suc (length a)" and cp: "codepoint = b ! i"
    and up: "same_upto K (DM_Get d i (Suc j)) (grid compl a b i (Suc j))"
    and left: "same_upto K (DM_Get d (Suc i) j) (edits a b (Suc i) j)"
    and diagonal: "same_upto K (DM_Get d i j) (edits a b i j)"
    and swap: "i > 0 \<Longrightarrow> j > 0 \<Longrightarrow> same_upto K (DM_Get d (i - 1) (j - 1)) (edits a b (i - 1) (j - 1))"
  shows "same_upto K (put_field s codepoint (Suc i) d (Suc j)) (grid compl a b (Suc i) (Suc j))"
proof -
  define c where "c = (if compl then 0 else 1 :: nat)"
  let ?last = "Suc j = length a"
  let ?swap = "i > 0 \<and> j > 0 \<and> a ! j = b ! (i - 1) \<and> a ! (j - 1) = b ! i"
  let ?T = "if ?swap then DM_Get d (i - 1) (j - 1) + 1 else INT32_MAX"
  let ?f = "if a ! j = b ! i then DM_Get d i j
            else min (min (DM_Get d (Suc i) j + 1) (DM_Get d i (Suc j) + 1)) (min ?T (DM_Get d i j + 1))"
  let ?g = "if a ! j = b ! i then edits a b i j else min (min (edits a b (Suc i) j + 1) (grid compl a b i (Suc j) + 1))
     (min (edits a b i j + 1) (if ?swap then edits a b (i - 1) (j - 1) + 1 else edits a b i j + 1))"
  have field: "put_field s codepoint (Suc i) d (Suc j) = (if ?last then min (DM_Get d i (Suc j) + int c) ?f else ?f)"
  proof -
    have n: "Suc i - 1 = i" "Suc j - 1 = j" "Suc i - 2 = i - 1" "Suc j - 2 = j - 1" "Suc i > 1 \<longleftrightarrow> i > 0" "Suc j > 1 \<longleftrightarrow> j > 0"
      "Suc j + 1 = number_of_columns d \<longleftrightarrow> ?last" using j by auto
    show ?thesis
      unfolding put_field_def Let_def unit_costs_simps [OF costs] n a_def [symmetric] b_def [symmetric] cp c_def
      by (cases "a ! j = b ! i") (simp_all add: add.commute [of 1])
  qed
  have T: "same_upto K (min ?T (DM_Get d i j + 1))
      (min (edits a b i j + 1) (if ?swap then edits a b (i - 1) (j - 1) + 1 else edits a b i j + 1))"
  proof (cases ?swap)
    case True
    then have "same_upto K (DM_Get d (i - 1) (j - 1)) (edits a b (i - 1) (j - 1))" using swap by blast
    from same_upto_min [OF same_upto_1 [OF this] same_upto_1 [OF diagonal]] show ?thesis
      unfolding if_P [OF True] by (simp add: min.commute)
  next
    case False
    have "same_upto K (min INT32_MAX (DM_Get d i j + 1)) (edits a b i j + 1)"
      using same_upto_1 [OF diagonal] K by (auto simp: same_upto_def min_def split: if_splits)
    then show ?thesis unfolding if_not_P [OF False] by simp
  qed
  have f: "same_upto K ?f ?g"
  proof (cases "a ! j = b ! i")
    case True
    then show ?thesis using diagonal by simp
  next
    case False
    then show ?thesis using same_upto_min [OF same_upto_min [OF same_upto_1 [OF left] same_upto_1 [OF up]] T] by simp
  qed
  have up': "same_upto K (DM_Get d i (Suc j) + int c) (grid compl a b i (Suc j) + c)"
    using up same_upto_1 [OF up] by (cases compl) (simp_all add: c_def)
  have g: "edits a b (Suc i) (Suc j) \<le> edits a b i j + 1" by (rule edits_diagonal)
  show ?thesis
  proof (cases ?last)
    case True
    have g': "min (grid compl a b i (Suc j) + c) ?g = min (grid compl a b i (Suc j) + c) (edits a b (Suc i) (Suc j))"
    proof (cases "a ! j = b ! i")
      case True
      then show ?thesis using edits_equal [OF True] by simp
    next
      case False
      have "c \<le> 1" by (simp add: c_def)
      have "grid compl a b i (Suc j) \<le> edits a b i (Suc j)" by (rule grid_le)
      then show ?thesis unfolding edits_step if_not_P [OF False] using \<open>c \<le> 1\<close> by (intro min_absorbed) simp_all
    qed
    have "grid compl a b (Suc i) (Suc j) = min (grid compl a b i (Suc j) + c) (edits a b (Suc i) (Suc j))"
      using grid_last [OF j(1), of compl b i] unfolding if_P [OF True] c_def .
    then have grid: "grid compl a b (Suc i) (Suc j) = min (grid compl a b i (Suc j) + c) ?g" by (rule trans [OF _ g' [symmetric]])
    show ?thesis unfolding field if_P [OF True] grid by (rule same_upto_min [OF up' f])
  next
    case False
    then have "grid compl a b i (Suc j) = edits a b i (Suc j)" using j by (simp add: grid_def)
    then have "?g = edits a b (Suc i) (Suc j)" using edits_equal [of a j b i] by (simp add: edits_step)
    then have "grid compl a b (Suc i) (Suc j) = ?g" using grid_last [OF j(1), of compl b i] False by simp
    then show ?thesis unfolding field if_not_P [OF False] using f by simp
  qed
qed

section \<open>A row of the matrix\<close>

text \<open>
  Row \<open>i\<close> is right within the corridor of Ukkonen's cutoff, the cells next to it included; below row \<open>length a + K\<close>
  nothing is left of the corridor.
\<close>

definition rows_ok :: "bool \<Rightarrow> nat \<Rightarrow> u32 list \<Rightarrow> u32 list \<Rightarrow> DistanceMatrix \<Rightarrow> nat \<Rightarrow> bool" where
  "rows_ok completion K a b d n \<longleftrightarrow> dm_ok d \<and> number_of_columns d = Suc (length a) \<and> n < number_of_rows d \<and>
     (\<forall>i j. i \<le> n \<and> i \<le> length a + K \<and> j \<le> length a \<and> i \<le> j + K + 1 \<and> (j \<le> i + K + 1 \<or> j = length a) \<longrightarrow>
        same_upto K (DM_Get d i j) (grid completion a b i j))"

lemma rows_okD:
  assumes "rows_ok compl K a b d n"
  shows "dm_ok d" "number_of_columns d = Suc (length a)" "n < number_of_rows d"
    "i \<le> n \<Longrightarrow> i \<le> length a + K \<Longrightarrow> j \<le> length a \<Longrightarrow> i \<le> j + K + 1 \<Longrightarrow> j \<le> i + K + 1 \<or> j = length a \<Longrightarrow>
       same_upto K (DM_Get d i j) (grid compl a b i j)"
  using assms by (auto simp: rows_ok_def)

lemma rows_ok_Set:
  assumes ok: "rows_ok compl K a b d n" and r: "n < r" "r < number_of_rows d" "c \<le> length a"
  shows "rows_ok compl K a b (DM_Set r c v d) n"
proof -
  have get: "DM_Get (DM_Set r c v d) i j = DM_Get d i j" if "i \<le> n" "j \<le> length a" for i j
    using DM_Get_Set [of d r c j v i] rows_okD [OF ok] r that by simp
  show ?thesis using ok by (simp add: rows_ok_def get)
qed

lemma rows_okI:
  assumes "dm_ok d" "number_of_columns d = Suc (length a)" "n < number_of_rows d"
    "\<And>i j. i \<le> n \<Longrightarrow> i \<le> length a + K \<Longrightarrow> j \<le> length a \<Longrightarrow> i \<le> j + K + 1 \<Longrightarrow> j \<le> i + K + 1 \<or> j = length a \<Longrightarrow>
       same_upto K (DM_Get d i j) (grid compl a b i j)"
  shows "rows_ok compl K a b d n"
  unfolding rows_ok_def using assms by blast

lemma rows_ok_mono:
  assumes ok: "rows_ok compl K a b d n" and "n' \<le> n"
  shows "rows_ok compl K a b d n'"
proof (rule rows_okI)
  show "same_upto K (DM_Get d i j) (grid compl a b i j)"
    if "i \<le> n'" "i \<le> length a + K" "j \<le> length a" "i \<le> j + K + 1" "j \<le> i + K + 1 \<or> j = length a" for i j
    using rows_okD(4) [OF ok _ that(2-5)] that(1) assms(2) by (meson order_trans)
qed (use rows_okD(1-3) [OF ok] assms(2) in simp_all)

lemma rows_ok_cong:
  assumes ok: "rows_ok compl K a b d n" and eq: "\<And>k. k < n \<Longrightarrow> b ! k = b' ! k"
  shows "rows_ok compl K a b' d n"
proof (rule rows_okI)
  show "same_upto K (DM_Get d i j) (grid compl a b' i j)"
    if "i \<le> n" "i \<le> length a + K" "j \<le> length a" "i \<le> j + K + 1" "j \<le> i + K + 1 \<or> j = length a" for i j
  proof -
    have "grid compl a b i j = grid compl a b' i j" using eq that(1) by (intro grid_cong) simp
    then show ?thesis using rows_okD(4) [OF ok that] by simp
  qed
qed (use rows_okD(1-3) [OF ok] in simp_all)

lemma ex_next_column:
  "(\<exists>k. j < k \<and> k \<le> j + Suc n \<and> P k) \<longleftrightarrow> P (Suc j) \<or> (\<exists>k. Suc j < k \<and> k \<le> Suc j + n \<and> P k)" (is "?l \<longleftrightarrow> ?r")
proof
  assume ?l
  then obtain k where "j < k" "k \<le> j + Suc n" "P k" by blast
  then show ?r by (cases "k = Suc j") auto
next
  assume ?r
  then show ?l
  proof
    assume "P (Suc j)"
    then show ?l by (intro exI [of _ "Suc j"]) simp
  next
    assume "\<exists>k. Suc j < k \<and> k \<le> Suc j + n \<and> P k"
    then obtain k where "Suc j < k" "k \<le> Suc j + n" "P k" by blast
    then show ?l by (intro exI [of _ k]) simp
  qed
qed

lemma put_columns_ok:
  fixes s :: NeedlemanWunsch
  defines "a \<equiv> input_sequence s" and "b \<equiv> compare_sequence s" and "K \<equiv> max_distance s"
  assumes costs: "unit_costs (cost_fun s) compl" and K: "int K + 1 \<le> INT32_MAX" and cp: "codepoint = b ! i"
    and i: "i < length a + K" and "put_columns s codepoint (Suc i) (Suc j) n d v = (d', r)"
    and "j + n \<le> length a" "j + n \<le> i + 1 + K" "i \<le> j + K" "rows_ok compl K a b d i" "Suc i < number_of_rows d"
    and "\<And>k. i \<le> k + K \<Longrightarrow> k \<le> j \<Longrightarrow> same_upto K (DM_Get d (Suc i) k) (grid compl a b (Suc i) k)"
  shows "rows_ok compl K a b d' i \<and> number_of_rows d' = number_of_rows d \<and>
    (\<forall>k. i \<le> k + K \<and> k \<le> j + n \<longrightarrow> same_upto K (DM_Get d' (Suc i) k) (grid compl a b (Suc i) k)) \<and>
    (\<forall>t \<le> int K. r \<le> t \<longleftrightarrow> v \<le> t \<or> (\<exists>k. j < k \<and> k \<le> j + n \<and> int (grid compl a b (Suc i) k) \<le> t))"
  using assms(8-)
proof (induction n arbitrary: j d v)
  case (Suc n)
  note ok = Suc.prems(5) and row = Suc.prems(6) and left = Suc.prems(7)
  let ?f = "put_field s codepoint (Suc i) d (Suc j)"
  let ?d = "DM_Set (Suc i) (Suc j) ?f d"
  let ?v = "if ?f \<le> v then ?f else v"
  have j: "j < length a" "number_of_columns d = Suc (length a)" using Suc.prems(2) rows_okD(2) [OF ok] by simp_all
  have "same_upto K (DM_Get d i (Suc j)) (grid compl a b i (Suc j))"
    using Suc.prems(2-4) i by (intro rows_okD(4) [OF ok]) simp_all
  moreover have "same_upto K (DM_Get d (Suc i) j) (edits a b (Suc i) j)"
    using left [of j] Suc.prems(4) j grid_inner [of j a compl b "Suc i"] by simp
  moreover have "same_upto K (DM_Get d i j) (edits a b i j)"
    using Suc.prems(2-4) i j rows_okD(4) [OF ok, of i j] grid_inner [of j a compl b i] by simp
  moreover have "same_upto K (DM_Get d (i - 1) (j - 1)) (edits a b (i - 1) (j - 1))" if "i > 0" "j > 0"
  proof -
    have "i - 1 \<le> (j - 1) + K + 1" "j - 1 \<le> (i - 1) + K + 1" "j - 1 < length a" "i - 1 \<le> length a + K"
      using Suc.prems(2-4) i j that by linarith+
    then have "same_upto K (DM_Get d (i - 1) (j - 1)) (grid compl a b (i - 1) (j - 1))"
      by (intro rows_okD(4) [OF ok]) simp_all
    then show ?thesis using grid_inner [OF \<open>j - 1 < length a\<close>, of compl b "i - 1"] by simp
  qed
  ultimately have f: "same_upto K ?f (grid compl a b (Suc i) (Suc j))"
    using put_field_edits [OF costs K, of j d codepoint i] j cp unfolding a_def b_def by blast
  have get: "DM_Get ?d (Suc i) k = (if k = Suc j then ?f else DM_Get d (Suc i) k)" if "k \<le> length a" for k
    using DM_Get_Set [of d "Suc i" "Suc j" k ?f "Suc i"] rows_okD(1) [OF ok] row j that by simp
  have "put_columns s codepoint (Suc i) (Suc (Suc j)) n ?d ?v = (d', r)"
    using Suc.prems(1,4) by (simp add: Let_def K_def)
  moreover have "rows_ok compl K a b ?d i" using rows_ok_Set [OF ok _ row] j by simp
  moreover have "same_upto K (DM_Get ?d (Suc i) k) (grid compl a b (Suc i) k)" if "i \<le> k + K" "k \<le> Suc j" for k
    using get [of k] f left [of k] that j by (cases "k = Suc j") simp_all
  ultimately have IH: "rows_ok compl K a b d' i \<and> number_of_rows d' = number_of_rows ?d \<and>
    (\<forall>k. i \<le> k + K \<and> k \<le> Suc j + n \<longrightarrow> same_upto K (DM_Get d' (Suc i) k) (grid compl a b (Suc i) k)) \<and>
    (\<forall>t \<le> int K. r \<le> t \<longleftrightarrow> ?v \<le> t \<or> (\<exists>k. Suc j < k \<and> k \<le> Suc j + n \<and> int (grid compl a b (Suc i) k) \<le> t))"
    using Suc.prems(2-4) row by (intro Suc.IH) simp_all
  have "r \<le> t \<longleftrightarrow> v \<le> t \<or> (\<exists>k. j < k \<and> k \<le> j + Suc n \<and> int (grid compl a b (Suc i) k) \<le> t)" if t: "t \<le> int K" for t
  proof -
    have "?v \<le> t \<longleftrightarrow> v \<le> t \<or> int (grid compl a b (Suc i) (Suc j)) \<le> t" using same_upto_le [OF f t] by auto
    then show ?thesis using IH t unfolding ex_next_column [of j n] by blast
  qed
  with IH show ?case by simp
qed auto

text \<open>The best score of a row.\<close>

definition row_min :: "bool \<Rightarrow> 'a list \<Rightarrow> 'a list \<Rightarrow> nat \<Rightarrow> nat" where
  "row_min completion a b i = Min (grid completion a b i ` {..length a})"

lemma row_min_le: "int (row_min compl a b i) \<le> t \<longleftrightarrow> (\<exists>j \<le> length a. int (grid compl a b i j) \<le> t)"
proof -
  let ?S = "grid compl a b i ` {..length a}"
  have "Min ?S \<in> ?S" by (intro Min_in) auto
  then obtain j where j: "j \<le> length a" "Min ?S = grid compl a b i j"
    by (metis (no_types, lifting) atMost_iff imageE)
  have "Min ?S \<le> grid compl a b i j" if "j \<le> length a" for j using that by (intro Min_le) auto
  then have "int (Min ?S) \<le> t" if "j \<le> length a" "int (grid compl a b i j) \<le> t" for j
    using that by (meson of_nat_mono order_trans)
  then show ?thesis unfolding row_min_def using j by metis
qed

lemma row_min_cong: "(\<And>k. k < i \<Longrightarrow> b ! k = b' ! k) \<Longrightarrow> row_min compl a b i = row_min compl a b' i"
  using grid_cong [of i b b' compl a] by (simp add: row_min_def)

lemma grid_up: "grid compl a b (Suc i) j \<le> grid compl a b i j + 1"
  using edits_up [of a b i j] by (cases "compl \<and> j = length a") (simp_all add: grid_def, linarith?)

text \<open>What is left of the corridor and what is right of it costs more than the maximum.\<close>

lemma closest_length: "length a \<le> i + closest a b i"
proof (induction i)
  case (Suc i)
  then show ?case using edits_lengths [of "Suc i" "length a" a b] by (simp add: min_def)
qed simp

lemma grid_right: "j \<le> i + grid compl a b i j"
  using closest_length [of a i b] edits_lengths [of i j a b] by (simp add: grid_def)

lemma grid_left: "j < length a \<or> \<not> compl \<Longrightarrow> i \<le> j + grid compl a b i j"
  using edits_lengths [of i j a b] by (auto simp: grid_def)

lemma row_min_step:
  assumes t: "t \<le> int K" and i: "i < length a + K" and a: "a \<noteq> []"
  shows "int (row_min compl a b (Suc i)) \<le> t \<longleftrightarrow> int (row_min compl a b i) \<le> t - 1 \<or>
    (\<exists>k. i < k + K \<and> 0 < k \<and> k \<le> length a \<and> k \<le> i + 1 + K \<and> int (grid compl a b (Suc i) k) \<le> t)"
    (is "?l \<longleftrightarrow> ?r1 \<or> ?r2")
proof
  assume ?l
  then obtain j where j: "j \<le> length a" "int (grid compl a b (Suc i) j) \<le> t" unfolding row_min_le by blast
  have right: "j \<le> i + 1 + K" using grid_right [of j "Suc i" compl a b] j t by linarith
  show "?r1 \<or> ?r2"
  proof (cases "0 < j \<and> i < j + K")
    case True
    then show ?thesis using j right by blast
  next
    case False
    have "j < length a" using False i a j by (cases "j = length a") auto
    then have left: "Suc i \<le> j + grid compl a b (Suc i) j" using grid_left by blast
    with False t j have "j = 0" by linarith
    then have "int (grid compl a b i 0) \<le> t - 1" using left j grid_inner [of 0 a compl b i] a by simp
    then have ?r1 unfolding row_min_le by blast
    then show ?thesis ..
  qed
next
  assume "?r1 \<or> ?r2"
  then show ?l
  proof
    assume ?r1
    then obtain j where "j \<le> length a" "int (grid compl a b i j) \<le> t - 1" unfolding row_min_le by blast
    then show ?l unfolding row_min_le using grid_up [of compl a b i j] by (intro exI [of _ j]) simp
  qed (auto simp: row_min_le)
qed

text \<open>Below the corridor.\<close>

lemma row_min_below:
  assumes t: "t \<le> int K" and i: "i \<ge> length a + K" and a: "a \<noteq> []"
  shows "int (row_min compl a b (Suc i)) \<le> t \<longleftrightarrow> compl \<and> int (row_min compl a b i) \<le> t"
proof -
  have no: "\<not> int (grid compl a b i' j) \<le> t" if "j < length a" "i' \<ge> length a + K" for i' j
    using grid_left [of j a compl i' b] that t by linarith
  have row: "int (row_min compl a b i') \<le> t \<longleftrightarrow> int (grid compl a b i' (length a)) \<le> t" if "i' \<ge> length a + K" for i'
    unfolding row_min_le using no that by (metis le_eq_less_or_eq)
  have far: "int (edits a b (Suc i) (length a)) > t" using edits_lengths [of "Suc i" "length a" a b] i t by linarith
  show ?thesis
  proof (cases compl)
    case True
    then have "int (grid compl a b (Suc i) (length a)) \<le> t \<longleftrightarrow> int (grid compl a b i (length a)) \<le> t"
      using far by (auto simp: grid_def)
    then show ?thesis using row [of i] row [of "Suc i"] i True by simp
  next
    case False
    then show ?thesis using row [of "Suc i"] far i by (simp add: grid_def)
  qed
qed

text \<open>The best score never falls again: what is above the maximum once stays above it.\<close>

lemma row_min_mono: "row_min compl a b i \<le> row_min compl a b (Suc i)"
proof -
  have edits: "row_min compl a b i \<le> edits a b (Suc i) j" if "j \<le> length a" for j using that
  proof (induction j)
    case 0
    have "grid compl a b i 0 \<le> i" using grid_le [of compl a b i 0] by simp
    then show ?case using row_min_le [of compl a b i "int i"] by auto
  next
    case (Suc j)
    have g: "row_min compl a b k \<le> edits a b k l" if "l \<le> length a" for k l
      using row_min_le [of compl a b k "int (edits a b k l)"] that grid_le [of compl a b k l] by auto
    show ?case
    proof (cases rule: edits_cases [of a b i j])
      case transposition
      have "edits a b (Suc (i - 1)) (j - 1) \<le> edits a b (i - 1) (j - 1) + 1" by (rule edits_up)
      then have "edits a b i (j - 1) \<le> edits a b (Suc i) (Suc j)" using transposition by simp
      moreover have "j - 1 \<le> length a" using Suc.prems by linarith
      ultimately show ?thesis using g [of "j - 1" i] by linarith
    qed (use Suc g [of j i] g [of "Suc j" i] in simp_all)
  qed
  have "row_min compl a b i \<le> grid compl a b (Suc i) j" if "j \<le> length a" for j
  proof (cases "compl \<and> j = length a")
    case True
    then have "row_min compl a b i \<le> closest a b i"
      using row_min_le [of compl a b i "int (closest a b i)"] by (auto simp: grid_def)
    then show ?thesis using True edits [of "length a"] by (simp add: grid_def)
  qed (use edits [OF that] in \<open>auto simp: grid_def\<close>)
  then show ?thesis using row_min_le [of compl a b "Suc i" "int (row_min compl a b (Suc i))"] by fastforce
qed

section \<open>The states of the metric\<close>

text \<open>
  The metric describes the first \<open>n\<close> code points of the compare sequence; what lies behind belongs to candidates that
  have been left.
\<close>

definition nw_ok :: "bool \<Rightarrow> NeedlemanWunsch \<Rightarrow> nat \<Rightarrow> bool" where
  "nw_ok completion s n \<longleftrightarrow>
     (let a = input_sequence s; b = compare_sequence s; K = max_distance s
      in unit_costs (cost_fun s) completion \<and> int K + 1 \<le> INT32_MAX \<and> a \<noteq> [] \<and>
         rows_ok completion K a b (distance_matrix s) n \<and> n \<le> length b \<and> length (intermediate_scores s) = max 1 (length b) \<and>
         n < length (intermediate_scores s) \<and>
         (\<forall>i \<le> n. same_upto K (intermediate_scores s ! i) (row_min completion a b i)))"

text \<open>The row \<open>GetScore\<close> reads.\<close>

definition latest_ok :: "NeedlemanWunsch \<Rightarrow> nat \<Rightarrow> bool" where
  "latest_ok s n \<longleftrightarrow> (n > 0 \<longrightarrow> latest_calculated_row s = min n (length (input_sequence s) + max_distance s))"

lemma first_row_cells:
  assumes "dm_ok d" "0 < number_of_rows d" "unit_costs cost compl"
  shows "dm_ok (first_row cost d)" "number_of_rows (first_row cost d) = number_of_rows d"
    "number_of_columns (first_row cost d) = number_of_columns d"
    "j < number_of_columns d \<Longrightarrow> DM_Get (first_row cost d) 0 j = int j"
proof -
  let ?f = "\<lambda>i. DM_Set 0 i (int i * GetDeletionCost cost 0)"
  have *: "dm_ok (fold ?f [0..<n] d) \<and> number_of_rows (fold ?f [0..<n] d) = number_of_rows d \<and>
     number_of_columns (fold ?f [0..<n] d) = number_of_columns d \<and> (\<forall>j < n. DM_Get (fold ?f [0..<n] d) 0 j = int j)"
    if "n \<le> number_of_columns d" for n using that
  proof (induction n)
    case (Suc n)
    then show ?case
      using DM_Get_Set [of "fold ?f [0..<n] d" 0 n] assms(2) by (simp add: less_Suc_eq unit_costs_simps [OF assms(3)])
  qed (simp add: assms(1))
  then show "dm_ok (first_row cost d)" "number_of_rows (first_row cost d) = number_of_rows d"
    "number_of_columns (first_row cost d) = number_of_columns d"
    "j < number_of_columns d \<Longrightarrow> DM_Get (first_row cost d) 0 j = int j"
    unfolding first_row_def by blast+
qed

lemma row_min_0: "row_min compl a b 0 = 0"
proof -
  have "int (row_min compl a b 0) \<le> 0" unfolding row_min_le by (intro exI [of _ 0]) (simp add: grid_0)
  then show ?thesis by simp
qed

lemma NeedlemanWunsch_ok:
  assumes "unit_costs cost compl" "int K + 1 \<le> INT32_MAX" "a \<noteq> []" "rows > 0"
  obtains s where "NeedlemanWunsch junk cost a rows K = Inr s" "nw_ok compl s 0" "input_sequence s = a" "max_distance s = K"
    "compare_sequence s = []"
proof -
  let ?d = "\<lparr>dm_cells = replicate (rows * (length a + 1)) junk, number_of_columns = length a + 1, number_of_rows = rows\<rparr>"
  let ?s = "\<lparr>max_distance = K, compare_sequence = [], intermediate_scores = [0], last_put_position = 0,
            latest_calculated_row = 1, input_sequence = a, distance_matrix = first_row cost ?d, cost_fun = cost\<rparr>"
  have d: "dm_ok ?d" "0 < number_of_rows ?d" using assms(4) by (simp_all add: dm_ok_def)
  note row = first_row_cells [OF d assms(1)]
  have "rows_ok compl K a [] (first_row cost ?d) 0"
    by (rule rows_okI) (use row assms(4) in \<open>simp_all add: grid_0\<close>)
  then have "nw_ok compl ?s 0" using assms by (simp add: nw_ok_def Let_def row_min_0 same_upto_def)
  moreover have "NeedlemanWunsch junk cost a rows K = Inr ?s" using assms(4) by (simp add: NeedlemanWunsch_def DistanceMatrix_def)
  ultimately show thesis using that by simp
qed

text \<open>Growing keeps what has been calculated.\<close>

lemma resize_length: "length (resize n x xs) = n" if "length xs < n"
  using that by (simp add: resize_def)

lemma resize_nth: "length xs < n \<Longrightarrow> i < length xs \<Longrightarrow> resize n x xs ! i = xs ! i"
  by (simp add: resize_def nth_append)

lemma EnsureCapacity_ok:
  assumes ok: "nw_ok compl s n" and c: "capacity > n" "capacity > 1"
  shows "nw_ok compl (EnsureCapacity junk capacity s) n"
    "latest_calculated_row (EnsureCapacity junk capacity s) = latest_calculated_row s" "length (compare_sequence (EnsureCapacity junk capacity s)) \<ge> capacity"
    "capacity < number_of_rows (distance_matrix (EnsureCapacity junk capacity s))"
    "i < n \<Longrightarrow> compare_sequence (EnsureCapacity junk capacity s) ! i = compare_sequence s ! i"
    "input_sequence (EnsureCapacity junk capacity s) = input_sequence s"
    "max_distance (EnsureCapacity junk capacity s) = max_distance s"
proof -
  let ?a = "input_sequence s" and ?b = "compare_sequence s" and ?K = "max_distance s" and ?s = "EnsureCapacity junk capacity s"
  let ?d = "EnsureRowCapacity junk (capacity + 1) (distance_matrix s)"
  have old: "unit_costs (cost_fun s) compl" "int ?K + 1 \<le> INT32_MAX" "?a \<noteq> []" "rows_ok compl ?K ?a ?b (distance_matrix s) n"
    "n \<le> length ?b" "length (intermediate_scores s) = max 1 (length ?b)" "n < length (intermediate_scores s)"
    "\<forall>i \<le> n. same_upto ?K (intermediate_scores s ! i) (row_min compl ?a ?b i)"
    using ok by (simp_all add: nw_ok_def Let_def)
  note rows = rows_okD [OF old(4)]
  note grown = EnsureRowCapacity_ok [OF rows(1), where junk = junk and n = "capacity + 1"]
  have d: "rows_ok compl ?K ?a ?b ?d n"
  proof (rule rows_okI)
    show "same_upto ?K (DM_Get ?d i j) (grid compl ?a ?b i j)"
      if "i \<le> n" "i \<le> length ?a + ?K" "j \<le> length ?a" "i \<le> j + ?K + 1" "j \<le> i + ?K + 1 \<or> j = length ?a" for i j
      using grown(5) [of i j] rows(4) [OF that] rows(2,3) that by simp
  qed (use grown rows in simp_all)
  have d': "distance_matrix ?s = ?d" "input_sequence ?s = ?a" "max_distance ?s = ?K" "cost_fun ?s = cost_fun s"
    "latest_calculated_row ?s = latest_calculated_row s"
    by (simp_all add: EnsureCapacity_def Let_def)
  have b: "compare_sequence ?s = (if length ?b < capacity then resize capacity 0 ?b else ?b)"
    "intermediate_scores ?s = (if length ?b < capacity then resize capacity 0 (intermediate_scores s) else intermediate_scores s)"
    by (simp_all add: EnsureCapacity_def Let_def)
  have nth: "compare_sequence ?s ! i = ?b ! i" if "i < n" for i
    unfolding b using old(5) that by (simp add: resize_nth)
  then show "i < n \<Longrightarrow> compare_sequence ?s ! i = ?b ! i" .
  have iss: "intermediate_scores ?s ! i = intermediate_scores s ! i" if "i \<le> n" for i
    unfolding b using old(6,7) c that by (simp add: resize_nth)
  have len: "length (compare_sequence ?s) = max capacity (length ?b)" unfolding b by (simp add: resize_length)
  then show "length (compare_sequence ?s) \<ge> capacity" by simp
  have "length (intermediate_scores ?s) = max 1 (length (compare_sequence ?s))"
    using old(6) c unfolding len unfolding b by (simp add: resize_length)
  moreover have "rows_ok compl ?K ?a (compare_sequence ?s) ?d n" by (rule rows_ok_cong [OF d]) (simp add: nth)
  moreover have "same_upto ?K (intermediate_scores ?s ! i) (row_min compl ?a (compare_sequence ?s) i)" if "i \<le> n" for i
  proof -
    have "row_min compl ?a (compare_sequence ?s) i = row_min compl ?a ?b i" using that by (intro row_min_cong) (simp add: nth)
    then show ?thesis using old(8) iss [OF that] that by simp
  qed
  moreover have "n \<le> max capacity (length ?b)" "n < max 1 (max capacity (length ?b))" using c by linarith+
  ultimately show "nw_ok compl ?s n" using old(1-3) unfolding nw_ok_def Let_def d' len by simp
  show "capacity < number_of_rows (distance_matrix ?s)" unfolding d' using grown(3) by simp
qed (simp_all add: EnsureCapacity_def Let_def)

lemma nw_okD:
  assumes "nw_ok compl s n"
  shows "unit_costs (cost_fun s) compl" "int (max_distance s) + 1 \<le> INT32_MAX" "input_sequence s \<noteq> []"
    "rows_ok compl (max_distance s) (input_sequence s) (compare_sequence s) (distance_matrix s) n"
    "n \<le> length (compare_sequence s)" "length (intermediate_scores s) = max 1 (length (compare_sequence s))"
    "n < length (intermediate_scores s)"
    "i \<le> n \<Longrightarrow> same_upto (max_distance s) (intermediate_scores s ! i) (row_min compl (input_sequence s) (compare_sequence s) i)"
  using assms by (auto simp: nw_ok_def Let_def)

lemma nw_okI:
  assumes "unit_costs (cost_fun s) compl" "int (max_distance s) + 1 \<le> INT32_MAX" "input_sequence s \<noteq> []"
    "rows_ok compl (max_distance s) (input_sequence s) (compare_sequence s) (distance_matrix s) n"
    "n \<le> length (compare_sequence s)" "length (intermediate_scores s) = max 1 (length (compare_sequence s))"
    "n < length (intermediate_scores s)"
    "\<And>i. i \<le> n \<Longrightarrow> same_upto (max_distance s) (intermediate_scores s ! i) (row_min compl (input_sequence s) (compare_sequence s) i)"
  shows "nw_ok compl s n"
  using assms by (auto simp: nw_ok_def Let_def)

lemma nw_ok_mono: "nw_ok compl s n \<Longrightarrow> n' \<le> n \<Longrightarrow> nw_ok compl s n'"
  by (rule nw_okI) (auto dest: nw_okD(3,5-7) intro: nw_okD(1,2,4) nw_okD(8) rows_ok_mono)

text \<open>A code point behind the described ones can be replaced.\<close>

lemma nw_ok_code_point:
  assumes ok: "nw_ok compl s n" and n: "n < length (compare_sequence s)"
  shows "nw_ok compl (s\<lparr>compare_sequence := (compare_sequence s)[n := cp], last_put_position := q\<rparr>) n" (is "nw_ok compl ?s n")
proof (rule nw_okI)
  show "rows_ok compl (max_distance ?s) (input_sequence ?s) (compare_sequence ?s) (distance_matrix ?s) n"
    using nw_okD(4) [OF ok] by (auto intro: rows_ok_cong)
  show "same_upto (max_distance ?s) (intermediate_scores ?s ! i) (row_min compl (input_sequence ?s) (compare_sequence ?s) i)"
    if "i \<le> n" for i
  proof -
    have "row_min compl (input_sequence s) (compare_sequence ?s) i = row_min compl (input_sequence s) (compare_sequence s) i"
      using that by (intro row_min_cong) simp
    then show ?thesis using nw_okD(8) [OF ok that] by simp
  qed
qed (use nw_okD(1-3,5-7) [OF ok] in simp_all)

text \<open>The row that is calculated, within the corridor.\<close>

lemma put_row:
  fixes s :: NeedlemanWunsch and i :: nat
  defines "a \<equiv> input_sequence s" and "b \<equiv> compare_sequence s" and "K \<equiv> max_distance s"
  defines "lo \<equiv> i - K" and "hi \<equiv> min (length a) (i + 1 + K)"
  assumes costs: "unit_costs (cost_fun s) compl" and K: "int K + 1 \<le> INT32_MAX" and a: "a \<noteq> []" and cp: "codepoint = b ! i"
    and i: "i < length a + K" and rows: "rows_ok compl K a b d i" "Suc i < number_of_rows d"
    and iss: "same_upto K v (row_min compl a b i)"
    and put: "put_columns s codepoint (Suc i) (Suc lo) (hi - lo) (DM_Set (Suc i) lo (int (Suc i - lo)) d) (v + 1) = (d2, r)"
  defines "d3 \<equiv> (if hi < length a then DM_Set (Suc i) (length a) (int K + 1) (DM_Set (Suc i) (Suc hi) (int K + 1) d2) else d2)"
  shows "rows_ok compl K a b d3 (Suc i)" "number_of_rows d3 = number_of_rows d" "same_upto K r (row_min compl a b (Suc i))"
proof -
  let ?d = "DM_Set (Suc i) lo (int (Suc i - lo)) d"
  have "0 < length a" using a by simp
  then have lo: "lo < length a" "lo \<le> hi" using i unfolding lo_def hi_def by linarith+
  have "rows_ok compl K a b ?d i" using rows_ok_Set [OF rows(1) _ rows(2)] lo by simp
  moreover have "same_upto K (DM_Get ?d (Suc i) k) (grid compl a b (Suc i) k)" if "i \<le> k + K" "k \<le> lo" for k
  proof -
    have k: "k = lo" using that by (simp add: lo_def)
    have "DM_Get ?d (Suc i) k = int (Suc i - lo)"
      using DM_Get_Set [of d "Suc i" lo k "int (Suc i - lo)" "Suc i"] rows_okD(1,2) [OF rows(1)] rows(2) lo k by simp
    moreover have "same_upto K (int (Suc i - lo)) (grid compl a b (Suc i) lo)"
    proof (cases "i < K")
      case True
      then show ?thesis using a grid_inner [of 0 a compl b "Suc i"] by (simp add: lo_def same_upto_def)
    next
      case False
      have "Suc i \<le> lo + grid compl a b (Suc i) lo" using lo by (intro grid_left) simp
      then show ?thesis using False by (intro same_upto_far) (simp_all add: lo_def)
    qed
    ultimately show ?thesis using k by simp
  qed
  ultimately have cols: "rows_ok compl K a b d2 i \<and> number_of_rows d2 = number_of_rows ?d \<and>
    (\<forall>k. i \<le> k + K \<and> k \<le> lo + (hi - lo) \<longrightarrow> same_upto K (DM_Get d2 (Suc i) k) (grid compl a b (Suc i) k)) \<and>
    (\<forall>t \<le> int K. r \<le> t \<longleftrightarrow> v + 1 \<le> t \<or> (\<exists>k. lo < k \<and> k \<le> lo + (hi - lo) \<and> int (grid compl a b (Suc i) k) \<le> t))"
    using put costs K cp i rows(2) lo unfolding a_def b_def K_def
    by (intro put_columns_ok) (auto simp: lo_def hi_def a_def K_def)
  have hi: "lo + (hi - lo) = hi" using lo by simp
  show "same_upto K r (row_min compl a b (Suc i))"
  proof (rule same_uptoI)
    fix t assume t: "t \<le> int K"
    have "lo < k \<and> k \<le> hi \<longleftrightarrow> i < k + K \<and> 0 < k \<and> k \<le> length a \<and> k \<le> i + 1 + K" for k by (auto simp: lo_def hi_def)
    moreover have "v + 1 \<le> t \<longleftrightarrow> int (row_min compl a b i) \<le> t - 1" using same_upto_le [OF iss, of "t - 1"] t by auto
    ultimately show "r \<le> t \<longleftrightarrow> int (row_min compl a b (Suc i)) \<le> t"
      using cols t unfolding row_min_step [OF t i a] hi by auto
  qed
  have rows2: "rows_ok compl K a b d2 i" "Suc i < number_of_rows d2" using cols rows(2) by simp_all
  show n: "number_of_rows d3 = number_of_rows d" using cols by (simp add: d3_def)
  have rows3: "rows_ok compl K a b d3 i"
    using rows2 by (auto simp: d3_def intro!: rows_ok_Set)
  have get: "DM_Get d3 (Suc i) j = (if hi < length a \<and> (j = length a \<or> j = Suc hi) then int K + 1 else DM_Get d2 (Suc i) j)"
    if "j \<le> length a" for j
    using DM_Get_Set [of d2 "Suc i" "Suc hi" j "int K + 1" "Suc i"] rows_okD(1,2) [OF rows2(1)] rows2(2) that
      DM_Get_Set [of "DM_Set (Suc i) (Suc hi) (int K + 1) d2" "Suc i" "length a" j "int K + 1" "Suc i"]
    by (auto simp: d3_def)
  show "rows_ok compl K a b d3 (Suc i)"
  proof (rule rows_okI)
    fix i' j assume j: "i' \<le> Suc i" "i' \<le> length a + K" "j \<le> length a" "i' \<le> j + K + 1" "j \<le> i' + K + 1 \<or> j = length a"
    show "same_upto K (DM_Get d3 i' j) (grid compl a b i' j)"
    proof (cases "i' = Suc i")
      case False
      then show ?thesis using rows_okD(4) [OF rows3 _ j(2-5)] j(1) by simp
    next
      case i': True
      show ?thesis
      proof (cases "j \<le> hi")
        case True
        then show ?thesis using cols j get [OF j(3)] unfolding hi i' by (auto simp: hi_def)
      next
        case False
        then have "hi < length a" "j = length a \<or> j = Suc hi" "j > i + 1 + K" using j i' by (auto simp: hi_def)
        moreover have "j \<le> Suc i + grid compl a b (Suc i) j" by (rule grid_right)
        ultimately show ?thesis using get [OF j(3)] unfolding i' by (simp add: same_upto_far)
      qed
    qed
  qed (use rows_okD [OF rows3] rows(2) n in simp_all)
qed

text \<open>A code point at position \<open>p\<close> replaces what was behind position \<open>p\<close> of the candidate.\<close>

lemma Put_ok:
  assumes ok: "nw_ok compl s0 n" and latest: "latest_ok s0 n" and p: "p \<le> n" and put: "Put junk cp p s0 = (r, s')"
  shows "nw_ok compl s' (Suc p)" "latest_ok s' (Suc p)" "input_sequence s' = input_sequence s0" "max_distance s' = max_distance s0"
    "take (Suc p) (compare_sequence s') = take p (compare_sequence s0) @ [cp]" "last_put_position s' = p"
    "same_upto (max_distance s0) r (row_min compl (input_sequence s0) (compare_sequence s') (Suc p))"
proof -
  let ?s1 = "EnsureCapacity junk (Suc (Suc p)) s0"
  define s where "s = ?s1\<lparr>compare_sequence := (compare_sequence ?s1)[p := cp], last_put_position := p\<rparr>"
  define a where "a = input_sequence s0"
  define b where "b = compare_sequence s"
  define K where "K = max_distance s0"
  let ?iss = "intermediate_scores s"
  have cap: "nw_ok compl ?s1 p" "latest_calculated_row ?s1 = latest_calculated_row s0" "Suc p < length (compare_sequence ?s1)"
    "Suc p < number_of_rows (distance_matrix ?s1)" "\<And>i. i < p \<Longrightarrow> compare_sequence ?s1 ! i = compare_sequence s0 ! i"
    "input_sequence ?s1 = a" "max_distance ?s1 = K"
    using EnsureCapacity_ok [OF nw_ok_mono [OF ok p], where capacity = "Suc (Suc p)" and junk = junk] by (simp_all add: a_def K_def)
  have s: "nw_ok compl s p" unfolding s_def by (rule nw_ok_code_point [OF cap(1)]) (use cap(3) in simp)
  note sD = nw_okD [OF s]
  have f: "input_sequence s = a" "max_distance s = K" "latest_calculated_row s = latest_calculated_row s0" "length b > Suc p"
    "Suc p < number_of_rows (distance_matrix s)" "b ! p = cp" "length ?iss > Suc p" "length ?iss = max 1 (length b)" "last_put_position s = p"
    using cap sD(6) by (simp_all add: s_def b_def)
  have b: "take (Suc p) b = take p (compare_sequence s0) @ [cp]"
  proof -
    have "take p b = take p (compare_sequence s0)"
      by (rule nth_equalityI) (use f(4) cap nw_okD(5) [OF ok] p in \<open>auto simp: b_def s_def\<close>)
    then show ?thesis using f(4,6) by (simp add: take_Suc_conv_app_nth)
  qed
  have cols: "number_of_columns (distance_matrix s) = Suc (length a)" using rows_okD(2) [OF sD(4)] f by simp
  have v: "same_upto K (?iss ! p) (row_min compl a b p)" using sD(8) [of p] f by (simp add: b_def)
  have a0: "a \<noteq> []" using sD(3) f by simp
  let ?left = "if Suc p > K then Suc p - K else 1"
  let ?right = "min (Suc (length a)) (Suc p + K + 1)"
  have Put: "Put junk cp p s0 =
     (if ?left \<ge> Suc (length a)
      then (let r = ?iss ! p + min (if compl then 0 else 1) 1 in (r, s\<lparr>intermediate_scores := ?iss[Suc p := r]\<rparr>))
      else (let d1 = DM_Set (Suc p) (?left - 1) (int (Suc p - ?left + 1)) (distance_matrix s);
                (d2, r) = put_columns s cp (Suc p) ?left (?right - ?left) d1 (?iss ! p + 1);
                d3 = (if ?right < Suc (length a)
                      then DM_Set (Suc p) (length a) (int K + 1) (DM_Set (Suc p) ?right (int K + 1) d2) else d2)
            in (r, s\<lparr>distance_matrix := d3, latest_calculated_row := Suc p, intermediate_scores := ?iss[Suc p := r]\<rparr>)))"
    unfolding Put_def Let_def Suc_eq_plus1 [symmetric] s_def [symmetric] f(1,2) cols unit_costs_simps [OF sD(1)] diff_Suc_1
    by simp
  have "nw_ok compl s' (Suc p) \<and> latest_ok s' (Suc p) \<and> input_sequence s' = a \<and> max_distance s' = K \<and> compare_sequence s' = b \<and> last_put_position s' = p \<and>
     same_upto K r (row_min compl a b (Suc p))"
  proof (cases "p \<ge> length a + K")
    case True
    then have "?left \<ge> Suc (length a)" by auto
    then have r: "r = ?iss ! p + (if compl then 0 else 1)" and s': "s' = s\<lparr>intermediate_scores := ?iss[Suc p := r]\<rparr>"
      using put unfolding Put by (auto simp: Let_def)
    have score: "same_upto K r (row_min compl a b (Suc p))"
    proof (rule same_uptoI)
      fix t assume t: "t \<le> int K"
      show "r \<le> t \<longleftrightarrow> int (row_min compl a b (Suc p)) \<le> t"
      proof (cases compl)
        case True
        then show ?thesis using r row_min_below [OF t \<open>p \<ge> length a + K\<close> a0, of compl b] same_upto_le [OF v t] by simp
      next
        case False
        have "int K \<le> int (row_min compl a b p)"
        proof (rule ccontr)
          assume "\<not> ?thesis"
          then obtain j where j: "j \<le> length a" "grid compl a b p j < K"
            using row_min_le [of compl a b p "int K - 1"] by auto
          then show False using grid_left [of j a compl p b] False True by linarith
        qed
        then have "\<not> ?iss ! p \<le> t - 1" using same_upto_le [OF v, of "t - 1"] t by simp
        then show ?thesis using r row_min_below [OF t True a0, of compl b] False by auto
      qed
    qed
    have "rows_ok compl K a b (distance_matrix s) (Suc p)"
    proof (rule rows_okI)
      show "same_upto K (DM_Get (distance_matrix s) i j) (grid compl a b i j)"
        if "i \<le> Suc p" "i \<le> length a + K" "j \<le> length a" "i \<le> j + K + 1" "j \<le> i + K + 1 \<or> j = length a" for i j
        using rows_okD(4) [OF sD(4), of i j] that True f by (simp add: b_def)
    qed (use rows_okD(1,2) [OF sD(4)] f in simp_all)
    moreover have "latest_ok s' (Suc p)" using latest True p f a0 unfolding latest_ok_def s' by (auto simp: a_def K_def)
    ultimately show ?thesis using sD f v score unfolding s'
      by (intro conjI nw_okI) (auto simp: b_def nth_list_update le_Suc_eq)
  next
    case False
    define lo where "lo = p - K"
    define hi where "hi = min (length a) (p + 1 + K)"
    let ?d1 = "DM_Set (Suc p) lo (int (Suc p - lo)) (distance_matrix s)"
    obtain d2 r' where d2: "put_columns s cp (Suc p) (Suc lo) (hi - lo) ?d1 (?iss ! p + 1) = (d2, r')" by fastforce
    let ?d3 = "if hi < length a then DM_Set (Suc p) (length a) (int K + 1) (DM_Set (Suc p) (Suc hi) (int K + 1) d2) else d2"
    have n: "?left = Suc lo" "\<not> Suc lo \<ge> Suc (length a)" "?right = Suc hi" "Suc hi - Suc lo = hi - lo" "Suc lo - 1 = lo"
      "Suc p - Suc lo + 1 = Suc p - lo"
      using False a0 by (auto simp: lo_def hi_def simp flip: length_greater_0_conv)
    have rs: "r = r'" "s' = s\<lparr>distance_matrix := ?d3, latest_calculated_row := Suc p, intermediate_scores := ?iss[Suc p := r]\<rparr>"
      using put unfolding Put n if_not_P [OF n(2)] Let_def d2 by (auto simp only: prod.case prod.inject Suc_less_eq)
    have "rows_ok compl K a b ?d3 (Suc p) \<and> number_of_rows ?d3 = number_of_rows (distance_matrix s) \<and>
       same_upto K r (row_min compl a b (Suc p))"
      using put_row [of s compl cp p "distance_matrix s" "?iss ! p" d2 r', unfolded f(1,2), folded b_def lo_def hi_def]
        sD(1,2,4) [unfolded f(1,2), folded b_def] f(5,6) a0 False v d2 rs(1) by (simp only: not_le) blast
    moreover have "latest_ok s' (Suc p)" using False unfolding latest_ok_def rs(2) by (simp add: f)
    ultimately show ?thesis using sD f v unfolding rs(2)
      by (intro conjI nw_okI) (auto simp: b_def nth_list_update le_Suc_eq)
  qed
  then show "nw_ok compl s' (Suc p)" "latest_ok s' (Suc p)" "input_sequence s' = input_sequence s0" "max_distance s' = max_distance s0"
    "take (Suc p) (compare_sequence s') = take p (compare_sequence s0) @ [cp]" "last_put_position s' = p"
    "same_upto (max_distance s0) r (row_min compl (input_sequence s0) (compare_sequence s') (Suc p))"
    using b by (simp_all add: a_def K_def)
qed

section \<open>The metric as it is used\<close>

text \<open>
  The code points of a candidate are put one after the other; after a match or a pruned prefix the traversal goes back
  and puts a code point at an earlier position.
\<close>

definition GetCandidate :: "(u32 list \<Rightarrow> char list) \<Rightarrow> nat \<Rightarrow> NeedlemanWunsch \<Rightarrow> char list" where
  "GetCandidate utf32to8 pos s = utf32to8 (drop pos (take (last_put_position s + 1) (compare_sequence s)))"

definition nw_puts :: "int \<Rightarrow> (u32 \<times> nat) list \<Rightarrow> int \<times> NeedlemanWunsch \<Rightarrow> int \<times> NeedlemanWunsch" where
  "nw_puts junk = fold (\<lambda>(codepoint, position) (r, s). Put junk codepoint position s)"

definition candidate_after :: "(u32 \<times> nat) list \<Rightarrow> u32 list \<Rightarrow> u32 list" where
  "candidate_after = fold (\<lambda>(codepoint, position) b. take position b @ [codepoint])"

fun puts_ok :: "nat \<Rightarrow> (u32 \<times> nat) list \<Rightarrow> bool" where
  "puts_ok n [] \<longleftrightarrow> True"
| "puts_ok n ((codepoint, position) # ops) \<longleftrightarrow> position \<le> n \<and> puts_ok (position + 1) ops"

definition distance :: "bool \<Rightarrow> 'a list \<Rightarrow> 'a list \<Rightarrow> nat" where
  "distance completion a b = grid completion a b (length b) (length a)"

lemma closest_below:
  assumes "i \<ge> length a + K" "t \<le> int K" shows "int (closest a b i) \<le> t \<longleftrightarrow> int (closest a b (length a + K)) \<le> t"
  using assms
proof (induction i rule: nat_induct_at_least)
  case (Suc i)
  have "int (edits a b (Suc i) (length a)) > t" using edits_lengths [of "Suc i" "length a" a b] Suc by linarith
  then show ?case using Suc by (auto simp: min_def)
qed simp

lemma GetScore_exact:
  assumes ok: "nw_ok compl s n" and latest: "latest_ok s n" and n: "n > 0" "compl \<or> n \<le> length (input_sequence s) + max_distance s"
  shows "same_upto (max_distance s) (GetScore s) (distance compl (input_sequence s) (take n (compare_sequence s)))"
proof -
  let ?a = "input_sequence s" and ?b = "compare_sequence s" and ?K = "max_distance s"
  let ?l = "min n (length ?a + ?K)"
  note rows = rows_okD [OF nw_okD(4) [OF ok]]
  have "latest_calculated_row s = ?l" using latest n by (simp add: latest_ok_def)
  moreover have "same_upto ?K (DM_Get (distance_matrix s) ?l (length ?a)) (grid compl ?a ?b ?l (length ?a))"
    by (rule rows(4)) simp_all
  ultimately have score: "same_upto ?K (GetScore s) (grid compl ?a ?b ?l (length ?a))" using rows(2) by (simp add: GetScore_def)
  have "grid compl ?a (take n ?b) n (length ?a) = grid compl ?a ?b n (length ?a)" by (rule grid_cong) simp
  then have d: "distance compl ?a (take n ?b) = grid compl ?a ?b n (length ?a)"
    using nw_okD(5) [OF ok] by (simp add: distance_def)
  show ?thesis
  proof (cases "n \<le> length ?a + ?K")
    case False
    then have compl using n(2) by simp
    show ?thesis
    proof (rule same_uptoI)
      fix t assume t: "t \<le> int ?K"
      show "GetScore s \<le> t \<longleftrightarrow> int (distance compl ?a (take n ?b)) \<le> t"
        using same_upto_le [OF score t] closest_below [of ?a ?K n t ?b] False t \<open>compl\<close> unfolding d by (simp add: grid_def)
    qed
  qed (use score d in simp)
qed

lemma row_min_more:
  assumes "row_min compl a b i > K" "length b = i"
  shows "distance compl a (b @ cont) > K"
proof -
  have "row_min compl a (b @ cont) i = row_min compl a b i" by (rule row_min_cong) (use assms in \<open>simp add: nth_append\<close>)
  moreover have "row_min compl a (b @ cont) i \<le> row_min compl a (b @ cont) (i + k)" for k
    by (induction k) (use row_min_mono [of compl a "b @ cont"] order_trans in auto)
  moreover have "row_min compl a b' i' \<le> grid compl a b' i' (length a)" for b' i'
    using row_min_le [of compl a b' i' "int (grid compl a b' i' (length a))"] by auto
  ultimately have "row_min compl a b i \<le> distance compl a (b @ cont)"
    unfolding distance_def using assms(2) by (metis length_append order_trans)
  then show ?thesis using assms(1) by simp
qed

lemma nw_puts_ok:
  assumes "nw_ok compl s n" "latest_ok s n" "take n (compare_sequence s) = b" "puts_ok n ops" "ops \<noteq> []"
    and "nw_puts junk ops (r0, s) = (r, s')"
  shows "nw_ok compl s' (length (candidate_after ops b)) \<and> latest_ok s' (length (candidate_after ops b)) \<and>
    take (length (candidate_after ops b)) (compare_sequence s') = candidate_after ops b \<and>
    last_put_position s' + 1 = length (candidate_after ops b) \<and>
    input_sequence s' = input_sequence s \<and> max_distance s' = max_distance s \<and> candidate_after ops b \<noteq> [] \<and>
    same_upto (max_distance s) r (row_min compl (input_sequence s) (compare_sequence s') (length (candidate_after ops b)))"
  using assms
proof (induction ops arbitrary: s n b r0)
  case (Cons op ops)
  obtain cp p where op: "op = (cp, p)" by fastforce
  obtain r1 s1 where put: "Put junk cp p s = (r1, s1)" by fastforce
  have p: "p \<le> n" and rest: "puts_ok (Suc p) ops" using Cons.prems(4) by (simp_all add: op)
  note P = Put_ok [OF Cons.prems(1,2) p put]
  have b: "take p (compare_sequence s) = take p b" using p Cons.prems(3) by auto
  have len: "length (take p b) = p" using p nw_okD(5) [OF Cons.prems(1)] Cons.prems(3) by auto
  have run: "nw_puts junk ops (r1, s1) = (r, s')" using Cons.prems(6) by (simp add: nw_puts_def op put)
  show ?case
  proof (cases "ops = []")
    case True
    then have "r = r1" "s' = s1" using run by (simp_all add: nw_puts_def)
    then show ?thesis using P b len True by (simp add: candidate_after_def op)
  next
    case False
    from Cons.IH [OF P(1,2,5) rest False run] show ?thesis using P b by (simp add: candidate_after_def op)
  qed
qed simp

text \<open>
  Before the first code point is put, \<open>GetScore\<close> reads row 1, which nothing has written yet: the score is what the fresh
  memory happens to hold.
\<close>

lemma fresh_score_is_junk:
  assumes "NeedlemanWunsch junk cost input rows K = Inr s" "1 < rows"
  shows "GetScore s = junk"
proof -
  let ?d = "\<lparr>dm_cells = replicate (rows * (length input + 1)) junk, number_of_columns = length input + 1, number_of_rows = rows\<rparr>"
  have s: "distance_matrix s = first_row cost ?d" "latest_calculated_row s = 1"
    using assms by (auto simp: NeedlemanWunsch_def DistanceMatrix_def split: if_splits)
  let ?f = "\<lambda>i. DM_Set 0 i (int i * GetDeletionCost cost 0)"
  have *: "dm_ok (fold ?f [0..<n] ?d) \<and> number_of_rows (fold ?f [0..<n] ?d) = rows \<and>
     number_of_columns (fold ?f [0..<n] ?d) = length input + 1 \<and> DM_Get (fold ?f [0..<n] ?d) 1 (length input) = junk"
    if "n \<le> length input + 1" for n using that
  proof (induction n)
    case 0
    have "1 * (length input + 1) + length input < rows * (length input + 1)" using cell_bound [OF assms(2), of "length input" "length input + 1"] by simp
    then show ?case by (simp add: dm_ok_def DM_Get_def)
  next
    case (Suc n)
    then show ?case using DM_Get_Set [of "fold ?f [0..<n] ?d" 0 n "length input" _ 1] assms(2) by simp
  qed
  from this [of "length input + 1"] show ?thesis unfolding GetScore_def s first_row_def by simp
qed

text \<open>
  C18: the distance is exact up to the maximum.  Whatever code points are put, going back included, \<open>GetScore\<close> agrees with the
  edit distance of the candidate up to the maximum distance and exceeds it otherwise (for plain costs, as long as the candidate is
  not longer than the input by more than the maximum); the score that \<open>Put\<close> returns exceeds the maximum only if no
  continuation of the candidate is within the maximum, so that pruning loses nothing.
\<close>

theorem edit_distance_exact:
  assumes "cost = (if completion then Damerau_LevenshteinCompletion else Damerau_Levenshtein)"
    and "int K + 1 \<le> INT32_MAX" "input \<noteq> []" "rows > 0" "ops \<noteq> []" "puts_ok 0 ops"
  defines "candidate \<equiv> candidate_after ops []"
  shows "\<exists>s0 r s. NeedlemanWunsch junk cost input rows K = Inr s0 \<and> nw_puts junk ops (0, s0) = (r, s) \<and>
    GetCandidate utf32to8 0 s = utf32to8 candidate \<and>
    (completion \<or> length candidate \<le> length input + K \<longrightarrow>
       min (GetScore s) (int K + 1) = min (int (distance completion input candidate)) (int K + 1)) \<and>
    (r > int K \<longrightarrow> (\<forall>cont. distance completion input (candidate @ cont) > K))"
proof -
  have "unit_costs cost completion" using assms(1) by (simp add: unit_costs_def)
  from NeedlemanWunsch_ok [OF this assms(2-4), of junk]
  obtain s0 where s0: "NeedlemanWunsch junk cost input rows K = Inr s0" "nw_ok completion s0 0"
    "input_sequence s0 = input" "max_distance s0 = K" "compare_sequence s0 = []" .
  obtain r s where run: "nw_puts junk ops (0, s0) = (r, s)" by fastforce
  have "latest_ok s0 0" by (simp add: latest_ok_def)
  note R = nw_puts_ok [OF s0(2) this _ assms(6,5) run, of "[]", folded candidate_def]
  have R: "nw_ok completion s (length candidate)" "latest_ok s (length candidate)" "take (length candidate) (compare_sequence s) = candidate"
    "last_put_position s + 1 = length candidate" "input_sequence s = input" "max_distance s = K"
    "candidate \<noteq> []" "same_upto K r (row_min completion input (compare_sequence s) (length candidate))"
    using R s0 by simp_all
  have "row_min completion input candidate (length candidate) > K" if "r > int K"
  proof -
    have "row_min completion input candidate (length candidate) = row_min completion input (compare_sequence s) (length candidate)"
      by (rule row_min_cong) (metis R(3) nth_take)
    then show ?thesis using same_upto_le [OF R(8), of "int K"] that by simp
  qed
  then have "distance completion input (candidate @ cont) > K" if "r > int K" for cont
    using that by (intro row_min_more) auto
  moreover have "same_upto K (GetScore s) (distance completion input candidate)"
    if "completion \<or> length candidate \<le> length input + K"
    using GetScore_exact [OF R(1,2)] R that by simp
  ultimately show ?thesis using s0(1) run R(3,4) by (auto simp: GetCandidate_def same_upto_def)
qed

theorem edit_distance_exact_witness:
  "\<exists>s0 r s. NeedlemanWunsch 9 Damerau_Levenshtein [1, 2, 3] 2 1 = Inr s0 \<and>
    nw_puts 9 [(1, 0), (7, 1), (3, 1), (2, 2)] (0, s0) = (r, s) \<and> GetCandidate (map (\<lambda>_. CHR 0x41)) 0 s = ''AAA'' \<and> GetScore s = 1"
proof -
  have c: "candidate_after [(1, 0), (7, 1), (3, 1), (2, 2)] [] = [1, 3, 2 :: u32]" by (simp add: candidate_after_def)
  have "distance False [1, 2, 3 :: u32] [1, 3, 2] = 1" by (simp add: distance_def grid_def edits_step)
  then show ?thesis
    using edit_distance_exact [of Damerau_Levenshtein False 1 "[1, 2, 3]" 2 "[(1, 0), (7, 1), (3, 1), (2, 2)]" 9 "map (\<lambda>_. CHR 0x41)"]
    unfolding c by (auto simp: INT32_MAX_def min_def split: if_splits)
qed

end
