(* ===== verification/Fuzzy.thy ===== *)
theory Fuzzy
  imports Code_Points Dictionary String_Distance "HOL-Library.Sublist"
begin

text \<open>
  Fuzzy matching (\<open>dictionary/matching/fuzzy_matching.h\<close>): the traverser of code points proposes candidates, the
  metric of \<open>String_Distance\<close> scores them and prunes, and the matches are what is final and near enough.  The
  conversions between UTF-8 and code points are functions of the library utf8 and are parameters here.
\<close>

section \<open>The matcher\<close>

datatype fuzzy_error = Utf8_Error utf8_error | Matrix_Error matrix_error | Outside_Of_Query

record 's FuzzyMatching =
  metric_ptr :: NeedlemanWunsch
  traverser_ptr :: "'s CodePointStateTraverser"
  max_edit_distance :: nat
  exact_prefix :: nat
  first_match :: match_t

text \<open>\<open>None\<close> is the matcher that the default constructor makes, without metric and traverser.\<close>

type_synonym 's fuzzy_matcher = "'s FuzzyMatching option"

definition lift_error :: "('e \<Rightarrow> 'f) \<Rightarrow> 'e + 'a \<Rightarrow> 'f + 'a" where
  "lift_error f r = (case r of Inl e \<Rightarrow> Inl (f e) | Inr x \<Rightarrow> Inr x)"

lemma lift_error_simps [simp]: "lift_error f (Inl e) = Inl (f e)" "lift_error f (Inr x) = Inr x"
  by (simp_all add: lift_error_def)

text \<open>The byte behind the last one of a string is 0; reading further is undefined.\<close>

definition query_at :: "u8 list \<Rightarrow> nat \<Rightarrow> fuzzy_error + u8" where
  "query_at query i = (if i < length query then Inr (query ! i) else if i = length query then Inr 0 else Inl Outside_Of_Query)"

text \<open>The walk of the exact prefix, code point by code point.\<close>

fun walk_char :: "automata \<Rightarrow> u8 list \<Rightarrow> nat \<Rightarrow> u64 \<Rightarrow> nat \<Rightarrow> fuzzy_error + u64 \<times> nat" where
  "walk_char A query 0 state utf8_depth = Inr (state, utf8_depth)"
| "walk_char A query (Suc n) state utf8_depth =
     bind_sum (query_at query utf8_depth) (\<lambda>c.
       let state = TryWalkTransition A state c
       in if state = 0 then Inr (state, utf8_depth) else walk_char A query n state (utf8_depth + 1))"

text \<open>The state and the number of code points of the prefix that are left.\<close>

fun walk_prefix :: "automata \<Rightarrow> u8 list \<Rightarrow> nat \<Rightarrow> u64 \<Rightarrow> nat \<Rightarrow> fuzzy_error + u64 \<times> nat" where
  "walk_prefix A query 0 state utf8_depth = Inr (state, 0)"
| "walk_prefix A query (Suc n) state utf8_depth =
     (if state = 0 then Inr (state, Suc n)
      else bind_sum (query_at query utf8_depth) (\<lambda>c.
        bind_sum (lift_error Utf8_Error (GetCharLength c)) (\<lambda>code_point_length.
          bind_sum (walk_char A query code_point_length state utf8_depth) (\<lambda>(state, utf8_depth).
            walk_prefix A query n state utf8_depth))))"

definition candidate_length :: "'s FuzzyMatching \<Rightarrow> nat" where
  "candidate_length f = exact_prefix f + cp_depth (traverser_ptr f)"

definition fuzzy_match :: "nat \<Rightarrow> nat \<Rightarrow> u8 list \<Rightarrow> int \<Rightarrow> u64 \<Rightarrow> Match" where
  "fuzzy_match fsa len item dist state =
     \<lparr>m_start = 0, m_end = len, matched_item = item, score = nat dist, m_state = state, m_fsa = fsa\<rparr>"

definition FromSingleFsaWithMatchedExactPrefix ::
  "(u8, 's) traverser \<Rightarrow> (u64 \<Rightarrow> 's) \<Rightarrow> (u8 list \<Rightarrow> u32 list) \<Rightarrow> (u32 list \<Rightarrow> u8 list) \<Rightarrow> int \<Rightarrow> automata \<Rightarrow> u64 \<Rightarrow> u8 list \<Rightarrow>
     nat \<Rightarrow> nat \<Rightarrow> (fuzzy_error + 's fuzzy_matcher) option" where
  "FromSingleFsaWithMatchedExactPrefix T start utf8to32 utf32to8 junk A start_state query maxd matched =
     (if start_state = 0 then Some (Inr None)
      else let codepoints = utf8to32 query
           in case NeedlemanWunsch junk Damerau_Levenshtein codepoints 20 maxd of
               Inl e \<Rightarrow> Some (Inl (Matrix_Error e))
             | Inr metric0 \<Rightarrow>
                 if length codepoints < matched then Some (Inl Outside_Of_Query)
                 else (let metric = snd (nw_puts junk (map (\<lambda>i. (codepoints ! i, i)) [0..<matched]) (0, metric0))
                       in case CodePointStateTraverser T (start start_state) of
                           None \<Rightarrow> None
                         | Some (Inl e) \<Rightarrow> Some (Inl (Utf8_Error e))
                         | Some (Inr traverser) \<Rightarrow>
                             Some (Inr (Some \<lparr>metric_ptr = metric, traverser_ptr = traverser, max_edit_distance = maxd,
                               exact_prefix = matched,
                               first_match = (if IsFinalState A start_state \<and> GetScore metric \<le> int maxd
                                 then Some (fuzzy_match 0 matched
                                   (utf32to8 (drop 0 (take (last_put_position metric + 1) (compare_sequence metric))))
                                   (GetScore metric) (GetStateValue A start_state))
                                 else None)\<rparr>))))"

definition FromSingleFsa ::
  "(u8, 's) traverser \<Rightarrow> (u64 \<Rightarrow> 's) \<Rightarrow> (u8 list \<Rightarrow> u32 list) \<Rightarrow> (u32 list \<Rightarrow> u8 list) \<Rightarrow> int \<Rightarrow> automata \<Rightarrow> u64 \<Rightarrow> u8 list \<Rightarrow>
     nat \<Rightarrow> nat \<Rightarrow> (fuzzy_error + 's fuzzy_matcher) option" where
  "FromSingleFsa T start utf8to32 utf32to8 junk A start_state query maxd minimum_exact_prefix =
     (case walk_prefix A query minimum_exact_prefix start_state 0 of
        Inl e \<Rightarrow> Some (Inl e)
      | Inr (state, left) \<Rightarrow>
          if left \<noteq> 0 then Some (Inr None)
          else FromSingleFsaWithMatchedExactPrefix T start utf8to32 utf32to8 junk A state query maxd minimum_exact_prefix)"

text \<open>\<open>NextMatch\<close>; \<open>advance\<close> is the increment of the loop.\<close>

partial_function (option) fuzzy_loop ::
  "(u8, 's) traverser \<Rightarrow> (u32 list \<Rightarrow> u8 list) \<Rightarrow> int \<Rightarrow> 's FuzzyMatching \<Rightarrow>
     (fuzzy_error + match_t \<times> 's FuzzyMatching) option" where
  "fuzzy_loop T utf32to8 junk f =
     (if \<not> cp_valid T (traverser_ptr f) then Some (Inr (None, f))
      else let (intermediate_score, metric) =
                 Put junk (codepoint (traverser_ptr f)) (candidate_length f - 1) (metric_ptr f);
               f1 = f\<lparr>metric_ptr := metric\<rparr>;
               input_length = length (input_sequence metric);
               pruned = (input_length > candidate_length f \<and> intermediate_score > int (max_edit_distance f))
                 \<or> input_length + max_edit_distance f < candidate_length f;
               final = cp_IsFinalState T (traverser_ptr f) \<and> GetScore metric \<le> int (max_edit_distance f);
               m = fuzzy_match (cp_GetFsa T (traverser_ptr f)) (candidate_length f)
                     (utf32to8 (drop 0 (take (last_put_position metric + 1) (compare_sequence metric))))
                     (GetScore metric) (cp_GetStateValue T (traverser_ptr f))
           in case (if pruned then cp_Prune T (traverser_ptr f) else Inr (traverser_ptr f)) of
               Inl e \<Rightarrow> Some (Inl (Utf8_Error e))
             | Inr t \<Rightarrow>
                 (case cp_next T t of
                    None \<Rightarrow> None
                  | Some (Inl e) \<Rightarrow> Some (Inl (Utf8_Error e))
                  | Some (Inr t') \<Rightarrow>
                      if \<not> pruned \<and> final then Some (Inr (Some m, f1\<lparr>traverser_ptr := t'\<rparr>))
                      else fuzzy_loop T utf32to8 junk (f1\<lparr>traverser_ptr := t'\<rparr>)))"

definition fuzzy_func ::
  "(u8, 's) traverser \<Rightarrow> (u32 list \<Rightarrow> u8 list) \<Rightarrow> int \<Rightarrow> 's fuzzy_matcher functor_t" where
  "fuzzy_func T utf32to8 junk d =
     (case d of
        None \<Rightarrow> Some (None, None)
      | Some f \<Rightarrow> (case fuzzy_loop T utf32to8 junk f of Some (Inr (m, f')) \<Rightarrow> Some (m, Some f') | _ \<Rightarrow> None))"

text \<open>\<open>Dictionary::GetFuzzy\<close> with the weighted traverser; \<open>None\<close> stands for an exception here.\<close>

definition weighted_start :: "automata \<Rightarrow> u64 \<Rightarrow> (WeightedTransition, WeightedPayload) StateTraverser" where
  "weighted_start A s = StateTraverser_from weighted_ops A s \<lparr>current_depth = 0, min_weight = 0\<rparr> False"

definition GetFuzzy ::
  "(u8 list \<Rightarrow> u32 list) \<Rightarrow> (u32 list \<Rightarrow> u8 list) \<Rightarrow> int \<Rightarrow> automata \<Rightarrow> u64 \<Rightarrow> u8 list \<Rightarrow> nat \<Rightarrow> nat \<Rightarrow>
     (WeightedTransition, WeightedPayload) StateTraverser fuzzy_matcher MatchIterator option" where
  "GetFuzzy utf8to32 utf32to8 junk A state query maxd minimum_exact_prefix =
     (if state = 0 then Some EmptyIterator
      else case FromSingleFsa (state_traverser weighted_ops A) (weighted_start A) utf8to32 utf32to8 junk A state query maxd
             minimum_exact_prefix of
          Some (Inr data) \<Rightarrow> MakeIterator (fuzzy_func (state_traverser weighted_ops A) utf32to8 junk) data
            (case data of None \<Rightarrow> None | Some f \<Rightarrow> first_match f)
        | _ \<Rightarrow> None)"

section \<open>The loop\<close>

definition near :: "('n \<Rightarrow> bool) \<Rightarrow> u32 list \<Rightarrow> nat \<Rightarrow> u32 list \<Rightarrow> u32 list \<times> 'n \<Rightarrow> bool" where
  "near final input K pre x \<longleftrightarrow> final (snd x) \<and> distance False input (pre @ fst x) \<le> K"

definition hit :: "('n \<Rightarrow> u64) \<Rightarrow> ('n \<Rightarrow> nat) \<Rightarrow> (u32 list \<Rightarrow> u8 list) \<Rightarrow> u32 list \<Rightarrow> u32 list \<Rightarrow> u32 list \<times> 'n \<Rightarrow> Match" where
  "hit val src utf32to8 input pre x = fuzzy_match (src (snd x)) (length (pre @ fst x)) (utf32to8 (pre @ fst x)) (int (distance False input (pre @ fst x)))
     (val (snd x))"

text \<open>The metric has the candidate \<open>cand\<close>.\<close>

definition metric_ok :: "NeedlemanWunsch \<Rightarrow> u32 list \<Rightarrow> nat \<Rightarrow> u32 list \<Rightarrow> bool" where
  "metric_ok s input K cand \<longleftrightarrow> nw_ok False s (length cand) \<and> latest_ok s (length cand) \<and>
     take (length cand) (compare_sequence s) = cand \<and> input_sequence s = input \<and> max_distance s = K"

lemma metric_Put:
  assumes "metric_ok s input K cand" "p \<le> length cand" "Put junk c p s = (r, s')"
  defines "new \<equiv> take p cand @ [c]"
  shows "metric_ok s' input K new" "take (last_put_position s' + 1) (compare_sequence s') = new"
    "r > int K \<Longrightarrow> distance False input (new @ cont) > K"
    "length new \<le> length input + K \<Longrightarrow> same_upto K (GetScore s') (distance False input new)"
proof -
  have s: "nw_ok False s (length cand)" "latest_ok s (length cand)" "take (length cand) (compare_sequence s) = cand"
    "input_sequence s = input" "max_distance s = K" using assms(1) by (simp_all add: metric_ok_def)
  note P = Put_ok [OF s(1,2) assms(2,3)]
  have "take p (compare_sequence s) = take p cand" using assms(2) s(3) by (metis min_def take_take)
  then have new: "take (Suc p) (compare_sequence s') = new" using P(5) by (simp add: new_def)
  have len: "length new = Suc p" using assms(2) by (simp add: new_def)
  show ok: "metric_ok s' input K new" using P(1-4) new s len by (simp add: metric_ok_def)
  show "take (last_put_position s' + 1) (compare_sequence s') = new" using P(6) new by simp
  show "distance False input (new @ cont) > K" if "r > int K"
  proof -
    have "row_min False input new (Suc p) = row_min False input (compare_sequence s') (Suc p)"
      by (rule row_min_cong) (metis new nth_take)
    then have "row_min False input new (Suc p) > K"
      using same_upto_le [OF P(7) [unfolded s(4,5)], of "int K"] that by simp
    then show ?thesis by (rule row_min_more [OF _ len])
  qed
  show "same_upto K (GetScore s') (distance False input new)" if "length new \<le> length input + K"
    using GetScore_exact [of False s' "length new"] ok that len by (simp add: metric_ok_def)
qed

context byte_traverser
begin

definition cp_at :: "'s CodePointStateTraverser \<Rightarrow> (u32, 'n) visit list \<Rightarrow> bool" where
  "cp_at c rs \<longleftrightarrow> (case rs of [] \<Rightarrow> \<not> cp_valid T c | r # rs \<Rightarrow> cp_stands c r rs)"

text \<open>The matcher is about to look at the first of the trees \<open>rs\<close>; the metric has the candidate before it.\<close>

definition matcher_ok :: "'s FuzzyMatching \<Rightarrow> u32 list \<Rightarrow> u32 list \<Rightarrow> nat \<Rightarrow> (u32, 'n) visit list \<Rightarrow> bool" where
  "matcher_ok f pre input K rs \<longleftrightarrow> cp_at (traverser_ptr f) rs \<and> exact_prefix f = length pre \<and>
     FuzzyMatching.max_edit_distance f = K \<and> (\<exists>u. hangs u rs \<and> metric_ok (metric_ptr f) input K (pre @ u))"

text \<open>One round of the loop.\<close>

lemma fuzzy_round:
  assumes f: "matcher_ok f pre input K (r # rs)"
  shows "\<exists>f1 vs x. x = (v_path r, v_state r) \<and> matcher_ok f1 pre input K vs \<and>
    fuzzy_loop T utf32to8 junk f =
      (if near final input K pre x then Some (Inr (Some (hit val src utf32to8 input pre x), f1)) else fuzzy_loop T utf32to8 junk f1) \<and>
    filter (near final input K pre) (all_visits (r # rs)) =
      (if near final input K pre x then [x] else []) @ filter (near final input K pre) (all_visits vs) \<and>
    length (all_visits vs) < length (all_visits (r # rs))"
proof -
  let ?t = "traverser_ptr f"
  obtain u where u: "hangs u (r # rs)" "metric_ok (metric_ptr f) input K (pre @ u)" using f by (auto simp: matcher_ok_def)
  have st: "cp_stands ?t r rs" "exact_prefix f = length pre" "FuzzyMatching.max_edit_distance f = K"
    using f by (simp_all add: matcher_ok_def cp_at_def)
  obtain w s below where r: "r = Visit w s below" by (cases r)
  note node = cp_stands_node [OF st(1), unfolded r visit.sel]
  define len where "len = candidate_length f"
  have len: "len = length (pre @ w)" using node st(2) by (simp add: len_def candidate_length_def)
  have w: "wf_visit r" "w \<noteq> []" "butlast w = take (length w - 1) u" using u(1) by (simp_all add: hangs_def r)
  then have wlen: "length w - 1 \<le> length u" by (metis length_butlast length_take min.cobounded1 min.commute)
  obtain sc metric where put: "Put junk (codepoint ?t) (len - 1) (metric_ptr f) = (sc, metric)" by fastforce
  have cand: "take (len - 1) (pre @ u) @ [codepoint ?t] = pre @ w"
  proof -
    have "len - 1 = length pre + (length w - 1)" using len w(2) by (cases w) simp_all
    then have "take (len - 1) (pre @ u) = pre @ butlast w" using w(3) by simp
    then show ?thesis using node w(2) by simp
  qed
  have "len - 1 \<le> length (pre @ u)" using len wlen by simp
  note M = metric_Put [OF u(2) this put, unfolded cand]
  have h: "hangs w (below @ rs)" using hangs_next(1) [OF u(1)] by (simp add: r)
  define x where "x = (w, s)"
  define pruned where "pruned \<longleftrightarrow> (length input > len \<and> sc > int K) \<or> length input + K < len"
  have input: "input_sequence metric = input" using M(1) by (simp add: metric_ok_def)
  define f1 where "f1 = (\<lambda>t. f\<lparr>metric_ptr := metric, traverser_ptr := t\<rparr>)"
  have loop: "fuzzy_loop T utf32to8 junk f =
     (case (if pruned then cp_Prune T ?t else Inr ?t) of
        Inl e \<Rightarrow> Some (Inl (Utf8_Error e))
      | Inr t \<Rightarrow> (case cp_next T t of
            None \<Rightarrow> None
          | Some (Inl e) \<Rightarrow> Some (Inl (Utf8_Error e))
          | Some (Inr t') \<Rightarrow>
              if \<not> pruned \<and> final s \<and> GetScore metric \<le> int K
              then Some (Inr (Some (fuzzy_match (src s) len (utf32to8 (pre @ w)) (GetScore metric) (val s)), f1 t'))
              else fuzzy_loop T utf32to8 junk (f1 t')))"
  proof -
    have n: "cp_valid T ?t" "cp_IsFinalState T ?t = final s" "cp_GetStateValue T ?t = val s" "cp_GetFsa T ?t = src s" using node by simp_all
    show ?thesis
      unfolding fuzzy_loop.simps [of T utf32to8 junk f] Let_def len_def [symmetric] put prod.case n st(3) input M(2) drop_0
        pruned_def f1_def by (simp add: n)
  qed
  show ?thesis
  proof (cases pruned)
    case True
    obtain t t' where t: "cp_Prune T ?t = Inr t" "cp_next T t = Some (Inr t')" "cp_at t' rs"
      using cp_stands_prune [OF st(1)] cp_waits_next unfolding cp_at_def by metis
    have far: "\<not> near final input K pre y" if "y \<in> set (visits r)" for y
    proof -
      have "(fst y, snd y) \<in> set (visits r)" using that by simp
      from visits_extend [OF w(1) this] obtain z where z: "fst y = w @ z" by (auto simp only: r visit.sel)
      have "distance False input (pre @ w @ z) > K"
      proof (cases "length input + K < len")
        case True
        then show ?thesis using edits_lengths [of "length (pre @ w @ z)" "length input" input "pre @ w @ z"] len
          by (simp add: distance_def grid_def)
      next
        case False
        then show ?thesis using M(3) [of z] \<open>pruned\<close> by (simp add: pruned_def)
      qed
      then show ?thesis by (simp add: near_def z)
    qed
    then have none: "filter (near final input K pre) (visits r) = []" by (simp add: filter_empty_conv)
    have "matcher_ok (f1 t') pre input K rs"
      using t(3) st M(1) hangs_drop [OF h] by (auto simp: matcher_ok_def f1_def)
    moreover have "\<not> near final input K pre x" using far [of x] by (simp add: x_def r)
    moreover have "fuzzy_loop T utf32to8 junk f = fuzzy_loop T utf32to8 junk (f1 t')" unfolding loop using True t by simp
    ultimately show ?thesis
      using none r x_def by (intro exI [of _ "f1 t'"] exI [of _ rs] exI [of _ x]) simp
  next
    case False
    obtain t' where t': "cp_next T ?t = Some (Inr t')" "cp_at t' (below @ rs)"
      using cp_waits_next [OF cp_stands_waits [OF st(1)]] unfolding cp_at_def r by auto
    have same: "same_upto K (GetScore metric) (distance False input (pre @ w))"
      using M(4) False by (simp add: pruned_def len)
    then have x: "near final input K pre x \<longleftrightarrow> final s \<and> GetScore metric \<le> int K"
      using same_upto_le [OF same, of "int K"] by (auto simp: near_def x_def)
    have m: "hit val src utf32to8 input pre x = fuzzy_match (src s) len (utf32to8 (pre @ w)) (GetScore metric) (val s)"
      if "GetScore metric \<le> int K"
    proof -
      have "GetScore metric = int (distance False input (pre @ w))"
        using same that by (auto simp: same_upto_def min_def split: if_splits)
      then show ?thesis by (simp add: hit_def x_def len)
    qed
    have "matcher_ok (f1 t') pre input K (below @ rs)"
      using t'(2) st M(1) h by (auto simp: matcher_ok_def f1_def)
    moreover have "fuzzy_loop T utf32to8 junk f =
      (if near final input K pre x then Some (Inr (Some (hit val src utf32to8 input pre x), f1 t')) else fuzzy_loop T utf32to8 junk (f1 t'))"
      unfolding loop using False t'(1) x m by simp
    ultimately show ?thesis
      using r x_def by (intro exI [of _ "f1 t'"] exI [of _ "below @ rs"] exI [of _ x]) simp
  qed
qed

lemma fuzzy_loop_next:
  assumes "matcher_ok f pre input K rs"
  shows "case filter (near final input K pre) (all_visits rs) of
      [] \<Rightarrow> \<exists>f'. fuzzy_loop T utf32to8 junk f = Some (Inr (None, f'))
    | x # xs \<Rightarrow> \<exists>f' rs'. fuzzy_loop T utf32to8 junk f = Some (Inr (Some (hit val src utf32to8 input pre x), f')) \<and>
        matcher_ok f' pre input K rs' \<and> filter (near final input K pre) (all_visits rs') = xs"
  using assms
proof (induction "length (all_visits rs)" arbitrary: f rs rule: less_induct)
  case less
  show ?case
  proof (cases rs)
    case Nil
    then show ?thesis using less.prems by (subst fuzzy_loop.simps) (simp add: matcher_ok_def cp_at_def)
  next
    case (Cons r rs')
    from fuzzy_round [OF less.prems [unfolded Cons], of utf32to8 junk] obtain f1 vs where
      f1: "matcher_ok f1 pre input K vs" "length (all_visits vs) < length (all_visits rs)"
      "fuzzy_loop T utf32to8 junk f = (if near final input K pre (v_path r, v_state r)
         then Some (Inr (Some (hit val src utf32to8 input pre (v_path r, v_state r)), f1)) else fuzzy_loop T utf32to8 junk f1)"
      "filter (near final input K pre) (all_visits rs) = (if near final input K pre (v_path r, v_state r) then [(v_path r, v_state r)] else [])
         @ filter (near final input K pre) (all_visits vs)"
      unfolding Cons by blast
    show ?thesis
    proof (cases "near final input K pre (v_path r, v_state r)")
      case True
      then show ?thesis unfolding f1(3,4) using f1(1) by auto
    next
      case False
      then show ?thesis unfolding f1(3,4) using less.hyps [OF f1(2,1)] by simp
    qed
  qed
qed

lemma fuzzy_produces:
  assumes "matcher_ok f pre input K rs"
  shows "produces (fuzzy_func T utf32to8 junk) (map (hit val src utf32to8 input pre) (filter (near final input K pre) (all_visits rs)))
     (MI_increment (fuzzy_func T utf32to8 junk) \<lparr>match_functor = Some (Some f), current_match = m\<rparr>)"
  using assms
proof (induction "filter (near final input K pre) (all_visits rs)" arbitrary: f rs m)
  case Nil
  then obtain f' where "fuzzy_loop T utf32to8 junk f = Some (Inr (None, f'))"
    using fuzzy_loop_next [OF Nil.prems, where ?utf32to8.0 = utf32to8 and junk = junk] by auto
  then show ?case using Nil.hyps by (simp flip: Nil.hyps add: MI_increment_def fuzzy_func_def MI_equal_def EmptyIterator_def)
next
  case (Cons x xs)
  obtain f' rs' where f': "fuzzy_loop T utf32to8 junk f = Some (Inr (Some (hit val src utf32to8 input pre x), f'))"
    "matcher_ok f' pre input K rs'" "filter (near final input K pre) (all_visits rs') = xs"
    using fuzzy_loop_next [OF Cons.prems, where ?utf32to8.0 = utf32to8 and junk = junk] unfolding Cons.hyps(2) [symmetric] by auto
  from Cons.hyps(1) [OF f'(3) [symmetric] f'(2)] f'(1,3) show ?case
    by (simp flip: Cons.hyps(2) add: MI_increment_def fuzzy_func_def)
qed

end

section \<open>The exact prefix\<close>

text \<open>After complete code points decoding starts afresh.\<close>

lemma feed_shift: "open_bytes x = [] \<Longrightarrow> utf8_state (x @ y) = (codes x @ codes y, open_bytes y)"
proof (induction y rule: rev_induct)
  case Nil
  then show ?case by (cases "utf8_state x") simp
next
  case (snoc b y)
  then show ?case unfolding append_assoc [symmetric] utf8_state_simps by (cases "utf8_state y") simp
qed

lemma utf8_ok_append: "open_bytes x = [] \<Longrightarrow> utf8_ok (x @ y) \<longleftrightarrow> utf8_ok x \<and> utf8_ok y"
proof (induction y rule: rev_induct)
  case (snoc b y)
  then show ?case unfolding append_assoc [symmetric] utf8_ok_snoc by (auto simp: feed_shift)
qed simp

text \<open>The first code point of a text.\<close>

lemma first_code_point:
  assumes "utf8_ok r" "open_bytes r = []" "r \<noteq> []"
  obtains r' where "r = take (char_length (hd r)) r @ r'" "char_length (hd r) \<le> length r"
    "utf8_state (take (char_length (hd r)) r) = ([code_of (take (char_length (hd r)) r)], [])"
    "utf8_ok r'" "open_bytes r' = []" "GetCharLength (hd r) = Inr (char_length (hd r))" "0 < char_length (hd r)"
proof -
  let ?k = "char_length (hd r)"
  have lead: "utf8_lead (hd r)" using assms(1,3) by (cases r) (auto simp: utf8_ok_def)
  note gl = GetCharLength_lead [OF lead]
  have snoc: "take (Suc j) r = take j r @ [r ! j]" if "j < length r" for j using that by (simp add: take_Suc_conv_app_nth)
  have hd: "hd (take j r @ [r ! j]) = hd r" if "j < length r" for j
    using snoc [OF that] assms(3) by (metis hd_take zero_less_Suc)
  have partial: "j < ?k \<Longrightarrow> j \<le> length r \<Longrightarrow> utf8_state (take j r) = ([], take j r)" for j
  proof (induction j)
    case (Suc j)
    then have "utf8_state (take j r) = ([], take j r)" "j < length r" by simp_all
    then show ?case unfolding snoc [OF \<open>j < length r\<close>] utf8_state_simps using Suc.prems hd [of j] by simp
  qed simp
  have k: "?k \<le> length r"
  proof (rule ccontr)
    assume "\<not> ?k \<le> length r"
    then have "utf8_state r = ([], r)" using partial [of "length r"] by simp
    then show False using assms(2,3) by simp
  qed
  have full: "utf8_state (take ?k r) = ([code_of (take ?k r)], [])"
  proof -
    obtain j where j: "?k = Suc j" using gl by (cases ?k) auto
    then have jl: "j < length r" using k by simp
    have "utf8_state (take j r) = ([], take j r)" using partial [of j] j jl by simp
    then show ?thesis unfolding j snoc [OF jl] utf8_state_simps using hd [OF jl] j jl by simp
  qed
  have "utf8_ok (take ?k r @ drop ?k r)" "open_bytes (take ?k r @ drop ?k r) = []" using assms(1,2) by simp_all
  then have "utf8_ok (drop ?k r)" "open_bytes (drop ?k r) = []" using full by (simp_all only: utf8_ok_append feed_shift snd_conv)
  then show thesis using that [of "drop ?k r"] full gl k by simp
qed

lemma walk_append: "fsa_walk A s (x @ y) = fsa_walk A (fsa_walk A s x) y" if "fsa_walk A s x \<noteq> 0"
  using that by (induction x arbitrary: s) (auto split: if_splits)

lemma walk_append_0: "fsa_walk A s x = 0 \<Longrightarrow> s \<noteq> 0 \<Longrightarrow> fsa_walk A s (x @ y) = 0"
  by (induction x arbitrary: s) (auto split: if_splits)

lemma walk_char_walks:
  assumes "d + n \<le> length query" "s \<noteq> 0"
  shows "\<exists>d'. walk_char A query n s d = Inr (fsa_walk A s (take n (drop d query)), d') \<and>
    (fsa_walk A s (take n (drop d query)) \<noteq> 0 \<longrightarrow> d' = d + n)"
  using assms
proof (induction n arbitrary: s d)
  case (Suc n)
  then have "take (Suc n) (drop d query) = query ! d # take n (drop (Suc d) query)" by (simp flip: Cons_nth_drop_Suc)
  then show ?case
    using Suc.prems Suc.IH [of "Suc d" "TryWalkTransition A s (query ! d)"] by (auto simp: query_at_def Let_def)
qed simp

lemma walk_prefix_walks:
  assumes "query = x @ pre @ post" "utf8_ok (pre @ post)" "open_bytes (pre @ post) = []" "open_bytes pre = []" "s \<noteq> 0"
  shows "\<exists>left. walk_prefix A query (length (codes pre)) s (length x) = Inr (fsa_walk A s pre, left) \<and>
    (fsa_walk A s pre \<noteq> 0 \<longrightarrow> left = 0)"
  using assms
proof (induction "length pre" arbitrary: x pre s rule: less_induct)
  case less
  show ?case
  proof (cases "pre = []")
    case False
    let ?k = "char_length (hd pre)"
    have ok: "utf8_ok pre" using less.prems by (simp add: utf8_ok_append)
    from first_code_point [OF ok less.prems(4) False] obtain pre' where p: "pre = take ?k pre @ pre'" "?k \<le> length pre"
      "utf8_state (take ?k pre) = ([code_of (take ?k pre)], [])" "open_bytes pre' = []"
      "GetCharLength (hd pre) = Inr ?k" "0 < ?k" by metis
    define ch where "ch = take ?k pre"
    have pre: "pre = ch @ pre'" "length ch = ?k" "utf8_state ch = ([code_of ch], [])" using p by (simp_all add: ch_def)
    have n: "length (codes pre) = Suc (length (codes pre'))" using feed_shift [of ch pre'] pre(1,3) by simp
    have q: "query_at query (length x) = Inr (hd pre)"
      using less.prems(1) False by (cases pre) (simp_all add: query_at_def nth_append)
    have take: "take ?k (drop (length x) query) = ch" using less.prems(1) pre(1,2) by simp
    have "length x + ?k \<le> length query" using less.prems(1) p(2) by simp
    from walk_char_walks [OF this less.prems(5), of A] obtain d' where
      d': "walk_char A query ?k s (length x) = Inr (fsa_walk A s ch, d')" "fsa_walk A s ch \<noteq> 0 \<longrightarrow> d' = length x + ?k"
      unfolding take by blast
    have step: "walk_prefix A query (length (codes pre)) s (length x) = walk_prefix A query (length (codes pre')) (fsa_walk A s ch) d'"
      unfolding n using less.prems(5) q p(5) d'(1) by simp
    show ?thesis
    proof (cases "fsa_walk A s ch = 0")
      case True
      moreover have "fsa_walk A s pre = 0" unfolding pre(1) by (rule walk_append_0 [OF True less.prems(5)])
      moreover have "\<exists>left. walk_prefix A query m 0 d' = Inr (0, left)" for m by (cases m) simp_all
      ultimately show ?thesis unfolding step by simp
    next
      case False
      have rest: "utf8_ok (pre' @ post)" "open_bytes (pre' @ post) = []"
        using less.prems(2,3) pre(1,3) feed_shift [of ch "pre' @ post"] utf8_ok_append [of ch "pre' @ post"] by simp_all
      have "length pre' < length pre" using pre(1,2) p(6) by simp
      moreover have "query = (x @ ch) @ pre' @ post" using less.prems(1) by (subst (asm) pre(1)) simp
      ultimately have "\<exists>left. walk_prefix A query (length (codes pre')) (fsa_walk A s ch) (length (x @ ch)) =
          Inr (fsa_walk A (fsa_walk A s ch) pre', left) \<and> (fsa_walk A (fsa_walk A s ch) pre' \<noteq> 0 \<longrightarrow> left = 0)"
        using rest p(4) False by (intro less.hyps) auto
      moreover have "d' = length (x @ ch)" using d'(2) False pre(2) by simp
      moreover have "fsa_walk A s pre = fsa_walk A (fsa_walk A s ch) pre'" by (subst pre(1)) (rule walk_append [OF False])
      ultimately show ?thesis unfolding step by simp
    qed
  qed simp
qed

section \<open>The matches\<close>

lemma cp_visits_nodes:
  "all_visits (cp_visits v) = map (\<lambda>(w, s). (codes w, s)) (filter (\<lambda>(w, s). open_bytes w = []) (visits v))"
proof (induction v)
  case (Visit w s vs)
  have "all_visits (all_cp_visits ks) = map (\<lambda>(w, s). (codes w, s)) (filter (\<lambda>(w, s). open_bytes w = []) (all_visits ks))"
    if "set ks \<subseteq> set vs" for ks
    using that by (induction ks) (simp_all add: Visit)
  from this [of vs] show ?case by (simp add: Let_def)
qed

lemma all_cp_visits_nodes:
  "all_visits (all_cp_visits vs) = map (\<lambda>(w, s). (codes w, s)) (filter (\<lambda>(w, s). open_bytes w = []) (all_visits vs))"
  by (induction vs) (simp_all add: cp_visits_nodes)

interpretation weighted_bytes: byte_traverser "state_traverser weighted_ops A" "weighted.waits A N" "weighted.stands A N" current_state
  "IsFinalState A" "GetStateValue A" "\<lambda>_. 0" for A N
  unfolding byte_traverser_def byte_traverser_axioms_def using weighted.traverses_trees by (auto simp: state_traverser_def)

lemma depth_walk: "fsa_depth A n s \<Longrightarrow> fsa_walk A s w \<noteq> 0 \<Longrightarrow> fsa_depth A n (fsa_walk A s w)"
proof (induction w arbitrary: s)
  case (Cons c w)
  have step: "TryWalkTransition A s c \<noteq> 0" using Cons.prems(2) by (auto split: if_splits)
  then have "(TryWalkTransition A s c, c) \<in> set (outgoing A s)" by (rule fsa.step_out)
  then have "fsa_depth A n (TryWalkTransition A s c)"
  proof (cases n)
    case (Suc m)
    then have "fsa_depth A m (TryWalkTransition A s c)"
      using Cons.prems(1) \<open>(TryWalkTransition A s c, c) \<in> set (outgoing A s)\<close> by auto
    then show ?thesis by (rule depth_ok_mono) (simp add: Suc)
  qed (use Cons.prems(1) \<open>(TryWalkTransition A s c, c) \<in> set (outgoing A s)\<close> in auto)
  then show ?case using Cons step by simp
qed simp

text \<open>The metric after the exact prefix.\<close>

lemma candidate_after_prefix: "n \<le> length cs \<Longrightarrow> candidate_after (map (\<lambda>i. (cs ! i, i)) [0..<n]) [] = take n cs"
proof (induction n)
  case (Suc n)
  then show ?case by (simp add: candidate_after_def take_Suc_conv_app_nth)
qed (simp add: candidate_after_def)

lemma puts_ok_prefix: "puts_ok k (map (\<lambda>i. (f i, i)) [k..<n])"
proof (induction "n - k" arbitrary: k)
  case (Suc m)
  then have "[k..<n] = k # [Suc k..<n]" by (simp add: upt_rec)
  then show ?case using Suc by simp
qed simp

lemma metric_prefix:
  assumes "int K + 1 \<le> INT32_MAX" "input \<noteq> []" "n \<le> length input"
  obtains s0 where "NeedlemanWunsch junk Damerau_Levenshtein input 20 K = Inr s0"
    "metric_ok (snd (nw_puts junk (map (\<lambda>i. (input ! i, i)) [0..<n]) (0, s0))) input K (take n input)"
    "n > 0 \<longrightarrow> take (last_put_position (snd (nw_puts junk (map (\<lambda>i. (input ! i, i)) [0..<n]) (0, s0))) + 1)
       (compare_sequence (snd (nw_puts junk (map (\<lambda>i. (input ! i, i)) [0..<n]) (0, s0)))) = take n input"
proof -
  have "unit_costs Damerau_Levenshtein False" by (simp add: unit_costs_def)
  from NeedlemanWunsch_ok [OF this assms(1,2), of 20 junk]
  obtain s0 where s0: "NeedlemanWunsch junk Damerau_Levenshtein input 20 K = Inr s0" "nw_ok False s0 0" "input_sequence s0 = input"
    "max_distance s0 = K" "compare_sequence s0 = []" by auto
  have latest: "latest_ok s0 0" by (simp add: latest_ok_def)
  let ?ops = "map (\<lambda>i. (input ! i, i)) [0..<n]"
  obtain r s where run: "nw_puts junk ?ops (0, s0) = (r, s)" by fastforce
  show thesis
  proof (cases "n = 0")
    case True
    then show thesis using that [OF s0(1)] s0 latest by (simp add: nw_puts_def metric_ok_def)
  next
    case False
    then have "?ops \<noteq> []" by simp
    from nw_puts_ok [OF s0(2) latest _ puts_ok_prefix this run, of "[]"] s0(3,4)
    show thesis using that [OF s0(1)] candidate_after_prefix [OF assms(3)] unfolding run by (simp add: metric_ok_def)
  qed
qed

text \<open>Keys are proper UTF-8, and the library converts them back.\<close>

definition utf8_dictionary :: "automata \<Rightarrow> u64 \<Rightarrow> (u32 list \<Rightarrow> u8 list) \<Rightarrow> bool" where
  "utf8_dictionary A s utf32to8 \<longleftrightarrow> (\<forall>w. fsa_walk A s w \<noteq> 0 \<longrightarrow> utf8_ok w \<and>
     (IsFinalState A (fsa_walk A s w) \<longrightarrow> open_bytes w = [] \<and> utf32to8 (codes w) = w))"

text \<open>The matches below the state of the exact prefix.\<close>

definition near_key :: "automata \<Rightarrow> u64 \<Rightarrow> u32 list \<Rightarrow> nat \<Rightarrow> u8 list \<Rightarrow> bool" where
  "near_key A start input K w \<longleftrightarrow> fsa_walk A start w \<noteq> 0 \<and> IsFinalState A (fsa_walk A start w) \<and> distance False input (codes w) \<le> K"

definition key_match :: "automata \<Rightarrow> u64 \<Rightarrow> u32 list \<Rightarrow> u8 list \<Rightarrow> Match" where
  "key_match A start input w = fuzzy_match 0 (length (codes w)) w (int (distance False input (codes w))) (GetStateValue A (fsa_walk A start w))"

lemma key_sorted_distinct: "sorted_wrt key_less xs \<Longrightarrow> distinct xs" for xs :: "u8 list list"
  by (induction xs) (auto simp: lexordp_irreflexive')

lemma hits_of_trees:
  fixes input :: "u32 list" and K :: nat
  assumes dict: "utf8_dictionary A start utf32to8" and depth: "fsa_depth A N start"
    and pre: "fsa_walk A start pre \<noteq> 0" "open_bytes pre = []"
    and vs: "mset (all_visits vs) = mset (nodes (outgoing A) N [] (fsa_walk A start pre))"
  defines "hits \<equiv> map (hit (GetStateValue A) (\<lambda>_. 0) utf32to8 input (codes pre)) (filter (near (IsFinalState A) input K (codes pre)) (all_visits (all_cp_visits vs)))"
  shows "set hits = key_match A start input ` {w. strict_prefix pre w \<and> near_key A start input K w}"
    "distinct (map matched_item hits)" "\<And>m. m \<in> set hits \<Longrightarrow> matched_item m \<noteq> pre"
proof -
  let ?st = "fsa_walk A start pre"
  let ?G = "\<lambda>(w, s). open_bytes w = [] \<and> IsFinalState A s \<and> distance False input (codes pre @ codes w) \<le> K"
  let ?L = "filter ?G (all_visits vs)"
  have nodes: "(w, s) \<in> set (all_visits vs) \<longleftrightarrow> w \<noteq> [] \<and> s = fsa_walk A start (pre @ w) \<and> s \<noteq> 0" for w s
    using fsa.nodes_iff [OF depth_walk [OF depth pre(1)], of w s] mset_eq_setD [OF vs] by (simp add: walk_append [OF pre(1)])
  have hits: "hits = map (\<lambda>(w, s). hit (GetStateValue A) (\<lambda>_. 0) utf32to8 input (codes pre) (codes w, s)) ?L"
    unfolding hits_def all_cp_visits_nodes filter_map
    by (simp add: comp_def split_def near_def conj_ac) 
  have final: "open_bytes (pre @ w) = [] \<and> utf32to8 (codes (pre @ w)) = pre @ w"
    if "fsa_walk A start (pre @ w) \<noteq> 0" "IsFinalState A (fsa_walk A start (pre @ w))" for w
    using dict that by (auto simp: utf8_dictionary_def)
  have shift: "codes (pre @ w) = codes pre @ codes w" "open_bytes (pre @ w) = open_bytes w" for w
    using feed_shift [OF pre(2), of w] by simp_all
  have one: "hit (GetStateValue A) (\<lambda>_. 0) utf32to8 input (codes pre) (codes w, s) = key_match A start input (pre @ w)" if "(w, s) \<in> set ?L" for w s
  proof -
    have s: "s = fsa_walk A start (pre @ w)" "s \<noteq> 0" "IsFinalState A s" using that nodes [of w s] by auto
    then have "utf32to8 (codes pre @ codes w) = pre @ w" using final [of w] shift(1) by simp
    then show ?thesis by (simp add: hit_def key_match_def shift s(1))
  qed
  have map_hits: "hits = map (\<lambda>(w, s). key_match A start input (pre @ w)) ?L"
    unfolding hits by (rule map_cong) (use one in auto)
  have L: "(w, s) \<in> set ?L \<longleftrightarrow> w \<noteq> [] \<and> s = fsa_walk A start (pre @ w) \<and> near_key A start input K (pre @ w)" for w s
    using nodes [of w s] final [of w] by (auto simp: near_key_def shift)
  show "set hits = key_match A start input ` {w. strict_prefix pre w \<and> near_key A start input K w}"
  proof (intro equalityI subsetI)
    fix m assume "m \<in> set hits"
    then obtain w s where "(w, s) \<in> set ?L" "m = key_match A start input (pre @ w)" unfolding map_hits by auto
    then show "m \<in> key_match A start input ` {w. strict_prefix pre w \<and> near_key A start input K w}"
      using L [of w s] by (auto simp: strict_prefix_def)
  next
    fix m assume "m \<in> key_match A start input ` {w. strict_prefix pre w \<and> near_key A start input K w}"
    then obtain w where "w \<noteq> []" "near_key A start input K (pre @ w)" "m = key_match A start input (pre @ w)"
      by (auto simp: strict_prefix_def prefix_def)
    then have "(w, fsa_walk A start (pre @ w)) \<in> set ?L" using L by blast
    then show "m \<in> set hits" unfolding map_hits using \<open>m = _\<close> by force
  qed
  have items: "map matched_item hits = map (\<lambda>x. pre @ fst x) ?L"
    unfolding map_hits by (simp add: key_match_def fuzzy_match_def split_def comp_def)
  have "distinct (map fst (nodes (outgoing A) N [] ?st))"
    by (rule key_sorted_distinct [OF fsa.nodes_sorted])
  then have "distinct (map fst (all_visits vs))"
    using vs by (metis mset_eq_imp_distinct_iff mset_map)
  then have "distinct (map fst ?L)" by (rule distinct_map_filter)
  moreover have "inj_on ((@) pre) X" for X by (simp add: inj_on_def)
  ultimately have "distinct (map ((@) pre) (map fst ?L))" using distinct_map [of "(@) pre" "map fst ?L"] by blast
  then show "distinct (map matched_item hits)" unfolding items by (simp only: map_map comp_def)
  show "matched_item m \<noteq> pre" if "m \<in> set hits" for m
  proof -
    have "matched_item m \<in> set (map matched_item hits)" using that by simp
    then obtain x where "x \<in> set ?L" "matched_item m = pre @ fst x" unfolding items by auto
    then show ?thesis using L [of "fst x" "snd x"] by simp
  qed
qed

text \<open>The matcher that is made for a prefix that can be walked.\<close>

lemma FromSingleFsa_matcher:
  assumes start: "start \<noteq> 0" "fsa_depth A N start" "utf8_dictionary A start utf32to8"
    and query: "query = pre @ post" "utf8_ok query" "open_bytes query = []" "open_bytes pre = []" "utf8to32 query = codes query" "query \<noteq> []"
    and K: "int K + 1 \<le> INT32_MAX" and walk: "fsa_walk A start pre \<noteq> 0"
  defines "vs \<equiv> weighted.trees A N [] (fsa_walk A start pre) (GetInnerWeight A (fsa_walk A start pre))"
  shows "\<exists>f. FromSingleFsa (state_traverser weighted_ops A) (weighted_start A) utf8to32 utf32to8 junk A start query K (length (codes pre))
      = Some (Inr (Some f)) \<and> weighted_bytes.matcher_ok A N f (codes pre) (codes query) K (all_cp_visits vs) \<and>
    (pre \<noteq> [] \<longrightarrow> first_match f = (if near_key A start (codes query) K pre then Some (key_match A start (codes query) pre) else None)) \<and>
    (\<not> IsFinalState A (fsa_walk A start pre) \<longrightarrow> first_match f = None)"
proof -
  let ?st = "fsa_walk A start pre" and ?n = "length (codes pre)" and ?T = "state_traverser weighted_ops A"
  have input: "codes query \<noteq> []" using complete_codes query(3,6) by blast
  have pre: "take ?n (codes query) = codes pre" "?n \<le> length (codes query)"
    using feed_shift [OF query(4), of post] query(1) by simp_all
  obtain s0 where s0: "NeedlemanWunsch junk Damerau_Levenshtein (codes query) 20 K = Inr s0"
    "metric_ok (snd (nw_puts junk (map (\<lambda>i. (codes query ! i, i)) [0..<?n]) (0, s0))) (codes query) K (codes pre)"
    "?n > 0 \<longrightarrow> take (last_put_position (snd (nw_puts junk (map (\<lambda>i. (codes query ! i, i)) [0..<?n]) (0, s0))) + 1)
       (compare_sequence (snd (nw_puts junk (map (\<lambda>i. (codes query ! i, i)) [0..<?n]) (0, s0)))) = codes pre"
    by (rule metric_prefix [OF K input pre(2), of junk, unfolded pre(1)])
  define metric where "metric = snd (nw_puts junk (map (\<lambda>i. (codes query ! i, i)) [0..<?n]) (0, s0))"
  note metric = s0(2,3) [folded metric_def]
  have depth: "fsa_depth A N ?st" by (rule depth_walk [OF start(2) walk])
  have waits: "weighted.waits A N (weighted_start A ?st) vs"
    unfolding weighted_start_def vs_def by (rule weighted.start_waits) (use walk weighted.deep_fsa [OF depth] in \<open>simp_all add: weighted_ops_def\<close>)
  have hang: "hangs [] vs" unfolding vs_def by (rule weighted.trees_hang)
  have "utf8_ok w" if "(w, s) \<in> set (all_visits vs)" for w s
  proof -
    have "(w, s) \<in> set (nodes (outgoing A) N [] ?st)"
      using that mset_eq_setD [OF weighted.trees_nodes [of A N "[]" ?st "GetInnerWeight A ?st"]] unfolding vs_def by blast
    then have "fsa_walk A start (pre @ w) \<noteq> 0" using fsa.nodes_iff [OF depth] by (auto simp: walk_append [OF walk])
    then have "utf8_ok (pre @ w)" using start(3) by (simp add: utf8_dictionary_def)
    then show ?thesis using utf8_ok_append [OF query(4)] by simp
  qed
  then have "utf8_paths vs" by (auto simp: utf8_paths_def)
  from weighted_bytes.cp_waits_next [OF weighted_bytes.cp_waits_start [OF waits hang this]]
  obtain c where c: "CodePointStateTraverser ?T (weighted_start A ?st) = Some (Inr c)" "weighted_bytes.cp_at A N c (all_cp_visits vs)"
    unfolding CodePointStateTraverser_def weighted_bytes.cp_at_def by blast
  obtain left where "walk_prefix A query ?n start 0 = Inr (?st, 0)"
    using walk_prefix_walks [of query "[]" pre post start A] query start(1) walk by auto
  moreover define f where "f = \<lparr>metric_ptr = metric, traverser_ptr = c, max_edit_distance = K, exact_prefix = ?n,
      first_match = (if IsFinalState A ?st \<and> GetScore metric \<le> int K
        then Some (fuzzy_match 0 ?n (utf32to8 (drop 0 (take (last_put_position metric + 1) (compare_sequence metric))))
           (GetScore metric) (GetStateValue A ?st)) else None)\<rparr>"
  ultimately have "FromSingleFsa ?T (weighted_start A) utf8to32 utf32to8 junk A start query K ?n = Some (Inr (Some f))"
    using walk query(5) s0(1) pre(2) c(1)
    by (simp add: FromSingleFsa_def FromSingleFsaWithMatchedExactPrefix_def Let_def metric_def [symmetric])
  moreover have "weighted_bytes.matcher_ok A N f (codes pre) (codes query) K (all_cp_visits vs)"
    using c(2) metric(1) cp_hangs [OF hang] by (auto simp: weighted_bytes.matcher_ok_def f_def)
  moreover have "first_match f = (if near_key A start (codes query) K pre then Some (key_match A start (codes query) pre) else None)"
    if "pre \<noteq> []"
  proof -
    have n: "?n > 0" using complete_codes [OF that query(4)] by simp
    have same: "same_upto K (GetScore metric) (distance False (codes query) (codes pre))"
      using GetScore_exact [of False metric ?n] metric(1) n pre(2) by (simp add: metric_ok_def)
    have final: "IsFinalState A ?st \<Longrightarrow> utf32to8 (codes pre) = pre" using start(3) walk by (simp add: utf8_dictionary_def)
    have "GetScore metric \<le> int K \<longleftrightarrow> distance False (codes query) (codes pre) \<le> K"
      using same_upto_le [OF same, of "int K"] by simp
    moreover have "GetScore metric = int (distance False (codes query) (codes pre))" if "GetScore metric \<le> int K"
      using same that by (auto simp: same_upto_def min_def split: if_splits)
    ultimately show ?thesis using metric(2) n final walk by (auto simp: f_def near_key_def key_match_def)
  qed
  moreover have "\<not> IsFinalState A ?st \<longrightarrow> first_match f = None" by (simp add: f_def)
  ultimately show ?thesis by blast
qed

section \<open>Properties\<close>

text \<open>
  C9: fuzzy matching returns exactly the near keys.  For a dictionary of UTF-8 keys, the matches of \<open>GetFuzzy\<close> are the
  keys that start with the exact prefix of the query and lie within the maximum edit distance of it, each once, with
  their distance as score; every call returns.
\<close>

theorem fuzzy_matches_exact:
  assumes "start \<noteq> 0" "fsa_depth A N start" "utf8_dictionary A start utf32to8"
    and "query = pre @ post" "utf8_ok query" "open_bytes query = []" "open_bytes pre = []" "utf8to32 query = codes query" "query \<noteq> []"
    and "int K + 1 \<le> INT32_MAX" "pre \<noteq> [] \<or> \<not> IsFinalState A start"
  shows "\<exists>ms. produces (fuzzy_func (state_traverser weighted_ops A) utf32to8 junk) ms
      (GetFuzzy utf8to32 utf32to8 junk A start query K (length (codes pre))) \<and>
    set ms = key_match A start (codes query) ` {w. prefix pre w \<and> near_key A start (codes query) K w} \<and>
    distinct (map matched_item ms)"
proof -
  let ?F = "fuzzy_func (state_traverser weighted_ops A) utf32to8 junk" and ?st = "fsa_walk A start pre"
  show ?thesis
  proof (cases "?st = 0")
    case True
    obtain left where "walk_prefix A query (length (codes pre)) start 0 = Inr (0, left)"
      using walk_prefix_walks [of query "[]" pre post start A] assms True by auto
    then have "FromSingleFsa (state_traverser weighted_ops A) (weighted_start A) utf8to32 utf32to8 junk A start query K (length (codes pre))
        = Some (Inr None)" by (simp add: FromSingleFsa_def FromSingleFsaWithMatchedExactPrefix_def)
    then have "produces ?F [] (GetFuzzy utf8to32 utf32to8 junk A start query K (length (codes pre)))"
      using assms(1) by (simp add: GetFuzzy_def MakeIterator_def MI_increment_def fuzzy_func_def MI_equal_def EmptyIterator_def)
    moreover have "{w. prefix pre w \<and> near_key A start (codes query) K w} = {}"
      using walk_append_0 [OF True assms(1)] by (auto simp: near_key_def prefix_def)
    ultimately show ?thesis by (intro exI [of _ "[]"]) simp
  next
    case walk: False
    define vs where "vs = weighted.trees A N [] ?st (GetInnerWeight A ?st)"
    from FromSingleFsa_matcher [where ?utf8to32.0 = utf8to32 and junk = junk, OF assms(1-10) walk, folded vs_def] obtain f where
      f: "FromSingleFsa (state_traverser weighted_ops A) (weighted_start A) utf8to32 utf32to8 junk A start query K (length (codes pre))
        = Some (Inr (Some f))" "weighted_bytes.matcher_ok A N f (codes pre) (codes query) K (all_cp_visits vs)"
      "pre \<noteq> [] \<longrightarrow> first_match f = (if near_key A start (codes query) K pre then Some (key_match A start (codes query) pre) else None)"
      "\<not> IsFinalState A ?st \<longrightarrow> first_match f = None" by blast
    have first: "first_match f = (if near_key A start (codes query) K pre then Some (key_match A start (codes query) pre) else None)"
      using f(3,4) assms(11) by (cases "pre = []") (auto simp: near_key_def)
    define hits where "hits = map (hit (GetStateValue A) (\<lambda>_. 0) utf32to8 (codes query) (codes pre)) (filter (near (IsFinalState A) (codes query) K (codes pre)) (all_visits (all_cp_visits vs)))"
    have "mset (all_visits vs) = mset (nodes (outgoing A) N [] ?st)" unfolding vs_def by (rule weighted.trees_nodes)
    note H = hits_of_trees [OF assms(3,2) walk assms(7) this, where input = "codes query" and K = K, folded hits_def]
    note P = weighted_bytes.fuzzy_produces [OF f(2), where ?utf32to8.0 = utf32to8 , folded hits_def]
    let ?ms = "(if near_key A start (codes query) K pre then [key_match A start (codes query) pre] else []) @ hits"
    have "produces ?F ?ms (GetFuzzy utf8to32 utf32to8 junk A start query K (length (codes pre)))"
      using P assms(1) f(1) first by (simp add: GetFuzzy_def MakeIterator_def)
    moreover have "set ?ms = key_match A start (codes query) ` {w. prefix pre w \<and> near_key A start (codes query) K w}"
    proof -
      have "{w. prefix pre w \<and> near_key A start (codes query) K w} =
          {w. strict_prefix pre w \<and> near_key A start (codes query) K w} \<union> (if near_key A start (codes query) K pre then {pre} else {})"
        by (auto simp: strict_prefix_def)
      then show ?thesis using H(1) by (auto split: if_splits)
    qed
    moreover have "distinct (map matched_item ?ms)"
      using H(2,3) by (auto simp: key_match_def fuzzy_match_def)
    ultimately show ?thesis by blast
  qed
qed

lemma small_automata_step:
  "TryWalkTransition small_automata 1000 97 = 500" "TryWalkTransition small_automata 500 98 = 300"
  by (rule fsa.out_step, simp add: small_automata_out)+

lemma small_automata_words: "fsa_walk small_automata 1000 w \<noteq> 0 \<Longrightarrow> w \<in> {[], [97], [97, 98]}"
  using fsa.nodes_iff [OF small_automata_depth, of w "fsa_walk small_automata 1000 w"] unfolding small_automata_nodes by auto

lemma ascii_codes: "utf8_state [97] = ([97], [])" "utf8_state [97, 98] = ([97, 98], [])" "utf8_state [97, 99] = ([97, 99], [])"
  by (simp_all add: utf8_state_def char_length_def GetCharLength_def code_of_def code_point_at_def)

theorem fuzzy_matches_exact_witness:
  "\<exists>ms. produces (fuzzy_func (state_traverser weighted_ops small_automata) (map ucast) 5) ms
      (GetFuzzy codes (map ucast) 5 small_automata 1000 [97, 99] 1 1) \<and>
    set ms = {fuzzy_match 0 1 [97] 1 7, fuzzy_match 0 (Suc 1) [97, 98] 1 8} \<and> distinct (map matched_item ms)"
proof -
  have one: "utf8_ok [b] \<longleftrightarrow> utf8_lead b" "utf8_ok [97, b] \<longleftrightarrow> utf8_lead b" for b
    using utf8_ok_snoc [of "[]" b] utf8_ok_snoc [of "[97]" b] utf8_ok_snoc [of "[]" 97] by (simp_all add: ascii_codes utf8_lead_def)
  have ok: "utf8_ok [97]" "utf8_ok [97, 98]" "utf8_ok [97, 99]" by (simp_all add: one utf8_lead_def)
  have dict: "utf8_dictionary small_automata 1000 (map ucast)"
    unfolding utf8_dictionary_def
  proof (intro allI impI)
    fix w assume "fsa_walk small_automata 1000 w \<noteq> 0"
    from small_automata_words [OF this] show "utf8_ok w \<and> (IsFinalState small_automata (fsa_walk small_automata 1000 w) \<longrightarrow>
        open_bytes w = [] \<and> map ucast (codes w) = w)"
      using ok by (auto simp: ascii_codes)
  qed
  have d: "distance False [97, 99] [97 :: u32] = 1" "distance False [97, 99] [97 :: u32, 98] = 1"
    by (simp_all add: distance_def grid_def edits_step)
  have near: "{w. prefix [97] w \<and> near_key small_automata 1000 [97, 99] 1 w} = {[97], [97, 98]}"
  proof (intro equalityI subsetI)
    fix w assume "w \<in> {w. prefix [97] w \<and> near_key small_automata 1000 [97, 99] 1 w}"
    then have "prefix [97] w" "fsa_walk small_automata 1000 w \<noteq> 0" by (simp_all add: near_key_def)
    then show "w \<in> {[97], [97, 98]}" using small_automata_words [of w] by auto
  qed (auto simp: near_key_def small_automata_step small_automata_final ascii_codes d)
  have "key_match small_automata 1000 [97, 99] [97] = fuzzy_match 0 1 [97] 1 7"
    "key_match small_automata 1000 [97, 99] [97, 98] = fuzzy_match 0 (Suc 1) [97, 98] 1 8"
    by (simp_all add: key_match_def small_automata_step small_automata_final ascii_codes d)
  moreover have "length (codes [97]) = 1" by (simp add: ascii_codes)
  ultimately show ?thesis
    using fuzzy_matches_exact [OF _ small_automata_depth dict, of "[97, 99]" "[97]" "[99]" codes 1 5] ok
    by (simp add: ascii_codes near [unfolded One_nat_def] INT32_MAX_def)
qed

end
