(* ===== verification/Completion.thy ===== *)
theory Completion
  imports Fuzzy
begin

text \<open>
  Prefix completion (\<open>dictionary/matching/prefix_completion_matching.h\<close>): the keys that start with the query, found by a
  traversal from the state of the query, in the order of their weights level by level.
\<close>

section \<open>The matcher\<close>

record 's PrefixCompletionMatching =
  pc_traverser :: 's
  pc_first_match :: match_t
  pc_traversal_stack :: "u8 list"
  prefix_length :: nat

text \<open>\<open>None\<close> is the matcher of the default constructor.\<close>

type_synonym 's completion_matcher = "'s PrefixCompletionMatching option"

text \<open>The walk of the query, with the bytes walked.\<close>

fun pc_walk :: "automata \<Rightarrow> u64 \<Rightarrow> u8 list \<Rightarrow> u8 list \<Rightarrow> u64 \<times> u8 list" where
  "pc_walk A state st [] = (state, st)"
| "pc_walk A state st (c # query) = (if state = 0 then (state, st) else pc_walk A (TryWalkTransition A state c) (st @ [c]) query)"

definition pc_FromSingleFsa :: "(u64 \<Rightarrow> 's) \<Rightarrow> automata \<Rightarrow> u64 \<Rightarrow> u8 list \<Rightarrow> 's completion_matcher" where
  "pc_FromSingleFsa start A start_state query =
     (if start_state = 0 then None
      else let (state, st) = pc_walk A start_state [] query
           in if state = 0 then None
              else Some \<lparr>pc_traverser = start state,
                pc_first_match = (if IsFinalState A state then Some (make_match 0 (length query) query (GetStateValue A state)) else None),
                pc_traversal_stack = st, prefix_length = length query\<rparr>)"

partial_function (option) completion_loop ::
  "(u8, 's) traverser \<Rightarrow> 's PrefixCompletionMatching \<Rightarrow> (match_t \<times> 's PrefixCompletionMatching) option" where
  "completion_loop T m =
     (let t = pc_traverser m
      in if \<not> valid T t then Some (None, m)
         else let st = resize (prefix_length m + state_depth T t - 1) 0 (pc_traversal_stack m) @ [state_label T t];
                  m' = m\<lparr>pc_traversal_stack := st, pc_traverser := increment T t\<rparr>
              in if is_final T t
                 then Some (Some ((make_match 0 (prefix_length m + state_depth T t) st (value_of T t))\<lparr>m_fsa := fsa_of T t\<rparr>), m')
                 else completion_loop T m')"

definition completion_func :: "(u8, 's) traverser \<Rightarrow> 's completion_matcher functor_t" where
  "completion_func T d =
     (case d of None \<Rightarrow> Some (None, None) | Some m \<Rightarrow> map_option (\<lambda>(r, m'). (r, Some m')) (completion_loop T m))"

definition pc_SetMinWeight ::
  "u32 \<Rightarrow> (WeightedTransition, WeightedPayload) StateTraverser PrefixCompletionMatching \<Rightarrow>
     (WeightedTransition, WeightedPayload) StateTraverser PrefixCompletionMatching" where
  "pc_SetMinWeight weight m = m\<lparr>pc_traverser := SetMinWeight weight (pc_traverser m)\<rparr>"

definition weighted_traverser :: "automata \<Rightarrow> u64 \<Rightarrow> (WeightedTransition, WeightedPayload) StateTraverser" where
  "weighted_traverser A s = StateTraverser_from weighted_ops A s \<lparr>current_depth = 0, min_weight = 0\<rparr> True"

definition GetPrefixCompletion ::
  "automata \<Rightarrow> u64 \<Rightarrow> u8 list \<Rightarrow> (WeightedTransition, WeightedPayload) StateTraverser completion_matcher MatchIterator option" where
  "GetPrefixCompletion A state query =
     (if state = 0 then Some EmptyIterator
      else let data = pc_FromSingleFsa (weighted_traverser A) A state query
           in MakeIterator (completion_func (state_traverser weighted_ops A)) data
                (case data of None \<Rightarrow> None | Some m \<Rightarrow> pc_first_match m))"

section \<open>The loop\<close>

definition item :: "('n \<Rightarrow> u64) \<Rightarrow> ('n \<Rightarrow> nat) \<Rightarrow> u8 list \<Rightarrow> u8 list \<times> 'n \<Rightarrow> Match" where
  "item val src pre x = (make_match 0 (length (pre @ fst x)) (pre @ fst x) (val (snd x)))\<lparr>m_fsa := src (snd x)\<rparr>"

lemma make_match_single [simp]: "(make_match a b w v)\<lparr>m_fsa := 0\<rparr> = make_match a b w v"
  by (simp add: make_match_def)

context byte_traverser
begin

definition byte_at :: "'s \<Rightarrow> (u8, 'n) visit list \<Rightarrow> bool" where
  "byte_at t vs \<longleftrightarrow> (case vs of [] \<Rightarrow> \<not> valid T t | v # vs \<Rightarrow> standing t v vs)"

lemma increment_at: "waiting t vs \<Longrightarrow> byte_at (increment T t) vs"
  using increment_end increment_next by (auto simp: byte_at_def split: list.splits)

definition completer_ok :: "'s PrefixCompletionMatching \<Rightarrow> u8 list \<Rightarrow> (u8, 'n) visit list \<Rightarrow> bool" where
  "completer_ok m pre vs \<longleftrightarrow> byte_at (pc_traverser m) vs \<and> prefix_length m = length pre \<and>
     (\<exists>u. hangs u vs \<and> pc_traversal_stack m = pre @ u)"

lemma completion_round:
  assumes "completer_ok m pre (v # vs)"
  shows "\<exists>m'. completer_ok m' pre (v_below v @ vs) \<and> completion_loop T m =
    (if final (v_state v) then Some (Some (item val src pre (v_path v, v_state v)), m') else completion_loop T m')"
proof -
  obtain u where u: "hangs u (v # vs)" "pc_traversal_stack m = pre @ u" using assms by (auto simp: completer_ok_def)
  have st: "standing (pc_traverser m) v vs" "prefix_length m = length pre" using assms by (simp_all add: completer_ok_def byte_at_def)
  note node = standing_node [OF st(1)]
  have w: "butlast (v_path v) = take (length (v_path v) - 1) u" using u(1) by (simp add: hangs_def)
  then have len: "length (v_path v) - 1 \<le> length u" by (metis length_butlast length_take min.cobounded1 min.commute)
  have path: "resize (prefix_length m + state_depth T (pc_traverser m) - 1) 0 (pc_traversal_stack m) @ [state_label T (pc_traverser m)]
      = pre @ v_path v"
  proof -
    have d: "prefix_length m + state_depth T (pc_traverser m) - 1 = length pre + (length (v_path v) - 1)"
      using node st(2) by (cases "v_path v") simp_all
    have "resize (length pre + (length (v_path v) - 1)) 0 (pre @ u) = pre @ butlast (v_path v)"
      unfolding w resize_def using len by simp
    then show ?thesis unfolding d u(2) using node by simp
  qed
  let ?m = "m\<lparr>pc_traversal_stack := pre @ v_path v, pc_traverser := increment T (pc_traverser m)\<rparr>"
  have "completer_ok ?m pre (v_below v @ vs)"
    using increment_at [OF standing_waiting [OF st(1)]] hangs_next(1) [OF u(1)] st(2) by (auto simp: completer_ok_def)
  moreover have "completion_loop T m =
    (if final (v_state v) then Some (Some (item val src pre (v_path v, v_state v)), ?m) else completion_loop T ?m)"
    using node path st(2) by (subst completion_loop.simps) (simp add: Let_def item_def reading)
  ultimately show ?thesis by blast
qed

lemma completion_next:
  assumes "completer_ok m pre vs"
  shows "case filter (\<lambda>x. final (snd x)) (all_visits vs) of
      [] \<Rightarrow> \<exists>m'. completion_loop T m = Some (None, m')
    | x # xs \<Rightarrow> \<exists>m' vs'. completion_loop T m = Some (Some (item val src pre x), m') \<and> completer_ok m' pre vs' \<and>
        filter (\<lambda>x. final (snd x)) (all_visits vs') = xs"
  using assms
proof (induction "length (all_visits vs)" arbitrary: m vs rule: less_induct)
  case less
  show ?case
  proof (cases vs)
    case Nil
    then show ?thesis using less.prems by (subst completion_loop.simps) (simp add: completer_ok_def byte_at_def)
  next
    case (Cons v vs')
    from completion_round [OF less.prems [unfolded Cons]] obtain m' where
      m': "completer_ok m' pre (v_below v @ vs')" "completion_loop T m =
        (if final (v_state v) then Some (Some (item val src pre (v_path v, v_state v)), m') else completion_loop T m')" by blast
    have split: "all_visits vs = (v_path v, v_state v) # all_visits (v_below v @ vs')" unfolding Cons by (cases v) simp
    show ?thesis
    proof (cases "final (v_state v)")
      case True
      then show ?thesis using m' unfolding split by auto
    next
      case False
      then have eq: "completion_loop T m = completion_loop T m'" using m'(2) by simp
      have "length (all_visits (v_below v @ vs')) < length (all_visits vs)" unfolding split by simp
      from less.hyps [OF this m'(1)] False show ?thesis unfolding split eq by simp
    qed
  qed
qed

lemma completion_produces:
  assumes "completer_ok m pre vs"
  shows "produces (completion_func T) (map (item val src pre) (filter (\<lambda>x. final (snd x)) (all_visits vs)))
     (MI_increment (completion_func T) \<lparr>match_functor = Some (Some m), current_match = c\<rparr>)"
  using assms
proof (induction "filter (\<lambda>x. final (snd x)) (all_visits vs)" arbitrary: m vs c)
  case Nil
  then obtain m' where "completion_loop T m = Some (None, m')"
    using completion_next [OF Nil.prems] by auto
  then show ?case using Nil.hyps by (simp flip: Nil.hyps add: MI_increment_def completion_func_def MI_equal_def EmptyIterator_def)
next
  case (Cons x xs)
  obtain m' vs' where m': "completion_loop T m = Some (Some (item val src pre x), m')" "completer_ok m' pre vs'"
    "filter (\<lambda>x. final (snd x)) (all_visits vs') = xs"
    using completion_next [OF Cons.prems] unfolding Cons.hyps(2) [symmetric] by auto
  from Cons.hyps(1) [OF m'(3) [symmetric] m'(2)] m'(1,3) show ?case
    by (simp flip: Cons.hyps(2) add: MI_increment_def completion_func_def)
qed

end

section \<open>Properties\<close>

lemma pc_walk_walks: "s \<noteq> 0 \<Longrightarrow> fst (pc_walk A s st query) = fsa_walk A s query \<and>
    (fsa_walk A s query \<noteq> 0 \<longrightarrow> snd (pc_walk A s st query) = st @ query)"
proof (induction query arbitrary: s st)
  case (Cons c query)
  show ?case
  proof (cases "TryWalkTransition A s c = 0")
    case True
    then show ?thesis using Cons.prems by (cases query) simp_all
  qed (use Cons in simp)
qed simp

text \<open>
  C10: prefix completion returns exactly the keys with the prefix.  The matches of \<open>GetPrefixCompletion\<close> are the keys that start
  with the query, each once, with their values; every call returns.
\<close>

theorem prefix_completion_exact:
  assumes "start \<noteq> 0" "fsa_depth A N start"
  shows "\<exists>ms. produces (completion_func (state_traverser weighted_ops A)) ms (GetPrefixCompletion A start query) \<and>
    set ms = {make_match 0 (length w) w (GetStateValue A (fsa_walk A start w)) | w. prefix query w \<and> Contains_from A start w} \<and>
    distinct (map matched_item ms)"
proof -
  let ?F = "completion_func (state_traverser weighted_ops A)" and ?st = "fsa_walk A start query"
  have key: "Contains_from A start w \<longleftrightarrow> fsa_walk A start w \<noteq> 0 \<and> IsFinalState A (fsa_walk A start w)" for w
    using assms(1) by (simp add: Contains_from_iff)
  let ?key_match = "\<lambda>w. make_match 0 (length w) w (GetStateValue A (fsa_walk A start w))"
  obtain st where walk: "pc_walk A start [] query = (?st, st)" "?st \<noteq> 0 \<longrightarrow> st = query"
    using pc_walk_walks [OF assms(1), of A "[]" query] by (cases "pc_walk A start [] query") auto
  show ?thesis
  proof (cases "?st = 0")
    case True
    then have "produces ?F [] (GetPrefixCompletion A start query)"
      using assms(1) walk by (simp add: GetPrefixCompletion_def pc_FromSingleFsa_def MakeIterator_def MI_increment_def completion_func_def
          MI_equal_def EmptyIterator_def)
    moreover have "{?key_match w | w. prefix query w \<and> Contains_from A start w} = {}"
      using walk_append_0 [OF True assms(1)] by (auto simp: key prefix_def)
    ultimately show ?thesis by (intro exI [of _ "[]"]) simp
  next
    case False
    have depth: "fsa_depth A N ?st" by (rule depth_walk [OF assms(2) False])
    define vs where "vs = weighted.trees A N [] ?st (GetInnerWeight A ?st)"
    have "weighted.waits A N (StateTraverser_from weighted_ops A ?st \<lparr>current_depth = 0, min_weight = 0\<rparr> False) vs"
      unfolding vs_def by (rule weighted.start_waits) (use False weighted.deep_fsa [OF depth] in \<open>simp_all add: weighted_ops_def\<close>)
    from weighted_bytes.increment_at [OF this] have t: "weighted_bytes.byte_at A N (weighted_traverser A ?st) vs"
      by (simp add: weighted_traverser_def StateTraverser_from_def Let_def state_traverser_def)
    let ?m = "\<lparr>pc_traverser = weighted_traverser A ?st,
      pc_first_match = (if IsFinalState A ?st then Some (make_match 0 (length query) query (GetStateValue A ?st)) else None),
      pc_traversal_stack = query, prefix_length = length query\<rparr>"
    have m: "pc_FromSingleFsa (weighted_traverser A) A start query = Some ?m"
      using assms(1) walk False by (simp add: pc_FromSingleFsa_def)
    have "hangs [] vs" unfolding vs_def by (rule weighted.trees_hang)
    then have "weighted_bytes.completer_ok A N ?m query vs" using t by (simp add: weighted_bytes.completer_ok_def)
    note P = weighted_bytes.completion_produces [OF this]
    define L where "L = filter (\<lambda>x. IsFinalState A (snd x)) (all_visits vs)"
    define ms where "ms = (if IsFinalState A ?st then [?key_match query] else []) @ map (item (GetStateValue A) (\<lambda>_. 0) query) L"
    have eq: "mset (all_visits vs) = mset (nodes (outgoing A) N [] ?st)" unfolding vs_def by (rule weighted.trees_nodes)
    have nodes: "x \<in> set L \<longleftrightarrow> fst x \<noteq> [] \<and> snd x = fsa_walk A start (query @ fst x) \<and> Contains_from A start (query @ fst x)" for x
    proof -
      have "x \<in> set (all_visits vs) \<longleftrightarrow> fst x \<noteq> [] \<and> snd x = fsa_walk A ?st (fst x) \<and> snd x \<noteq> 0"
        using fsa.nodes_iff [OF depth, of "fst x" "snd x"] unfolding mset_eq_setD [OF eq] by simp
      then show ?thesis unfolding L_def key walk_append [OF False] set_filter mem_Collect_eq by metis
    qed
    have "produces ?F ms (GetPrefixCompletion A start query)"
      using P assms(1) m unfolding ms_def L_def
      by (cases "IsFinalState A ?st") (simp_all add: GetPrefixCompletion_def MakeIterator_def)
    moreover have "set ms = {?key_match w | w. prefix query w \<and> Contains_from A start w}"
    proof (intro equalityI subsetI)
      fix x assume "x \<in> set ms"
      then consider "x = ?key_match query" "IsFinalState A ?st" | y where "y \<in> set L" "x = item (GetStateValue A) (\<lambda>_. 0) query y"
        by (auto simp: ms_def split: if_splits)
      then show "x \<in> {?key_match w | w. prefix query w \<and> Contains_from A start w}"
      proof cases
        case 1
        then show ?thesis using False by (auto simp: key)
      next
        case (2 y)
        then have "x = ?key_match (query @ fst y)" "Contains_from A start (query @ fst y)" using nodes [of y] by (simp_all add: item_def)
        then show ?thesis by (intro CollectI exI [of _ "query @ fst y"]) simp
      qed
    next
      fix x assume "x \<in> {?key_match w | w. prefix query w \<and> Contains_from A start w}"
      then obtain z where z: "x = ?key_match (query @ z)" "Contains_from A start (query @ z)" by (auto simp: prefix_def)
      show "x \<in> set ms"
      proof (cases "z = []")
        case True
        then show ?thesis using z by (simp add: ms_def key)
      next
        case False
        then have "(z, fsa_walk A start (query @ z)) \<in> set L" using z(2) nodes [of "(z, fsa_walk A start (query @ z))"] by simp
        moreover have "x = item (GetStateValue A) (\<lambda>_. 0) query (z, fsa_walk A start (query @ z))" using z(1) by (simp add: item_def)
        ultimately show ?thesis by (auto simp: ms_def)
      qed
    qed
    moreover have "distinct (map matched_item ms)"
    proof -
      have "distinct (map fst (nodes (outgoing A) N [] ?st))" by (rule key_sorted_distinct [OF fsa.nodes_sorted])
      then have "distinct (map fst (all_visits vs))" using eq by (metis mset_eq_imp_distinct_iff mset_map)
      then have "distinct (map fst L)" unfolding L_def by (rule distinct_map_filter)
      moreover have "inj_on ((@) query) X" for X by (simp add: inj_on_def)
      ultimately have "distinct (map ((@) query) (map fst L))" using distinct_map [of "(@) query" "map fst L"] by blast
      moreover have "map matched_item (map (item (GetStateValue A) (\<lambda>_. 0) query) L) = map ((@) query) (map fst L)"
        by (simp add: item_def make_match_def)
      moreover have "query \<notin> set (map ((@) query) (map fst L))" using nodes by auto
      ultimately show ?thesis unfolding ms_def by (simp add: make_match_def del: map_map)
    qed
    ultimately show ?thesis by blast
  qed
qed

theorem prefix_completion_exact_witness:
  "\<exists>ms. produces (completion_func (state_traverser weighted_ops small_automata)) ms
      (GetPrefixCompletion small_automata 1000 [97]) \<and>
    make_match 0 1 [97] 7 \<in> set ms \<and> make_match 0 (Suc 1) [97, 98] 8 \<in> set ms \<and> distinct (map matched_item ms)"
proof -
  obtain ms where ms: "produces (completion_func (state_traverser weighted_ops small_automata)) ms
      (GetPrefixCompletion small_automata 1000 [97])"
    "set ms = {make_match 0 (length w) w (GetStateValue small_automata (fsa_walk small_automata 1000 w)) | w.
       prefix [97] w \<and> Contains_from small_automata 1000 w}" "distinct (map matched_item ms)"
    using prefix_completion_exact [OF _ small_automata_depth, of "[97]"] by auto
  have member: "make_match 0 (length w) w (GetStateValue small_automata (fsa_walk small_automata 1000 w)) \<in> set ms"
    if "prefix [97] w" "Contains_from small_automata 1000 w" for w using that ms(2) by blast
  have "Contains_from small_automata 1000 [97]" "Contains_from small_automata 1000 [97, 98]"
    "GetStateValue small_automata (fsa_walk small_automata 1000 [97]) = 7"
    "GetStateValue small_automata (fsa_walk small_automata 1000 [97, 98]) = 8"
    by (simp_all add: Contains_from_iff small_automata_step small_automata_final)
  with member [of "[97]"] member [of "[97, 98]"] have "make_match 0 1 [97] 7 \<in> set ms" "make_match 0 (Suc 1) [97, 98] 8 \<in> set ms"
    by (simp_all add: numeral_2_eq_2)
  with ms(1,3) show ?thesis by blast
qed

end
