(* ===== verification/Bit_Vector.thy ===== *)
theory Bit_Vector
  imports Prelude
begin

text \<open>
  The fixed-size bit vector of the sparse array builder
  (\<open>keyvi/dictionary/fsa/internal/bit_vector_64.h\<close>, the implementation used with GNU compilers).
  A vector of \<open>size\<close> bits is an array of \<open>size / 64 + 1\<close> words.  The C++ arrays are not
  bounds-checked; \<open>GetNextNonSetBit\<close>, the one operation whose own index can leave the array,
  returns \<open>None\<close> when it would read outside.  \<open>bit >> 6\<close> and \<open>bit & 63\<close> are written as \<open>div\<close> and
  \<open>mod\<close> on natural numbers.
\<close>

section \<open>The operations\<close>

record bitvector =
  bv_bits :: "u64 list"
  bv_size :: nat

definition BV_Clear :: "bitvector \<Rightarrow> bitvector" where
  "BV_Clear bv = bv\<lparr>bv_bits := replicate (length (bv_bits bv)) 0\<rparr>"

definition BitVector :: "nat \<Rightarrow> bitvector" where
  "BitVector Tsize = BV_Clear \<lparr>bv_bits = replicate (Tsize div 64 + 1) 0, bv_size = Tsize\<rparr>"

definition BV_Size :: "bitvector \<Rightarrow> nat" where
  "BV_Size bv = bv_size bv"

text \<open>\<open>or_word i w\<close> is the statement \<open>bits_[i] |= w\<close>.\<close>

definition or_word :: "nat \<Rightarrow> u64 \<Rightarrow> u64 list \<Rightarrow> u64 list" where
  "or_word i w bits = bits[i := (bits ! i) OR w]"

definition BV_Set :: "nat \<Rightarrow> bitvector \<Rightarrow> bitvector" where
  "BV_Set bt bv = bv\<lparr>bv_bits := or_word (bt div 64) (push_bit (bt mod 64) 1) (bv_bits bv)\<rparr>"

definition BV_Get :: "nat \<Rightarrow> bitvector \<Rightarrow> bool" where
  "BV_Get bt bv \<longleftrightarrow> (bv_bits bv ! (bt div 64)) AND push_bit (bt mod 64) 1 \<noteq> 0"

text \<open>
  \<open>Erase\<close> shifts the \<open>int\<close> constant 1: a shift of 32 or more is undefined (\<open>None\<close>), and the
  complement is sign-extended to 64 bits.
\<close>

definition BV_Erase :: "nat \<Rightarrow> bitvector \<Rightarrow> bitvector option" where
  "BV_Erase bt bv =
     (if bt mod 64 < 32
      then Some (bv\<lparr>bv_bits := (bv_bits bv)[bt div 64 :=
             (bv_bits bv ! (bt div 64)) AND scast (NOT (push_bit (bt mod 64) (1 :: u32)))]\<rparr>)
      else None)"

definition GetUnderlyingIntegerAtPosition :: "bitvector \<Rightarrow> nat \<Rightarrow> nat \<Rightarrow> u64" where
  "GetUnderlyingIntegerAtPosition bv byte_position bit_position =
     (if bit_position = 0 then bv_bits bv ! byte_position
      else if byte_position + 1 < length (bv_bits bv)
      then drop_bit bit_position (bv_bits bv ! byte_position)
             OR push_bit (64 - bit_position) (bv_bits bv ! (byte_position + 1))
      else drop_bit bit_position (bv_bits bv ! byte_position))"

definition BV_SetVector :: "bitvector \<Rightarrow> nat \<Rightarrow> bitvector \<Rightarrow> bitvector" where
  "BV_SetVector other start_bit bv =
     (let byte_position = start_bit div 64;
          bit_position = start_bit mod 64;
          write_length = min (length (bv_bits bv) - byte_position) (length (bv_bits other))
      in if bit_position = 0
         then bv\<lparr>bv_bits := fold (\<lambda>i. or_word (byte_position + i) (bv_bits other ! i))
                              [0..<write_length] (bv_bits bv)\<rparr>
         else
           (let first = or_word byte_position (push_bit bit_position (bv_bits other ! 0)) (bv_bits bv);
                loop = fold (\<lambda>i. or_word (byte_position + i)
                                (push_bit bit_position (bv_bits other ! i)
                                   OR drop_bit (64 - bit_position) (bv_bits other ! (i - 1))))
                          [1..<write_length] first
            in bv\<lparr>bv_bits :=
                 (if byte_position + write_length < length (bv_bits bv)
                  then or_word (byte_position + write_length)
                         (drop_bit (64 - bit_position) (bv_bits other ! (write_length - 1))) loop
                  else loop)\<rparr>))"

definition BV_SetVectorAndShiftOther :: "bitvector \<Rightarrow> nat \<Rightarrow> bitvector \<Rightarrow> bitvector" where
  "BV_SetVectorAndShiftOther other start_bit_other bv =
     (let byte_position_other = start_bit_other div 64;
          bit_position_other = start_bit_other mod 64;
          write_length = min (length (bv_bits bv)) (length (bv_bits other)) - byte_position_other
      in bv\<lparr>bv_bits := fold (\<lambda>i. or_word i (GetUnderlyingIntegerAtPosition other
                                            (byte_position_other + i) bit_position_other))
                          [0..<write_length] (bv_bits bv)\<rparr>)"

text \<open>\<open>__builtin_ffsll\<close>: one plus the index of the lowest set bit, 0 for the argument 0.\<close>

definition ffsll :: "u64 \<Rightarrow> nat" where
  "ffsll w = (case find (bit w) [0..<64] of None \<Rightarrow> 0 | Some i \<Rightarrow> i + 1)"

definition BV_Position :: "u64 \<Rightarrow> nat" where
  "BV_Position number = ffsll number - 1"

function GetNextNonSetBit_loop :: "bitvector \<Rightarrow> nat \<Rightarrow> nat \<Rightarrow> nat \<Rightarrow> nat option" where
  "GetNextNonSetBit_loop bv byte_position bit_position start_bit =
     (if length (bv_bits bv) \<le> byte_position then None
      else let a = GetUnderlyingIntegerAtPosition bv byte_position bit_position
           in if a = - 1
              then GetNextNonSetBit_loop bv (byte_position + 1) bit_position (start_bit + 64)
              else Some (BV_Position (NOT a) + start_bit))"
  by pat_completeness auto
termination
  by (relation "measure (\<lambda>(bv, byte_position, _). length (bv_bits bv) - byte_position)") auto

definition GetNextNonSetBit :: "nat \<Rightarrow> bitvector \<Rightarrow> nat option" where
  "GetNextNonSetBit start_bit bv =
     GetNextNonSetBit_loop bv (start_bit div 64) (start_bit mod 64) start_bit"

function GetMinimumNumberOfShifts_loop :: "u64 \<Rightarrow> u64 \<Rightarrow> nat \<Rightarrow> nat" where
  "GetMinimumNumberOfShifts_loop b a shifts =
     (if a AND b \<noteq> 0 then GetMinimumNumberOfShifts_loop b (drop_bit 1 a) (shifts + 1) else shifts)"
  by pat_completeness auto
termination
  by (relation "measure (\<lambda>(_, a, _). unat a)")
     (auto simp: unat_drop_bit_div [where n = 1, simplified] unat_eq_zero intro!: div_less_dividend gr0I)

definition GetMinimumNumberOfShifts :: "u64 \<Rightarrow> u64 \<Rightarrow> nat" where
  "GetMinimumNumberOfShifts b a = GetMinimumNumberOfShifts_loop b (drop_bit 1 a) 1"

text \<open>
  The three disjointness tests run the same loop over the words of the other vector; they differ in
  what they return at the first word with a common bit.
\<close>

fun BV_Disjoint_loop :: "bitvector \<Rightarrow> bitvector \<Rightarrow> nat \<Rightarrow> nat \<Rightarrow> nat list \<Rightarrow> bool" where
  "BV_Disjoint_loop other bv byte_position bit_position [] = True"
| "BV_Disjoint_loop other bv byte_position bit_position (i # idx) =
     (let b = bv_bits other ! i in
      if b \<noteq> 0 \<and> GetUnderlyingIntegerAtPosition bv byte_position bit_position AND b \<noteq> 0
      then False
      else BV_Disjoint_loop other bv (byte_position + 1) bit_position idx)"

definition BV_Disjoint :: "bitvector \<Rightarrow> nat \<Rightarrow> bitvector \<Rightarrow> bool" where
  "BV_Disjoint other start_bit bv =
     (let byte_position = start_bit div 64;
          length_to_check = min (length (bv_bits other)) (length (bv_bits bv) - byte_position);
          bit_position = start_bit mod 64
      in BV_Disjoint_loop other bv byte_position bit_position [0..<length_to_check])"

fun DisjointAndShiftOther_loop :: "bitvector \<Rightarrow> bitvector \<Rightarrow> nat \<Rightarrow> nat \<Rightarrow> nat list \<Rightarrow> nat" where
  "DisjointAndShiftOther_loop other bv byte_position bit_position [] = 0"
| "DisjointAndShiftOther_loop other bv byte_position bit_position (i # idx) =
     (let b = bv_bits other ! i; a = GetUnderlyingIntegerAtPosition bv byte_position bit_position in
      if b \<noteq> 0 \<and> a AND b \<noteq> 0 then GetMinimumNumberOfShifts a b
      else DisjointAndShiftOther_loop other bv (byte_position + 1) bit_position idx)"

definition DisjointAndShiftOther :: "bitvector \<Rightarrow> nat \<Rightarrow> bitvector \<Rightarrow> nat" where
  "DisjointAndShiftOther other start_bit bv =
     (let byte_position = start_bit div 64;
          length_to_check = min (length (bv_bits other)) (length (bv_bits bv) - byte_position);
          bit_position = start_bit mod 64
      in DisjointAndShiftOther_loop other bv byte_position bit_position [0..<length_to_check])"

fun DisjointAndShiftThis_loop :: "bitvector \<Rightarrow> bitvector \<Rightarrow> nat \<Rightarrow> nat \<Rightarrow> nat list \<Rightarrow> nat" where
  "DisjointAndShiftThis_loop other bv byte_position bit_position [] = 0"
| "DisjointAndShiftThis_loop other bv byte_position bit_position (i # idx) =
     (let b = bv_bits other ! i; a = GetUnderlyingIntegerAtPosition bv byte_position bit_position in
      if b \<noteq> 0 \<and> a AND b \<noteq> 0 then GetMinimumNumberOfShifts b a
      else DisjointAndShiftThis_loop other bv (byte_position + 1) bit_position idx)"

definition DisjointAndShiftThis :: "bitvector \<Rightarrow> nat \<Rightarrow> bitvector \<Rightarrow> nat" where
  "DisjointAndShiftThis other start_bit bv =
     (let byte_position = start_bit div 64;
          length_to_check = min (length (bv_bits other)) (length (bv_bits bv) - byte_position);
          bit_position = start_bit mod 64
      in DisjointAndShiftThis_loop other bv byte_position bit_position [0..<length_to_check])"

declare GetNextNonSetBit_loop.simps [simp del] GetMinimumNumberOfShifts_loop.simps [simp del]

section \<open>The set of bits of a vector\<close>

definition bv_set :: "bitvector \<Rightarrow> nat set" where
  "bv_set bv = {n. n < 64 * length (bv_bits bv) \<and> bit (bv_bits bv ! (n div 64)) (n mod 64)}"

definition bv_invar :: "bitvector \<Rightarrow> bool" where
  "bv_invar bv \<longleftrightarrow> length (bv_bits bv) = bv_size bv div 64 + 1"

lemma in_bv_set_iff:
  "n \<in> bv_set bv \<longleftrightarrow> n < 64 * length (bv_bits bv) \<and> bit (bv_bits bv ! (n div 64)) (n mod 64)"
  by (simp add: bv_set_def)

lemma bv_invar_capacity: "bv_invar bv \<Longrightarrow> n \<le> bv_size bv \<Longrightarrow> n div 64 < length (bv_bits bv)"
  unfolding bv_invar_def by (simp add: div_le_mono le_imp_less_Suc)

lemma div64_less_iff: "n div 64 < k \<longleftrightarrow> n < 64 * k" for n k :: nat
  by (simp add: div_less_iff_less_mult mult.commute)

lemma word_offset_less_iff: "m < 64 \<Longrightarrow> 64 * i + m < 64 * k \<longleftrightarrow> i < k" for i k m :: nat
  by linarith

lemma in_bv_set_parts [simp]:
  "m < 64 \<Longrightarrow> 64 * i + m \<in> bv_set bv \<longleftrightarrow> i < length (bv_bits bv) \<and> bit (bv_bits bv ! i) m"
  by (simp add: in_bv_set_iff word_offset_less_iff)

lemma word_parts_eqI:
  "(\<And>i m. m < 64 \<Longrightarrow> 64 * i + m \<in> A \<longleftrightarrow> 64 * i + m \<in> B) \<Longrightarrow> A = (B :: nat set)"
  by (metis mult_div_mod_eq mod_less_divisor set_eqI zero_less_numeral)

lemma word_parts_inject [simp]:
  fixes i i' m m' :: nat
  assumes "m < 64" "m' < 64"
  shows "64 * i + m = 64 * i' + m' \<longleftrightarrow> i = i' \<and> m = m'"
proof
  assume eq: "64 * i + m = 64 * i' + m'"
  have "i = (64 * i + m) div 64" using assms by simp
  also have "\<dots> = i'" unfolding eq using assms by simp
  finally show "i = i' \<and> m = m'" using eq by simp
qed simp

lemma bv_set_zero: "set (bv_bits bv) \<subseteq> {0} \<Longrightarrow> bv_set bv = {}"
  by (rule word_parts_eqI) (auto dest!: nth_mem)

lemma bv_set_BitVector [simp]: "bv_set (BitVector n) = {}"
  by (rule bv_set_zero) (auto simp: BitVector_def BV_Clear_def)

lemma bv_invar_BitVector [simp]: "bv_invar (BitVector n)"
  by (simp add: bv_invar_def BitVector_def BV_Clear_def)

lemma bv_size_BitVector [simp]: "bv_size (BitVector n) = n"
  by (simp add: BitVector_def BV_Clear_def)

lemma bv_set_Clear [simp]: "bv_set (BV_Clear bv) = {}"
  by (rule bv_set_zero) (auto simp: BV_Clear_def)

lemma bv_invar_Clear [simp]: "bv_invar (BV_Clear bv) = bv_invar bv"
  by (simp add: bv_invar_def BV_Clear_def)

lemma bv_size_Clear [simp]: "bv_size (BV_Clear bv) = bv_size bv"
  by (simp add: BV_Clear_def)

lemma BV_Get_iff: "n div 64 < length (bv_bits bv) \<Longrightarrow> BV_Get n bv \<longleftrightarrow> n \<in> bv_set bv"
  by (simp add: BV_Get_def and_exp_eq_0_iff_not_bit in_bv_set_iff div64_less_iff)

lemma length_or_word [simp]: "length (or_word i w bits) = length bits"
  by (simp add: or_word_def)

lemma bv_set_or_word:
  assumes "i < length (bv_bits bv)"
  shows "bv_set (bv\<lparr>bv_bits := or_word i w (bv_bits bv)\<rparr>) = bv_set bv \<union> {64 * i + m |m. m < 64 \<and> bit w m}"
  using assms by (intro word_parts_eqI) (auto simp: or_word_def nth_list_update bit_or_iff)

lemma bv_set_Set [simp]:
  assumes "n div 64 < length (bv_bits bv)"
  shows "bv_set (BV_Set n bv) = insert n (bv_set bv)"
proof -
  have "{64 * (n div 64) + m |m. m < 64 \<and> bit (push_bit (n mod 64) (1 :: u64)) m} = {n}"
    by (auto simp: bit_simps)
  then show ?thesis using bv_set_or_word [OF assms] by (simp add: BV_Set_def)
qed

lemma bv_length_Set [simp]: "length (bv_bits (BV_Set n bv)) = length (bv_bits bv)"
  by (simp add: BV_Set_def)

lemma bv_length_BitVector [simp]: "length (bv_bits (BitVector n)) = n div 64 + 1"
  by (simp add: BitVector_def BV_Clear_def)

lemma bv_invar_Set [simp]: "bv_invar (BV_Set n bv) = bv_invar bv"
  and bv_size_Set [simp]: "bv_size (BV_Set n bv) = bv_size bv"
  by (simp_all add: BV_Set_def bv_invar_def)

lemma bit_GetUnderlyingIntegerAtPosition:
  assumes "i < length (bv_bits bv)" "k < 64" "m < 64"
  shows "bit (GetUnderlyingIntegerAtPosition bv i k) m \<longleftrightarrow> 64 * i + k + m \<in> bv_set bv"
proof (cases "k + m < 64")
  case True
  then have "64 * i + k + m \<in> bv_set bv \<longleftrightarrow> bit (bv_bits bv ! i) (k + m)"
    using assms in_bv_set_parts [of "k + m" i bv] by (simp add: add.assoc)
  with True assms show ?thesis
    by (auto simp: GetUnderlyingIntegerAtPosition_def bit_simps add.commute)
next
  case False
  then have "64 * i + k + m = 64 * Suc i + (k + m - 64)" by simp
  moreover have "64 * Suc i + (k + m - 64) \<in> bv_set bv \<longleftrightarrow>
      Suc i < length (bv_bits bv) \<and> bit (bv_bits bv ! Suc i) (k + m - 64)"
    using assms by (intro in_bv_set_parts) simp
  ultimately have eq: "64 * i + k + m \<in> bv_set bv \<longleftrightarrow>
      Suc i < length (bv_bits bv) \<and> bit (bv_bits bv ! Suc i) (k + m - 64)"
    by (simp only:)
  have "\<not> bit (drop_bit k (bv_bits bv ! i)) m"
    using False by (auto simp: bit_simps dest: bit_imp_le_length)
  moreover have "m - (64 - k) = k + m - 64" "64 - k \<le> m" using False assms by auto
  ultimately show ?thesis unfolding eq using False assms
    by (auto simp: GetUnderlyingIntegerAtPosition_def bit_push_bit_iff bit_or_iff)
qed

lemma bv_set_fold_or_word:
  assumes "\<And>i. i \<in> set js \<Longrightarrow> f i < length (bv_bits bv)"
  shows "bv_set (bv\<lparr>bv_bits := fold (\<lambda>i. or_word (f i) (w i)) js (bv_bits bv)\<rparr>) =
           bv_set bv \<union> {64 * f i + m |i m. i \<in> set js \<and> m < 64 \<and> bit (w i) m}"
  using assms
proof (induction js arbitrary: bv)
  case (Cons j js)
  let ?bv = "bv\<lparr>bv_bits := or_word (f j) (w j) (bv_bits bv)\<rparr>"
  have "bv_set (?bv\<lparr>bv_bits := fold (\<lambda>i. or_word (f i) (w i)) js (bv_bits ?bv)\<rparr>) =
      bv_set ?bv \<union> {64 * f i + m |i m. i \<in> set js \<and> m < 64 \<and> bit (w i) m}"
    using Cons.prems by (intro Cons.IH) simp
  moreover have "bv_set ?bv = bv_set bv \<union> {64 * f j + m |m. m < 64 \<and> bit (w j) m}"
    using Cons.prems by (intro bv_set_or_word) simp
  ultimately show ?case by auto
qed auto

lemma length_fold_or_word [simp]:
  "length (fold (\<lambda>i. or_word (f i) (w i)) js bits) = length bits"
  by (induction js arbitrary: bits) simp_all

lemma shifted_in_bv_set:
  assumes "m < 64" "k < 64"
  shows "64 * p + k \<le> 64 * j + m \<and> 64 * j + m - (64 * p + k) \<in> bv_set bv \<longleftrightarrow>
    (if k \<le> m then p \<le> j \<and> j - p < length (bv_bits bv) \<and> bit (bv_bits bv ! (j - p)) (m - k)
     else p < j \<and> j - p - 1 < length (bv_bits bv) \<and> bit (bv_bits bv ! (j - p - 1)) (64 + m - k))"
proof (cases "k \<le> m")
  case True
  then have "64 * p + k \<le> 64 * j + m \<longleftrightarrow> p \<le> j" using assms by linarith
  moreover have "p \<le> j \<Longrightarrow> 64 * j + m - (64 * p + k) = 64 * (j - p) + (m - k)" using True by auto
  moreover have "64 * (j - p) + (m - k) \<in> bv_set bv \<longleftrightarrow>
      j - p < length (bv_bits bv) \<and> bit (bv_bits bv ! (j - p)) (m - k)"
    using assms by (intro in_bv_set_parts) simp
  ultimately show ?thesis using True by metis
next
  case False
  then have "64 * p + k \<le> 64 * j + m \<longleftrightarrow> p < j" using assms by linarith
  moreover have "p < j \<Longrightarrow> 64 * j + m - (64 * p + k) = 64 * (j - p - 1) + (64 + m - k)"
    using False assms by auto
  moreover have "64 * (j - p - 1) + (64 + m - k) \<in> bv_set bv \<longleftrightarrow>
      j - p - 1 < length (bv_bits bv) \<and> bit (bv_bits bv ! (j - p - 1)) (64 + m - k)"
    using False assms by (intro in_bv_set_parts) simp
  ultimately show ?thesis using False by metis
qed

lemma bit_or_push_drop:
  fixes v w :: u64
  assumes "m < 64" "0 < k" "k < 64"
  shows "bit (push_bit k v OR drop_bit (64 - k) w) m \<longleftrightarrow>
           (if k \<le> m then bit v (m - k) else bit w (64 + m - k))"
proof -
  have "bit (push_bit k v) m \<longleftrightarrow> k \<le> m \<and> bit v (m - k)"
    using assms by (simp add: bit_push_bit_iff)
  moreover have "bit (drop_bit (64 - k) w) m \<longleftrightarrow> m < k \<and> bit w (64 + m - k)"
    using assms by (auto simp: bit_drop_bit_eq add.commute dest: bit_imp_le_length)
  ultimately show ?thesis by (auto simp: bit_or_iff)
qed

lemma bv_set_SetVector_aligned:
  assumes "p < length (bv_bits bv)"
  shows "bv_set (BV_SetVector other (64 * p) bv) =
    bv_set bv \<union> {n. n < 64 * length (bv_bits bv) \<and> 64 * p \<le> n \<and> n - 64 * p \<in> bv_set other}"
proof -
  let ?wl = "min (length (bv_bits bv) - p) (length (bv_bits other))"
  have "bv_set (BV_SetVector other (64 * p) bv) =
      bv_set bv \<union> {64 * (p + i) + m |i m. i \<in> set [0..<?wl] \<and> m < 64 \<and> bit (bv_bits other ! i) m}"
    by (subst bv_set_fold_or_word [symmetric]) (auto simp: BV_SetVector_def)
  moreover have "{64 * (p + i) + m |i m. i \<in> set [0..<?wl] \<and> m < 64 \<and> bit (bv_bits other ! i) m} =
      {n. n < 64 * length (bv_bits bv) \<and> 64 * p \<le> n \<and> n - 64 * p \<in> bv_set other}" (is "?A = ?B")
  proof (rule word_parts_eqI)
    fix j m :: nat
    assume m: "m < 64"
    have "64 * j + m \<in> ?A \<longleftrightarrow> (\<exists>i < ?wl. j = p + i \<and> bit (bv_bits other ! i) m)"
      using m by (auto simp del: distrib_left_numeral)
    also have "\<dots> \<longleftrightarrow> j < length (bv_bits bv) \<and> p \<le> j \<and> j - p < length (bv_bits other)
        \<and> bit (bv_bits other ! (j - p)) m"
      by (auto simp: le_iff_add)
    also have "\<dots> \<longleftrightarrow> 64 * j + m \<in> ?B"
      using shifted_in_bv_set [of m 0 p j other] m by (auto simp: word_offset_less_iff)
    finally show "64 * j + m \<in> ?A \<longleftrightarrow> 64 * j + m \<in> ?B" .
  qed
  ultimately show ?thesis by simp
qed

lemma bv_set_SetVector_unaligned:
  assumes p: "p < length (bv_bits bv)" and k: "0 < k" "k < 64" and ne: "bv_bits other \<noteq> []"
  shows "bv_set (BV_SetVector other (64 * p + k) bv) = bv_set bv \<union>
    {n. n < 64 * length (bv_bits bv) \<and> 64 * p + k \<le> n \<and> n - (64 * p + k) \<in> bv_set other}"
proof -
  let ?len = "length (bv_bits bv)" and ?olen = "length (bv_bits other)" and ?o = "bv_bits other"
  define wl where "wl = min (?len - p) ?olen"
  define W where "W i = push_bit k (?o ! i) OR drop_bit (64 - k) (?o ! (i - 1))" for i
  define bv1 where "bv1 = bv\<lparr>bv_bits := or_word p (push_bit k (?o ! 0)) (bv_bits bv)\<rparr>"
  define bv2 where "bv2 = bv1\<lparr>bv_bits := fold (\<lambda>i. or_word (p + i) (W i)) [1..<wl] (bv_bits bv1)\<rparr>"
  define bv3 where "bv3 = bv2\<lparr>bv_bits := or_word (p + wl) (drop_bit (64 - k) (?o ! (wl - 1))) (bv_bits bv2)\<rparr>"
  have wl: "0 < wl" "wl \<le> ?olen" "p + wl \<le> ?len" using p ne by (auto simp: wl_def)
  have len: "length (bv_bits bv1) = ?len" "length (bv_bits bv2) = ?len"
    by (simp_all add: bv1_def bv2_def)
  have result: "BV_SetVector other (64 * p + k) bv = (if p + wl < ?len then bv3 else bv2)"
    using k by (simp add: BV_SetVector_def Let_def bv1_def bv2_def bv3_def wl_def W_def)
  have s1: "bv_set bv1 = bv_set bv \<union> {64 * p + m |m. m < 64 \<and> bit (push_bit k (?o ! 0)) m}"
    unfolding bv1_def using p by (rule bv_set_or_word)
  have s2: "bv_set bv2 = bv_set bv1 \<union> {64 * (p + i) + m |i m. i \<in> set [1..<wl] \<and> m < 64 \<and> bit (W i) m}"
    unfolding bv2_def using wl len by (intro bv_set_fold_or_word) auto
  have s3: "p + wl < ?len \<Longrightarrow> bv_set bv3 =
      bv_set bv2 \<union> {64 * (p + wl) + m |m. m < 64 \<and> bit (drop_bit (64 - k) (?o ! (wl - 1))) m}"
    unfolding bv3_def using len by (intro bv_set_or_word) simp
  show ?thesis unfolding result
  proof (rule word_parts_eqI)
    fix j m :: nat
    assume m: "m < 64"
    have in1: "64 * j + m \<in> bv_set bv1 \<longleftrightarrow>
        64 * j + m \<in> bv_set bv \<or> j = p \<and> k \<le> m \<and> bit (?o ! 0) (m - k)"
      using m by (auto simp: s1 bit_push_bit_iff simp del: in_bv_set_parts)
    have "64 * j + m \<in> {64 * (p + i) + m |i m. i \<in> set [1..<wl] \<and> m < 64 \<and> bit (W i) m} \<longleftrightarrow>
        p < j \<and> j < p + wl \<and> bit (W (j - p)) m" (is "?L \<longleftrightarrow> ?R")
    proof
      assume ?L
      then obtain i m' where i: "64 * j + m = 64 * (p + i) + m'" "i \<in> set [1..<wl]" "m' < 64" "bit (W i) m'"
        by blast
      then have "j = p + i \<and> m = m'" using m word_parts_inject by metis
      with i show ?R by auto
    next
      assume ?R
      then have "64 * j + m = 64 * (p + (j - p)) + m" "j - p \<in> set [1..<wl]" by auto
      with \<open>?R\<close> m show ?L by blast
    qed
    then have in2: "64 * j + m \<in> bv_set bv2 \<longleftrightarrow> 64 * j + m \<in> bv_set bv1 \<or>
        p < j \<and> j < p + wl \<and> bit (W (j - p)) m"
      unfolding s2 by blast
    have in3: "p + wl < ?len \<Longrightarrow> 64 * j + m \<in> bv_set bv3 \<longleftrightarrow> 64 * j + m \<in> bv_set bv2 \<or>
        j = p + wl \<and> bit (drop_bit (64 - k) (?o ! (wl - 1))) m"
      using m by (auto simp: s3 simp del: in_bv_set_parts distrib_left_numeral)
    have W: "bit (W i) m \<longleftrightarrow>
        (if k \<le> m then bit (?o ! i) (m - k) else bit (?o ! (i - 1)) (64 + m - k))" for i
      unfolding W_def using m k by (rule bit_or_push_drop)
    have D: "bit (drop_bit (64 - k) (?o ! (wl - 1))) m \<longleftrightarrow> m < k \<and> bit (?o ! (wl - 1)) (64 + m - k)"
      using m k by (auto simp: bit_drop_bit_eq add.commute dest: bit_imp_le_length)
    have lt: "64 * j + m < 64 * ?len \<longleftrightarrow> j < ?len" using m by (rule word_offset_less_iff)
    show "64 * j + m \<in> bv_set (if p + wl < ?len then bv3 else bv2) \<longleftrightarrow> 64 * j + m \<in> bv_set bv \<union>
        {n. n < 64 * ?len \<and> 64 * p + k \<le> n \<and> n - (64 * p + k) \<in> bv_set other}"
    proof (cases "k \<le> m")
      case True
      have "p \<le> j \<and> j < p + wl \<longleftrightarrow> j < ?len \<and> p \<le> j \<and> j - p < ?olen" by (auto simp: wl_def)
      moreover have "64 * j + m \<in> bv_set (if p + wl < ?len then bv3 else bv2) \<longleftrightarrow>
          64 * j + m \<in> bv_set bv \<or> (p \<le> j \<and> j < p + wl) \<and> bit (?o ! (j - p)) (m - k)"
        using in1 in2 in3 W [of "j - p"] D True wl(1)
        by (cases j p rule: linorder_cases; cases "p + wl < ?len") (simp_all del: in_bv_set_parts)
      ultimately show ?thesis
        using shifted_in_bv_set [OF m k(2), of p j other] True lt by (simp del: in_bv_set_parts)
    next
      case False
      have "p < j \<and> j < p + wl \<or> p + wl < ?len \<and> j = p + wl \<longleftrightarrow> j < ?len \<and> p < j \<and> j - p - 1 < ?olen"
        using wl by (auto simp: wl_def)
      moreover have "64 * j + m \<in> bv_set (if p + wl < ?len then bv3 else bv2) \<longleftrightarrow>
          64 * j + m \<in> bv_set bv \<or>
          (p < j \<and> j < p + wl \<or> p + wl < ?len \<and> j = p + wl) \<and> bit (?o ! (j - p - 1)) (64 + m - k)"
        using in1 in2 in3 W [of "j - p"] D False
        by (cases "j = p + wl"; cases "p + wl < ?len") (simp_all del: in_bv_set_parts, blast?)
      ultimately show ?thesis
        using shifted_in_bv_set [OF m k(2), of p j other] False lt by (simp del: in_bv_set_parts)
    qed
  qed
qed

lemma bv_set_SetVector:
  assumes "start div 64 < length (bv_bits bv)" "bv_bits other \<noteq> []"
  shows "bv_set (BV_SetVector other start bv) = bv_set bv \<union>
    {n. n < 64 * length (bv_bits bv) \<and> start \<le> n \<and> n - start \<in> bv_set other}"
proof (cases "start mod 64 = 0")
  case True
  then have "start = 64 * (start div 64)" by auto
  with bv_set_SetVector_aligned [OF assms(1)] show ?thesis by metis
next
  case False
  then have "0 < start mod 64" "start mod 64 < 64" by simp_all
  from bv_set_SetVector_unaligned [OF assms(1) this assms(2)] show ?thesis by (simp only: mult_div_mod_eq)
qed

lemma bv_size_SetVector [simp]: "bv_size (BV_SetVector other start bv) = bv_size bv"
  by (simp add: BV_SetVector_def Let_def)

lemma bv_length_SetVector [simp]:
  "length (bv_bits (BV_SetVector other start bv)) = length (bv_bits bv)"
  by (simp add: BV_SetVector_def Let_def)

lemma bv_invar_SetVector [simp]: "bv_invar (BV_SetVector other start bv) = bv_invar bv"
  by (simp add: bv_invar_def)

lemma bv_set_SetVectorAndShiftOther:
  assumes "length (bv_bits other) \<le> length (bv_bits bv)"
  shows "bv_set (BV_SetVectorAndShiftOther other start bv) = bv_set bv \<union> {n. start + n \<in> bv_set other}"
proof -
  let ?p = "start div 64" and ?k = "start mod 64" and ?olen = "length (bv_bits other)"
  let ?w = "\<lambda>i. GetUnderlyingIntegerAtPosition other (?p + i) ?k"
  have "bv_set (BV_SetVectorAndShiftOther other start bv) =
      bv_set bv \<union> {64 * i + m |i m. i \<in> set [0..<?olen - ?p] \<and> m < 64 \<and> bit (?w i) m}"
    using assms by (subst bv_set_fold_or_word [symmetric])
      (auto simp: BV_SetVectorAndShiftOther_def Let_def min_absorb2)
  moreover have "{64 * i + m |i m. i \<in> set [0..<?olen - ?p] \<and> m < 64 \<and> bit (?w i) m} =
      {n. start + n \<in> bv_set other}" (is "?A = ?B")
  proof (rule word_parts_eqI)
    fix j m :: nat
    assume m: "m < 64"
    have start: "start + (64 * j + m) = 64 * (?p + j) + ?k + m" by simp
    have "64 * j + m \<in> ?A \<longleftrightarrow> j < ?olen - ?p \<and> bit (?w j) m"
      using m by auto
    also have "\<dots> \<longleftrightarrow> j < ?olen - ?p \<and> 64 * (?p + j) + ?k + m \<in> bv_set other"
      using m bit_GetUnderlyingIntegerAtPosition [of "?p + j" other ?k m] by auto
    also have "\<dots> \<longleftrightarrow> 64 * (?p + j) + ?k + m \<in> bv_set other"
      by (auto simp: in_bv_set_iff)
    also have "\<dots> \<longleftrightarrow> 64 * j + m \<in> ?B" by (simp only: start mem_Collect_eq)
    finally show "64 * j + m \<in> ?A \<longleftrightarrow> 64 * j + m \<in> ?B" .
  qed
  ultimately show ?thesis by simp
qed

lemma bv_size_SetVectorAndShiftOther [simp]:
  "bv_size (BV_SetVectorAndShiftOther other start bv) = bv_size bv"
  by (simp add: BV_SetVectorAndShiftOther_def Let_def)

lemma bv_invar_SetVectorAndShiftOther [simp]:
  "bv_invar (BV_SetVectorAndShiftOther other start bv) = bv_invar bv"
  by (simp add: BV_SetVectorAndShiftOther_def Let_def bv_invar_def)

section \<open>Disjointness\<close>

text \<open>\<open>overlap other start bv\<close>: the bits of \<open>other\<close> that meet a set bit when it is laid over \<open>bv\<close>
  from \<open>start\<close> on.\<close>

definition overlap :: "bitvector \<Rightarrow> nat \<Rightarrow> bitvector \<Rightarrow> nat set" where
  "overlap other start bv = {n \<in> bv_set other. start + n \<in> bv_set bv}"

definition word_clash :: "bitvector \<Rightarrow> nat \<Rightarrow> bitvector \<Rightarrow> nat \<Rightarrow> bool" where
  "word_clash other start bv i \<longleftrightarrow>
     GetUnderlyingIntegerAtPosition bv (start div 64 + i) (start mod 64) AND (bv_bits other ! i) \<noteq> 0"

lemma word_and_nonzero_iff: "v AND w \<noteq> 0 \<longleftrightarrow> (\<exists>m < 64. bit v m \<and> bit w m)" for v w :: u64
  by (auto simp: bit_eq_iff bit_and_iff)

lemma word_clash_iff:
  assumes "start div 64 + i < length (bv_bits bv)" "i < length (bv_bits other)"
  shows "word_clash other start bv i \<longleftrightarrow> (\<exists>m < 64. 64 * i + m \<in> overlap other start bv)"
proof -
  have "start + (64 * i + m) \<in> bv_set bv \<longleftrightarrow>
      bit (GetUnderlyingIntegerAtPosition bv (start div 64 + i) (start mod 64)) m" if "m < 64" for m
  proof -
    have "start + (64 * i + m) = 64 * (start div 64 + i) + start mod 64 + m" by simp
    with bit_GetUnderlyingIntegerAtPosition [OF assms(1) _ that, of "start mod 64"]
    show ?thesis by (simp only: mod_less_divisor zero_less_numeral simp_thms)
  qed
  moreover have "64 * i + m \<in> bv_set other \<longleftrightarrow> bit (bv_bits other ! i) m" if "m < 64" for m
    using assms(2) that by simp
  ultimately show ?thesis
    unfolding word_clash_def word_and_nonzero_iff overlap_def mem_Collect_eq by blast
qed

lemma BV_Disjoint_loop_eq:
  "BV_Disjoint_loop other bv (start div 64 + a) (start mod 64) [a..<n] \<longleftrightarrow>
     find (word_clash other start bv) [a..<n] = None"
proof (induction "n - a" arbitrary: a)
  case (Suc d)
  then have "[a..<n] = a # [Suc a..<n]" by (simp add: upt_conv_Cons)
  with Suc.hyps(1) [of "Suc a"] Suc.hyps(2) show ?case by (auto simp: word_clash_def Let_def)
qed simp

lemma DisjointAndShiftThis_loop_eq:
  "DisjointAndShiftThis_loop other bv (start div 64 + a) (start mod 64) [a..<n] =
     (case find (word_clash other start bv) [a..<n] of None \<Rightarrow> 0
      | Some i \<Rightarrow> GetMinimumNumberOfShifts (bv_bits other ! i)
                   (GetUnderlyingIntegerAtPosition bv (start div 64 + i) (start mod 64)))"
proof (induction "n - a" arbitrary: a)
  case (Suc d)
  then have "[a..<n] = a # [Suc a..<n]" by (simp add: upt_conv_Cons)
  with Suc.hyps(1) [of "Suc a"] Suc.hyps(2) show ?case by (auto simp: word_clash_def Let_def)
qed simp

lemma DisjointAndShiftOther_loop_eq:
  "DisjointAndShiftOther_loop other bv (start div 64 + a) (start mod 64) [a..<n] =
     (case find (word_clash other start bv) [a..<n] of None \<Rightarrow> 0
      | Some i \<Rightarrow> GetMinimumNumberOfShifts
                   (GetUnderlyingIntegerAtPosition bv (start div 64 + i) (start mod 64)) (bv_bits other ! i))"
proof (induction "n - a" arbitrary: a)
  case (Suc d)
  then have "[a..<n] = a # [Suc a..<n]" by (simp add: upt_conv_Cons)
  with Suc.hyps(1) [of "Suc a"] Suc.hyps(2) show ?case by (auto simp: word_clash_def Let_def)
qed simp

definition words_to_check :: "bitvector \<Rightarrow> nat \<Rightarrow> bitvector \<Rightarrow> nat" where
  "words_to_check other start bv = min (length (bv_bits other)) (length (bv_bits bv) - start div 64)"

lemma find_word_clash_None:
  "find (word_clash other start bv) [0..<words_to_check other start bv] = None \<longleftrightarrow>
     overlap other start bv = {}"
proof -
  have "find (word_clash other start bv) [0..<words_to_check other start bv] = None \<longleftrightarrow>
      (\<forall>i < words_to_check other start bv. \<not> word_clash other start bv i)"
    by (auto simp: find_None_iff)
  also have "\<dots> \<longleftrightarrow> (\<forall>i < words_to_check other start bv. \<forall>m < 64. 64 * i + m \<notin> overlap other start bv)"
    by (auto simp: word_clash_iff words_to_check_def)
  also have "\<dots> \<longleftrightarrow> (\<forall>i m. m < 64 \<longrightarrow> 64 * i + m \<notin> overlap other start bv)"
  proof (intro iffI allI impI notI)
    fix i m :: nat
    assume m: "m < 64" and "64 * i + m \<in> overlap other start bv"
      and "\<forall>i < words_to_check other start bv. \<forall>m < 64. 64 * i + m \<notin> overlap other start bv"
    then have "i < length (bv_bits other)" "start + (64 * i + m) < 64 * length (bv_bits bv)"
        "\<not> i < words_to_check other start bv"
      by (auto simp: overlap_def in_bv_set_iff [of "start + _"])
    then show False by (auto simp: words_to_check_def)
  qed simp
  also have "\<dots> \<longleftrightarrow> overlap other start bv = {}"
    using word_parts_eqI [of "overlap other start bv" "{}"] by auto
  finally show ?thesis .
qed

lemma BV_Disjoint_iff: "BV_Disjoint other start bv \<longleftrightarrow> overlap other start bv = {}"
  using BV_Disjoint_loop_eq [of other bv start 0] find_word_clash_None [of other start bv]
  by (simp add: BV_Disjoint_def Let_def words_to_check_def)

lemma GetMinimumNumberOfShifts_loop_spec:
  assumes "a' = drop_bit n a" and "r = GetMinimumNumberOfShifts_loop b a' n"
  shows "n \<le> r \<and> drop_bit r a AND b = 0 \<and> (\<forall>t. n \<le> t \<and> t < r \<longrightarrow> drop_bit t a AND b \<noteq> 0)"
  using assms
proof (induction b a' n rule: GetMinimumNumberOfShifts_loop.induct)
  case (1 b a' n)
  show ?case
  proof (cases "a' AND b = 0")
    case True
    with "1.prems"(2) have "r = n" by (simp add: GetMinimumNumberOfShifts_loop.simps [of b a'])
    with True "1.prems"(1) show ?thesis by simp
  next
    case False
    with "1.prems"(2) have "r = GetMinimumNumberOfShifts_loop b (drop_bit 1 a') (n + 1)"
      by (simp add: GetMinimumNumberOfShifts_loop.simps [of b a'])
    moreover have "drop_bit 1 a' = drop_bit (n + 1) a"
      by (simp add: "1.prems"(1) drop_bit_drop_bit)
    ultimately have IH: "n + 1 \<le> r \<and> drop_bit r a AND b = 0 \<and>
        (\<forall>t. n + 1 \<le> t \<and> t < r \<longrightarrow> drop_bit t a AND b \<noteq> 0)"
      using "1.IH" [OF False] by blast
    have "drop_bit t a AND b \<noteq> 0" if "n \<le> t" "t < r" for t
      using IH that False "1.prems"(1) by (cases "t = n") auto
    with IH show ?thesis by simp
  qed
qed

lemma GetMinimumNumberOfShifts_pos: "0 < GetMinimumNumberOfShifts b a"
  and GetMinimumNumberOfShifts_skipped:
    "0 < t \<Longrightarrow> t < GetMinimumNumberOfShifts b a \<Longrightarrow> drop_bit t a AND b \<noteq> 0"
  and GetMinimumNumberOfShifts_fits: "drop_bit (GetMinimumNumberOfShifts b a) a AND b = 0"
  using GetMinimumNumberOfShifts_loop_spec [where n = 1, OF refl refl, of b a]
  by (auto simp: GetMinimumNumberOfShifts_def)

lemma DisjointAndShiftThis_zero_iff: "DisjointAndShiftThis other start bv = 0 \<longleftrightarrow> overlap other start bv = {}"
  using DisjointAndShiftThis_loop_eq [of other bv start 0] find_word_clash_None [of other start bv]
  by (auto simp: DisjointAndShiftThis_def Let_def words_to_check_def GetMinimumNumberOfShifts_pos
      less_imp_neq [OF GetMinimumNumberOfShifts_pos, symmetric] split: option.splits)

lemma DisjointAndShiftOther_zero_iff: "DisjointAndShiftOther other start bv = 0 \<longleftrightarrow> overlap other start bv = {}"
  using DisjointAndShiftOther_loop_eq [of other bv start 0] find_word_clash_None [of other start bv]
  by (auto simp: DisjointAndShiftOther_def Let_def words_to_check_def GetMinimumNumberOfShifts_pos
      less_imp_neq [OF GetMinimumNumberOfShifts_pos, symmetric] split: option.splits)

lemma DisjointAndShiftThis_skips:
  assumes "0 < t" "t < DisjointAndShiftThis other start bv"
  shows "overlap other (start + t) bv \<noteq> {}"
proof -
  obtain i where i: "find (word_clash other start bv) [0..<words_to_check other start bv] = Some i"
    and r: "DisjointAndShiftThis other start bv = GetMinimumNumberOfShifts (bv_bits other ! i)
              (GetUnderlyingIntegerAtPosition bv (start div 64 + i) (start mod 64))"
    using assms DisjointAndShiftThis_loop_eq [of other bv start 0]
    by (auto simp: DisjointAndShiftThis_def Let_def words_to_check_def split: option.splits)
  from i have i': "start div 64 + i < length (bv_bits bv)" "i < length (bv_bits other)"
    by (auto simp: find_Some_iff words_to_check_def)
  let ?a = "GetUnderlyingIntegerAtPosition bv (start div 64 + i) (start mod 64)"
  have "drop_bit t ?a AND (bv_bits other ! i) \<noteq> 0"
    using assms r by (simp add: GetMinimumNumberOfShifts_skipped)
  then obtain m where m: "m < 64" "bit ?a (t + m)" "bit (bv_bits other ! i) m"
    by (auto simp: word_and_nonzero_iff bit_drop_bit_eq)
  have "start + t + (64 * i + m) = 64 * (start div 64 + i) + start mod 64 + (t + m)" by simp
  moreover have "t + m < 64" using m(2) by (auto dest: bit_imp_le_length)
  ultimately have "start + t + (64 * i + m) \<in> bv_set bv"
    using bit_GetUnderlyingIntegerAtPosition [OF i'(1) _ \<open>t + m < 64\<close>, of "start mod 64"] m(2)
    by (simp only: mod_less_divisor zero_less_numeral simp_thms)
  moreover have "64 * i + m \<in> bv_set other" using m i' by simp
  ultimately show ?thesis unfolding overlap_def by blast
qed

section \<open>The next free bit\<close>

lemma BV_Position_lowest:
  assumes "w \<noteq> 0"
  shows "BV_Position w < 64 \<and> bit w (BV_Position w) \<and> (\<forall>m < BV_Position w. \<not> bit w m)"
proof (cases "find (bit w) [0..<64]")
  case None
  then have "\<forall>m < 64. \<not> bit w m" by (simp add: find_None_iff)
  then have "w = 0" by (intro bit_word_eqI) simp
  with assms show ?thesis by simp
next
  case (Some i)
  then have "BV_Position w = i" by (simp add: BV_Position_def ffsll_def)
  with Some show ?thesis by (auto simp: find_Some_iff)
qed

lemma GetNextNonSetBit_loop_spec:
  assumes "GetNextNonSetBit_loop bv i k s = Some r" and "s = 64 * i + k" "k < 64"
  shows "s \<le> r \<and> r \<notin> bv_set bv \<and> (\<forall>n. s \<le> n \<and> n < r \<longrightarrow> n \<in> bv_set bv)"
  using assms
proof (induction bv i k s rule: GetNextNonSetBit_loop.induct)
  case (1 bv i k s)
  let ?a = "GetUnderlyingIntegerAtPosition bv i k"
  from "1.prems" have i: "i < length (bv_bits bv)"
    by (subst (asm) GetNextNonSetBit_loop.simps) (auto split: if_splits)
  have mem: "bit ?a m \<longleftrightarrow> s + m \<in> bv_set bv" if "m < 64" for m
    using bit_GetUnderlyingIntegerAtPosition [OF i "1.prems"(3) that] "1.prems"(2) by simp
  show ?case
  proof (cases "?a = - 1")
    case True
    then have all: "s + m \<in> bv_set bv" if "m < 64" for m using mem [OF that] that by simp
    have "GetNextNonSetBit_loop bv (i + 1) k (s + 64) = Some r"
      using True i "1.prems"(1) by (simp add: GetNextNonSetBit_loop.simps [of bv i])
    then have IH: "s + 64 \<le> r \<and> r \<notin> bv_set bv \<and> (\<forall>n. s + 64 \<le> n \<and> n < r \<longrightarrow> n \<in> bv_set bv)"
      using "1.IH" [OF _ refl True] i "1.prems" by simp
    have "n \<in> bv_set bv" if "s \<le> n" "n < r" for n
    proof (cases "n < s + 64")
      case True
      with that all [of "n - s"] show ?thesis by simp
    qed (use that IH in simp)
    with IH show ?thesis by simp
  next
    case False
    then have ne: "NOT ?a \<noteq> 0" by (metis bit.double_compl bit.compl_zero)
    have "r = BV_Position (NOT ?a) + s"
      using False i "1.prems"(1) by (simp add: GetNextNonSetBit_loop.simps [of bv i] Let_def)
    moreover note low = BV_Position_lowest [OF ne]
    moreover have "n \<in> bv_set bv" if "s \<le> n" "n < BV_Position (NOT ?a) + s" for n
    proof -
      have "n - s < BV_Position (NOT ?a)" using that by simp
      with low have "bit ?a (n - s)" "n - s < 64" by (auto simp: bit_not_iff)
      with mem [of "n - s"] that show ?thesis by simp
    qed
    ultimately show ?thesis using mem [of "BV_Position (NOT ?a)"]
      by (simp add: bit_not_iff add.commute)
  qed
qed

lemma GetNextNonSetBit_Some:
  "GetNextNonSetBit start bv = Some r \<Longrightarrow>
     start \<le> r \<and> r \<notin> bv_set bv \<and> (\<forall>n. start \<le> n \<and> n < r \<longrightarrow> n \<in> bv_set bv)"
  unfolding GetNextNonSetBit_def by (erule GetNextNonSetBit_loop_spec) simp_all

lemma GetNextNonSetBit_loop_defined:
  assumes "i < length (bv_bits bv)" "k < 64" "n \<notin> bv_set bv" "64 * i + k \<le> n"
    "n < 64 * length (bv_bits bv)"
  shows "\<exists>r. GetNextNonSetBit_loop bv i k s = Some r"
  using assms
proof (induction bv i k s rule: GetNextNonSetBit_loop.induct)
  case (1 bv i k s)
  let ?a = "GetUnderlyingIntegerAtPosition bv i k"
  show ?case
  proof (cases "?a = - 1")
    case True
    have "64 * i + k + m \<in> bv_set bv" if "m < 64" for m
      using bit_GetUnderlyingIntegerAtPosition [OF "1.prems"(1,2) that] True that by simp
    then have "\<not> n - (64 * i + k) < 64"
      using "1.prems"(3,4) by (metis le_add_diff_inverse)
    then have "64 * i + k + 64 \<le> n" using "1.prems"(4) by linarith
    then have "\<exists>r. GetNextNonSetBit_loop bv (i + 1) k (s + 64) = Some r"
      using "1.prems" by (intro "1.IH" [OF _ refl True]) auto
    with True "1.prems" show ?thesis by (simp add: GetNextNonSetBit_loop.simps [of bv i])
  next
    case False
    with "1.prems" show ?thesis by (simp add: GetNextNonSetBit_loop.simps [of bv i] Let_def)
  qed
qed

lemma GetNextNonSetBit_defined:
  assumes "n \<notin> bv_set bv" "start \<le> n" "n < 64 * length (bv_bits bv)"
  shows "\<exists>r. GetNextNonSetBit start bv = Some r"
proof -
  have "start div 64 < length (bv_bits bv)" using assms by (simp add: div64_less_iff)
  with assms show ?thesis
    unfolding GetNextNonSetBit_def by (intro GetNextNonSetBit_loop_defined) simp_all
qed

section \<open>The interface of a position set\<close>

text \<open>
  What the clients of a bit vector rely on: it stands for a set of positions below a capacity, and
  clearing, setting and testing act on that set.
\<close>

locale position_set =
  fixes clear :: "'s \<Rightarrow> 's" and add :: "nat \<Rightarrow> 's \<Rightarrow> 's" and test :: "nat \<Rightarrow> 's \<Rightarrow> bool"
    and positions :: "'s \<Rightarrow> nat set" and capacity :: "'s \<Rightarrow> nat" and invar :: "'s \<Rightarrow> bool"
  assumes positions_clear: "invar s \<Longrightarrow> positions (clear s) = {}"
    and positions_add: "invar s \<Longrightarrow> n \<le> capacity s \<Longrightarrow> positions (add n s) = insert n (positions s)"
    and test_iff: "invar s \<Longrightarrow> n \<le> capacity s \<Longrightarrow> test n s \<longleftrightarrow> n \<in> positions s"
    and capacity_clear: "capacity (clear s) = capacity s"
    and capacity_add: "capacity (add n s) = capacity s"
    and invar_clear: "invar s \<Longrightarrow> invar (clear s)"
    and invar_add: "invar s \<Longrightarrow> invar (add n s)"
begin

lemma add_all:
  assumes "invar s" "\<And>n. n \<in> set ns \<Longrightarrow> n \<le> capacity s"
  shows "positions (fold add ns s) = positions s \<union> set ns \<and> invar (fold add ns s)
    \<and> capacity (fold add ns s) = capacity s"
  using assms
proof (induction ns arbitrary: s)
  case (Cons n ns)
  then have "positions (fold add ns (add n s)) = positions (add n s) \<union> set ns
      \<and> invar (fold add ns (add n s)) \<and> capacity (fold add ns (add n s)) = capacity (add n s)"
    by (intro Cons.IH) (simp_all add: invar_add capacity_add)
  with Cons.prems show ?case by (simp add: positions_add capacity_add)
qed simp

lemma test_add_all:
  assumes "invar s" "\<And>n. n \<in> set ns \<Longrightarrow> n \<le> capacity s" "k \<le> capacity s"
  shows "test k (fold add ns (clear s)) \<longleftrightarrow> k \<in> set ns"
proof -
  have "positions (fold add ns (clear s)) = positions (clear s) \<union> set ns \<and> invar (fold add ns (clear s))
      \<and> capacity (fold add ns (clear s)) = capacity (clear s)"
    using assms by (intro add_all) (simp_all add: invar_clear capacity_clear)
  with assms show ?thesis by (simp add: test_iff positions_clear capacity_clear)
qed

end

interpretation bv: position_set BV_Clear BV_Set BV_Get bv_set bv_size bv_invar
  by unfold_locales (simp_all add: bv_invar_capacity BV_Get_iff)

section \<open>Properties\<close>

text \<open>
  A bit vector is a set of positions.  After clearing it and setting any bits up to its size, \<open>Get\<close>
  answers true for exactly those bits.
\<close>

theorem bitvector_get_set:
  assumes "\<forall>n \<in> set ns. n \<le> Tsize" "k \<le> Tsize"
  shows "BV_Get k (fold BV_Set ns (BitVector Tsize)) \<longleftrightarrow> k \<in> set ns"
proof -
  have "BV_Clear (BitVector Tsize) = BitVector Tsize" by (simp add: BitVector_def BV_Clear_def)
  with bv.test_add_all [of "BitVector Tsize" ns k] assms show ?thesis by simp
qed

theorem bitvector_get_set_witness:
  "BV_Get 130 (fold BV_Set [3, 130] (BitVector 261)) \<and> \<not> BV_Get 131 (fold BV_Set [3, 130] (BitVector 261))"
  using bitvector_get_set [of "[3, 130]" 261 130] bitvector_get_set [of "[3, 130]" 261 131] by simp

text \<open>
  The three disjointness tests decide whether two vectors have a common bit when one is laid over
  the other at a start position; the two that report a shift report 0 exactly when there is none.
\<close>

theorem disjoint_tests_agree:
  "(BV_Disjoint other start_bit bv \<longleftrightarrow> (\<forall>n \<in> bv_set other. start_bit + n \<notin> bv_set bv))
   \<and> (DisjointAndShiftThis other start_bit bv = 0 \<longleftrightarrow> BV_Disjoint other start_bit bv)
   \<and> (DisjointAndShiftOther other start_bit bv = 0 \<longleftrightarrow> BV_Disjoint other start_bit bv)"
  by (auto simp: BV_Disjoint_iff DisjointAndShiftThis_zero_iff DisjointAndShiftOther_zero_iff overlap_def)

definition example_taken :: bitvector where
  "example_taken = BV_Set 2 (BV_Set 1 (BitVector 64))"

definition example_request :: bitvector where
  "example_request = BV_Set 0 (BitVector 64)"

lemma example_bits: "bv_set example_taken = {1, 2}" "bv_set example_request = {0}"
    "length (bv_bits example_taken) = 2"
  by (auto simp: example_taken_def example_request_def)

theorem disjoint_tests_agree_witness:
  "(\<lambda>n. 3 + n) ` bv_set example_request \<inter> bv_set example_taken = {}
   \<and> BV_Disjoint example_request 3 example_taken"
  using disjoint_tests_agree [of example_request 3 example_taken] by (simp add: example_bits)

text \<open>
  The shift reported by \<open>DisjointAndShiftThis\<close> skips no position that fits: at every smaller non-zero
  shift the requested bits still meet a taken one.
\<close>

theorem shift_skips_no_fit:
  assumes "0 < t" "t < DisjointAndShiftThis other start_bit bv"
  shows "\<not> BV_Disjoint other (start_bit + t) bv"
  using DisjointAndShiftThis_skips [OF assms] by (simp add: BV_Disjoint_iff)

theorem shift_skips_no_fit_witness: "\<not> BV_Disjoint example_request (1 + 1) example_taken"
proof (rule shift_skips_no_fit)
  show "1 < DisjointAndShiftThis example_request 1 example_taken" by code_simp
qed simp

text \<open>
  \<open>GetNextNonSetBit\<close> returns the first unset bit from the start position on, and it returns whenever
  there is an unset bit inside the array (otherwise its loop would read past the end).
\<close>

theorem next_non_set_bit:
  "(\<forall>r. GetNextNonSetBit start_bit bv = Some r \<longrightarrow>
      start_bit \<le> r \<and> r \<notin> bv_set bv \<and> (\<forall>n. start_bit \<le> n \<and> n < r \<longrightarrow> n \<in> bv_set bv))
   \<and> ((\<exists>n. n \<notin> bv_set bv \<and> start_bit \<le> n \<and> n < 64 * length (bv_bits bv)) \<longrightarrow>
      GetNextNonSetBit start_bit bv \<noteq> None)"
  using GetNextNonSetBit_Some GetNextNonSetBit_defined by blast

theorem next_non_set_bit_witness:
  "GetNextNonSetBit 1 example_taken \<noteq> None \<and> the (GetNextNonSetBit 1 example_taken) \<notin> bv_set example_taken"
proof -
  have "\<exists>n. n \<notin> bv_set example_taken \<and> 1 \<le> n \<and> n < 64 * length (bv_bits example_taken)"
    by (intro exI [of _ 3]) (simp add: example_bits)
  with next_non_set_bit [of 1 example_taken] show ?thesis by auto
qed

text \<open>
  \<open>Erase\<close> clears more than the bit it is given.  The mask is built from a 32-bit \<open>int\<close>: erasing bit 31
  of a word also clears the bits 32 to 63, and for those bits the shift itself is undefined.
\<close>

theorem erase_defect:
  "map_option (BV_Get 40) (BV_Erase 31 (BV_Set 40 (BitVector 64))) = Some False
   \<and> BV_Get 40 (BV_Set 40 (BitVector 64)) \<and> BV_Erase 40 (BV_Set 40 (BitVector 64)) = None"
  by code_simp

end
