(* ===== verification/Position_Tracker.thy ===== *)
theory Position_Tracker
  imports Bit_Vector
begin

text \<open>
  The sliding window over the sparse array
  (\<open>keyvi/dictionary/fsa/internal/sliding_window_bit_vector_position_tracker.h\<close>).  The tracker
  remembers which positions are taken, but only for two windows of 2048 positions: the highest
  window seen so far and the one before it.  Positions of older windows are forgotten.
\<close>

section \<open>The operations\<close>

definition MAX_TRANSITIONS_OF_A_STATE :: nat where
  "MAX_TRANSITIONS_OF_A_STATE = 261"

definition SLIDING_WINDOW_SIZE :: nat where
  "SLIDING_WINDOW_SIZE = 2048"

record tracker =
  window_start_position :: nat
  current_vector :: bitvector
  previous_vector :: bitvector

definition PositionTracker :: tracker where
  "PositionTracker = \<lparr>window_start_position = 0,
     current_vector = BitVector SLIDING_WINDOW_SIZE, previous_vector = BitVector SLIDING_WINDOW_SIZE\<rparr>"

text \<open>\<open>position >> SLIDING_WINDOW_SHIFT\<close> and \<open>position & SLIDING_WINDOW_MASK\<close>.\<close>

definition blocker_window :: "nat \<Rightarrow> nat" where
  "blocker_window position = position div SLIDING_WINDOW_SIZE"

definition blocker_offset :: "nat \<Rightarrow> nat" where
  "blocker_offset position = position mod SLIDING_WINDOW_SIZE"

definition PT_IsSet :: "nat \<Rightarrow> tracker \<Rightarrow> bool" where
  "PT_IsSet position t =
     (if blocker_window position = window_start_position t
      then BV_Get (blocker_offset position) (current_vector t)
      else if blocker_window position > window_start_position t then False
      else BV_Get (blocker_offset position) (previous_vector t))"

definition PT_NextFreeSlot :: "nat \<Rightarrow> tracker \<Rightarrow> nat option" where
  "PT_NextFreeSlot position t =
     (let window = blocker_window position;
          in_current = (\<lambda>window offset. map_option (\<lambda>r. r + window * SLIDING_WINDOW_SIZE)
                                (GetNextNonSetBit offset (current_vector t)))
      in if window > window_start_position t then Some position
         else if window < window_start_position t
         then (case GetNextNonSetBit (blocker_offset position) (previous_vector t) of
                 None \<Rightarrow> None
               | Some offset \<Rightarrow>
                   if offset < SLIDING_WINDOW_SIZE then Some (offset + window * SLIDING_WINDOW_SIZE)
                   else in_current (window + 1) 0)
         else in_current window (blocker_offset position))"

text \<open>The slide: swap the two vectors and reuse the older one for the new window.\<close>

definition slide :: "nat \<Rightarrow> tracker \<Rightarrow> tracker" where
  "slide window t =
     (if window > window_start_position t
      then t\<lparr>previous_vector := current_vector t, current_vector := BV_Clear (previous_vector t),
             window_start_position := window\<rparr>
      else t)"

definition PT_Set :: "nat \<Rightarrow> tracker \<Rightarrow> tracker" where
  "PT_Set position t0 =
     (let t = slide (blocker_window position) t0
      in if blocker_window position = window_start_position t
         then t\<lparr>current_vector := BV_Set (blocker_offset position) (current_vector t)\<rparr>
         else if window_start_position t > 0 \<and> blocker_window position = window_start_position t - 1
         then t\<lparr>previous_vector := BV_Set (blocker_offset position) (previous_vector t)\<rparr>
         else t)"

definition PT_SetVector :: "bitvector \<Rightarrow> nat \<Rightarrow> tracker \<Rightarrow> tracker" where
  "PT_SetVector requested_positions position t0 =
     (let window_end = blocker_window (BV_Size requested_positions + position);
          offset = blocker_offset position;
          t = slide window_end t0
      in if blocker_window position = window_start_position t
         then t\<lparr>current_vector := BV_SetVector requested_positions offset (current_vector t)\<rparr>
         else if window_start_position t > 0 \<and> blocker_window position = window_start_position t - 1
         then (let t1 = t\<lparr>previous_vector :=
                            BV_SetVector requested_positions offset (previous_vector t)\<rparr>
               in if window_end = window_start_position t1
                  then t1\<lparr>current_vector := BV_SetVectorAndShiftOther requested_positions
                            (SLIDING_WINDOW_SIZE - offset) (current_vector t1)\<rparr>
                  else t1)
         else t)"

definition PT_IsAvailable :: "bitvector \<Rightarrow> nat \<Rightarrow> tracker \<Rightarrow> nat" where
  "PT_IsAvailable requested_positions position t =
     (let window = blocker_window position; offset = blocker_offset position
      in if window = window_start_position t
         then DisjointAndShiftThis requested_positions offset (current_vector t)
         else if window > window_start_position t then 0
         else (let shift = DisjointAndShiftThis requested_positions offset (previous_vector t)
               in if shift = 0 \<and> SLIDING_WINDOW_SIZE - offset < MAX_TRANSITIONS_OF_A_STATE
                  then DisjointAndShiftOther (current_vector t) (SLIDING_WINDOW_SIZE - offset)
                         requested_positions
                  else shift))"

section \<open>What the tracker knows\<close>

text \<open>
  \<open>tracks T t\<close>: the tracker \<open>t\<close> agrees with the set \<open>T\<close> of taken positions on its two windows, and
  no position above the current window is taken.  The previous vector has one more word than a
  window; the bits there repeat positions of the current window.
\<close>

definition tracks :: "nat set \<Rightarrow> tracker \<Rightarrow> bool" where
  "tracks T t \<longleftrightarrow>
     bv_invar (current_vector t) \<and> bv_size (current_vector t) = SLIDING_WINDOW_SIZE
   \<and> bv_invar (previous_vector t) \<and> bv_size (previous_vector t) = SLIDING_WINDOW_SIZE
   \<and> (\<forall>p \<in> T. blocker_window p \<le> window_start_position t)
   \<and> bv_set (current_vector t) = {b. b < SLIDING_WINDOW_SIZE \<and>
        SLIDING_WINDOW_SIZE * window_start_position t + b \<in> T}
   \<and> (0 < window_start_position t \<longrightarrow>
       {b \<in> bv_set (previous_vector t). b < SLIDING_WINDOW_SIZE} =
         {b. b < SLIDING_WINDOW_SIZE \<and> SLIDING_WINDOW_SIZE * (window_start_position t - 1) + b \<in> T}
     \<and> (\<forall>b \<in> bv_set (previous_vector t). SLIDING_WINDOW_SIZE * (window_start_position t - 1) + b \<in> T))"

text \<open>A position inside one of the two windows, or above them.\<close>

definition in_reach :: "tracker \<Rightarrow> nat \<Rightarrow> bool" where
  "in_reach t p \<longleftrightarrow> window_start_position t \<le> Suc (blocker_window p)"

named_theorems tracker_defs \<open>definitions of the tracker's arithmetic\<close>

lemmas [tracker_defs] = blocker_window_def blocker_offset_def SLIDING_WINDOW_SIZE_def

lemma position_split: "position = SLIDING_WINDOW_SIZE * blocker_window position + blocker_offset position"
  by (simp add: tracker_defs)

lemma blocker_offset_less [simp]: "blocker_offset position < SLIDING_WINDOW_SIZE"
  by (simp add: tracker_defs)

lemma tracks_initial: "tracks {} PositionTracker"
  by (simp add: tracks_def PositionTracker_def)

lemma IsSet_correct:
  assumes "tracks T t" "in_reach t p"
  shows "PT_IsSet p t \<longleftrightarrow> p \<in> T"
proof -
  let ?w = "window_start_position t" and ?b = "blocker_offset p"
  have cap: "BV_Get ?b bv \<longleftrightarrow> ?b \<in> bv_set bv" if "bv_invar bv" "bv_size bv = SLIDING_WINDOW_SIZE" for bv
    using that by (intro bv.test_iff) (simp_all add: less_imp_le)
  consider (current) "blocker_window p = ?w" | (above) "blocker_window p > ?w"
    | (previous) "0 < ?w" "blocker_window p = ?w - 1"
    using assms(2) by (fastforce simp: in_reach_def)
  then show ?thesis
  proof cases
    case current
    then have "p = SLIDING_WINDOW_SIZE * ?w + ?b" using position_split [of p] by simp
    with current assms(1) cap show ?thesis by (auto simp: PT_IsSet_def tracks_def)
  next
    case above
    with assms(1) show ?thesis by (auto simp: PT_IsSet_def tracks_def)
  next
    case previous
    then have "p = SLIDING_WINDOW_SIZE * (?w - 1) + ?b" using position_split [of p] by simp
    moreover have "PT_IsSet p t \<longleftrightarrow> ?b \<in> bv_set (previous_vector t)"
      using previous assms(1) cap by (auto simp: PT_IsSet_def tracks_def)
    moreover have "?b \<in> bv_set (previous_vector t) \<longleftrightarrow> SLIDING_WINDOW_SIZE * (?w - 1) + ?b \<in> T"
      using previous(1) assms(1) blocker_offset_less [of p] unfolding tracks_def by blast
    ultimately show ?thesis by simp
  qed
qed

section \<open>Setting positions\<close>

lemma window_eq_iff:
  assumes "b < SLIDING_WINDOW_SIZE"
  shows "blocker_window (SLIDING_WINDOW_SIZE * w + b) = w" "blocker_offset (SLIDING_WINDOW_SIZE * w + b) = b"
  using assms by (simp_all add: tracker_defs)

lemma slide_window [simp]: "window_start_position (slide window t) = max (window_start_position t) window"
  by (auto simp: slide_def)

lemma tracks_slide:
  assumes "tracks T t" "window \<le> Suc (window_start_position t)"
  shows "tracks T (slide window t)"
proof (cases "window_start_position t < window")
  case True
  then have w: "window = Suc (window_start_position t)" using assms(2) by simp
  have "\<forall>p \<in> T. blocker_window p \<le> window_start_position t" using assms(1) by (simp add: tracks_def)
  then have "SLIDING_WINDOW_SIZE * window + b \<notin> T" if "b < SLIDING_WINDOW_SIZE" for b
    using window_eq_iff(1) [OF that, of window] w by fastforce
  with True w assms(1) show ?thesis by (auto simp: tracks_def slide_def)
qed (use assms in \<open>simp add: slide_def\<close>)

text \<open>
  The two updates a tracker performs after the slide, at the level of the taken set: bits added to
  the current vector, and bits added to the previous one.
\<close>

lemma tracks_add_current:
  assumes "tracks T t" and "bv_invar cur" "bv_size cur = SLIDING_WINDOW_SIZE"
    and "bv_set cur = bv_set (current_vector t) \<union> {b. SLIDING_WINDOW_SIZE * window_start_position t + b \<in> P}"
    and "\<And>p. p \<in> P \<Longrightarrow> blocker_window p = window_start_position t"
  shows "tracks (T \<union> P) (t\<lparr>current_vector := cur\<rparr>)"
proof -
  let ?w = "window_start_position t"
  have in_window: "b < SLIDING_WINDOW_SIZE" if "SLIDING_WINDOW_SIZE * ?w + b \<in> P" for b
    using assms(5) [OF that] by (simp add: tracker_defs)
  have not_previous: "SLIDING_WINDOW_SIZE * (?w - 1) + b \<notin> P" if "0 < ?w" "b < SLIDING_WINDOW_SIZE" for b
    using assms(5) [of "SLIDING_WINDOW_SIZE * (?w - 1) + b"] window_eq_iff(1) [OF that(2)] that(1) by auto
  show ?thesis
    using assms in_window not_previous unfolding tracks_def by auto
qed

lemma tracks_older:
  assumes "tracks T t" "\<And>p. p \<in> P \<Longrightarrow> Suc (blocker_window p) < window_start_position t"
  shows "tracks (T \<union> P) t"
proof -
  let ?w = "window_start_position t"
  have "SLIDING_WINDOW_SIZE * ?w + b \<notin> P" if "b < SLIDING_WINDOW_SIZE" for b
    using assms(2) window_eq_iff(1) [OF that, of ?w] by fastforce
  moreover have "SLIDING_WINDOW_SIZE * (?w - 1) + b \<notin> P" if "b < SLIDING_WINDOW_SIZE" for b
    using assms(2) window_eq_iff(1) [OF that, of "?w - 1"] by fastforce
  moreover have "\<And>p. p \<in> P \<Longrightarrow> blocker_window p \<le> ?w" using assms(2) by fastforce
  ultimately show ?thesis using assms(1) unfolding tracks_def by auto
qed

lemma tracks_add_previous:
  assumes "tracks T t" and "0 < window_start_position t"
    and "bv_invar prev" "bv_size prev = SLIDING_WINDOW_SIZE"
    and "bv_set (previous_vector t) \<subseteq> bv_set prev"
    and "\<And>b. b \<in> bv_set prev \<Longrightarrow> b \<notin> bv_set (previous_vector t) \<Longrightarrow>
           SLIDING_WINDOW_SIZE * (window_start_position t - 1) + b \<in> P"
    and "\<And>b. b < SLIDING_WINDOW_SIZE \<Longrightarrow> SLIDING_WINDOW_SIZE * (window_start_position t - 1) + b \<in> P \<Longrightarrow>
           b \<in> bv_set prev"
    and "bv_invar cur" "bv_size cur = SLIDING_WINDOW_SIZE"
    and "bv_set cur = bv_set (current_vector t) \<union> {b. SLIDING_WINDOW_SIZE * window_start_position t + b \<in> P}"
    and "\<And>p. p \<in> P \<Longrightarrow> blocker_window p \<le> window_start_position t"
  shows "tracks (T \<union> P) (t\<lparr>previous_vector := prev, current_vector := cur\<rparr>)"
proof -
  let ?w = "window_start_position t"
  have in_window: "b < SLIDING_WINDOW_SIZE" if "SLIDING_WINDOW_SIZE * ?w + b \<in> P" for b
    using assms(11) [OF that] by (simp add: tracker_defs)
  have "{b \<in> bv_set prev. b < SLIDING_WINDOW_SIZE} =
      {b. b < SLIDING_WINDOW_SIZE \<and> SLIDING_WINDOW_SIZE * (?w - 1) + b \<in> T \<union> P}"
    using assms(1,2,5-7) unfolding tracks_def by blast
  moreover have "\<forall>b \<in> bv_set prev. SLIDING_WINDOW_SIZE * (?w - 1) + b \<in> T \<union> P"
    using assms(1,2,6) unfolding tracks_def by blast
  moreover have "bv_set cur = {b. b < SLIDING_WINDOW_SIZE \<and> SLIDING_WINDOW_SIZE * ?w + b \<in> T \<union> P}"
    using assms(1,10) in_window unfolding tracks_def by blast
  ultimately show ?thesis
    using assms(1,3,4,8,9,11) unfolding tracks_def by auto
qed

lemma window_capacity: "bv_invar bv \<Longrightarrow> bv_size bv = SLIDING_WINDOW_SIZE \<Longrightarrow> length (bv_bits bv) = 33"
  by (simp add: bv_invar_def SLIDING_WINDOW_SIZE_def)

lemma tracks_Set:
  assumes "tracks T t" "blocker_window p \<le> Suc (window_start_position t)"
  shows "tracks (insert p T) (PT_Set p t)"
proof -
  define t' where "t' = slide (blocker_window p) t"
  let ?w = "window_start_position t'" and ?b = "blocker_offset p"
  have t': "tracks T t'" unfolding t'_def using assms by (rule tracks_slide)
  have le: "blocker_window p \<le> ?w" by (simp add: t'_def)
  have unfold: "PT_Set p t =
      (if blocker_window p = ?w then t'\<lparr>current_vector := BV_Set ?b (current_vector t')\<rparr>
       else if ?w > 0 \<and> blocker_window p = ?w - 1
       then t'\<lparr>previous_vector := BV_Set ?b (previous_vector t')\<rparr> else t')"
    unfolding PT_Set_def t'_def Let_def ..
  have b: "?b div 64 < 33" using blocker_offset_less [of p] by (simp add: SLIDING_WINDOW_SIZE_def)
  have cap: "length (bv_bits (current_vector t')) = 33" "length (bv_bits (previous_vector t')) = 33"
    using t' by (auto simp: tracks_def intro: window_capacity)
  have inv: "bv_invar (current_vector t')" "bv_size (current_vector t') = SLIDING_WINDOW_SIZE"
      "bv_invar (previous_vector t')" "bv_size (previous_vector t') = SLIDING_WINDOW_SIZE"
    using t' by (simp_all add: tracks_def)
  have p: "p = SLIDING_WINDOW_SIZE * blocker_window p + ?b" by (rule position_split)
  have uniq: "SLIDING_WINDOW_SIZE * blocker_window p + b = p \<longleftrightarrow> b = ?b" for b using p by auto
  consider (current) "blocker_window p = ?w" | (previous) "0 < ?w" "blocker_window p = ?w - 1"
    | (older) "Suc (blocker_window p) < ?w" using le by fastforce
  then show ?thesis
  proof cases
    case current
    with uniq have "tracks (T \<union> {p}) (t'\<lparr>current_vector := BV_Set ?b (current_vector t')\<rparr>)"
      using cap b inv by (intro tracks_add_current [OF t']) auto
    with current show ?thesis by (simp add: unfold)
  next
    case previous
    have other: "SLIDING_WINDOW_SIZE * ?w + b \<noteq> p" for b
      using previous by (auto simp: tracker_defs)
    have "tracks (T \<union> {p}) (t'\<lparr>previous_vector := BV_Set ?b (previous_vector t'),
        current_vector := current_vector t'\<rparr>)"
      using previous uniq cap b inv other by (intro tracks_add_previous [OF t']) auto
    moreover have "blocker_window p \<noteq> ?w" using previous by simp
    ultimately show ?thesis using previous by (simp add: unfold)
  next
    case older
    then have "tracks (T \<union> {p}) t'" by (intro tracks_older [OF t']) simp
    with older show ?thesis by (auto simp: unfold)
  qed
qed

text \<open>
  A state's bit vector: 261 bits, all of them below its size.
\<close>

definition state_bits :: "bitvector \<Rightarrow> bool" where
  "state_bits bv \<longleftrightarrow> bv_invar bv \<and> bv_size bv = MAX_TRANSITIONS_OF_A_STATE
     \<and> (\<forall>n \<in> bv_set bv. n < MAX_TRANSITIONS_OF_A_STATE)"

lemma state_bits_length: "state_bits bv \<Longrightarrow> length (bv_bits bv) = 5"
  by (simp add: state_bits_def bv_invar_def MAX_TRANSITIONS_OF_A_STATE_def)

definition placed :: "bitvector \<Rightarrow> nat \<Rightarrow> nat set" where
  "placed bv position = (\<lambda>n. position + n) ` bv_set bv"

lemma in_placed_iff: "p \<in> placed bv position \<longleftrightarrow> position \<le> p \<and> p - position \<in> bv_set bv"
  by (auto simp: placed_def image_iff intro: bexI [of _ "p - position"])

lemma placed_window:
  assumes "state_bits bv" "p \<in> placed bv position"
  shows "blocker_window position \<le> blocker_window p"
    and "blocker_window p \<le> blocker_window (BV_Size bv + position)"
  using assms by (auto simp: placed_def state_bits_def BV_Size_def blocker_window_def intro!: div_le_mono)

lemma tracks_SetVector_current:
  assumes t: "tracks T t" and bv: "state_bits bv"
    and w: "blocker_window position = window_start_position t"
    and e: "blocker_window (BV_Size bv + position) = window_start_position t"
  shows "tracks (T \<union> placed bv position)
    (t\<lparr>current_vector := BV_SetVector bv (blocker_offset position) (current_vector t)\<rparr>)"
proof (rule tracks_add_current [OF t])
  let ?w = "window_start_position t" and ?b = "blocker_offset position"
  have inv: "bv_invar (current_vector t)" "bv_size (current_vector t) = SLIDING_WINDOW_SIZE"
    using t by (simp_all add: tracks_def)
  then show "bv_invar (BV_SetVector bv ?b (current_vector t))"
    "bv_size (BV_SetVector bv ?b (current_vector t)) = SLIDING_WINDOW_SIZE" by simp_all
  have pos: "position = SLIDING_WINDOW_SIZE * ?w + ?b" using position_split [of position] w by simp
  have win: "blocker_window p = ?w" if "p \<in> placed bv position" for p
    using placed_window [OF bv that] w e by simp
  then show "\<And>p. p \<in> placed bv position \<Longrightarrow> blocker_window p = ?w" .
  have "b < 2112 \<and> ?b \<le> b \<and> b - ?b \<in> bv_set bv \<longleftrightarrow> SLIDING_WINDOW_SIZE * ?w + b \<in> placed bv position" for b
  proof -
    have "position \<le> SLIDING_WINDOW_SIZE * ?w + b \<longleftrightarrow> ?b \<le> b"
      "SLIDING_WINDOW_SIZE * ?w + b - position = b - ?b" using pos by linarith+
    moreover have "b < SLIDING_WINDOW_SIZE" if "SLIDING_WINDOW_SIZE * ?w + b \<in> placed bv position"
      using win [OF that] by (simp add: tracker_defs)
    ultimately show ?thesis by (auto simp: in_placed_iff SLIDING_WINDOW_SIZE_def)
  qed
  moreover have "bv_set (BV_SetVector bv ?b (current_vector t)) =
      bv_set (current_vector t) \<union> {b. b < 2112 \<and> ?b \<le> b \<and> b - ?b \<in> bv_set bv}"
    using window_capacity [OF inv] state_bits_length [OF bv] blocker_offset_less [of position]
    by (subst bv_set_SetVector) (auto simp: SLIDING_WINDOW_SIZE_def)
  ultimately show "bv_set (BV_SetVector bv ?b (current_vector t)) =
      bv_set (current_vector t) \<union> {b. SLIDING_WINDOW_SIZE * ?w + b \<in> placed bv position}" by simp
qed

lemma window_bit: "b < SLIDING_WINDOW_SIZE \<Longrightarrow> b < 2112"
  by (simp add: SLIDING_WINDOW_SIZE_def)

lemma tracks_SetVector_previous:
  assumes t: "tracks T t" and bv: "state_bits bv" and w0: "0 < window_start_position t"
    and w: "blocker_window position = window_start_position t - 1"
    and e: "blocker_window (BV_Size bv + position) \<le> window_start_position t"
    and cur: "bv_invar cur" "bv_size cur = SLIDING_WINDOW_SIZE"
      "bv_set cur = bv_set (current_vector t) \<union>
         {b. SLIDING_WINDOW_SIZE * window_start_position t + b \<in> placed bv position}"
  shows "tracks (T \<union> placed bv position)
    (t\<lparr>previous_vector := BV_SetVector bv (blocker_offset position) (previous_vector t),
       current_vector := cur\<rparr>)"
proof -
  let ?w = "window_start_position t" and ?b = "blocker_offset position"
  have inv: "bv_invar (previous_vector t)" "bv_size (previous_vector t) = SLIDING_WINDOW_SIZE"
    using t by (simp_all add: tracks_def)
  have pos: "position = SLIDING_WINDOW_SIZE * (?w - 1) + ?b" using position_split [of position] w by simp
  have mem: "SLIDING_WINDOW_SIZE * (?w - 1) + b \<in> placed bv position \<longleftrightarrow> ?b \<le> b \<and> b - ?b \<in> bv_set bv" for b
  proof -
    have "position \<le> SLIDING_WINDOW_SIZE * (?w - 1) + b \<longleftrightarrow> ?b \<le> b"
      "SLIDING_WINDOW_SIZE * (?w - 1) + b - position = b - ?b" using pos by linarith+
    then show ?thesis by (simp add: in_placed_iff)
  qed
  have set: "bv_set (BV_SetVector bv ?b (previous_vector t)) =
      bv_set (previous_vector t) \<union> {b. b < 2112 \<and> ?b \<le> b \<and> b - ?b \<in> bv_set bv}"
    using window_capacity [OF inv] state_bits_length [OF bv] blocker_offset_less [of position]
    by (subst bv_set_SetVector) (auto simp: SLIDING_WINDOW_SIZE_def)
  show ?thesis
  proof (rule tracks_add_previous [OF t w0])
    show "\<And>p. p \<in> placed bv position \<Longrightarrow> blocker_window p \<le> ?w"
      using placed_window(2) [OF bv] e by fastforce
  qed (use inv cur in \<open>auto simp: set mem [unfolded One_nat_def] dest: window_bit\<close>)
qed

lemma tracks_SetVector:
  assumes "tracks T t" "state_bits bv"
    and step: "blocker_window (BV_Size bv + position) \<le> Suc (window_start_position t)"
    and reach: "in_reach t position"
  shows "tracks (T \<union> placed bv position) (PT_SetVector bv position t)"
proof -
  define e where "e = blocker_window (BV_Size bv + position)"
  define t' where "t' = slide e t"
  let ?w = "window_start_position t'" and ?b = "blocker_offset position"
    and ?v = "blocker_window position"
  have t': "tracks T t'" unfolding t'_def using assms by (intro tracks_slide) (simp_all add: e_def)
  have e: "e \<le> ?w" by (simp add: t'_def)
  have size: "BV_Size bv = 261" using assms(2) by (simp add: state_bits_def BV_Size_def MAX_TRANSITIONS_OF_A_STATE_def)
  have v: "?v \<le> e" "e \<le> Suc ?v" by (auto simp: e_def size tracker_defs)
  have unfold: "PT_SetVector bv position t =
     (if ?v = ?w then t'\<lparr>current_vector := BV_SetVector bv ?b (current_vector t')\<rparr>
      else if ?w > 0 \<and> ?v = ?w - 1
      then t'\<lparr>previous_vector := BV_SetVector bv ?b (previous_vector t'),
              current_vector := (if e = ?w then BV_SetVectorAndShiftOther bv
                            (SLIDING_WINDOW_SIZE - ?b) (current_vector t') else current_vector t')\<rparr>
      else t')"
    by (simp add: PT_SetVector_def t'_def e_def Let_def)
  have inv: "bv_invar (current_vector t')" "bv_size (current_vector t') = SLIDING_WINDOW_SIZE"
    using t' by (simp_all add: tracks_def)
  have "?w \<le> Suc ?v" using reach v by (simp add: t'_def in_reach_def)
  then consider (current) "?v = ?w" | (previous) "0 < ?w" "?v = ?w - 1"
    using v e by fastforce
  then show ?thesis
  proof cases
    case current
    with v e have "e = ?w" by simp
    with current tracks_SetVector_current [OF t' assms(2)] show ?thesis by (simp add: unfold e_def)
  next
    case previous
    have "SLIDING_WINDOW_SIZE * ?w = SLIDING_WINDOW_SIZE * ?v + SLIDING_WINDOW_SIZE"
      using previous by (cases ?w) simp_all
    then have pos: "position + (SLIDING_WINDOW_SIZE - ?b) = SLIDING_WINDOW_SIZE * ?w"
      using position_split [of position] blocker_offset_less [of position] by linarith
    have mem: "SLIDING_WINDOW_SIZE * ?w + b \<in> placed bv position \<longleftrightarrow> SLIDING_WINDOW_SIZE - ?b + b \<in> bv_set bv" for b
    proof -
      have "position \<le> SLIDING_WINDOW_SIZE * ?w + b"
        "SLIDING_WINDOW_SIZE * ?w + b - position = SLIDING_WINDOW_SIZE - ?b + b" using pos by linarith+
      then show ?thesis by (simp add: in_placed_iff)
    qed
    have "tracks (T \<union> placed bv position) (t'\<lparr>previous_vector := BV_SetVector bv ?b (previous_vector t'),
              current_vector := (if e = ?w then BV_SetVectorAndShiftOther bv
                            (SLIDING_WINDOW_SIZE - ?b) (current_vector t') else current_vector t')\<rparr>)"
    proof (rule tracks_SetVector_previous [OF t' assms(2) previous])
      have "\<not> SLIDING_WINDOW_SIZE * ?w + b \<in> placed bv position" if "e \<noteq> ?w" for b
        using placed_window(2) [OF assms(2), of "SLIDING_WINDOW_SIZE * ?w + b" position] that e
        by (auto simp: e_def tracker_defs)
      then show "bv_set (if e = ?w then BV_SetVectorAndShiftOther bv
            (SLIDING_WINDOW_SIZE - ?b) (current_vector t') else current_vector t') =
          bv_set (current_vector t') \<union> {b. SLIDING_WINDOW_SIZE * ?w + b \<in> placed bv position}"
        using window_capacity [OF inv] state_bits_length [OF assms(2)]
        by (simp add: bv_set_SetVectorAndShiftOther mem)
    qed (use inv e in \<open>auto simp: e_def\<close>)
    moreover have "?v \<noteq> ?w" using previous by simp
    ultimately show ?thesis using previous by (simp add: unfold)
  qed
qed

lemma in_reach_SetVector:
  assumes "in_reach t position" "state_bits bv"
  shows "in_reach (PT_SetVector bv position t) position"
proof -
  have "window_start_position (PT_SetVector bv position t) =
      max (window_start_position t) (blocker_window (BV_Size bv + position))"
    by (simp add: PT_SetVector_def Let_def)
  moreover have "blocker_window (BV_Size bv + position) \<le> Suc (blocker_window position)"
    using assms(2) by (simp add: state_bits_def BV_Size_def MAX_TRANSITIONS_OF_A_STATE_def tracker_defs)
  ultimately show ?thesis using assms(1) by (simp add: in_reach_def)
qed

section \<open>Searching\<close>

text \<open>
  A request is available exactly when none of its positions is taken; a non-zero answer means a
  collision.
\<close>

lemma current_iff:
  assumes "tracks T t"
  shows "b \<in> bv_set (current_vector t) \<longleftrightarrow> b < SLIDING_WINDOW_SIZE \<and>
           SLIDING_WINDOW_SIZE * window_start_position t + b \<in> T"
  using assms unfolding tracks_def by blast

lemma previous_iff:
  assumes "tracks T t" "0 < window_start_position t" "b < SLIDING_WINDOW_SIZE"
  shows "b \<in> bv_set (previous_vector t) \<longleftrightarrow>
           SLIDING_WINDOW_SIZE * (window_start_position t - 1) + b \<in> T"
  using assms unfolding tracks_def by blast

lemma IsAvailable_correct:
  assumes t: "tracks T t" and bv: "state_bits bv" and reach: "in_reach t position"
  shows "PT_IsAvailable bv position t = 0 \<longleftrightarrow> placed bv position \<inter> T = {}"
proof -
  let ?w = "window_start_position t" and ?b = "blocker_offset position"
    and ?v = "blocker_window position"
  have top: "\<forall>p \<in> T. blocker_window p \<le> ?w" using t by (simp add: tracks_def)
  have small: "n < MAX_TRANSITIONS_OF_A_STATE" if "n \<in> bv_set bv" for n
    using that bv by (simp add: state_bits_def)
  have pos: "position = SLIDING_WINDOW_SIZE * ?v + ?b" by (rule position_split)
  consider (current) "?v = ?w" | (above) "?v > ?w" | (previous) "0 < ?w" "?v = ?w - 1"
    using reach by (fastforce simp: in_reach_def)
  then show ?thesis
  proof cases
    case current
    have "?b + n \<in> bv_set (current_vector t) \<longleftrightarrow> position + n \<in> T" for n
    proof -
      have eq: "SLIDING_WINDOW_SIZE * ?w + (?b + n) = position + n" using pos [unfolded current] by linarith
      have "?b + n < SLIDING_WINDOW_SIZE" if "position + n \<in> T"
        using top that unfolding eq [symmetric] by (fastforce simp: tracker_defs)
      then show ?thesis unfolding current_iff [OF t] eq by blast
    qed
    with current show ?thesis
      by (auto simp: PT_IsAvailable_def DisjointAndShiftThis_zero_iff overlap_def placed_def)
  next
    case above
    then have "position + n \<notin> T" for n
      using top by (metis blocker_window_def div_le_mono le_add1 leD le_trans)
    with above show ?thesis by (auto simp: PT_IsAvailable_def placed_def)
  next
    case previous
    then have vw: "?v \<noteq> ?w" "\<not> ?w < ?v" by auto
    have next_window: "position + n = SLIDING_WINDOW_SIZE * ?w + (?b + n - SLIDING_WINDOW_SIZE)"
      if "SLIDING_WINDOW_SIZE \<le> ?b + n" for n
    proof -
      have "SLIDING_WINDOW_SIZE * ?w = SLIDING_WINDOW_SIZE * ?v + SLIDING_WINDOW_SIZE"
        using previous by (cases ?w) simp_all
      with pos that show ?thesis by linarith
    qed
    have low: "?b + n \<in> bv_set (previous_vector t) \<longleftrightarrow> position + n \<in> T" if "?b + n < SLIDING_WINDOW_SIZE" for n
      using previous_iff [OF t previous(1) that] pos [unfolded previous(2)] by (metis add.assoc)
    have high: "position + n \<in> T" if "?b + n \<in> bv_set (previous_vector t)" for n
      using that t previous pos unfolding tracks_def by (metis add.assoc)
    have cur: "?b + n - SLIDING_WINDOW_SIZE \<in> bv_set (current_vector t) \<longleftrightarrow> position + n \<in> T"
      if "SLIDING_WINDOW_SIZE \<le> ?b + n" "n \<in> bv_set bv" for n
    proof -
      have "?b + n - SLIDING_WINDOW_SIZE < SLIDING_WINDOW_SIZE"
        using small [OF that(2)] blocker_offset_less [of position]
        unfolding SLIDING_WINDOW_SIZE_def MAX_TRANSITIONS_OF_A_STATE_def by linarith
      then show ?thesis unfolding current_iff [OF t] next_window [OF that(1)] by simp
    qed
    show ?thesis
    proof
      assume free: "placed bv position \<inter> T = {}"
      then have "overlap bv ?b (previous_vector t) = {}"
        using high by (auto simp: overlap_def placed_def)
      moreover have "overlap (current_vector t) (SLIDING_WINDOW_SIZE - ?b) bv = {}"
      proof -
        have "False" if m: "m \<in> bv_set (current_vector t)" "SLIDING_WINDOW_SIZE - ?b + m \<in> bv_set bv" for m
        proof -
          have "?b + (SLIDING_WINDOW_SIZE - ?b + m) - SLIDING_WINDOW_SIZE = m" "SLIDING_WINDOW_SIZE \<le> ?b + (SLIDING_WINDOW_SIZE - ?b + m)"
            using blocker_offset_less [of position] by linarith+
          with cur [of "SLIDING_WINDOW_SIZE - ?b + m"] m free show False by (auto simp: placed_def)
        qed
        then show ?thesis by (auto simp: overlap_def)
      qed
      ultimately show "PT_IsAvailable bv position t = 0"
        using vw by (simp add: PT_IsAvailable_def Let_def DisjointAndShiftThis_zero_iff DisjointAndShiftOther_zero_iff)
    next
      assume z: "PT_IsAvailable bv position t = 0"
      from z vw have prev: "overlap bv ?b (previous_vector t) = {}"
        by (auto simp: PT_IsAvailable_def DisjointAndShiftThis_zero_iff Let_def split: if_splits)
      from z vw prev have next': "overlap (current_vector t) (SLIDING_WINDOW_SIZE - ?b) bv = {}"
        if "SLIDING_WINDOW_SIZE - ?b < MAX_TRANSITIONS_OF_A_STATE"
        using that by (auto simp: PT_IsAvailable_def DisjointAndShiftOther_zero_iff
            DisjointAndShiftThis_zero_iff Let_def split: if_splits)
      have "position + n \<notin> T" if n: "n \<in> bv_set bv" for n
      proof (cases "?b + n < SLIDING_WINDOW_SIZE")
        case True
        with prev n low [of n] show ?thesis by (auto simp: overlap_def)
      next
        case False
        then have "SLIDING_WINDOW_SIZE - ?b < MAX_TRANSITIONS_OF_A_STATE"
          "n = SLIDING_WINDOW_SIZE - ?b + (?b + n - SLIDING_WINDOW_SIZE)"
          using small [OF n] blocker_offset_less [of position] by linarith+
        with next' n cur [of n] False show ?thesis by (fastforce simp: overlap_def)
      qed
      then show "placed bv position \<inter> T = {}" by (auto simp: placed_def)
    qed
  qed
qed

text \<open>
  The search for the next free slot finds the lowest one.  It is sure to return when some slot below
  the end of the previous vector's array is free.
\<close>

lemma NextFreeSlot_current:
  assumes t: "tracks T t" and b: "b < SLIDING_WINDOW_SIZE"
  shows "\<exists>r \<ge> b. GetNextNonSetBit b (current_vector t) = Some r
    \<and> SLIDING_WINDOW_SIZE * window_start_position t + r \<notin> T
    \<and> (\<forall>q. b \<le> q \<and> q < r \<longrightarrow> SLIDING_WINDOW_SIZE * window_start_position t + q \<in> T)"
proof -
  have len: "length (bv_bits (current_vector t)) = 33"
    using t by (auto simp: tracks_def intro: window_capacity)
  have "SLIDING_WINDOW_SIZE \<notin> bv_set (current_vector t)" by (simp add: current_iff [OF t])
  with b len obtain r where r: "GetNextNonSetBit b (current_vector t) = Some r"
    using GetNextNonSetBit_defined [of SLIDING_WINDOW_SIZE "current_vector t" b]
    by (auto simp: SLIDING_WINDOW_SIZE_def)
  from GetNextNonSetBit_Some [OF this]
  have spec: "b \<le> r" "r \<notin> bv_set (current_vector t)"
    "\<And>n. b \<le> n \<Longrightarrow> n < r \<Longrightarrow> n \<in> bv_set (current_vector t)" by auto
  have "SLIDING_WINDOW_SIZE * window_start_position t + r \<notin> T"
  proof
    assume T: "SLIDING_WINDOW_SIZE * window_start_position t + r \<in> T"
    then have "blocker_window (SLIDING_WINDOW_SIZE * window_start_position t + r) \<le> window_start_position t"
      using t by (auto simp: tracks_def)
    then have "r < SLIDING_WINDOW_SIZE" by (simp add: tracker_defs)
    with T spec(2) show False by (simp add: current_iff [OF t])
  qed
  with spec r show ?thesis by (auto simp: current_iff [OF t])
qed

lemma NextFreeSlot_correct:
  assumes t: "tracks T t" and reach: "in_reach t position" and r: "PT_NextFreeSlot position t = Some r"
  shows "position \<le> r \<and> r \<notin> T \<and> (\<forall>q. position \<le> q \<and> q < r \<longrightarrow> q \<in> T)"
proof -
  let ?w = "window_start_position t" and ?b = "blocker_offset position"
    and ?v = "blocker_window position"
  have pos: "position = SLIDING_WINDOW_SIZE * ?v + ?b" by (rule position_split)
  consider (current) "?v = ?w" | (above) "?v > ?w" | (previous) "0 < ?w" "?v = ?w - 1"
    using reach by (fastforce simp: in_reach_def)
  then show ?thesis
  proof cases
    case current
    from NextFreeSlot_current [OF t blocker_offset_less] obtain s
      where s: "?b \<le> s" "GetNextNonSetBit ?b (current_vector t) = Some s"
        "SLIDING_WINDOW_SIZE * ?w + s \<notin> T"
        "\<And>q. ?b \<le> q \<Longrightarrow> q < s \<Longrightarrow> SLIDING_WINDOW_SIZE * ?w + q \<in> T" by blast
    have "r = SLIDING_WINDOW_SIZE * ?w + s"
      using r current s(2) by (simp add: PT_NextFreeSlot_def Let_def mult.commute)
    moreover have "q \<in> T" if "position \<le> q" "q < SLIDING_WINDOW_SIZE * ?w + s" for q
    proof -
      have "SLIDING_WINDOW_SIZE * ?w + (q - SLIDING_WINDOW_SIZE * ?w) \<in> T"
        using that pos [unfolded current] by (intro s(4)) linarith+
      then show ?thesis using that(1) pos [unfolded current] by simp
    qed
    ultimately show ?thesis using s pos [unfolded current] by simp
  next
    case above
    then have "r = position" using r by (simp add: PT_NextFreeSlot_def)
    with above t show ?thesis by (auto simp: tracks_def)
  next
    case previous
    then have vw: "\<not> ?w < ?v" "?v < ?w" "?v + 1 = ?w" by auto
    then obtain o1 where o1: "GetNextNonSetBit ?b (previous_vector t) = Some o1"
      using r by (auto simp: PT_NextFreeSlot_def Let_def split: option.splits)
    from GetNextNonSetBit_Some [OF this]
    have spec: "?b \<le> o1" "o1 \<notin> bv_set (previous_vector t)"
      "\<And>n. ?b \<le> n \<Longrightarrow> n < o1 \<Longrightarrow> n \<in> bv_set (previous_vector t)" by auto
    have prev: "q \<in> T" if "position \<le> q" "q < SLIDING_WINDOW_SIZE * ?v + o1" for q
    proof -
      have "q - SLIDING_WINDOW_SIZE * ?v \<in> bv_set (previous_vector t)"
        using that pos by (intro spec(3)) linarith+
      moreover have "SLIDING_WINDOW_SIZE * ?v + (q - SLIDING_WINDOW_SIZE * ?v) = q"
        using that(1) pos by linarith
      ultimately show ?thesis using t previous unfolding tracks_def by metis
    qed
    show ?thesis
    proof (cases "o1 < SLIDING_WINDOW_SIZE")
      case True
      then have "r = SLIDING_WINDOW_SIZE * ?v + o1"
        using r vw o1 by (simp add: PT_NextFreeSlot_def Let_def mult.commute)
      moreover have "SLIDING_WINDOW_SIZE * ?v + o1 \<notin> T"
        using previous_iff [OF t previous(1) True] spec(2) previous(2) by simp
      ultimately show ?thesis using prev spec(1) pos by auto
    next
      case False
      from NextFreeSlot_current [OF t, of 0] obtain s
        where s: "GetNextNonSetBit 0 (current_vector t) = Some s"
          "SLIDING_WINDOW_SIZE * ?w + s \<notin> T"
          "\<And>q. q < s \<Longrightarrow> SLIDING_WINDOW_SIZE * ?w + q \<in> T" by (auto simp: SLIDING_WINDOW_SIZE_def)
      have "r = s + ?w * SLIDING_WINDOW_SIZE"
        using r vw(1,2) o1 s(1) False by (simp add: PT_NextFreeSlot_def Let_def flip: vw(3))
      then have "r = SLIDING_WINDOW_SIZE * ?w + s" by (simp add: mult.commute)
      moreover have w: "SLIDING_WINDOW_SIZE * ?w = SLIDING_WINDOW_SIZE * ?v + SLIDING_WINDOW_SIZE"
        using previous by (cases ?w) simp_all
      moreover have "q \<in> T" if "position \<le> q" "q < SLIDING_WINDOW_SIZE * ?w + s" for q
      proof (cases "q < SLIDING_WINDOW_SIZE * ?w")
        case True
        with that w False show ?thesis by (intro prev) linarith+
      next
        case False
        with s(3) [of "q - SLIDING_WINDOW_SIZE * ?w"] that(2) show ?thesis by simp
      qed
      moreover have "position \<le> SLIDING_WINDOW_SIZE * ?w + s"
        using w pos blocker_offset_less [of position] by linarith
      ultimately show ?thesis using s(2) by simp
    qed
  qed
qed

section \<open>Histories of a tracker\<close>

text \<open>
  The trackers a builder can produce, with the set of positions it has marked so far.  The builder
  moves forward by less than a window at a time.
\<close>

inductive tracker_run :: "tracker \<Rightarrow> nat set \<Rightarrow> bool" where
  initial: "tracker_run PositionTracker {}"
| set_one: "tracker_run t T \<Longrightarrow> blocker_window p \<le> Suc (window_start_position t) \<Longrightarrow>
    tracker_run (PT_Set p t) (insert p T)"
| set_state: "tracker_run t T \<Longrightarrow> state_bits bv \<Longrightarrow>
    blocker_window (BV_Size bv + p) \<le> Suc (window_start_position t) \<Longrightarrow> in_reach t p \<Longrightarrow>
    tracker_run (PT_SetVector bv p t) (T \<union> placed bv p)"

lemma tracker_run_tracks: "tracker_run t T \<Longrightarrow> tracks T t"
  by (induction rule: tracker_run.induct) (simp_all add: tracks_initial tracks_Set tracks_SetVector)

section \<open>Properties\<close>


definition example_state :: bitvector where
  "example_state = BV_Set 3 (BV_Set 0 (BitVector 261))"

lemma example_state_bits: "state_bits example_state" "bv_set example_state = {0, 3}"
    "bv_size example_state = 261"
proof -
  show "bv_set example_state = {0, 3}" by (auto simp: example_state_def)
  moreover show "bv_size example_state = 261" by (simp add: example_state_def)
  moreover have "bv_invar example_state" by (simp add: example_state_def)
  ultimately show "state_bits example_state"
    by (simp add: state_bits_def MAX_TRANSITIONS_OF_A_STATE_def)
qed

lemma example_tracker: "tracker_run (PT_SetVector example_state 2046 PositionTracker) {2046, 2049}"
proof -
  have "tracker_run (PT_SetVector example_state 2046 PositionTracker) ({} \<union> placed example_state 2046)"
    by (intro tracker_run.intros)
       (simp_all add: example_state_bits in_reach_def PositionTracker_def tracker_defs BV_Size_def)
  then show ?thesis by (simp add: placed_def example_state_bits insert_commute)
qed

lemma example_tracker_reach: "in_reach (PT_SetVector example_state 2046 PositionTracker) 2043"
  by code_simp


text \<open>
  \<open>NextFreeSlot\<close> returns the lowest position from the given one on that is not marked.
\<close>

theorem next_free_slot_least:
  assumes "tracker_run t T" "in_reach t position" "PT_NextFreeSlot position t = Some r"
  shows "position \<le> r \<and> r \<notin> T \<and> (\<forall>q. position \<le> q \<and> q < r \<longrightarrow> q \<in> T)"
  using NextFreeSlot_correct [OF tracker_run_tracks] assms by blast

theorem next_free_slot_least_witness:
  "(2047 :: nat) \<notin> {2046, 2049} \<and> PT_NextFreeSlot 2046 (PT_SetVector example_state 2046 PositionTracker) = Some 2047"
proof -
  have eval: "PT_NextFreeSlot 2046 (PT_SetVector example_state 2046 PositionTracker) = Some 2047"
    by code_simp
  moreover have "in_reach (PT_SetVector example_state 2046 PositionTracker) 2046" by code_simp
  ultimately show ?thesis using next_free_slot_least [OF example_tracker] by blast
qed

text \<open>
  \<open>NextFreeSlot\<close> can leave the array of the previous window.  When a state with all 256 labels is
  written at position 1856 of the first window, every bit of the previous vector from there on is set,
  including the spare word, and the search from 1856 reads the word after the array.
\<close>

definition full_state :: bitvector where
  "full_state = \<lparr>bv_bits = [- 1, - 1, - 1, - 1, 0], bv_size = 261\<rparr>"

lemma full_state_bits: "bv_set full_state = {..< 256}"
proof (rule word_parts_eqI)
  fix i m :: nat
  assume m: "m < 64"
  consider "i = 0" | "i = 1" | "i = 2" | "i = 3" | "i = 4" | "4 < i" by linarith
  then show "64 * i + m \<in> bv_set full_state \<longleftrightarrow> 64 * i + m \<in> {..< 256}"
    using m by cases (simp_all add: in_bv_set_iff full_state_def)
qed

theorem next_free_slot_reads_past_end:
  "bv_set full_state = {..< 256}
   \<and> PT_NextFreeSlot 1856 (PT_SetVector full_state 1856 PositionTracker) = None"
proof
  show "PT_NextFreeSlot 1856 (PT_SetVector full_state 1856 PositionTracker) = None" by code_simp
qed (rule full_state_bits)

end
