(* ===== verification/Unpacked_State.thy ===== *)
theory Unpacked_State
  imports Sparse_Array Position_Tracker Automata
begin

text \<open>
  The states the generator collects before they are written: \<open>unpacked_state.h\<close>,
  \<open>unpacked_state_stack.h\<close>, and their 12-byte representatives in the minimization hash,
  \<open>packed_state.h\<close> (instantiated as \<open>PackedState<uint32_t, int32_t>\<close>, the default).

  An unpacked state is the list of its outgoing transitions, the used part of the C++ array, with the
  bit vector of the buckets it needs.  Comparing an unpacked state with a packed one reads the
  persistence, which may fail.
\<close>

section \<open>Packed states\<close>

record PackedState =
  ps_offset :: u32
  ps_hashcode :: u32
  num_outgoing_and_cookie :: u32

definition PackedState :: "u32 \<Rightarrow> u32 \<Rightarrow> nat \<Rightarrow> PackedState" where
  "PackedState offset hashcode num_outgoing =
     \<lparr>ps_offset = offset, ps_hashcode = hashcode, num_outgoing_and_cookie = of_nat num_outgoing AND 0x1FF\<rparr>"

definition EmptyPackedState :: PackedState where
  "EmptyPackedState = PackedState 0 0 0"

definition GetNumberOfOutgoingTransitions :: "PackedState \<Rightarrow> nat" where
  "GetNumberOfOutgoingTransitions e = unat (num_outgoing_and_cookie e AND 0x1FF)"

definition GetCookie :: "PackedState \<Rightarrow> nat" where
  "GetCookie e = unat (drop_bit 9 (num_outgoing_and_cookie e AND 0xFFFFFE00))"

definition SetCookie :: "nat \<Rightarrow> PackedState \<Rightarrow> PackedState" where
  "SetCookie c e = e\<lparr>num_outgoing_and_cookie := (num_outgoing_and_cookie e AND 0x1FF) OR push_bit 9 (of_nat c)\<rparr>"

definition MaxCookieSize :: nat where
  "MaxCookieSize = 0x7FFFFE"

definition PS_IsEmpty :: "PackedState \<Rightarrow> bool" where
  "PS_IsEmpty e \<longleftrightarrow> ps_offset e = 0 \<and> ps_hashcode e = 0"

section \<open>Unpacked states\<close>

record UnpackedState =
  outgoing_transitions :: "(nat \<times> u64) list"
  us_bitvector :: bitvector
  us_hashcode :: u64
  no_minimization_counter :: nat
  us_weight :: u32
  zerobyte_state :: nat
  zerobyte_label :: u8
  us_final :: bool

definition UnpackedState :: UnpackedState where
  "UnpackedState = \<lparr>outgoing_transitions = [], us_bitvector = BitVector MAX_TRANSITIONS_OF_A_STATE, us_hashcode = - 1,
     no_minimization_counter = 0, us_weight = 0, zerobyte_state = 0, zerobyte_label = 0xff, us_final = False\<rparr>"

definition US_Add :: "nat \<Rightarrow> u64 \<Rightarrow> UnpackedState \<Rightarrow> UnpackedState" where
  "US_Add transition_label transition_value s =
     s\<lparr>outgoing_transitions := outgoing_transitions s @ [(transition_label, transition_value)],
       us_bitvector := BV_Set transition_label (us_bitvector s)\<rparr>"

definition HasLabel :: "nat \<Rightarrow> UnpackedState \<Rightarrow> bool" where
  "HasLabel transition_label s = BV_Get transition_label (us_bitvector s)"

definition AddFinalState :: "u64 \<Rightarrow> UnpackedState \<Rightarrow> UnpackedState" where
  "AddFinalState transition_value s =
     s\<lparr>outgoing_transitions := outgoing_transitions s @ [(FINAL_OFFSET_TRANSITION, transition_value)],
       us_bitvector := fold (\<lambda>i. BV_Set (FINAL_OFFSET_TRANSITION + i)) [0..<getVarShortLength transition_value]
                         (us_bitvector s),
       us_final := True\<rparr>"

text \<open>The last transition gets its target; without one the C++ writes before the array.\<close>

definition SetTransitionValue :: "u64 \<Rightarrow> UnpackedState \<Rightarrow> UnpackedState option" where
  "SetTransitionValue transition_value s =
     (if outgoing_transitions s = [] then None
      else Some (s\<lparr>outgoing_transitions := butlast (outgoing_transitions s)
                     @ [(fst (last (outgoing_transitions s)), transition_value)]\<rparr>))"

definition US_Clear :: "UnpackedState \<Rightarrow> UnpackedState" where
  "US_Clear s =
     s\<lparr>outgoing_transitions := [], us_hashcode := - 1, us_bitvector := BV_Clear (us_bitvector s),
       no_minimization_counter := 0, us_weight := 0, zerobyte_state := 0, zerobyte_label := 0xff, us_final := False\<rparr>"

definition US_size :: "UnpackedState \<Rightarrow> nat" where
  "US_size s = length (outgoing_transitions s)"

definition IncrementNoMinimizationCounter :: "nat \<Rightarrow> UnpackedState \<Rightarrow> UnpackedState" where
  "IncrementNoMinimizationCounter counter s = s\<lparr>no_minimization_counter := no_minimization_counter s + counter\<rparr>"

definition UpdateWeightIfHigher :: "u32 \<Rightarrow> UnpackedState \<Rightarrow> UnpackedState" where
  "UpdateWeightIfHigher weight s =
     (if weight > us_weight s
      then s\<lparr>us_weight := weight, us_bitvector := BV_Set INNER_WEIGHT_TRANSITION_COMPACT (us_bitvector s)\<rparr>
      else s)"

definition SetZerobyteState :: "nat \<Rightarrow> UnpackedState \<Rightarrow> UnpackedState" where
  "SetZerobyteState position s = s\<lparr>zerobyte_state := position\<rparr>"

definition SetZerobyteLabel :: "u8 \<Rightarrow> UnpackedState \<Rightarrow> UnpackedState" where
  "SetZerobyteLabel label s = s\<lparr>zerobyte_label := label\<rparr>"

text \<open>
  The hash: 64-bit integers that wrap around, with arithmetic right shifts; two transitions are mixed in
  at a time.  The value is computed once and kept.
\<close>

definition jenkins_mix :: "u64 \<times> u64 \<times> u64 \<Rightarrow> u64 \<times> u64 \<times> u64" where
  "jenkins_mix = (\<lambda>(a, b, c).
     let a = (a - b - c) XOR signed_drop_bit 13 c;
         b = (b - c - a) XOR push_bit 8 a;
         c = (c - a - b) XOR signed_drop_bit 13 b;
         a = (a - b - c) XOR signed_drop_bit 12 c;
         b = (b - c - a) XOR push_bit 16 a;
         c = (c - a - b) XOR signed_drop_bit 5 b;
         a = (a - b - c) XOR signed_drop_bit 3 c;
         b = (b - c - a) XOR push_bit 10 a;
         c = (c - a - b) XOR signed_drop_bit 15 b
     in (a, b, c))"

fun hash_loop :: "(nat \<times> u64) list \<Rightarrow> u64 \<times> u64 \<times> u64 \<Rightarrow> u64" where
  "hash_loop [] (a, b, c) = c"
| "hash_loop [(l, v)] (a, b, c) = snd (snd (jenkins_mix (a + of_nat l, b + v, c)))"
| "hash_loop ((l, v) # (l', v') # ts) (a, b, c) =
     hash_loop ts (jenkins_mix (a + of_nat l + push_bit 16 (of_nat l'), b + v + push_bit 16 v', c))"

definition state_hash :: "(nat \<times> u64) list \<Rightarrow> u32 \<Rightarrow> u64" where
  "state_hash ts weight = hash_loop ts (0x9e3779b9, 0x9e3779b9, if weight > 0 then 1 else 0)"

definition GetHashcode :: "UnpackedState \<Rightarrow> u64 \<times> UnpackedState" where
  "GetHashcode s =
     (if us_hashcode s = - 1
      then (let h = state_hash (outgoing_transitions s) (us_weight s) in (h, s\<lparr>us_hashcode := h\<rparr>))
      else (us_hashcode s, s))"

section \<open>Comparison with a persisted state\<close>

text \<open>The position of a label is computed with the 32-bit offset of the packed state and wraps with it.\<close>

fun same_transitions ::
  "fs \<Rightarrow> nat \<Rightarrow> (nat \<times> u64) list \<Rightarrow> persistence \<Rightarrow> mm_error + bool \<times> persistence" where
  "same_transitions fs offset [] p = Inr (True, p)"
| "same_transitions fs offset ((label, v) # ts) p =
     (if label < FINAL_OFFSET_TRANSITION
      then bind_sum (ReadTransitionLabel fs ((offset + label) mod 2 ^ 32) p) (\<lambda>(l, p1).
           if unat l \<noteq> label then Inr (False, p1)
           else bind_sum (ReadTransitionValue fs ((offset + label) mod 2 ^ 32) p1) (\<lambda>(pt, p2).
                bind_sum (ResolveTransitionValue fs ((offset + label) mod 2 ^ 32) pt p2) (\<lambda>(target, p3).
                if v \<noteq> target then Inr (False, p3) else same_transitions fs offset ts p3)))
      else bind_sum (ReadTransitionLabel fs ((offset + label) mod 2 ^ 32) p) (\<lambda>(l, p1).
           if unat l \<noteq> FINAL_OFFSET_CODE then Inr (False, p1)
           else bind_sum (ReadFinalValue fs offset p1) (\<lambda>(final, p2).
                if v \<noteq> final then Inr (False, p2) else same_transitions fs offset ts p2)))"

definition US_equals ::
  "fs \<Rightarrow> PackedState \<Rightarrow> UnpackedState \<times> persistence \<Rightarrow> mm_error + bool \<times> UnpackedState \<times> persistence" where
  "US_equals fs l = (\<lambda>(s, p).
     let (h, s1) = GetHashcode s
     in if ps_hashcode l \<noteq> ucast h \<or> GetNumberOfOutgoingTransitions l \<noteq> US_size s1 then Inr (False, s1, p)
        else bind_sum (same_transitions fs (unat (ps_offset l)) (outgoing_transitions s1) p) (\<lambda>(b, p1).
             Inr (b, s1, p1)))"

section \<open>The stack of unpacked states\<close>

record UnpackedStateStack =
  unpacked_state_pool :: "UnpackedState list"
  weight_cut_off :: nat

definition UnpackedStateStack :: "nat \<Rightarrow> UnpackedStateStack" where
  "UnpackedStateStack cut_off = \<lparr>unpacked_state_pool = [], weight_cut_off = cut_off\<rparr>"

text \<open>\<open>Get\<close> fills the pool up to the position and returns a pointer into it; updates go through it.\<close>

definition stack_fill :: "nat \<Rightarrow> UnpackedStateStack \<Rightarrow> UnpackedStateStack" where
  "stack_fill position stk =
     stk\<lparr>unpacked_state_pool := unpacked_state_pool stk
           @ replicate (Suc position - length (unpacked_state_pool stk)) UnpackedState\<rparr>"

definition stack_Get :: "nat \<Rightarrow> UnpackedStateStack \<Rightarrow> UnpackedState" where
  "stack_Get position stk = unpacked_state_pool (stack_fill position stk) ! position"

definition stack_put :: "nat \<Rightarrow> UnpackedState \<Rightarrow> UnpackedStateStack \<Rightarrow> UnpackedStateStack" where
  "stack_put position s stk =
     (let stk1 = stack_fill position stk
      in stk1\<lparr>unpacked_state_pool := (unpacked_state_pool stk1)[position := s]\<rparr>)"

definition stack_Insert :: "nat \<Rightarrow> nat \<Rightarrow> u64 \<Rightarrow> UnpackedStateStack \<Rightarrow> UnpackedStateStack" where
  "stack_Insert pos transition_label transition_value stk =
     stack_put pos (US_Add transition_label transition_value (stack_Get pos stk)) stk"

definition InsertFinalState :: "nat \<Rightarrow> u64 \<Rightarrow> bool \<Rightarrow> UnpackedStateStack \<Rightarrow> UnpackedStateStack" where
  "InsertFinalState pos transition_value no_min stk =
     (let s = AddFinalState transition_value (stack_Get pos stk)
      in stack_put pos (if no_min then IncrementNoMinimizationCounter 1 s else s) stk)"

definition UpdateWeights :: "nat \<Rightarrow> nat \<Rightarrow> u32 \<Rightarrow> UnpackedStateStack \<Rightarrow> UnpackedStateStack" where
  "UpdateWeights start end weight stk =
     (if start > weight_cut_off stk then stk
      else fold (\<lambda>i stk. stack_put i (UpdateWeightIfHigher weight (stack_Get i stk)) stk)
             [start ..< min end (weight_cut_off stk)] stk)"

definition PushTransitionPointer :: "nat \<Rightarrow> u64 \<Rightarrow> nat \<Rightarrow> UnpackedStateStack \<Rightarrow> UnpackedStateStack option" where
  "PushTransitionPointer pos transition_value minimization_counter stk =
     map_option (\<lambda>s. stack_put pos (IncrementNoMinimizationCounter minimization_counter s) stk)
       (SetTransitionValue transition_value (stack_Get pos stk))"

definition stack_Erase :: "nat \<Rightarrow> UnpackedStateStack \<Rightarrow> UnpackedStateStack" where
  "stack_Erase pos stk = stack_put pos (US_Clear (stack_Get pos stk)) stk"


section \<open>The fields of a packed state\<close>

declare bit_numeral_word_iff [simp del]

lemma u32_masks:
  "bit (0x1FF :: u32) n \<longleftrightarrow> n < 9" "bit (0xFFFFFE00 :: u32) n \<longleftrightarrow> 9 \<le> n \<and> n < 32"
proof -
  have m: "(0x1FF :: u32) = push_bit 0 (mask 9)" "(0xFFFFFE00 :: u32) = push_bit 9 (mask 23)"
    by (simp_all add: mask_eq_exp_minus_1)
  show "bit (0x1FF :: u32) n \<longleftrightarrow> n < 9" "bit (0xFFFFFE00 :: u32) n \<longleftrightarrow> 9 \<le> n \<and> n < 32"
    unfolding m bit_push_bit_mask by auto
qed

lemma unat_of_nat_u32: "c < 4294967296 \<Longrightarrow> unat (of_nat c :: u32) = c"
  by (simp add: unat_of_nat take_bit_nat_eq_self)

lemma SetCookie_fields:
  assumes "c < 8388608"
  shows "GetCookie (SetCookie c e) = c" "GetNumberOfOutgoingTransitions (SetCookie c e) = GetNumberOfOutgoingTransitions e"
    "ps_offset (SetCookie c e) = ps_offset e" "ps_hashcode (SetCookie c e) = ps_hashcode e"
    "SetCookie d (SetCookie c e) = SetCookie d e"
proof -
  have u: "unat (of_nat c :: u32) = c" using assms by (simp add: unat_of_nat_u32)
  have b: "n < 23" if "bit (of_nat c :: u32) n" for n
    using bit_bound [of "of_nat c :: u32" 23 n] that assms u by simp
  have low: "(num_outgoing_and_cookie (SetCookie c e)) AND 0x1FF = num_outgoing_and_cookie e AND 0x1FF"
    by (rule bit_word_eqI) (auto simp: SetCookie_def bit_and_iff bit_or_iff bit_push_bit_iff u32_masks)
  have "drop_bit 9 (num_outgoing_and_cookie (SetCookie c e) AND 0xFFFFFE00) = of_nat c"
    by (rule bit_word_eqI)
      (auto simp: SetCookie_def bit_and_iff bit_or_iff bit_push_bit_iff bit_drop_bit_eq u32_masks simp del: drop_bit_and dest: b)
  then show "GetCookie (SetCookie c e) = c" unfolding GetCookie_def using u by simp
  show "GetNumberOfOutgoingTransitions (SetCookie c e) = GetNumberOfOutgoingTransitions e"
    unfolding GetNumberOfOutgoingTransitions_def low ..
  show "ps_offset (SetCookie c e) = ps_offset e" "ps_hashcode (SetCookie c e) = ps_hashcode e"
    by (simp_all add: SetCookie_def)
  show "SetCookie d (SetCookie c e) = SetCookie d e"
    using low by (simp add: SetCookie_def)
qed

lemma PackedState_fields:
  assumes "n < 512"
  shows "GetNumberOfOutgoingTransitions (PackedState offset hash n) = n" "GetCookie (PackedState offset hash n) = 0"
    "ps_offset (PackedState offset hash n) = offset" "ps_hashcode (PackedState offset hash n) = hash"
proof -
  have u: "unat (of_nat n :: u32) = n" using assms by (simp add: unat_of_nat_u32)
  have b: "i < 9" if "bit (of_nat n :: u32) i" for i
    using bit_bound [of "of_nat n :: u32" 9 i] that assms u by simp
  have "(of_nat n AND 0x1FF) AND 0x1FF = (of_nat n :: u32)"
    by (rule bit_word_eqI) (auto simp: bit_and_iff u32_masks dest: b)
  then show "GetNumberOfOutgoingTransitions (PackedState offset hash n) = n"
    unfolding GetNumberOfOutgoingTransitions_def PackedState_def using u by simp
  have "drop_bit 9 ((of_nat n AND 0x1FF) AND 0xFFFFFE00) = (0 :: u32)"
    by (rule bit_word_eqI) (auto simp: bit_and_iff bit_drop_bit_eq u32_masks simp del: drop_bit_and)
  then show "GetCookie (PackedState offset hash n) = 0"
    unfolding GetCookie_def PackedState_def by simp
  show "ps_offset (PackedState offset hash n) = offset" "ps_hashcode (PackedState offset hash n) = hash"
    by (simp_all add: PackedState_def)
qed

section \<open>The buckets of an unpacked state\<close>

text \<open>
  The bit vector marks the buckets the state will occupy: one per label, those of the final value, and
  the one of the weight.
\<close>

definition final_buckets :: "(nat \<times> u64) list \<Rightarrow> nat set" where
  "final_buckets ts = (\<Union>(l, v) \<in> set ts. if l = 256 then {256 ..< 256 + getVarShortLength v} else {l})"

definition us_ok :: "UnpackedState \<Rightarrow> bool" where
  "us_ok s \<longleftrightarrow> state_bits (us_bitvector s)
     \<and> bv_set (us_bitvector s) = final_buckets (outgoing_transitions s) \<union> (if us_weight s > 0 then {260} else {})
     \<and> (us_final s \<longleftrightarrow> 256 \<in> fst ` set (outgoing_transitions s))"

lemma state_bits_Set:
  assumes "state_bits bv" "n < 261"
  shows "state_bits (BV_Set n bv)" "bv_set (BV_Set n bv) = insert n (bv_set bv)"
proof -
  have len: "n div 64 < length (bv_bits bv)" using state_bits_length [OF assms(1)] assms(2) by simp
  then show set: "bv_set (BV_Set n bv) = insert n (bv_set bv)" by simp
  show "state_bits (BV_Set n bv)"
    using assms unfolding state_bits_def set by (auto simp: MAX_TRANSITIONS_OF_A_STATE_def)
qed

lemma state_bits_fold_Set:
  assumes "state_bits bv" "\<forall>i \<in> set is. f i < 261"
  shows "state_bits (fold (\<lambda>i. BV_Set (f i)) is bv) \<and> bv_set (fold (\<lambda>i. BV_Set (f i)) is bv) = f ` set is \<union> bv_set bv"
  using assms
proof (induction "is" arbitrary: bv)
  case (Cons i "is")
  from Cons.IH [OF state_bits_Set(1) [OF Cons.prems(1), of "f i"]] Cons.prems state_bits_Set(2) [OF Cons.prems(1), of "f i"]
  show ?case by auto
qed simp

lemma us_ok_initial: "us_ok UnpackedState" "us_ok (US_Clear s)" if "us_ok s"
proof -
  have "state_bits (BitVector MAX_TRANSITIONS_OF_A_STATE)"
    by (simp add: state_bits_def)
  then show "us_ok UnpackedState" by (simp add: us_ok_def UnpackedState_def final_buckets_def)
  have "bv_size (BV_Clear (us_bitvector s)) = bv_size (us_bitvector s)"
    "bv_invar (BV_Clear (us_bitvector s)) = bv_invar (us_bitvector s)"
    by (simp_all add: bv_invar_def BV_Clear_def)
  with that have "state_bits (BV_Clear (us_bitvector s))" by (simp add: us_ok_def state_bits_def)
  then show "us_ok (US_Clear s)" by (simp add: us_ok_def US_Clear_def final_buckets_def)
qed

lemma us_ok_Add:
  assumes "us_ok s" "l < 256"
  shows "us_ok (US_Add l v s)"
  using assms state_bits_Set [of "us_bitvector s" l]
  by (auto simp: us_ok_def US_Add_def final_buckets_def)

lemma getVarShortLength_le: "getVarShortLength v \<le> 5"
  by (simp add: getVarShortLength_def Let_def)

lemma us_ok_AddFinalState:
  assumes "us_ok s"
  shows "us_ok (AddFinalState v s)"
proof -
  let ?bv = "fold (\<lambda>i. BV_Set (256 + i)) [0..<getVarShortLength v] (us_bitvector s)"
  have "state_bits ?bv \<and> bv_set ?bv = (\<lambda>i. 256 + i) ` set [0..<getVarShortLength v] \<union> bv_set (us_bitvector s)"
    using assms getVarShortLength_le [of v] by (intro state_bits_fold_Set) (auto simp: us_ok_def)
  then have "state_bits ?bv" "bv_set ?bv = {256 ..< 256 + getVarShortLength v} \<union> bv_set (us_bitvector s)"
    by (simp_all add: image_add_atLeastLessThan add.commute)
  then show ?thesis
    using assms by (auto simp: us_ok_def AddFinalState_def final_buckets_def FINAL_OFFSET_TRANSITION_def)
qed

lemma us_ok_UpdateWeightIfHigher:
  assumes "us_ok s"
  shows "us_ok (UpdateWeightIfHigher w s)"
proof (cases "w > us_weight s")
  case True
  then have "w > 0" by (metis word_not_simps(1) word_neq_0_conv)
  with True assms state_bits_Set [of "us_bitvector s" 260] show ?thesis
    by (auto simp: us_ok_def UpdateWeightIfHigher_def INNER_WEIGHT_TRANSITION_COMPACT_def)
qed (use assms in \<open>simp add: UpdateWeightIfHigher_def\<close>)


section \<open>Reading a persisted state\<close>

text \<open>The array in the making, read as the automaton it will become.\<close>

definition array_automata :: "persistence \<Rightarrow> automata" where
  "array_automata p = \<lparr>a_labels = (\<lambda>i. sap_label p (unat i)), transitions_compact = (\<lambda>i. sap_value p (unat i)),
     properties_start_state = 0, number_of_keys = 0\<rparr>"

text \<open>Buckets on one side of the flush position, and a pointer whose overflow buckets are.\<close>

definition one_side :: "persistence \<Rightarrow> nat \<Rightarrow> nat \<Rightarrow> bool" where
  "one_side p b n \<longleftrightarrow> b + n \<le> in_memory_buffer_offset p
     \<or> in_memory_buffer_offset p \<le> b \<and> b + n \<le> in_memory_buffer_offset p + buffer_size p"

definition value_at :: "persistence \<Rightarrow> nat \<Rightarrow> u64 \<Rightarrow> bool" where
  "value_at p b v \<longleftrightarrow> holds_at (sap_value p) b (varshort_groups v) \<and> length (varshort_groups v) \<le> 3
     \<and> one_side p b (length (varshort_groups v))"

definition readable :: "persistence \<Rightarrow> nat \<Rightarrow> bool" where
  "readable p bucket \<longleftrightarrow>
     (let pt = sap_value p bucket; position = unat (drop_bit 4 (pt AND 0x7FFF)) + bucket
      in bucket < in_memory_buffer_offset p + buffer_size p \<and> bucket + 4096 < 2 ^ 64
       \<and> (pt AND 0xC000 \<noteq> 0xC000 \<and> pt AND 0x8000 \<noteq> 0 \<longrightarrow> 512 \<le> position \<and> (\<exists>v. value_at p (position - 512) v)))"

lemma decode_value_at:
  assumes "sap_invar p" "value_at p b v"
  shows "\<exists>p'. (if b \<ge> in_memory_buffer_offset p
       then bind_sum (decode_in_memory (b - in_memory_buffer_offset p) p) (\<lambda>v. Inr (v, p))
       else decode_external no_failure (3 * 2) (3 * 2) b p) = Inr (v, p') \<and> same_array p p'"
proof (cases "b \<ge> in_memory_buffer_offset p")
  case True
  then have "b + length (varshort_groups v) \<le> in_memory_buffer_offset p + buffer_size p"
    using assms(2) varshort_groups_nonempty [of v] by (auto simp: value_at_def one_side_def)
  with decode_in_memory_groups [OF assms(1) True] assms True show ?thesis by (simp add: value_at_def)
next
  case False
  then have "b + length (varshort_groups v) \<le> in_memory_buffer_offset p"
    using assms(2) by (auto simp: value_at_def one_side_def)
  then have "holds_at (extern_value (transitions_extern p)) b (varshort_groups v)"
    using assms(2) by (auto simp: value_at_def holds_at_def sap_value_def)
  moreover have "length (varshort_groups v) \<le> 3" using assms(2) by (simp add: value_at_def)
  ultimately obtain p' where "decode_external no_failure 6 6 b p = Inr (v, p')" "same_array p p'"
    using decode_external_groups [OF assms(1) decodes_groups, where bucket = b and v = v and window = 6 and copy = 6 and n = 3]
    by fastforce
  with False show ?thesis by simp
qed

lemma unat_bucket: "b + i < 2 ^ 64 \<Longrightarrow> unat (of_nat b + of_nat i :: u64) = b + i"
  by (simp add: unat_of_nat take_bit_nat_eq_self flip: of_nat_add)

lemma decodeVarShort_value_at:
  assumes "value_at p b v" "b + 3 < 2 ^ 64"
  shows "decodeVarShort (transition_ptr (array_automata p) (of_nat b)) = Some v"
proof (rule decodeVarShort_groups)
  have "unat (of_nat b + of_nat i :: u64) = b + i" if "i < length (varshort_groups v)" for i
    using assms that by (intro unat_bucket) (simp add: value_at_def)
  then show "holds_at (transition_ptr (array_automata p) (of_nat b)) 0 (varshort_groups v)"
    using assms(1) by (simp add: holds_at_def value_at_def transition_ptr_def array_automata_def)
qed

lemma unat_drop4: "unat (drop_bit 4 (pt AND 0x7FFF) :: u16) < 2048"
proof -
  have "unat (pt AND 0x7FFF) < 2 ^ 15"
    using unat_and_mask [of pt 15] by (simp add: mask_eq_exp_minus_1)
  then show ?thesis by (simp add: unat_drop_bit_div div_less_iff_less_mult del: drop_bit_and)
qed

lemma ResolveTransitionValue_agrees:
  assumes "sap_invar p" "readable p bucket"
  shows "\<exists>p'. ResolveTransitionValue no_failure bucket (sap_value p bucket) p =
      Inr (ResolvePointer (array_automata p) (of_nat bucket) 0, p') \<and> same_array p p'"
proof -
  let ?pt = "sap_value p bucket" and ?A = "array_automata p"
  have small: "bucket + 4096 < 2 ^ 64" using assms(2) by (simp add: readable_def Let_def)
  then have "unat (of_nat bucket :: u64) = bucket" using unat_bucket [of bucket 0] by simp
  then have pt: "transitions_compact ?A (of_nat bucket + ucast (0 :: u8)) = ?pt" by (simp add: array_automata_def)
  consider "?pt AND 0xC000 = 0xC000" | "?pt AND 0xC000 \<noteq> 0xC000" "?pt AND 0x8000 = 0"
    | (overflow) "?pt AND 0xC000 \<noteq> 0xC000" "?pt AND 0x8000 \<noteq> 0" by blast
  then show ?thesis
  proof cases
    case overflow
    let ?ob = "unat (drop_bit 4 (?pt AND 0x7FFF)) + bucket"
    from assms(2) overflow obtain v where v: "512 \<le> ?ob" "value_at p (?ob - 512) v"
      by (auto simp: readable_def Let_def simp del: drop_bit_and)
    have "ucast (drop_bit 4 (?pt AND 0x7FFF)) + of_nat bucket + ucast (0 :: u8) - 512 = (of_nat (?ob - 512) :: u64)"
      using v(1) by (simp add: of_nat_diff del: drop_bit_and)
    moreover have "?ob - 512 + 3 < 2 ^ 64" using small unat_drop4 [of ?pt] by linarith
    ultimately have d: "decodeVarShort (transition_ptr ?A (ucast (drop_bit 4 (?pt AND 0x7FFF)) + of_nat bucket + ucast (0 :: u8) - 512)) = Some v"
      using decodeVarShort_value_at [OF v(2)] by metis
    from decode_value_at [OF assms(1) v(2)] obtain p' where p': "(if ?ob - 512 \<ge> in_memory_buffer_offset p
       then bind_sum (decode_in_memory (?ob - 512 - in_memory_buffer_offset p) p) (\<lambda>v. Inr (v, p))
       else decode_external no_failure (3 * 2) (3 * 2) (?ob - 512) p) = Inr (v, p')" "same_array p p'" by blast
    have "ResolveTransitionValue no_failure bucket ?pt p = Inr (ResolvePointer ?A (of_nat bucket) 0, p')"
      unfolding ResolveTransitionValue_def ResolvePointer_def pt Let_def d COMPACT_SIZE_WINDOW_def p'(1)
      using overflow v(1) by (simp add: d del: drop_bit_and)
    with p'(2) show ?thesis by blast
  qed (use assms(1) pt in \<open>auto simp: ResolveTransitionValue_def ResolvePointer_def Let_def COMPACT_SIZE_WINDOW_def\<close>)
qed


text \<open>Reading may map chunks, but changes neither the array nor the flush position.\<close>

definition same_view :: "persistence \<Rightarrow> persistence \<Rightarrow> bool" where
  "same_view p p' \<longleftrightarrow> same_array p p' \<and> in_memory_buffer_offset p' = in_memory_buffer_offset p"

lemma reads_keep_position:
  "ReadTransitionLabel fs b p = Inr (l, p') \<Longrightarrow> in_memory_buffer_offset p' = in_memory_buffer_offset p"
  "ReadTransitionValue fs b p = Inr (pt, p') \<Longrightarrow> in_memory_buffer_offset p' = in_memory_buffer_offset p"
  "ResolveTransitionValue fs b pt p = Inr (v, p') \<Longrightarrow> in_memory_buffer_offset p' = in_memory_buffer_offset p"
  "ReadFinalValue fs b p = Inr (v, p') \<Longrightarrow> in_memory_buffer_offset p' = in_memory_buffer_offset p"
  by (auto simp: ReadTransitionLabel_def ReadTransitionValue_def ResolveTransitionValue_def ReadFinalValue_def
      decode_external_def Let_def bind_sum_Inr_iff split: if_splits option.splits)

lemma same_view_simps:
  assumes "same_view p p'"
  shows "sap_invar p'" "sap_label p' = sap_label p" "sap_value p' = sap_value p" "buffer_size p' = buffer_size p"
    "in_memory_buffer_offset p' = in_memory_buffer_offset p" "readable p' b = readable p b" "value_at p' b v = value_at p b v"
    "array_automata p' = array_automata p"
  using assms by (simp_all add: same_view_def same_array_def readable_def value_at_def one_side_def array_automata_def)

lemma same_view_trans: "same_view p q \<Longrightarrow> same_view q r \<Longrightarrow> same_view p r"
  by (auto simp: same_view_def intro: same_array_trans)

lemma view_reads:
  assumes "sap_invar p"
  shows "b < in_memory_buffer_offset p + buffer_size p \<Longrightarrow>
      \<exists>p'. ReadTransitionLabel no_failure b p = Inr (sap_label p b, p') \<and> same_view p p'"
    and "b < in_memory_buffer_offset p + buffer_size p \<Longrightarrow>
      \<exists>p'. ReadTransitionValue no_failure b p = Inr (sap_value p b, p') \<and> same_view p p'"
    and "readable p b \<Longrightarrow> \<exists>p'. ResolveTransitionValue no_failure b (sap_value p b) p =
      Inr (ResolvePointer (array_automata p) (of_nat b) 0, p') \<and> same_view p p'"
    and "value_at p (b + 256) v \<Longrightarrow> \<exists>p'. ReadFinalValue no_failure b p = Inr (v, p') \<and> same_view p p'"
proof -
  show "b < in_memory_buffer_offset p + buffer_size p \<Longrightarrow>
      \<exists>p'. ReadTransitionLabel no_failure b p = Inr (sap_label p b, p') \<and> same_view p p'"
    using ReadTransitionLabel_reads [OF assms] reads_keep_position(1) unfolding same_view_def by blast
  show "b < in_memory_buffer_offset p + buffer_size p \<Longrightarrow>
      \<exists>p'. ReadTransitionValue no_failure b p = Inr (sap_value p b, p') \<and> same_view p p'"
    using ReadTransitionValue_reads [OF assms] reads_keep_position(2) unfolding same_view_def by blast
  show "readable p b \<Longrightarrow> \<exists>p'. ResolveTransitionValue no_failure b (sap_value p b) p =
      Inr (ResolvePointer (array_automata p) (of_nat b) 0, p') \<and> same_view p p'"
    using ResolveTransitionValue_agrees [OF assms] reads_keep_position(3) unfolding same_view_def by blast
  assume v: "value_at p (b + 256) v"
  have len: "length (varshort_groups v) > 0" by simp
  have "\<exists>p'. ReadFinalValue no_failure b p = Inr (v, p') \<and> same_array p p'"
    using v len by (intro ReadFinalValue_reads [OF assms]) (auto simp: value_at_def one_side_def)
  then show "\<exists>p'. ReadFinalValue no_failure b p = Inr (v, p') \<and> same_view p p'"
    using reads_keep_position(4) unfolding same_view_def by blast
qed

section \<open>What the comparison decides\<close>

text \<open>
  The generator adds the final value of a state first and then the transitions in ascending order of their
  labels.
\<close>

definition label_rank :: "nat \<Rightarrow> nat" where
  "label_rank l = (if l = FINAL_OFFSET_TRANSITION then 0 else Suc l)"

definition canonical :: "(nat \<times> u64) list \<Rightarrow> bool" where
  "canonical ts \<longleftrightarrow> sorted_wrt (<) (map (\<lambda>(l, v). label_rank l) ts)"

lemma canonical_distinct: "canonical ts \<Longrightarrow> distinct (map fst ts)"
proof -
  assume "canonical ts"
  then have "distinct (map (\<lambda>(l, v). label_rank l) ts)" by (simp add: canonical_def strict_sorted_iff)
  moreover have "map (\<lambda>(l, v). label_rank l) ts = map label_rank (map fst ts)" by (simp add: split_beta comp_def)
  ultimately show ?thesis by (simp only: distinct_map)
qed

text \<open>
  The state with the given transitions lies at the offset: the buckets of its labels hold the labels and
  pointers that can be read, the other buckets do not hold their labels, and the same for the final value.
\<close>

definition state_stored :: "persistence \<Rightarrow> nat \<Rightarrow> (nat \<times> u64) list \<Rightarrow> bool" where
  "state_stored p offset ts \<longleftrightarrow>
     canonical ts \<and> (\<forall>(l, v) \<in> set ts. l \<le> 256)
   \<and> offset + 256 < in_memory_buffer_offset p + buffer_size p \<and> offset + 256 < 2 ^ 32
   \<and> (\<forall>l < 256. unat (sap_label p (offset + l)) = l \<longleftrightarrow> l \<in> fst ` set ts)
   \<and> (\<forall>(l, v) \<in> set ts. l < 256 \<longrightarrow> readable p (offset + l) \<and> ResolvePointer (array_automata p) (of_nat (offset + l)) 0 = v)
   \<and> (unat (sap_label p (offset + 256)) = 1 \<longleftrightarrow> 256 \<in> fst ` set ts)
   \<and> (\<forall>(l, v) \<in> set ts. l = 256 \<longrightarrow> value_at p (offset + 256) v)"

lemma state_storedD:
  assumes "state_stored p offset ts"
  shows "offset + 256 < in_memory_buffer_offset p + buffer_size p"
    and "l < 256 \<Longrightarrow> unat (sap_label p (offset + l)) = l \<longleftrightarrow> l \<in> fst ` set ts"
    and "(l, v) \<in> set ts \<Longrightarrow> l < 256 \<Longrightarrow> readable p (offset + l)"
    and "(l, v) \<in> set ts \<Longrightarrow> l < 256 \<Longrightarrow> ResolvePointer (array_automata p) (of_nat (offset + l)) 0 = v"
    and "unat (sap_label p (offset + 256)) = 1 \<longleftrightarrow> 256 \<in> fst ` set ts"
    and "(256, v) \<in> set ts \<Longrightarrow> value_at p (offset + 256) v"
    and "l \<le> 256 \<Longrightarrow> (offset + l) mod 2 ^ 32 = offset + l"
proof -
  note st = assms [unfolded state_stored_def]
  show "offset + 256 < in_memory_buffer_offset p + buffer_size p" using st by (elim conjE)
  show "unat (sap_label p (offset + 256)) = 1 \<longleftrightarrow> 256 \<in> fst ` set ts" using st by (elim conjE)
  show "l < 256 \<Longrightarrow> unat (sap_label p (offset + l)) = l \<longleftrightarrow> l \<in> fst ` set ts" using st by (elim conjE) simp
  have r: "\<forall>(l, v) \<in> set ts. l < 256 \<longrightarrow> readable p (offset + l) \<and> ResolvePointer (array_automata p) (of_nat (offset + l)) 0 = v"
    using st by (elim conjE)
  have r2: "\<forall>(l, v) \<in> set ts. l = 256 \<longrightarrow> value_at p (offset + 256) v" using st by (elim conjE)
  show "(l, v) \<in> set ts \<Longrightarrow> l < 256 \<Longrightarrow> readable p (offset + l)"
    "(l, v) \<in> set ts \<Longrightarrow> l < 256 \<Longrightarrow> ResolvePointer (array_automata p) (of_nat (offset + l)) 0 = v"
    using bspec [OF r, of "(l, v)"] by simp_all
  show "(256, v) \<in> set ts \<Longrightarrow> value_at p (offset + 256) v" using bspec [OF r2, of "(256, v)"] by simp
  show "l \<le> 256 \<Longrightarrow> (offset + l) mod 2 ^ 32 = offset + l" using st by (elim conjE) simp
qed

lemma state_stored_view: "same_view p p' \<Longrightarrow> state_stored p' offset ts \<longleftrightarrow> state_stored p offset ts"
  by (simp add: state_stored_def same_view_simps)

lemma state_stored_value: "state_stored p offset ts \<Longrightarrow> (l, v) \<in> set ts \<Longrightarrow> (l, w) \<in> set ts \<Longrightarrow> v = w"
  using eq_key_imp_eq_value [of ts l v w] by (auto simp: state_stored_def canonical_distinct)

lemma same_transitions_step:
  assumes "sap_invar p" "state_stored p offset ts" "l \<le> 256"
  shows "\<exists>p'. same_view p p' \<and> same_transitions no_failure offset ((l, v) # us) p =
    (if (l, v) \<in> set ts then same_transitions no_failure offset us p' else Inr (False, p'))"
proof -
  note st = state_storedD [OF assms(2)]
  have b: "offset + l < in_memory_buffer_offset p + buffer_size p" using st(1) assms(3) by simp
  note wrap [simp] = st(7) [OF assms(3), simplified]
  from view_reads(1) [OF assms(1) b] obtain p1 where p1:
    "ReadTransitionLabel no_failure (offset + l) p = Inr (sap_label p (offset + l), p1)" "same_view p p1" by blast
  note view1 = same_view_simps [OF p1(2)]
  show ?thesis
  proof (cases "l < 256")
    case True
    show ?thesis
    proof (cases "l \<in> fst ` set ts")
      case False
      then have "(l, v) \<notin> set ts" by (metis fst_conv image_eqI)
      moreover have "unat (sap_label p (offset + l)) \<noteq> l" using False st(2) [OF True] by simp
      moreover note True
      ultimately show ?thesis using p1 by (auto simp: FINAL_OFFSET_TRANSITION_def)
    next
      case inside: True
      then obtain w where w: "(l, w) \<in> set ts" by auto
      then have lab: "unat (sap_label p (offset + l)) = l" "readable p (offset + l)"
        "ResolvePointer (array_automata p) (of_nat (offset + l)) 0 = w"
        using st(2) [OF True] inside st(3,4) [OF w True] by simp_all
      from view_reads(2) [OF view1(1), of "offset + l"] b obtain p2 where p2:
        "ReadTransitionValue no_failure (offset + l) p1 = Inr (sap_value p (offset + l), p2)" "same_view p1 p2"
        by (auto simp: view1)
      note view2 = same_view_simps [OF same_view_trans [OF p1(2) p2(2)]]
      from view_reads(3) [OF view2(1), of "offset + l"] lab obtain p3 where p3:
        "ResolveTransitionValue no_failure (offset + l) (sap_value p (offset + l)) p2 = Inr (w, p3)" "same_view p2 p3"
        by (auto simp: view2)
      have "(l, v) \<in> set ts \<longleftrightarrow> v = w" using w state_stored_value [OF assms(2)] by blast
      with True lab(1) p1(1) p2(1) p3 same_view_trans [OF same_view_trans [OF p1(2) p2(2)] p3(2)] show ?thesis
        by (auto simp: FINAL_OFFSET_TRANSITION_def)
    qed
  next
    case False
    then have l: "l = 256" using assms(3) by simp
    note wrap [simp] = st(7) [OF order_refl, simplified]
    show ?thesis
    proof (cases "256 \<in> fst ` set ts")
      case False
      then have "(l, v) \<notin> set ts" using l by (metis fst_conv image_eqI)
      moreover have "unat (sap_label p (offset + 256)) \<noteq> 1" using False st(5) by simp
      ultimately show ?thesis using p1 l by (auto simp: FINAL_OFFSET_TRANSITION_def FINAL_OFFSET_CODE_def)
    next
      case inside: True
      then obtain w where w: "(256, w) \<in> set ts" by auto
      then have lab: "unat (sap_label p (offset + 256)) = 1" "value_at p (offset + 256) w"
        using st(5) inside st(6) [OF w] by simp_all
      from view_reads(4) [OF view1(1)] lab(2) obtain p2 where p2:
        "ReadFinalValue no_failure offset p1 = Inr (w, p2)" "same_view p1 p2" by (auto simp: view1)
      have "(l, v) \<in> set ts \<longleftrightarrow> v = w" using w l state_stored_value [OF assms(2)] by blast
      with l lab(1) p1(1) p2 same_view_trans [OF p1(2) p2(2)] show ?thesis
        by (auto simp: FINAL_OFFSET_TRANSITION_def FINAL_OFFSET_CODE_def)
    qed
  qed
qed

lemma same_transitions_exact:
  assumes "sap_invar p" "state_stored p offset ts" "\<forall>(l, v) \<in> set us. l \<le> 256"
  shows "\<exists>p'. same_transitions no_failure offset us p = Inr (set us \<subseteq> set ts, p') \<and> same_view p p'"
  using assms
proof (induction us arbitrary: p)
  case Nil
  then show ?case by (simp add: same_view_def)
next
  case (Cons u us)
  obtain l v where u: "u = (l, v)" by (cases u)
  with Cons.prems have "l \<le> 256" by simp
  from same_transitions_step [OF Cons.prems(1,2) this, of v us] obtain p1 where p1: "same_view p p1"
    "same_transitions no_failure offset (u # us) p =
      (if u \<in> set ts then same_transitions no_failure offset us p1 else Inr (False, p1))" by (auto simp: u)
  show ?case
  proof (cases "u \<in> set ts")
    case True
    have "state_stored p1 offset ts" using state_stored_view [OF p1(1)] Cons.prems(2) by simp
    from Cons.IH [OF same_view_simps(1) [OF p1(1)] this] Cons.prems(3) obtain p' where
      "same_transitions no_failure offset us p1 = Inr (set us \<subseteq> set ts, p')" "same_view p1 p'" by auto
    with True p1 same_view_trans show ?thesis by auto
  qed (use p1 in auto)
qed


lemma sorted_assoc_unique:
  fixes f :: "'a \<Rightarrow> nat"
  shows "sorted_wrt (<) (map f xs) \<Longrightarrow> sorted_wrt (<) (map f ys) \<Longrightarrow> set xs = set ys \<Longrightarrow> xs = ys"
proof (induction xs arbitrary: ys)
  case (Cons x xs)
  then obtain y ys' where ys: "ys = y # ys'" by (cases ys) auto
  have less: "z \<in> set xs \<Longrightarrow> f x < f z" "z \<in> set ys' \<Longrightarrow> f y < f z" for z
    using Cons.prems ys by auto
  have "x = y"
  proof (rule ccontr)
    assume "x \<noteq> y"
    then have "x \<in> set ys'" "y \<in> set xs" using Cons.prems(3) ys by auto
    then show False using less(1) [of y] less(2) [of x] by simp
  qed
  moreover have "x \<notin> set xs" "y \<notin> set ys'" using less [of x] less [of y] by auto
  ultimately have "set xs = set ys'" using Cons.prems(3) ys by auto
  with Cons ys \<open>x = y\<close> show ?case by simp
qed simp

lemma sorted_assoc_subset:
  fixes f :: "'a \<Rightarrow> nat"
  assumes "sorted_wrt (<) (map f xs)" "sorted_wrt (<) (map f ys)" "length xs = length ys"
  shows "set xs \<subseteq> set ys \<longleftrightarrow> xs = ys"
proof
  assume sub: "set xs \<subseteq> set ys"
  have "distinct xs" "distinct ys" using assms(1,2) by (auto simp: strict_sorted_iff distinct_map)
  then have "card (set xs) = card (set ys)" using assms(3) by (simp add: distinct_card)
  with sub have "set xs = set ys" by (simp add: card_subset_eq)
  with assms show "xs = ys" by (intro sorted_assoc_unique)
qed simp

text \<open>The kept hash value is the hash of the state, or not computed yet.\<close>

definition hash_ok :: "UnpackedState \<Rightarrow> bool" where
  "hash_ok s \<longleftrightarrow> us_hashcode s = - 1 \<or> us_hashcode s = state_hash (outgoing_transitions s) (us_weight s)"

lemma GetHashcode_ok:
  assumes "hash_ok s"
  shows "fst (GetHashcode s) = state_hash (outgoing_transitions s) (us_weight s)"
    "outgoing_transitions (snd (GetHashcode s)) = outgoing_transitions s" "hash_ok (snd (GetHashcode s))"
    "us_weight (snd (GetHashcode s)) = us_weight s"
  using assms by (auto simp: GetHashcode_def hash_ok_def Let_def)

section \<open>Histories of an unpacked state\<close>

inductive us_run :: "UnpackedState \<Rightarrow> bool" where
  fresh: "us_run UnpackedState"
| cleared: "us_run s \<Longrightarrow> us_run (US_Clear s)"
| add: "us_run s \<Longrightarrow> l < 256 \<Longrightarrow> us_run (US_Add l v s)"
| add_final: "us_run s \<Longrightarrow> us_run (AddFinalState v s)"
| set_value: "us_run s \<Longrightarrow> fst (last (outgoing_transitions s)) \<noteq> 256 \<Longrightarrow> SetTransitionValue v s = Some s' \<Longrightarrow> us_run s'"
| weight: "us_run s \<Longrightarrow> us_run (UpdateWeightIfHigher w s)"
| no_minimization: "us_run s \<Longrightarrow> us_run (IncrementNoMinimizationCounter n s)"
| zerobyte: "us_run s \<Longrightarrow> us_run (SetZerobyteLabel l (SetZerobyteState position s))"
| hashed: "us_run s \<Longrightarrow> us_run (snd (GetHashcode s))"

lemma us_ok_SetTransitionValue:
  assumes "us_ok s" "fst (last (outgoing_transitions s)) \<noteq> 256" "SetTransitionValue v s = Some s'"
  shows "us_ok s'"
proof -
  obtain ts l w where ts: "outgoing_transitions s = ts @ [(l, w)]"
    using assms(3) by (cases "outgoing_transitions s" rule: rev_cases) (auto simp: SetTransitionValue_def)
  have "l \<noteq> 256" using assms(2) ts by simp
  then have b: "final_buckets (ts @ [(l, v)]) = final_buckets (ts @ [(l, w)])" by (simp add: final_buckets_def)
  have s': "s' = s\<lparr>outgoing_transitions := ts @ [(l, v)]\<rparr>" using assms(3) ts by (auto simp: SetTransitionValue_def)
  show ?thesis using assms(1) b by (simp add: us_ok_def s' ts)
qed

lemma us_ok_fields [simp]:
  "us_ok (s\<lparr>zerobyte_state := z\<rparr>) = us_ok s" "us_ok (s\<lparr>zerobyte_label := b\<rparr>) = us_ok s"
  "us_ok (s\<lparr>us_hashcode := h\<rparr>) = us_ok s" "us_ok (s\<lparr>no_minimization_counter := n\<rparr>) = us_ok s"
  by (simp_all add: us_ok_def)

lemma us_run_ok: "us_run s \<Longrightarrow> us_ok s"
proof (induction rule: us_run.induct)
  case (hashed s)
  then show ?case by (simp add: GetHashcode_def Let_def)
next
  case (set_value s v s')
  from us_ok_SetTransitionValue [OF set_value.IH set_value.hyps(2,3)] show ?case .
next
  case fresh
  show ?case by (simp add: us_ok_def UnpackedState_def final_buckets_def state_bits_def)
qed (simp_all add: us_ok_initial us_ok_Add us_ok_AddFinalState us_ok_UpdateWeightIfHigher
      SetZerobyteLabel_def SetZerobyteState_def IncrementNoMinimizationCounter_def)

lemma in_final_buckets:
  "n \<in> final_buckets ts \<longleftrightarrow> (\<exists>v. (n, v) \<in> set ts \<and> n \<noteq> 256)
     \<or> (\<exists>v. (256, v) \<in> set ts \<and> 256 \<le> n \<and> n < 256 + getVarShortLength v)"
  by (induction ts) (auto simp: final_buckets_def split: if_splits)

lemma US_equals_exact:
  assumes p: "sap_invar p" and "state_stored p (unat (ps_offset l)) ts"
    and "ps_hashcode l = ucast (state_hash ts w)" "GetNumberOfOutgoingTransitions l = length ts"
    and "hash_ok s" "canonical (outgoing_transitions s)" "\<forall>(n, v) \<in> set (outgoing_transitions s). n \<le> 256"
  shows "\<exists>p'. US_equals no_failure l (s, p) =
      Inr (outgoing_transitions s = ts \<and> (ucast (state_hash ts (us_weight s)) :: u32) = ucast (state_hash ts w), snd (GetHashcode s), p')
    \<and> same_view p p'"
proof -
  obtain h s1 where g: "GetHashcode s = (h, s1)" by fastforce
  with GetHashcode_ok [OF assms(5)] have h: "h = state_hash (outgoing_transitions s) (us_weight s)"
    "outgoing_transitions s1 = outgoing_transitions s" by simp_all
  have refl: "same_view p p" using p by (simp add: same_view_def)
  show ?thesis
  proof (cases "ps_hashcode l \<noteq> ucast h \<or> length ts \<noteq> US_size s1")
    case True
    then have "US_equals no_failure l (s, p) = Inr (False, s1, p)" using g assms(4) by (auto simp: US_equals_def)
    moreover have "\<not> (outgoing_transitions s = ts \<and> (ucast (state_hash ts (us_weight s)) :: u32) = ucast (state_hash ts w))"
      using True h assms(3) by (auto simp: US_size_def)
    ultimately show ?thesis using g refl by (intro exI [of _ p]) simp
  next
    case False
    from same_transitions_exact [OF p assms(2,7)] obtain p' where p':
      "same_transitions no_failure (unat (ps_offset l)) (outgoing_transitions s) p =
        Inr (set (outgoing_transitions s) \<subseteq> set ts, p')" "same_view p p'" by blast
    have "set (outgoing_transitions s) \<subseteq> set ts \<longleftrightarrow> outgoing_transitions s = ts"
      using False h(2) assms(2,6) 
      by (intro sorted_assoc_subset [where f = "\<lambda>(l, v). label_rank l"]) (simp_all add: US_size_def state_stored_def canonical_def)
    then have "US_equals no_failure l (s, p) = Inr (outgoing_transitions s = ts, s1, p')"
      using False g h(2) p'(1) assms(4) by (auto simp: US_equals_def)
    moreover have "outgoing_transitions s = ts \<longrightarrow> (ucast (state_hash ts (us_weight s)) :: u32) = ucast (state_hash ts w)"
      using False h(1) assms(3) by auto
    ultimately show ?thesis using g p'(2) by (intro exI [of _ p']) auto
  qed
qed

section \<open>Properties\<close>

text \<open>
  C30: whatever operations were applied to an unpacked state, its bit vector marks exactly the buckets the
  state needs: one per outgoing label, those of the variable length final value, and the bucket of the
  weight when there is one.
\<close>

theorem unpacked_state_buckets:
  assumes "us_run s"
  shows "BV_Get n (us_bitvector s) \<and> n < 261 \<longleftrightarrow>
    (\<exists>v. (n, v) \<in> set (outgoing_transitions s) \<and> n \<noteq> 256)
    \<or> (\<exists>v. (256, v) \<in> set (outgoing_transitions s) \<and> 256 \<le> n \<and> n < 256 + getVarShortLength v)
    \<or> n = 260 \<and> us_weight s > 0"
proof -
  note ok = us_run_ok [OF assms]
  from ok have len: "length (bv_bits (us_bitvector s)) = 5" and bits: "\<forall>n \<in> bv_set (us_bitvector s). n < 261"
    using state_bits_length by (auto simp: us_ok_def state_bits_def MAX_TRANSITIONS_OF_A_STATE_def)
  have "BV_Get n (us_bitvector s) \<and> n < 261 \<longleftrightarrow> n \<in> bv_set (us_bitvector s)"
  proof (cases "n < 261")
    case True
    then have "n div 64 < length (bv_bits (us_bitvector s))" using len by simp
    with BV_Get_iff True show ?thesis by blast
  qed (use bits in auto)
  also have "\<dots> \<longleftrightarrow> n \<in> final_buckets (outgoing_transitions s) \<or> n = 260 \<and> us_weight s > 0"
    using ok by (auto simp: us_ok_def)
  also have "n \<in> final_buckets (outgoing_transitions s) \<longleftrightarrow>
      (\<exists>v. (n, v) \<in> set (outgoing_transitions s) \<and> n \<noteq> 256)
      \<or> (\<exists>v. (256, v) \<in> set (outgoing_transitions s) \<and> 256 \<le> n \<and> n < 256 + getVarShortLength v)"
    by (rule in_final_buckets)
  finally show ?thesis by simp
qed

theorem unpacked_state_buckets_witness:
  "BV_Get 97 (us_bitvector (AddFinalState 5 (US_Add 97 1000 UnpackedState)))
   \<and> \<not> BV_Get 98 (us_bitvector (AddFinalState 5 (US_Add 97 1000 UnpackedState)))"
proof -
  let ?s = "AddFinalState 5 (US_Add 97 1000 UnpackedState)"
  have "us_run ?s" by (intro us_run.intros) simp
  from unpacked_state_buckets [OF this, of 97] unpacked_state_buckets [OF this, of 98] show ?thesis
    by (simp add: AddFinalState_def US_Add_def UnpackedState_def FINAL_OFFSET_TRANSITION_def)
qed

text \<open>
  The cookie and the number of transitions share one 32-bit field without disturbing each other: a
  cookie up to the maximum is read back, and setting it keeps the number of transitions, the offset and
  the hash value.
\<close>

theorem packed_state_fields:
  assumes "c \<le> MaxCookieSize" "n \<le> MAX_TRANSITIONS_OF_A_STATE"
  shows "GetCookie (SetCookie c (PackedState offset hash n)) = c
    \<and> GetNumberOfOutgoingTransitions (SetCookie c (PackedState offset hash n)) = n
    \<and> ps_offset (SetCookie c (PackedState offset hash n)) = offset
    \<and> ps_hashcode (SetCookie c (PackedState offset hash n)) = hash"
  using assms SetCookie_fields [where c = c and e = "PackedState offset hash n"] PackedState_fields [of n offset hash]
  by (simp add: MaxCookieSize_def MAX_TRANSITIONS_OF_A_STATE_def)

theorem packed_state_fields_witness:
  "GetCookie (SetCookie 0x7FFFFE (PackedState 12 34 261)) = 0x7FFFFE"
  using packed_state_fields [of "0x7FFFFE" 261 12 34] by (simp add: MaxCookieSize_def MAX_TRANSITIONS_OF_A_STATE_def)

text \<open>
  C29: minimization compares exactly.  For a packed state that stands for a state in the array, with the
  hash and the number of its transitions, the comparison with an unpacked state answers whether the
  transitions, their targets and the final value are the same and the hash values agree; it reads the
  array and leaves it as it was.
\<close>

theorem packed_state_comparison_exact:
  assumes "sap_run p L V" "state_stored p (unat (ps_offset l)) ts"
    and "ps_hashcode l = ucast (state_hash ts w)" "GetNumberOfOutgoingTransitions l = length ts"
    and "hash_ok s" "canonical (outgoing_transitions s)" "\<forall>(n, v) \<in> set (outgoing_transitions s). n \<le> 256"
  shows "\<exists>s' p'. US_equals no_failure l (s, p) =
      Inr (outgoing_transitions s = ts \<and> (ucast (state_hash ts (us_weight s)) :: u32) = ucast (state_hash ts w), s', p')
    \<and> outgoing_transitions s' = outgoing_transitions s \<and> same_array p p'"
proof -
  have p: "sap_invar p" using sap_run_invar [OF assms(1)] by blast
  from US_equals_exact [OF p assms(2-7)] GetHashcode_ok(2) [OF assms(5)] show ?thesis
    by (auto simp: same_view_def)
qed

lemma stored_example:
  "\<exists>p L V. sap_run p L V \<and> state_stored p 293 [(7, 803)]"
proof -
  let ?p = "SparseArrayPersistence 4000"
  have run: "sap_run ?p (\<lambda>i. if i < 2 then 42 else 0) (\<lambda>i. 0)" by (rule sap_run.initial) simp_all
  have inv: "sap_invar ?p" "sap_sized ?p" using sap_initial [of 4000] by simp_all
  then have size: "in_memory_buffer_offset ?p + buffer_size ?p > 767" by (auto simp: sap_sized_def)
  from WriteTransition_writes [OF inv(1), of 293 255 0] size obtain p1 where p1:
    "SAP_WriteTransition no_failure 293 255 0 ?p = Inr p1" "sap_invar p1" "buffer_size p1 = buffer_size ?p"
    "in_memory_buffer_offset p1 = in_memory_buffer_offset ?p" by auto
  from WriteTransition_writes [OF p1(2), of 300 7 9] size p1 obtain p2 where p2:
    "SAP_WriteTransition no_failure 300 7 9 p1 = Inr p2" "buffer_size p2 = buffer_size ?p"
    "in_memory_buffer_offset p2 = in_memory_buffer_offset ?p" by auto
  let ?L = "((\<lambda>i. if i < 2 then 42 else 0)(293 := 255))(300 := 7)" and ?V = "((\<lambda>i. 0)(293 := 0))(300 := 9)"
  have run2: "sap_run p2 ?L ?V" by (rule sap_run.write_bucket [OF sap_run.write_bucket [OF run p1(1)] p2(1)])
  then have L: "sap_label p2 = ?L" and V: "sap_value p2 = ?V" using sap_run_invar by blast+
  have r: "readable p2 300" unfolding readable_def Let_def V using size p2(2,3) by simp
  have "ResolvePointer (array_automata p2) 300 0 = 803"
    by (simp add: ResolvePointer_def array_automata_def V)
  with r have "state_stored p2 293 [(7, 803)]"
    unfolding state_stored_def canonical_def L using size p2(2,3) by auto
  with run2 show ?thesis by blast
qed

theorem packed_state_comparison_exact_witness:
  "\<exists>p s' p'. US_equals no_failure (PackedState 293 (ucast (state_hash [(7, 803)] 0)) 1) (US_Add 7 803 UnpackedState, p) =
     Inr (True, s', p')"
proof -
  let ?l = "PackedState 293 (ucast (state_hash [(7, 803)] 0)) 1" and ?s = "US_Add 7 803 UnpackedState"
  from stored_example obtain p L V where p: "sap_run p L V" "state_stored p 293 [(7, 803)]" by blast
  have l: "ps_offset ?l = 293" "ps_hashcode ?l = ucast (state_hash [(7, 803)] 0)"
    "GetNumberOfOutgoingTransitions ?l = length [(7 :: nat, 803 :: u64)]"
    using PackedState_fields [of 1] by simp_all
  have s: "hash_ok ?s" "outgoing_transitions ?s = [(7, 803)]" "us_weight ?s = 0"
    by (simp_all add: hash_ok_def US_Add_def UnpackedState_def)
  have st: "state_stored p (unat (ps_offset ?l)) [(7, 803)]" using p(2) l(1) by simp
  from packed_state_comparison_exact [OF p(1) st l(2,3) s(1)] s show ?thesis by (auto simp: canonical_def)
qed

end
