(* ===== verification/Minimization.thy ===== *)
theory Minimization
  imports Unpacked_State
begin

text \<open>
  The hash table of written states and the cache made of generations of such tables:
  \<open>minimization_hash.h\<close> and \<open>lru_generation_cache.h\<close>, both for \<open>PackedState<>\<close>, whose size is 12 bytes.

  The arrays are functions from indices to entries; an access outside the array of overflow entries is
  the value \<open>None\<close> where the code writes it.  The key of a lookup is an object with a hash value and a
  comparison that may change its state (it keeps its hash, and reads the persistence) and may fail.
  The loops over chains follow cookies and are \<open>None\<close> when they do not end.
\<close>

section \<open>The hash table\<close>

record MinimizationHash =
  original_hash_size_step :: nat
  hash_size_step :: nat
  hash_size :: nat
  rehash_limit :: nat
  hash_entries :: "nat \<Rightarrow> PackedState"
  overflow_entries :: "nat \<Rightarrow> PackedState"
  hash_count :: nat
  overflow_count :: nat
  overflow_entries_size :: nat
  overflow_limit :: nat
  max_cookie_size :: nat
  memory_usage :: nat

definition hash_size_step_table :: "nat list" where
  "hash_size_step_table = [997, 2029, 4079, 8171, 16363, 32749,
     65519, 131041, 262127, 524269, 1048559, 2097133,
     4194287, 8388587, 16777199, 33554393, 67108837, 134217689,
     268435399, 536870879, 1073741789, 2147483629, 4294967291]"

definition hash_min_size_step :: nat where
  "hash_min_size_step = 1"

definition hash_max_size_step :: nat where
  "hash_max_size_step = 22"

definition sizeof_PackedState :: nat where
  "sizeof_PackedState = 12"

text \<open>
  The product of a size and the load factor, a \<open>float\<close> with 24 significant bits: 0.6 is
  10066330 / 2^24, and the conversion of the size and the product are rounded to nearest, ties to even.
\<close>

definition float_round :: "nat \<Rightarrow> nat" where
  "float_round n =
     (let k = 2 ^ (bit_length n - 24); q = n div k; r = n mod k
      in (if 2 * r > k \<or> 2 * r = k \<and> odd q then Suc q else q) * k)"

definition load_limit :: "nat \<Rightarrow> nat" where
  "load_limit n = float_round (float_round n * 10066330) div 2 ^ 24"

definition mh_Reset :: "MinimizationHash \<Rightarrow> MinimizationHash" where
  "mh_Reset h = h\<lparr>hash_entries := (\<lambda>i. EmptyPackedState),
     hash_count := 0, overflow_count := 1\<rparr>"

text \<open>New arrays of the size of the current step; every new entry is the empty one.\<close>

definition allocate :: "MinimizationHash \<Rightarrow> MinimizationHash" where
  "allocate h =
     (let size = hash_size_step_table ! hash_size_step h;
          overflow_size = min (size div 4) (max_cookie_size h)
      in h\<lparr>hash_size := size, rehash_limit := load_limit size, hash_entries := (\<lambda>i. EmptyPackedState),
           overflow_entries_size := overflow_size, overflow_entries := (\<lambda>i. EmptyPackedState),
           memory_usage := (size + overflow_size) * sizeof_PackedState\<rparr>)"

definition mh_Clear :: "MinimizationHash \<Rightarrow> MinimizationHash" where
  "mh_Clear h = mh_Reset (allocate (h\<lparr>hash_size_step := original_hash_size_step h\<rparr>))"

definition MinimizationHash :: "nat \<Rightarrow> nat \<Rightarrow> MinimizationHash" where
  "MinimizationHash step_size limit =
     mh_Clear \<lparr>original_hash_size_step = min step_size hash_max_size_step,
       hash_size_step = min step_size hash_max_size_step, hash_size = 0, rehash_limit = 0,
       hash_entries = (\<lambda>i. EmptyPackedState), overflow_entries = (\<lambda>i. EmptyPackedState), hash_count = 0,
       overflow_count = 0, overflow_entries_size = 0, overflow_limit = limit, max_cookie_size = MaxCookieSize,
       memory_usage = 0\<rparr>"

subsection \<open>Insertion\<close>

definition entry_bucket :: "PackedState \<Rightarrow> MinimizationHash \<Rightarrow> nat" where
  "entry_bucket key h = unat (ps_hashcode key AND 0x7fffffff) mod hash_size h"

definition push_overflow :: "PackedState \<Rightarrow> MinimizationHash \<Rightarrow> MinimizationHash option" where
  "push_overflow key h =
     (if overflow_count h < overflow_entries_size h
      then Some (h\<lparr>overflow_entries := (overflow_entries h)(overflow_count h := key),
                   overflow_count := overflow_count h + 1\<rparr>)
      else None)"

text \<open>
  The walk to the end of a chain stops after \<open>overflow_limit\<close> steps; the second component is the number
  of steps that were left.
\<close>

fun chain_end :: "(nat \<Rightarrow> PackedState) \<Rightarrow> nat \<Rightarrow> nat \<Rightarrow> nat \<times> nat" where
  "chain_end ov bucket 0 = (bucket, 0)"
| "chain_end ov bucket (Suc left) =
     (if GetCookie (ov bucket) \<noteq> 0 then chain_end ov (GetCookie (ov bucket)) left else (bucket, Suc left))"

definition mh_Insert :: "PackedState \<Rightarrow> MinimizationHash \<Rightarrow> MinimizationHash option" where
  "mh_Insert key h =
     (let bucket = entry_bucket key h; entry = hash_entries h bucket
      in if PS_IsEmpty entry then Some (h\<lparr>hash_entries := (hash_entries h)(bucket := key)\<rparr>)
         else if overflow_count h = max_cookie_size h then Some h
         else if GetCookie entry = 0
         then push_overflow key
                (h\<lparr>hash_entries := (hash_entries h)(bucket := SetCookie (overflow_count h) entry)\<rparr>)
         else let (last, left) = chain_end (overflow_entries h) (GetCookie entry) (overflow_limit h)
              in if left = 0 then Some h
                 else push_overflow key
                        (h\<lparr>overflow_entries := (overflow_entries h)
                             (last := SetCookie (overflow_count h) (overflow_entries h last))\<rparr>))"

fun insert_all :: "PackedState list \<Rightarrow> MinimizationHash \<Rightarrow> MinimizationHash option" where
  "insert_all [] h = Some h"
| "insert_all (e # es) h = Option.bind (mh_Insert (SetCookie 0 e) h) (insert_all es)"

definition GrowAndRehash :: "MinimizationHash \<Rightarrow> MinimizationHash option" where
  "GrowAndRehash h =
     insert_all (filter (\<lambda>e. \<not> PS_IsEmpty e) (map (hash_entries h) [0..<hash_size h])
                 @ map (overflow_entries h) [1..<overflow_count h])
       ((allocate (h\<lparr>hash_size_step := hash_size_step h + 1\<rparr>))\<lparr>overflow_count := 1\<rparr>)"

definition mh_Add :: "PackedState \<Rightarrow> MinimizationHash \<Rightarrow> MinimizationHash option" where
  "mh_Add key h =
     Option.bind (mh_Insert key h) (\<lambda>h1.
     let h2 = h1\<lparr>hash_count := hash_count h1 + 1\<rparr>
     in Option.bind (if hash_count h2 > rehash_limit h2 \<and> hash_size_step h2 < hash_max_size_step
                     then GrowAndRehash h2 else Some h2) (\<lambda>h3.
        if overflow_count h3 = overflow_entries_size h3 \<and> overflow_entries_size h3 < max_cookie_size h3
           \<and> hash_size_step h3 < hash_max_size_step
        then GrowAndRehash h3 else Some h3))"

subsection \<open>Lookup\<close>

record ('s, 'e) key_ops =
  key_hash :: "'s \<Rightarrow> u64 \<times> 's"
  key_eq :: "PackedState \<Rightarrow> 's \<Rightarrow> 'e + bool \<times> 's"

definition key_bucket :: "u64 \<Rightarrow> MinimizationHash \<Rightarrow> nat" where
  "key_bucket hashcode h = unat (hashcode AND 0x7fffffff) mod hash_size h"

partial_function (option) Get_loop ::
  "('s, 'e) key_ops \<Rightarrow> (nat \<Rightarrow> PackedState) \<Rightarrow> PackedState \<Rightarrow> 's \<Rightarrow> ('e + PackedState \<times> 's) option" where
  "Get_loop K ov entry s =
     (if PS_IsEmpty entry then Some (Inr (EmptyPackedState, s))
      else case key_eq K entry s of
        Inl e \<Rightarrow> Some (Inl e)
      | Inr r \<Rightarrow>
          if fst r then Some (Inr (entry, snd r))
          else if GetCookie entry \<noteq> 0 then Get_loop K ov (ov (GetCookie entry)) (snd r)
          else Some (Inr (EmptyPackedState, snd r)))"

definition mh_Get :: "('s, 'e) key_ops \<Rightarrow> MinimizationHash \<Rightarrow> 's \<Rightarrow> ('e + PackedState \<times> 's) option" where
  "mh_Get K h s =
     (let (hashcode, s1) = key_hash K s
      in Get_loop K (overflow_entries h) (hash_entries h (key_bucket hashcode h)) s1)"

text \<open>
  \<open>GetAndMove\<close> treats the entry of the bucket, the first overflow entry and the further ones separately.
  What it found is added to the other table without its cookie; \<open>Inl None\<close> says that this went outside
  the other table's array.  The last argument of \<open>moved\<close> is the table it is removed from.
\<close>

partial_function (option) Move_loop ::
  "('s, 'e) key_ops \<Rightarrow> (nat \<Rightarrow> PackedState) \<Rightarrow> nat \<Rightarrow> 's \<Rightarrow> ('e + nat option \<times> 's) option" where
  "Move_loop K ov overflow_bucket s =
     (if PS_IsEmpty (ov overflow_bucket) then Some (Inr (None, s))
      else case key_eq K (ov overflow_bucket) s of
        Inl e \<Rightarrow> Some (Inl e)
      | Inr r \<Rightarrow> if fst r then Some (Inr (Some overflow_bucket, snd r))
               else Move_loop K ov (GetCookie (ov overflow_bucket)) (snd r))"

definition moved ::
  "PackedState \<Rightarrow> MinimizationHash \<Rightarrow> 's \<Rightarrow> MinimizationHash \<Rightarrow>
   ('e option + PackedState \<times> MinimizationHash \<times> MinimizationHash \<times> 's) option" where
  "moved entry other s h =
     (case mh_Add (SetCookie 0 entry) other of
        None \<Rightarrow> Some (Inl None)
      | Some other' \<Rightarrow> Some (Inr (SetCookie 0 entry, h, other', s)))"

definition GetAndMove ::
  "('s, 'e) key_ops \<Rightarrow> MinimizationHash \<Rightarrow> MinimizationHash \<Rightarrow> 's \<Rightarrow>
   ('e option + PackedState \<times> MinimizationHash \<times> MinimizationHash \<times> 's) option" where
  "GetAndMove K h other s =
     (let (hashcode, s0) = key_hash K s; bucket = key_bucket hashcode h; entry = hash_entries h bucket
      in if PS_IsEmpty entry then Some (Inr (EmptyPackedState, h, other, s0))
         else case key_eq K entry s0 of
           Inl e \<Rightarrow> Some (Inl (Some e))
         | Inr (True, s1) \<Rightarrow>
             moved entry other s1
               (if GetCookie entry \<noteq> 0
                then h\<lparr>hash_entries := (hash_entries h)(bucket := overflow_entries h (GetCookie entry))\<rparr>
                else h)
         | Inr (False, s1) \<Rightarrow>
             if GetCookie entry = 0 then Some (Inr (EmptyPackedState, h, other, s1))
             else let entry1 = overflow_entries h (GetCookie entry)
                  in case key_eq K entry1 s1 of
                       Inl e \<Rightarrow> Some (Inl (Some e))
                     | Inr (True, s2) \<Rightarrow>
                         moved entry1 other s2
                           (h\<lparr>hash_entries := (hash_entries h)
                                (bucket := SetCookie (GetCookie entry1) entry)\<rparr>)
                     | Inr (False, s2) \<Rightarrow>
                         Option.bind (Move_loop K (overflow_entries h) (GetCookie entry1) s2) (\<lambda>r.
                         case r of
                           Inl e \<Rightarrow> Some (Inl (Some e))
                         | Inr (None, s3) \<Rightarrow> Some (Inr (EmptyPackedState, h, other, s3))
                         | Inr (Some i, s3) \<Rightarrow>
                             let entry2 = overflow_entries h i
                             in moved entry2 other s3
                                  (h\<lparr>overflow_entries := (overflow_entries h)
                                       (i := SetCookie (GetCookie entry2) entry2)\<rparr>)))"

subsection \<open>Choosing a configuration for a memory limit\<close>

record MemoryLimitConfiguration =
  best_fit_memory_limit :: nat
  best_fit_generations :: nat
  best_fit_maximum_number_of_items_per_table :: nat

datatype config_error = invalid_argument nat

definition item_forecast :: "nat \<Rightarrow> nat" where
  "item_forecast step =
     (let n = hash_size_step_table ! step in n + min (n div 4) MaxCookieSize)"

fun find_step :: "nat \<Rightarrow> nat \<Rightarrow> nat list \<Rightarrow> nat" where
  "find_step limit i [] = 0"
| "find_step limit i (step # steps) =
     (if limit < item_forecast step * sizeof_PackedState * i then hash_size_step_table ! (step - 1)
      else find_step limit i steps)"

definition memory_of :: "nat \<Rightarrow> nat \<Rightarrow> nat" where
  "memory_of items generations = (items + items div 4) * sizeof_PackedState * generations"

definition fit_step :: "nat \<Rightarrow> nat \<Rightarrow> MemoryLimitConfiguration \<Rightarrow> MemoryLimitConfiguration" where
  "fit_step limit i best =
     (let items = find_step limit i [hash_min_size_step + 1..<hash_max_size_step]; usage = memory_of items i
      in if usage > best_fit_memory_limit best
         then \<lparr>best_fit_memory_limit = usage, best_fit_generations = i,
                best_fit_maximum_number_of_items_per_table = load_limit items\<rparr>
         else best)"

definition FindMemoryLimitConfigurationForLRUCache ::
  "nat \<Rightarrow> nat \<Rightarrow> nat \<Rightarrow> config_error + MemoryLimitConfiguration" where
  "FindMemoryLimitConfigurationForLRUCache limit min_generations max_generations =
     (let lowest = memory_of (hash_size_step_table ! hash_min_size_step) min_generations
      in if lowest > limit then Inl (invalid_argument lowest)
         else let best = fold (fit_step limit) [min_generations..<Suc max_generations]
                           \<lparr>best_fit_memory_limit = 0, best_fit_generations = 0,
                             best_fit_maximum_number_of_items_per_table = 0\<rparr>;
                  items = hash_size_step_table ! (hash_max_size_step - 1)
              in Inr (if best_fit_maximum_number_of_items_per_table best = 0
                      then \<lparr>best_fit_memory_limit = memory_of items max_generations,
                             best_fit_generations = max_generations,
                             best_fit_maximum_number_of_items_per_table = load_limit items\<rparr>
                      else best))"

section \<open>The cache of generations\<close>

record lru_cache =
  size_per_generation :: nat
  max_number_of_generations :: nat
  current_generation :: MinimizationHash
  generations :: "MinimizationHash list"

definition new_generation :: MinimizationHash where
  "new_generation = MinimizationHash 3 8"

definition LRU_with_limit :: "nat \<Rightarrow> config_error + lru_cache" where
  "LRU_with_limit limit =
     bind_sum (FindMemoryLimitConfigurationForLRUCache limit 3 6) (\<lambda>c.
     Inr \<lparr>size_per_generation = best_fit_maximum_number_of_items_per_table c,
           max_number_of_generations = best_fit_generations c, current_generation = new_generation, generations = []\<rparr>)"

definition LRU :: "nat \<Rightarrow> nat \<Rightarrow> lru_cache" where
  "LRU per_generation max_generations =
     \<lparr>size_per_generation = per_generation, max_number_of_generations = max_generations,
      current_generation = new_generation, generations = []\<rparr>"

text \<open>The first generation is taken from the vector when all are in use; an empty vector has none.\<close>

definition next_generation :: "lru_cache \<Rightarrow> lru_cache option" where
  "next_generation c =
     (if length (generations c) + 1 = max_number_of_generations c
      then case generations c of
             [] \<Rightarrow> None
           | g # gs \<Rightarrow> Some (c\<lparr>generations := gs @ [current_generation c], current_generation := mh_Reset g\<rparr>)
      else Some (c\<lparr>generations := generations c @ [current_generation c], current_generation := new_generation\<rparr>))"

definition LRU_Add :: "PackedState \<Rightarrow> lru_cache \<Rightarrow> lru_cache option" where
  "LRU_Add key c =
     Option.bind (if hash_count (current_generation c) \<ge> size_per_generation c then next_generation c else Some c) (\<lambda>c1.
     map_option (\<lambda>g. c1\<lparr>current_generation := g\<rparr>) (mh_Add key (current_generation c1)))"

fun LRU_Get_loop ::
  "('s, 'e) key_ops \<Rightarrow> nat \<Rightarrow> lru_cache \<Rightarrow> 's \<Rightarrow> ('e option + PackedState \<times> lru_cache \<times> 's) option" where
  "LRU_Get_loop K 0 c s = Some (Inr (EmptyPackedState, c, s))"
| "LRU_Get_loop K (Suc i) c s =
     Option.bind (GetAndMove K (generations c ! i) (current_generation c) s) (\<lambda>r.
     case r of
       Inl e \<Rightarrow> Some (Inl e)
     | Inr (state, g, current, s1) \<Rightarrow>
         let c1 = c\<lparr>generations := (generations c)[i := g], current_generation := current\<rparr>
         in if \<not> PS_IsEmpty state then Some (Inr (state, c1, s1)) else LRU_Get_loop K i c1 s1)"

definition LRU_Get ::
  "('s, 'e) key_ops \<Rightarrow> lru_cache \<Rightarrow> 's \<Rightarrow> ('e option + PackedState \<times> lru_cache \<times> 's) option" where
  "LRU_Get K c s =
     Option.bind (mh_Get K (current_generation c) s) (\<lambda>r.
     case r of
       Inl e \<Rightarrow> Some (Inl (Some e))
     | Inr (state, s1) \<Rightarrow>
         if \<not> PS_IsEmpty state then Some (Inr (state, c, s1)) else LRU_Get_loop K (length (generations c)) c s1)"

definition LRU_Clear :: "lru_cache \<Rightarrow> lru_cache" where
  "LRU_Clear c = c\<lparr>current_generation := mh_Clear (current_generation c), generations := []\<rparr>"

definition LRU_GetMemoryUsage :: "lru_cache \<Rightarrow> nat" where
  "LRU_GetMemoryUsage c = fold (\<lambda>g memory. memory + memory_usage g) (generations c) (memory_usage (current_generation c))"

section \<open>Chains\<close>

text \<open>
  The entry without its cookie; a list of overflow indices linked by cookies, ended by cookie 0.
\<close>

abbreviation bare :: "PackedState \<Rightarrow> PackedState" where
  "bare \<equiv> SetCookie 0"

fun linked :: "(nat \<Rightarrow> PackedState) \<Rightarrow> nat \<Rightarrow> nat list \<Rightarrow> bool" where
  "linked ov c [] \<longleftrightarrow> c = 0"
| "linked ov c (i # is) \<longleftrightarrow> c = i \<and> i \<noteq> 0 \<and> linked ov (GetCookie (ov i)) is"

text \<open>
  The layout of a table: a list of overflow indices for every bucket, disjoint from each other and from
  index 0, which stays empty.
\<close>

definition layout :: "MinimizationHash \<Rightarrow> (nat \<Rightarrow> nat list) \<Rightarrow> bool" where
  "layout h f \<longleftrightarrow>
     0 < hash_size h \<and> 1 \<le> overflow_count h \<and> overflow_count h \<le> overflow_entries_size h
   \<and> overflow_entries_size h \<le> max_cookie_size h \<and> max_cookie_size h = MaxCookieSize
   \<and> PS_IsEmpty (overflow_entries h 0)
   \<and> (\<forall>i. 1 \<le> i \<and> i < overflow_count h \<longrightarrow> \<not> PS_IsEmpty (overflow_entries h i))
   \<and> (\<forall>b < hash_size h. linked (overflow_entries h) (GetCookie (hash_entries h b)) (f b)
        \<and> set (f b) \<subseteq> {1..<overflow_count h} \<and> distinct (f b) \<and> (PS_IsEmpty (hash_entries h b) \<longrightarrow> f b = []))
   \<and> (\<forall>b < hash_size h. \<forall>b' < hash_size h. b \<noteq> b' \<longrightarrow> set (f b) \<inter> set (f b') = {})"

definition chain :: "MinimizationHash \<Rightarrow> (nat \<Rightarrow> nat list) \<Rightarrow> nat \<Rightarrow> PackedState list" where
  "chain h f b =
     (if b \<ge> hash_size h \<or> PS_IsEmpty (hash_entries h b) then []
      else bare (hash_entries h b) # map (\<lambda>i. bare (overflow_entries h i)) (f b))"

lemma SetCookie_simps [simp]:
  "SetCookie c (SetCookie d e) = SetCookie c e" "PS_IsEmpty (SetCookie c e) = PS_IsEmpty e"
  "ps_hashcode (SetCookie c e) = ps_hashcode e" "ps_offset (SetCookie c e) = ps_offset e"
  "GetNumberOfOutgoingTransitions (SetCookie c e) = GetNumberOfOutgoingTransitions e" "GetCookie (bare e) = 0"
proof -
  have low: "num_outgoing_and_cookie (SetCookie d e) AND 0x1FF = num_outgoing_and_cookie e AND 0x1FF" for d
    by (rule bit_word_eqI) (auto simp: SetCookie_def bit_and_iff bit_or_iff bit_push_bit_iff u32_masks)
  show "SetCookie c (SetCookie d e) = SetCookie c e" using low [of d] by (simp add: SetCookie_def)
  show "GetNumberOfOutgoingTransitions (SetCookie c e) = GetNumberOfOutgoingTransitions e"
    unfolding GetNumberOfOutgoingTransitions_def low ..
  show "PS_IsEmpty (SetCookie c e) = PS_IsEmpty e" "ps_hashcode (SetCookie c e) = ps_hashcode e"
    "ps_offset (SetCookie c e) = ps_offset e" by (simp_all add: SetCookie_def PS_IsEmpty_def)
  show "GetCookie (bare e) = 0" by (rule SetCookie_fields) simp
qed

lemma EmptyPackedState_simps [simp]: "PS_IsEmpty EmptyPackedState" "GetCookie EmptyPackedState = 0"
  using PackedState_fields [of 0 0 0] by (simp_all add: EmptyPackedState_def PS_IsEmpty_def)

lemma layoutD:
  assumes "layout h f"
  shows "0 < hash_size h" "1 \<le> overflow_count h" "overflow_count h \<le> overflow_entries_size h"
    "overflow_entries_size h \<le> max_cookie_size h" "max_cookie_size h = MaxCookieSize" "PS_IsEmpty (overflow_entries h 0)"
    and "1 \<le> i \<Longrightarrow> i < overflow_count h \<Longrightarrow> \<not> PS_IsEmpty (overflow_entries h i)"
    and "b < hash_size h \<Longrightarrow> linked (overflow_entries h) (GetCookie (hash_entries h b)) (f b)"
    and "b < hash_size h \<Longrightarrow> set (f b) \<subseteq> {1..<overflow_count h}" "b < hash_size h \<Longrightarrow> distinct (f b)"
    and "b < hash_size h \<Longrightarrow> PS_IsEmpty (hash_entries h b) \<Longrightarrow> f b = []"
    and "b < hash_size h \<Longrightarrow> b' < hash_size h \<Longrightarrow> b \<noteq> b' \<Longrightarrow> set (f b) \<inter> set (f b') = {}"
proof -
  note l = assms [unfolded layout_def]
  show "0 < hash_size h" "1 \<le> overflow_count h" "overflow_count h \<le> overflow_entries_size h"
    "overflow_entries_size h \<le> max_cookie_size h" "max_cookie_size h = MaxCookieSize" "PS_IsEmpty (overflow_entries h 0)"
    using l by simp_all
  show "1 \<le> i \<Longrightarrow> i < overflow_count h \<Longrightarrow> \<not> PS_IsEmpty (overflow_entries h i)" using l by (elim conjE) simp
  show "b < hash_size h \<Longrightarrow> linked (overflow_entries h) (GetCookie (hash_entries h b)) (f b)"
    "b < hash_size h \<Longrightarrow> set (f b) \<subseteq> {1..<overflow_count h}" "b < hash_size h \<Longrightarrow> distinct (f b)"
    "b < hash_size h \<Longrightarrow> PS_IsEmpty (hash_entries h b) \<Longrightarrow> f b = []"
    using l by simp_all
  show "b < hash_size h \<Longrightarrow> b' < hash_size h \<Longrightarrow> b \<noteq> b' \<Longrightarrow> set (f b) \<inter> set (f b') = {}"
    using l by (elim conjE) blast
qed

lemma linked_cong: "(\<And>i. i \<in> set is \<Longrightarrow> GetCookie (ov i) = GetCookie (ov' i)) \<Longrightarrow> linked ov c is = linked ov' c is"
  by (induction "is" arbitrary: c) auto

lemma linked_hd: "linked ov c is \<Longrightarrow> c = (if is = [] then 0 else hd is)"
  by (cases "is") auto

text \<open>Appending an index to a chain.\<close>

lemma linked_snoc:
  assumes "linked ov c is" "is \<noteq> []" "distinct is" "n \<notin> set is" "n \<noteq> 0"
    "GetCookie (ov' (last is)) = n" "GetCookie (ov' n) = 0"
    "\<And>i. i \<in> set is \<Longrightarrow> i \<noteq> last is \<Longrightarrow> GetCookie (ov' i) = GetCookie (ov i)"
  shows "linked ov' c (is @ [n])"
  using assms
proof (induction "is" arbitrary: c)
  case (Cons i "is")
  show ?case
  proof (cases "is = []")
    case True
    with Cons.prems show ?thesis by auto
  next
    case False
    then have "i \<noteq> last is" using Cons.prems(3) by auto
    then have "GetCookie (ov' i) = GetCookie (ov i)" using Cons.prems(8) [of i] False by simp
    moreover have "linked ov' (GetCookie (ov i)) (is @ [n])"
      using Cons.prems False by (intro Cons.IH) auto
    ultimately show ?thesis using Cons.prems(1) by simp
  qed
qed simp

lemma chain_end_linked:
  assumes "linked ov c is" "is \<noteq> []"
  shows "length is \<le> left \<Longrightarrow> chain_end ov c left = (last is, left - (length is - 1))"
    and "left < length is \<Longrightarrow> snd (chain_end ov c left) = 0"
  using assms
proof (induction "is" arbitrary: c left)
  case (Cons i "is")
  {
    case 1
    then show ?case using Cons.IH(1) [of "left - 1" "GetCookie (ov i)"] linked_hd [of ov "GetCookie (ov i)" "is"]
      by (cases left; cases "is") auto
  next
    case 2
    then show ?case using Cons.IH(2) [of "left - 1" "GetCookie (ov i)"] linked_hd [of ov "GetCookie (ov i)" "is"]
      by (cases left; cases "is") auto
  }
qed simp_all

section \<open>Insertion appends to a chain\<close>

lemma entry_bucket_less: "0 < hash_size h \<Longrightarrow> entry_bucket e h < hash_size h"
  by (simp add: entry_bucket_def)

lemma GetCookie_count [simp]:
  assumes "layout h f"
  shows "GetCookie (SetCookie (overflow_count h) e) = overflow_count h"
  using layoutD(3,4,5) [OF assms] by (intro SetCookie_fields) (simp add: MaxCookieSize_def)

lemma insert_empty:
  assumes l: "layout h f" and "PS_IsEmpty (hash_entries h b)" "GetCookie key = 0" "\<not> PS_IsEmpty key" "b < hash_size h"
  defines "h' \<equiv> h\<lparr>hash_entries := (hash_entries h)(b := key)\<rparr>"
  shows "layout h' f" "chain h' f = (chain h f)(b := [bare key])"
proof -
  have "f b = []" using layoutD(11) [OF l] assms by blast
  with assms layoutD [OF l] show "layout h' f" unfolding layout_def by auto
  show "chain h' f = (chain h f)(b := [bare key])"
    using assms \<open>f b = []\<close> by (auto simp: chain_def fun_eq_iff)
qed

lemma insert_overflow:
  assumes l: "layout h f" and b: "b < hash_size h" "\<not> PS_IsEmpty (hash_entries h b)" and key: "GetCookie key = 0" "\<not> PS_IsEmpty key"
    and room: "overflow_count h < overflow_entries_size h"
  defines "h1 \<equiv> (if f b = [] then h\<lparr>hash_entries := (hash_entries h)(b := SetCookie (overflow_count h) (hash_entries h b))\<rparr>
        else h\<lparr>overflow_entries := (overflow_entries h)
                 (last (f b) := SetCookie (overflow_count h) (overflow_entries h (last (f b))))\<rparr>)"
  shows "\<exists>h'. push_overflow key h1 = Some h' \<and> layout h' (f(b := f b @ [overflow_count h]))
    \<and> chain h' (f(b := f b @ [overflow_count h])) = (chain h f)(b := chain h f b @ [bare key]) \<and> hash_size h' = hash_size h"
proof -
  let ?n = "overflow_count h" and ?f = "f(b := f b @ [overflow_count h])"
  note L = layoutD [OF l]
  define h' where "h' = h1\<lparr>overflow_entries := (overflow_entries h1)(?n := key), overflow_count := ?n + 1\<rparr>"
  have push: "push_overflow key h1 = Some h'" using room by (simp add: push_overflow_def h'_def h1_def)
  have fresh: "?n \<notin> set (f b')" if "b' < hash_size h" for b' using L(9) [OF that] by auto
  have last: "last (f b) \<in> set (f b)" "last (f b) \<noteq> ?n" if "f b \<noteq> []"
    using that fresh [OF b(1)] last_in_set by metis+
  have ov: "overflow_entries h' i = (if i = ?n then key else if f b \<noteq> [] \<and> i = last (f b)
      then SetCookie ?n (overflow_entries h i) else overflow_entries h i)" for i
    by (simp add: h'_def h1_def)
  have en: "hash_entries h' b' = (if f b = [] \<and> b' = b then SetCookie ?n (hash_entries h b) else hash_entries h b')" for b'
    by (simp add: h'_def h1_def)
  have same: "hash_size h' = hash_size h" "overflow_count h' = ?n + 1" "overflow_entries_size h' = overflow_entries_size h"
    "max_cookie_size h' = max_cookie_size h" by (simp_all add: h'_def h1_def)
  have other: "linked (overflow_entries h') c (f b') = linked (overflow_entries h) c (f b')"
    if "b' < hash_size h" "b' \<noteq> b" for b' c
    using fresh [OF that(1)] L(12) [OF that(1) b(1) that(2)] last
    by (intro linked_cong) (auto simp: ov)
  have own: "linked (overflow_entries h') (GetCookie (hash_entries h' b)) (f b @ [?n])"
  proof (cases "f b = []")
    case True
    then show ?thesis using L(2) key l by (simp add: ov en)
  next
    case False
    have "linked (overflow_entries h') (GetCookie (hash_entries h b)) (f b @ [?n])"
      using False fresh [OF b(1)] last L(2) key l by (intro linked_snoc [OF L(8) [OF b(1)] False L(10) [OF b(1)]]) (auto simp: ov)
    then show ?thesis using False by (simp add: en)
  qed
  have "layout h' ?f"
    unfolding layout_def same
  proof (intro conjI allI impI)
    show "0 < hash_size h" "1 \<le> ?n + 1" "?n + 1 \<le> overflow_entries_size h" "overflow_entries_size h \<le> max_cookie_size h"
      "max_cookie_size h = MaxCookieSize" using L room by simp_all
    have "0 \<notin> set (f b)" using L(9) [OF b(1)] by auto
    then show "PS_IsEmpty (overflow_entries h' 0)" using L(2,6) last by (auto simp: ov)
  next
    fix i assume "1 \<le> i \<and> i < ?n + 1"
    then show "\<not> PS_IsEmpty (overflow_entries h' i)" using L(7) [of i] key by (auto simp: ov)
  next
    fix b' assume b': "b' < hash_size h"
    show "linked (overflow_entries h') (GetCookie (hash_entries h' b')) (?f b')"
      using own other [OF b'] L(8) [OF b'] by (auto simp: en)
    show "set (?f b') \<subseteq> {1..<?n + 1}" using L(2) L(9) [OF b'] by auto
    show "distinct (?f b')" using L(10) [OF b'] fresh [OF b'] by auto
    show "?f b' = []" if "PS_IsEmpty (hash_entries h' b')" using that L(11) [OF b'] b(2) by (auto simp: en split: if_splits)
    fix b'' assume "b'' < hash_size h" "b' \<noteq> b''"
    then show "set (?f b') \<inter> set (?f b'') = {}" using L(12) [of b' b''] b' fresh [OF b'] fresh [of b''] by auto
  qed
  moreover have "chain h' ?f = (chain h f)(b := chain h f b @ [bare key])"
  proof
    fix b'
    have "map (\<lambda>i. bare (overflow_entries h' i)) (f b') = map (\<lambda>i. bare (overflow_entries h i)) (f b')" if "b' < hash_size h"
      using fresh [OF that] by (auto simp: ov)
    then show "chain h' ?f b' = ((chain h f)(b := chain h f b @ [bare key])) b'"
      using b by (auto simp: chain_def same en ov)
  qed
  ultimately show ?thesis using push same(1) by blast
qed


definition same_config :: "MinimizationHash \<Rightarrow> MinimizationHash \<Rightarrow> bool" where
  "same_config h h' \<longleftrightarrow> hash_size h' = hash_size h \<and> hash_size_step h' = hash_size_step h \<and> rehash_limit h' = rehash_limit h
     \<and> hash_count h' = hash_count h \<and> overflow_entries_size h' = overflow_entries_size h \<and> overflow_limit h' = overflow_limit h
     \<and> max_cookie_size h' = max_cookie_size h \<and> original_hash_size_step h' = original_hash_size_step h"

lemma mh_Insert_config: "mh_Insert key h = Some h' \<Longrightarrow> same_config h h'"
  by (auto simp: mh_Insert_def push_overflow_def same_config_def Let_def split: if_splits prod.splits)

text \<open>
  The insertion appends to the chain of the bucket, unless the chain has more than \<open>overflow_limit\<close>
  overflow entries or the cookies are used up.
\<close>

definition append_entry :: "MinimizationHash \<Rightarrow> PackedState \<Rightarrow> (nat \<Rightarrow> PackedState list) \<Rightarrow> nat \<Rightarrow> PackedState list" where
  "append_entry h key C =
     (let b = entry_bucket key h
      in if C b = [] \<or> length (C b) \<le> overflow_limit h + 1 \<and> overflow_count h \<noteq> max_cookie_size h
         then C(b := C b @ [bare key]) else C)"

lemma mh_Insert_refines:
  assumes l: "layout h f" and key: "GetCookie key = 0" "\<not> PS_IsEmpty key" and ins: "mh_Insert key h = Some h'"
  shows "\<exists>f'. layout h' f' \<and> chain h' f' = append_entry h key (chain h f)"
proof -
  let ?b = "entry_bucket key h" and ?n = "overflow_count h"
  note L = layoutD [OF l]
  have b: "?b < hash_size h" using L(1) by (rule entry_bucket_less)
  note lk = L(8) [OF b]
  show ?thesis
  proof (cases "PS_IsEmpty (hash_entries h ?b)")
    case True
    then have "h' = h\<lparr>hash_entries := (hash_entries h)(?b := key)\<rparr>" using ins by (simp add: mh_Insert_def Let_def)
    with insert_empty [OF l True key b] True show ?thesis by (auto simp: append_entry_def Let_def chain_def)
  next
    case False
    then have len: "length (chain h f ?b) = Suc (length (f ?b))" using b by (simp add: chain_def)
    let ?h1 = "if f ?b = [] then h\<lparr>hash_entries := (hash_entries h)(?b := SetCookie ?n (hash_entries h ?b))\<rparr>
        else h\<lparr>overflow_entries := (overflow_entries h)
                 (last (f ?b) := SetCookie ?n (overflow_entries h (last (f ?b))))\<rparr>"
    have cookie: "GetCookie (hash_entries h ?b) = 0 \<longleftrightarrow> f ?b = []" using lk by (cases "f ?b") auto
    show ?thesis
    proof (cases "length (f ?b) \<le> overflow_limit h \<and> ?n \<noteq> max_cookie_size h")
      case True
      then have "mh_Insert key h = push_overflow key ?h1"
        using False cookie chain_end_linked(1) [OF lk, of "overflow_limit h"] by (cases "f ?b") (auto simp: mh_Insert_def Let_def)
      then have p: "push_overflow key ?h1 = Some h'" using ins by simp
      then have "?n < overflow_entries_size h" by (auto simp: push_overflow_def split: if_splits)
      from insert_overflow [OF l b False key this] p have
        "layout h' (f(?b := f ?b @ [?n]))" "chain h' (f(?b := f ?b @ [?n])) = (chain h f)(?b := chain h f ?b @ [bare key])"
        by auto
      with True len show ?thesis by (auto simp: append_entry_def Let_def)
    next
      case limit: False
      have "f ?b \<noteq> []" if "?n \<noteq> max_cookie_size h" using that limit by auto
      then have "h' = h"
        using False limit ins cookie chain_end_linked(2) [OF lk, of "overflow_limit h"]
        by (auto simp: mh_Insert_def Let_def split: prod.splits if_splits)
      with l limit len show ?thesis by (auto simp: append_entry_def Let_def)
    qed
  qed
qed

lemma mh_Insert_room:
  assumes "overflow_count h < overflow_entries_size h"
  shows "\<exists>h'. mh_Insert key h = Some h'"
  using assms by (auto simp: mh_Insert_def push_overflow_def Let_def split: prod.splits)

text \<open>All entries of a table, reachable or not, are among the given ones.\<close>

definition holds :: "PackedState set \<Rightarrow> MinimizationHash \<Rightarrow> bool" where
  "holds A h \<longleftrightarrow> (\<forall>b < hash_size h. \<not> PS_IsEmpty (hash_entries h b) \<longrightarrow> bare (hash_entries h b) \<in> A)
     \<and> (\<forall>i. 1 \<le> i \<and> i < overflow_count h \<longrightarrow> bare (overflow_entries h i) \<in> A)"

definition mh_ok :: "PackedState set \<Rightarrow> MinimizationHash \<Rightarrow> bool" where
  "mh_ok A h \<longleftrightarrow> (\<exists>f. layout h f) \<and> holds A h"

lemma holds_Insert: "holds A h \<Longrightarrow> bare key \<in> A \<Longrightarrow> mh_Insert key h = Some h' \<Longrightarrow> holds A h'"
  by (auto simp: holds_def mh_Insert_def push_overflow_def Let_def less_Suc_eq split: if_splits prod.splits)

lemma mh_ok_Insert:
  assumes "mh_ok A h" "bare key \<in> A" "GetCookie key = 0" "\<not> PS_IsEmpty key" "mh_Insert key h = Some h'"
  shows "mh_ok A h'"
  using assms holds_Insert mh_Insert_refines unfolding mh_ok_def by blast

lemma mh_ok_insert_all:
  "mh_ok A h \<Longrightarrow> bare ` set es \<subseteq> A \<Longrightarrow> \<forall>e \<in> set es. \<not> PS_IsEmpty e \<Longrightarrow> insert_all es h = Some h' \<Longrightarrow> mh_ok A h'"
proof (induction es arbitrary: h)
  case (Cons e es)
  then obtain h1 where "mh_Insert (bare e) h = Some h1" "insert_all es h1 = Some h'" by (auto simp: Option.bind_eq_Some_conv)
  with Cons mh_ok_Insert [of A h "bare e" h1] show ?case by auto
qed simp

text \<open>The sizes follow the step of the table.\<close>

definition sized :: "MinimizationHash \<Rightarrow> bool" where
  "sized h \<longleftrightarrow> hash_size_step h \<le> hash_max_size_step \<and> original_hash_size_step h \<le> hash_max_size_step
     \<and> max_cookie_size h = MaxCookieSize \<and> hash_size h = hash_size_step_table ! hash_size_step h
     \<and> overflow_entries_size h = min (hash_size h div 4) (max_cookie_size h)"

definition mh_good :: "PackedState set \<Rightarrow> MinimizationHash \<Rightarrow> bool" where
  "mh_good A h \<longleftrightarrow> mh_ok A h \<and> sized h"

lemma table_sizes:
  assumes "step \<le> hash_max_size_step"
  shows "997 \<le> hash_size_step_table ! step"
proof -
  have "length hash_size_step_table = 23" "\<forall>n \<in> set hash_size_step_table. 997 \<le> n"
    by (simp_all add: hash_size_step_table_def)
  then show ?thesis using assms by (simp add: hash_max_size_step_def)
qed

lemma layout_empty:
  assumes "997 \<le> hash_size h" "overflow_entries_size h = min (hash_size h div 4) (max_cookie_size h)"
    "max_cookie_size h = MaxCookieSize" "hash_entries h = (\<lambda>i. EmptyPackedState)" "PS_IsEmpty (overflow_entries h 0)"
    "overflow_count h = 1"
  shows "layout h (\<lambda>b. [])" "holds {} h"
  using assms by (auto simp: layout_def holds_def MaxCookieSize_def)


lemma holds_mono: "holds A h \<Longrightarrow> A \<subseteq> B \<Longrightarrow> holds B h"
  by (auto simp: holds_def)

lemma mh_good_mono: "mh_good A h \<Longrightarrow> A \<subseteq> B \<Longrightarrow> mh_good B h"
  by (auto simp: mh_good_def mh_ok_def intro: holds_mono)

lemma mh_good_empty:
  assumes "sized h" "hash_entries h = (\<lambda>i. EmptyPackedState)" "PS_IsEmpty (overflow_entries h 0)" "overflow_count h = 1"
  shows "mh_good {} h"
  using assms layout_empty [of h] table_sizes [of "hash_size_step h"] unfolding mh_good_def mh_ok_def sized_def by auto

lemma mh_good_Clear:
  assumes "original_hash_size_step h \<le> hash_max_size_step" "max_cookie_size h = MaxCookieSize"
  shows "mh_good {} (mh_Clear h)"
  using assms by (intro mh_good_empty) (simp_all add: mh_Clear_def mh_Reset_def allocate_def sized_def Let_def)

lemma mh_good_new: "mh_good {} (MinimizationHash step_size limit)"
  unfolding MinimizationHash_def by (intro mh_good_Clear) simp_all

lemma mh_good_Reset:
  assumes "mh_good A h"
  shows "mh_good {} (mh_Reset h)"
proof -
  from assms obtain f where "layout h f" by (auto simp: mh_good_def mh_ok_def)
  then have "PS_IsEmpty (overflow_entries h 0)" by (rule layoutD)
  then show ?thesis using assms by (intro mh_good_empty) (simp_all add: mh_Reset_def mh_good_def sized_def)
qed

lemma mh_good_Insert:
  assumes "mh_good A h" "bare key \<in> A" "GetCookie key = 0" "\<not> PS_IsEmpty key" "mh_Insert key h = Some h'"
  shows "mh_good A h'"
  using assms mh_ok_Insert [of A h key h'] mh_Insert_config [OF assms(5)]
  by (simp add: mh_good_def sized_def same_config_def)

lemma insert_all_config: "insert_all es h = Some h' \<Longrightarrow> same_config h h'"
proof (induction es arbitrary: h)
  case (Cons e es)
  then obtain h1 where "mh_Insert (bare e) h = Some h1" "insert_all es h1 = Some h'" by (auto simp: Option.bind_eq_Some_conv)
  with Cons.IH mh_Insert_config show ?case by (fastforce simp: same_config_def)
qed (simp add: same_config_def)

lemma mh_good_Grow:
  assumes "mh_good A h" "hash_size_step h < hash_max_size_step" "GrowAndRehash h = Some h'"
  shows "mh_good A h'" "hash_count h' = hash_count h" "hash_size_step h' = Suc (hash_size_step h)"
proof -
  let ?es = "filter (\<lambda>e. \<not> PS_IsEmpty e) (map (hash_entries h) [0..<hash_size h]) @ map (overflow_entries h) [1..<overflow_count h]"
  let ?h0 = "(allocate (h\<lparr>hash_size_step := hash_size_step h + 1\<rparr>))\<lparr>overflow_count := 1\<rparr>"
  from assms(1) obtain f where l: "layout h f" and holds: "holds A h" and sz: "sized h" by (auto simp: mh_good_def mh_ok_def)
  have "mh_good {} ?h0"
    using assms(2) sz by (intro mh_good_empty) (simp_all add: allocate_def sized_def Let_def)
  then have h0: "mh_good A ?h0" by (rule mh_good_mono) simp
  have ins: "insert_all ?es ?h0 = Some h'" using assms(3) by (simp add: GrowAndRehash_def)
  have sub: "bare ` set ?es \<subseteq> A" using holds by (auto simp: holds_def)
  have ne: "\<forall>e \<in> set ?es. \<not> PS_IsEmpty e" using layoutD(7) [OF l] by auto
  have "mh_ok A h'" using mh_ok_insert_all [OF _ sub ne ins] h0 by (simp add: mh_good_def)
  moreover have "same_config ?h0 h'" using ins by (rule insert_all_config)
  ultimately show "mh_good A h'" "hash_count h' = hash_count h" "hash_size_step h' = Suc (hash_size_step h)"
    using h0 by (simp_all add: mh_good_def sized_def same_config_def allocate_def Let_def)
qed

lemma mh_good_count [simp]: "mh_good A (h\<lparr>hash_count := n\<rparr>) = mh_good A h"
  by (simp add: mh_good_def mh_ok_def layout_def holds_def sized_def)

lemma mh_good_may_grow:
  assumes "mh_good A h" "(if c \<and> hash_size_step h < hash_max_size_step then GrowAndRehash h else Some h) = Some h'"
  shows "mh_good A h' \<and> hash_count h' = hash_count h"
proof (cases "c \<and> hash_size_step h < hash_max_size_step")
  case True
  with assms(2) have "GrowAndRehash h = Some h'" by simp
  with mh_good_Grow [OF assms(1)] True show ?thesis by blast
next
  case False
  then show ?thesis using assms by (simp only: if_False option.inject)
qed

lemma mh_good_Add:
  assumes "mh_good A h" "bare key \<in> A" "GetCookie key = 0" "\<not> PS_IsEmpty key" "mh_Add key h = Some h'"
  shows "mh_good A h'" "hash_count h' = Suc (hash_count h)"
proof -
  from assms(5) obtain h1 where h1: "mh_Insert key h = Some h1" by (auto simp: mh_Add_def Option.bind_eq_Some_conv)
  define h2 where "h2 = h1\<lparr>hash_count := hash_count h1 + 1\<rparr>"
  from assms(5) h1 obtain h3 where
    h3: "(if hash_count h2 > rehash_limit h2 \<and> hash_size_step h2 < hash_max_size_step then GrowAndRehash h2 else Some h2) = Some h3"
    and h': "(if overflow_count h3 = overflow_entries_size h3 \<and> overflow_entries_size h3 < max_cookie_size h3
           \<and> hash_size_step h3 < hash_max_size_step then GrowAndRehash h3 else Some h3) = Some h'"
    unfolding mh_Add_def h2_def Let_def by (auto simp: Option.bind_eq_Some_conv)
  from mh_good_Insert [OF assms(1-4) h1] have "mh_good A h1" .
  then have g2: "mh_good A h2" "hash_count h2 = Suc (hash_count h)" using mh_Insert_config [OF h1]
    by (simp_all add: h2_def same_config_def)
  have g3: "mh_good A h3 \<and> hash_count h3 = hash_count h2" by (rule mh_good_may_grow [OF g2(1) h3])
  have "mh_good A h' \<and> hash_count h' = hash_count h3"
    by (rule mh_good_may_grow [OF conjunct1 [OF g3] h' [folded conj_assoc]])
  then show "mh_good A h'" "hash_count h' = Suc (hash_count h)" using g2 g3 by simp_all
qed


section \<open>Lookup finds the first equal entry of a chain\<close>

lemma GetCookie_less: "GetCookie e < 8388608"
proof -
  have "unat (num_outgoing_and_cookie e AND 0xFFFFFE00) < 2 ^ 32" 
    using unsigned_less [of "num_outgoing_and_cookie e AND 0xFFFFFE00", where ?'a = nat] by simp
  then show ?thesis unfolding GetCookie_def by (simp add: unat_drop_bit_div div_less_iff_less_mult del: drop_bit_and)
qed

lemma GetCookie_SetCookie [simp]: "GetCookie (SetCookie (GetCookie e) d) = GetCookie e"
  using GetCookie_less by (rule SetCookie_fields)

lemma SetCookie_GetCookie [simp]: "SetCookie (GetCookie e) e = e"
proof -
  let ?n = "num_outgoing_and_cookie e"
  have "(?n AND 0x1FF) OR push_bit 9 (drop_bit 9 (?n AND 0xFFFFFE00)) = ?n"
    by (rule bit_word_eqI)
      (auto simp: bit_and_iff bit_or_iff bit_push_bit_iff bit_drop_bit_eq u32_masks simp del: drop_bit_and push_bit_and)
  then show ?thesis by (simp add: SetCookie_def GetCookie_def del: drop_bit_and push_bit_and)
qed

text \<open>
  What a lookup needs of its key: a hash value, and a comparison that decides equality with the entries
  of \<open>A\<close> and keeps the invariant of the key's state.
\<close>

locale key_equality =
  fixes K :: "('s, 'e) key_ops" and I :: "'s \<Rightarrow> bool" and hashcode :: u64 and same :: "PackedState \<Rightarrow> bool" and A :: "PackedState set"
  assumes hash: "I s \<Longrightarrow> \<exists>s'. key_hash K s = (hashcode, s') \<and> I s'"
    and eq: "I s \<Longrightarrow> bare e \<in> A \<Longrightarrow> \<exists>s'. key_eq K e s = Inr (same (bare e), s') \<and> I s'"
begin

lemma Get_loop_chain:
  assumes "I s" "linked ov (GetCookie e) is" "\<not> PS_IsEmpty e" "bare e \<in> A"
    "\<forall>i \<in> set is. \<not> PS_IsEmpty (ov i) \<and> bare (ov i) \<in> A"
  shows "\<exists>r s'. Get_loop K ov e s = Some (Inr (r, s')) \<and> I s'
    \<and> (case find same (bare e # map (\<lambda>i. bare (ov i)) is) of None \<Rightarrow> r = EmptyPackedState | Some x \<Rightarrow> \<not> PS_IsEmpty r \<and> bare r = x)"
  using assms
proof (induction "is" arbitrary: e s)
  case Nil
  from eq [OF Nil.prems(1,4)] obtain s' where "key_eq K e s = Inr (same (bare e), s')" "I s'" by blast
  with Nil.prems show ?case by (subst Get_loop.simps) (auto simp del: Get_loop.simps)
next
  case (Cons i "is")
  from eq [OF Cons.prems(1,4)] obtain s1 where s1: "key_eq K e s = Inr (same (bare e), s1)" "I s1" by blast
  show ?case
  proof (cases "same (bare e)")
    case True
    with s1 Cons.prems show ?thesis by (subst Get_loop.simps) simp
  next
    case False
    have i: "GetCookie e = i" "i \<noteq> 0" "linked ov (GetCookie (ov i)) is" using Cons.prems(2) by auto
    have "Get_loop K ov e s = Get_loop K ov (ov i) s1"
      by (subst Get_loop.simps) (use False s1(1) i Cons.prems(3) in simp)
    with Cons.IH [OF s1(2) i(3)] Cons.prems(5) False show ?thesis by simp
  qed
qed

lemma mh_Get_exact:
  assumes "layout h f" "holds A h" "I s"
  shows "\<exists>r s'. mh_Get K h s = Some (Inr (r, s')) \<and> I s'
    \<and> (case find same (chain h f (key_bucket hashcode h)) of None \<Rightarrow> r = EmptyPackedState | Some x \<Rightarrow> \<not> PS_IsEmpty r \<and> bare r = x)"
proof -
  let ?b = "key_bucket hashcode h"
  note L = layoutD [OF assms(1)]
  have b: "?b < hash_size h" using L(1) by (simp add: key_bucket_def)
  from hash [OF assms(3)] obtain s1 where s1: "key_hash K s = (hashcode, s1)" "I s1" by blast
  then have g: "mh_Get K h s = Get_loop K (overflow_entries h) (hash_entries h ?b) s1" by (simp add: mh_Get_def)
  show ?thesis
  proof (cases "PS_IsEmpty (hash_entries h ?b)")
    case True
    with g s1 show ?thesis by (subst (asm) Get_loop.simps) (simp add: chain_def)
  next
    case False
    have "\<forall>i \<in> set (f ?b). \<not> PS_IsEmpty (overflow_entries h i) \<and> bare (overflow_entries h i) \<in> A"
      using L(7) L(9) [OF b] assms(2) by (auto simp: holds_def)
    with Get_loop_chain [OF s1(2) L(8) [OF b] False] False b assms(2) g show ?thesis by (auto simp: chain_def holds_def)
  qed
qed

lemma Move_loop_chain:
  assumes "I s" "linked ov c is" "PS_IsEmpty (ov 0)" "\<forall>i \<in> set is. \<not> PS_IsEmpty (ov i) \<and> bare (ov i) \<in> A"
  shows "\<exists>r s'. Move_loop K ov c s = Some (Inr (r, s')) \<and> I s'
    \<and> (\<forall>i. r = Some i \<longrightarrow> i \<in> set is \<and> same (bare (ov i)))"
  using assms
proof (induction "is" arbitrary: c s)
  case Nil
  then show ?case by (subst Move_loop.simps) simp
next
  case (Cons i "is")
  then have i: "c = i" "linked ov (GetCookie (ov i)) is" "bare (ov i) \<in> A" "\<not> PS_IsEmpty (ov i)" by auto
  from eq [OF Cons.prems(1) i(3)] obtain s1 where s1: "key_eq K (ov i) s = Inr (same (bare (ov i)), s1)" "I s1" by blast
  show ?case
  proof (cases "same (bare (ov i))")
    case True
    with s1 i show ?thesis by (subst Move_loop.simps) simp
  next
    case False
    have "Move_loop K ov c s = Move_loop K ov (GetCookie (ov i)) s1"
      by (subst Move_loop.simps) (use False s1(1) i in simp)
    with Cons.IH [OF s1(2) i(2) Cons.prems(3)] Cons.prems(4) show ?thesis by fastforce
  qed
qed

end


section \<open>Moving entries between generations\<close>

lemma mh_goodD:
  assumes "mh_good A h"
  shows "PS_IsEmpty (overflow_entries h 0)" "0 < hash_size h"
    "b < hash_size h \<Longrightarrow> \<not> PS_IsEmpty (hash_entries h b) \<Longrightarrow> bare (hash_entries h b) \<in> A"
    "b < hash_size h \<Longrightarrow> \<exists>is. linked (overflow_entries h) (GetCookie (hash_entries h b)) is
      \<and> (\<forall>i \<in> set is. \<not> PS_IsEmpty (overflow_entries h i) \<and> bare (overflow_entries h i) \<in> A)"
proof -
  from assms obtain f where l: "layout h f" and holds: "holds A h" by (auto simp: mh_good_def mh_ok_def)
  note L = layoutD [OF l]
  show "PS_IsEmpty (overflow_entries h 0)" "0 < hash_size h" using L by simp_all
  show "b < hash_size h \<Longrightarrow> \<not> PS_IsEmpty (hash_entries h b) \<Longrightarrow> bare (hash_entries h b) \<in> A"
    using holds by (simp add: holds_def)
  assume b: "b < hash_size h"
  have "\<forall>i \<in> set (f b). \<not> PS_IsEmpty (overflow_entries h i) \<and> bare (overflow_entries h i) \<in> A"
    using L(7) L(9) [OF b] holds by (auto simp: holds_def)
  with L(8) [OF b] show "\<exists>is. linked (overflow_entries h) (GetCookie (hash_entries h b)) is
      \<and> (\<forall>i \<in> set is. \<not> PS_IsEmpty (overflow_entries h i) \<and> bare (overflow_entries h i) \<in> A)" by blast
qed

lemma mh_good_unlink:
  assumes "mh_good A h" "b < hash_size h" "GetCookie (hash_entries h b) \<noteq> 0" "\<not> PS_IsEmpty e" "bare e \<in> A"
    "GetCookie e = GetCookie (overflow_entries h (GetCookie (hash_entries h b)))"
  shows "mh_good A (h\<lparr>hash_entries := (hash_entries h)(b := e)\<rparr>)"
proof -
  from assms(1) obtain f where l: "layout h f" and holds: "holds A h" and sz: "sized h" by (auto simp: mh_good_def mh_ok_def)
  note L = layoutD [OF l]
  from L(8) [OF assms(2)] assms(3) obtain i "is" where fb: "f b = i # is" "GetCookie (hash_entries h b) = i"
    "linked (overflow_entries h) (GetCookie (overflow_entries h i)) is" by (cases "f b") auto
  have "layout (h\<lparr>hash_entries := (hash_entries h)(b := e)\<rparr>) (f(b := is))"
    unfolding layout_def
  proof (intro conjI allI impI)
    fix b' assume b': "b' < hash_size (h\<lparr>hash_entries := (hash_entries h)(b := e)\<rparr>)"
    then show "linked (overflow_entries (h\<lparr>hash_entries := (hash_entries h)(b := e)\<rparr>))
        (GetCookie (hash_entries (h\<lparr>hash_entries := (hash_entries h)(b := e)\<rparr>) b')) ((f(b := is)) b')"
      "set ((f(b := is)) b') \<subseteq> {1..<overflow_count (h\<lparr>hash_entries := (hash_entries h)(b := e)\<rparr>)}"
      "distinct ((f(b := is)) b')"
      using L(8) [of b'] L(9,10) [of b'] fb assms(6) by auto
    show "(f(b := is)) b' = []" if "PS_IsEmpty (hash_entries (h\<lparr>hash_entries := (hash_entries h)(b := e)\<rparr>) b')"
      using that b' L(11) [of b'] assms(4) by (auto split: if_splits)
    fix b'' assume "b'' < hash_size (h\<lparr>hash_entries := (hash_entries h)(b := e)\<rparr>)" "b' \<noteq> b''"
    then show "set ((f(b := is)) b') \<inter> set ((f(b := is)) b'') = {}"
      using b' L(12) [of b' b''] fb(1) by auto
  qed (use L in simp_all)
  moreover have "holds A (h\<lparr>hash_entries := (hash_entries h)(b := e)\<rparr>)"
    using holds assms(5) by (simp add: holds_def)
  ultimately show ?thesis using sz by (auto simp: mh_good_def mh_ok_def sized_def)
qed

definition moved_fine ::
  "PackedState set \<Rightarrow> ('s \<Rightarrow> bool) \<Rightarrow> (PackedState \<Rightarrow> bool) \<Rightarrow>
   ('e option + PackedState \<times> MinimizationHash \<times> MinimizationHash \<times> 's) option \<Rightarrow> bool" where
  "moved_fine A I same x \<longleftrightarrow> x = Some (Inl None) \<or> (\<exists>r h' other' s'. x = Some (Inr (r, h', other', s')) \<and> mh_good A h' \<and> mh_good A other'
     \<and> I s' \<and> (PS_IsEmpty r \<or> bare r \<in> A \<and> same (bare r)))"

context key_equality begin

lemma fine_none: "mh_good A h \<Longrightarrow> mh_good A other \<Longrightarrow> I s \<Longrightarrow> moved_fine A I same (Some (Inr (EmptyPackedState, h, other, s)))"
  by (auto simp: moved_fine_def)

lemma fine_moved:
  assumes "mh_good A h" "mh_good A other" "I s" "bare entry \<in> A" "\<not> PS_IsEmpty entry" "same (bare entry)"
  shows "moved_fine A I same (moved entry other s h)"
proof (cases "mh_Add (bare entry) other")
  case (Some other')
  with assms mh_good_Add(1) [OF assms(2), of "bare entry" other'] show ?thesis by (auto simp: moved_fine_def moved_def)
qed (simp add: moved_fine_def moved_def)

lemma GetAndMove_fine:
  assumes h: "mh_good A h" and other: "mh_good A other" and "I s"
  shows "moved_fine A I same (GetAndMove K h other s)"
proof -
  let ?b = "key_bucket hashcode h" and ?ov = "overflow_entries h"
  let ?e = "hash_entries h ?b"
  note H = mh_goodD [OF h]
  have b: "?b < hash_size h" using H(2) by (simp add: key_bucket_def)
  from hash [OF assms(3)] obtain s0 where s0: "key_hash K s = (hashcode, s0)" "I s0" by blast
  from H(4) [OF b] obtain "is" where ch: "linked ?ov (GetCookie ?e) is"
    "\<forall>i \<in> set is. \<not> PS_IsEmpty (?ov i) \<and> bare (?ov i) \<in> A" by blast
  show ?thesis
  proof (cases "PS_IsEmpty ?e")
    case True
    with s0 h other show ?thesis by (simp add: GetAndMove_def Let_def fine_none)
  next
    case ne: False
    note eA = H(3) [OF b ne]
    from eq [OF s0(2) eA] obtain s1 where s1: "key_eq K ?e s0 = Inr (same (bare ?e), s1)" "I s1" by blast
    note [simp] = s0(1) s1(1) ne
    show ?thesis
    proof (cases "is")
      case Nil
      then have "GetCookie ?e = 0" using ch(1) by simp
      then show ?thesis using fine_moved [OF h other s1(2) eA ne] fine_none [OF h other s1(2)]
        by (cases "same (bare ?e)") (simp_all add: GetAndMove_def Let_def)
    next
      case (Cons i "is'")
      then have i: "GetCookie ?e = i" "i \<noteq> 0" "linked ?ov (GetCookie (?ov i)) is'" "\<not> PS_IsEmpty (?ov i)" "bare (?ov i) \<in> A"
        using ch by auto
      have un: "mh_good A (h\<lparr>hash_entries := (hash_entries h)(?b := e)\<rparr>)"
        if "\<not> PS_IsEmpty e" "bare e \<in> A" "GetCookie e = GetCookie (?ov i)" for e
        using mh_good_unlink [OF h b] i that by simp
      from eq [OF s1(2) i(5)] obtain s2 where s2: "key_eq K (?ov i) s1 = Inr (same (bare (?ov i)), s2)" "I s2" by blast
      show ?thesis
      proof (cases "same (bare ?e)")
        case True
        then show ?thesis using i fine_moved [OF un [OF i(4,5) refl] other s1(2) eA ne] by (simp add: GetAndMove_def Let_def)
      next
        case no: False
        show ?thesis
        proof (cases "same (bare (?ov i))")
          case True
          then show ?thesis using no i s2(1) ne eA
              fine_moved [OF un [of "SetCookie (GetCookie (?ov i)) ?e"] other s2(2) i(5,4)] by (simp add: GetAndMove_def Let_def)
        next
          case False
          from Move_loop_chain [OF s2(2) i(3) H(1)] ch(2) Cons obtain r s3 where
            s3: "Move_loop K ?ov (GetCookie (?ov i)) s2 = Some (Inr (r, s3))" "I s3"
            "\<forall>j. r = Some j \<longrightarrow> j \<in> set is' \<and> same (bare (?ov j))" by auto
          show ?thesis
          proof (cases r)
            case None
            then show ?thesis using no False i s2(1) s3(1) fine_none [OF h other s3(2)] by (simp add: GetAndMove_def Let_def)
          next
            case (Some j)
            with s3(3) ch(2) Cons have "bare (?ov j) \<in> A" "\<not> PS_IsEmpty (?ov j)" "same (bare (?ov j))" by auto
            from fine_moved [OF h other s3(2) this] Some no False i s2(1) s3(1) show ?thesis by (simp add: GetAndMove_def Let_def)
          qed
        qed
      qed
    qed
  qed
qed

end

section \<open>The cache only returns what was added\<close>

definition lru_good :: "PackedState set \<Rightarrow> lru_cache \<Rightarrow> bool" where
  "lru_good A c \<longleftrightarrow> mh_good A (current_generation c) \<and> (\<forall>g \<in> set (generations c). mh_good A g)"

lemma lru_good_new: "lru_good A (LRU n m)" "LRU_with_limit limit = Inr c \<Longrightarrow> lru_good A c"
  using mh_good_mono [OF mh_good_new, of A 3 8]
  by (auto simp: lru_good_def LRU_def LRU_with_limit_def new_generation_def bind_sum_Inr_iff)

lemma lru_good_mono: "lru_good A c \<Longrightarrow> A \<subseteq> B \<Longrightarrow> lru_good B c"
  by (auto simp: lru_good_def intro: mh_good_mono)

lemma lru_good_Clear: "lru_good A c \<Longrightarrow> lru_good {} (LRU_Clear c)"
  using mh_good_Clear [of "current_generation c"] by (simp add: lru_good_def LRU_Clear_def mh_good_def sized_def)

lemma lru_good_next:
  assumes "lru_good A c" "next_generation c = Some c'"
  shows "lru_good A c'"
  using assms mh_good_mono [OF mh_good_new, of A 3 8] mh_good_mono [OF mh_good_Reset, of A _ A]
  by (auto simp: lru_good_def next_generation_def new_generation_def split: if_splits list.splits)

lemma lru_good_Add:
  assumes "lru_good A c" "bare key \<in> A" "GetCookie key = 0" "\<not> PS_IsEmpty key" "LRU_Add key c = Some c'"
  shows "lru_good A c'"
proof -
  from assms(5) obtain c1 g where c1: "(if hash_count (current_generation c) \<ge> size_per_generation c then next_generation c else Some c) = Some c1"
    and g: "mh_Add key (current_generation c1) = Some g" "c' = c1\<lparr>current_generation := g\<rparr>"
    by (auto simp: LRU_Add_def Option.bind_eq_Some_conv)
  have "lru_good A c1" using c1 assms(1) lru_good_next by (auto split: if_splits)
  with g mh_good_Add(1) [OF _ assms(2-4) g(1)] show ?thesis by (auto simp: lru_good_def)
qed

context key_equality begin

lemma LRU_Get_loop_fine:
  assumes "lru_good A c" "I s" "i \<le> length (generations c)"
  shows "LRU_Get_loop K i c s = Some (Inl None) \<or>
    (\<exists>r c' s'. LRU_Get_loop K i c s = Some (Inr (r, c', s')) \<and> lru_good A c' \<and> I s' \<and> (PS_IsEmpty r \<or> bare r \<in> A \<and> same (bare r)))"
  using assms
proof (induction i arbitrary: c s)
  case (Suc i)
  then have g: "mh_good A (generations c ! i)" "mh_good A (current_generation c)" by (auto simp: lru_good_def)
  from GetAndMove_fine [OF g Suc.prems(2)] consider "GetAndMove K (generations c ! i) (current_generation c) s = Some (Inl None)"
    | r h' other' s' where "GetAndMove K (generations c ! i) (current_generation c) s = Some (Inr (r, h', other', s'))"
      "mh_good A h'" "mh_good A other'" "I s'" "PS_IsEmpty r \<or> bare r \<in> A \<and> same (bare r)" unfolding moved_fine_def by blast
  then show ?case
  proof cases
    case 2
    let ?c = "c\<lparr>generations := (generations c)[i := h'], current_generation := other'\<rparr>"
    have c: "lru_good A ?c" using 2 Suc.prems(1) by (auto simp: lru_good_def dest: set_update_subset_insert [THEN subsetD])
    show ?thesis
    proof (cases "PS_IsEmpty r")
      case True
      with 2(1) have "LRU_Get_loop K (Suc i) c s = LRU_Get_loop K i ?c s'" by simp
      with Suc.IH [OF c 2(4)] Suc.prems(3) show ?thesis by simp
    qed (use 2 c in auto)
  qed simp
qed simp

lemma LRU_Get_fine:
  assumes "lru_good A c" "I s"
  shows "LRU_Get K c s = Some (Inl None) \<or>
    (\<exists>r c' s'. LRU_Get K c s = Some (Inr (r, c', s')) \<and> lru_good A c' \<and> I s' \<and> (PS_IsEmpty r \<or> bare r \<in> A \<and> same (bare r)))"
proof -
  from assms(1) obtain f where l: "layout (current_generation c) f" and holds: "holds A (current_generation c)"
    by (auto simp: lru_good_def mh_good_def mh_ok_def)
  from mh_Get_exact [OF l holds assms(2)] obtain r s1 where r: "mh_Get K (current_generation c) s = Some (Inr (r, s1))" "I s1"
    "case find same (chain (current_generation c) f (key_bucket hashcode (current_generation c))) of
       None \<Rightarrow> r = EmptyPackedState | Some x \<Rightarrow> \<not> PS_IsEmpty r \<and> bare r = x" by blast
  have sub: "set (chain (current_generation c) f b) \<subseteq> A" for b
  proof (cases "b < hash_size (current_generation c)")
    case True
    from layoutD(9) [OF l this] holds show ?thesis by (auto simp: chain_def holds_def subset_iff)
  qed (simp add: chain_def)
  show ?thesis
  proof (cases "PS_IsEmpty r")
    case True
    with r(1) have "LRU_Get K c s = LRU_Get_loop K (length (generations c)) c s1" by (simp add: LRU_Get_def)
    with LRU_Get_loop_fine [OF assms(1) r(2)] show ?thesis by simp
  next
    case False
    with r(3) have "find same (chain (current_generation c) f (key_bucket hashcode (current_generation c))) = Some (bare r)"
      by (auto split: option.splits)
    then have "bare r \<in> A \<and> same (bare r)" using sub by (metis find_Some_iff nth_mem subsetD)
    with False r assms(1) show ?thesis by (simp add: LRU_Get_def)
  qed
qed

end


section \<open>Unpacked states as keys\<close>

definition US_ops :: "fs \<Rightarrow> (UnpackedState \<times> persistence, mm_error) key_ops" where
  "US_ops fs = \<lparr>key_hash = (\<lambda>(s, p). let (h, s1) = GetHashcode s in (h, s1, p)), key_eq = US_equals fs\<rparr>"

text \<open>
  The entries of \<open>A\<close> stand for states in the array with transitions \<open>tr\<close> and weights \<open>wt\<close>; the key has
  transitions \<open>ts\<close> in the order of the generator and weight \<open>w\<close>.
\<close>

definition represented ::
  "PackedState set \<Rightarrow> (PackedState \<Rightarrow> (nat \<times> u64) list) \<Rightarrow> (PackedState \<Rightarrow> u32) \<Rightarrow> persistence \<Rightarrow> bool" where
  "represented A tr wt p \<longleftrightarrow> (\<forall>e \<in> A. state_stored p (unat (ps_offset e)) (tr e)
     \<and> ps_hashcode e = ucast (state_hash (tr e) (wt e)) \<and> GetNumberOfOutgoingTransitions e = length (tr e))"

definition key_state :: "(nat \<times> u64) list \<Rightarrow> u32 \<Rightarrow> UnpackedState \<Rightarrow> bool" where
  "key_state ts w s \<longleftrightarrow> hash_ok s \<and> outgoing_transitions s = ts \<and> us_weight s = w
     \<and> canonical ts \<and> (\<forall>(n, v) \<in> set ts. n \<le> 256)"

definition same_as :: "(nat \<times> u64) list \<Rightarrow> u32 \<Rightarrow> (PackedState \<Rightarrow> (nat \<times> u64) list) \<Rightarrow> PackedState \<Rightarrow> bool" where
  "same_as ts w tr e \<longleftrightarrow> ts = tr e \<and> ps_hashcode e = ucast (state_hash ts w)"

lemma same_view_refl: "sap_invar p \<Longrightarrow> same_view p p"
  by (simp add: same_view_def)

lemma represented_view: "same_view p p' \<Longrightarrow> represented A tr wt p' = represented A tr wt p"
  by (simp add: represented_def state_stored_view)

lemma key_state_hashed:
  assumes "key_state ts w s"
  shows "key_state ts w (snd (GetHashcode s))" "fst (GetHashcode s) = state_hash ts w"
  using GetHashcode_ok [of s] assms by (simp_all add: key_state_def)

interpretation us: key_equality "US_ops no_failure"
  "\<lambda>(s, p). key_state ts w s \<and> same_view p0 p \<and> represented A tr wt p" "state_hash ts w" "same_as ts w tr" A
  for ts w tr wt A p0
proof (unfold_locales, goal_cases)
  case (1 x)
  then obtain s p where x: "x = (s, p)" "key_state ts w s" "same_view p0 p" "represented A tr wt p" by (cases x) simp
  with key_state_hashed [OF x(2)] show ?case by (cases "GetHashcode s") (simp add: US_ops_def)
next
  case (2 x e)
  then obtain s p where x: "x = (s, p)" "key_state ts w s" "same_view p0 p" "represented A tr wt p" by (cases x) simp
  from x(4) 2(2) have e: "state_stored p (unat (ps_offset e)) (tr (bare e))"
    "ps_hashcode e = ucast (state_hash (tr (bare e)) (wt (bare e)))" "GetNumberOfOutgoingTransitions e = length (tr (bare e))"
    by (auto simp: represented_def)
  have "\<exists>p'. US_equals no_failure e (s, p) = Inr (outgoing_transitions s = tr (bare e) \<and>
      (ucast (state_hash (tr (bare e)) (us_weight s)) :: u32) = ucast (state_hash (tr (bare e)) (wt (bare e))), snd (GetHashcode s), p')
      \<and> same_view p p'"
    using x(2) by (intro US_equals_exact [OF same_view_simps(1) [OF x(3)] e]) (simp_all add: key_state_def)
  moreover have "same_as ts w tr (bare e) \<longleftrightarrow> outgoing_transitions s = tr (bare e) \<and>
      (ucast (state_hash (tr (bare e)) (us_weight s)) :: u32) = ucast (state_hash (tr (bare e)) (wt (bare e)))"
    using x(2) e(2) by (auto simp: same_as_def key_state_def)
  ultimately obtain p' where p': "US_equals no_failure e (s, p) = Inr (same_as ts w tr (bare e), snd (GetHashcode s), p')" "same_view p p'"
    by auto
  then show ?case
    using x key_state_hashed(1) [OF x(2)] same_view_trans [OF x(3)] represented_view by (auto simp: US_ops_def)
qed

text \<open>Histories of a cache: the set collects the entries that were added since it was cleared.\<close>

inductive lru_history :: "PackedState set \<Rightarrow> lru_cache \<Rightarrow> bool" where
  new: "lru_history {} (LRU n m)"
| limited: "LRU_with_limit limit = Inr c \<Longrightarrow> lru_history {} c"
| added: "lru_history A c \<Longrightarrow> GetCookie key = 0 \<Longrightarrow> \<not> PS_IsEmpty key \<Longrightarrow> LRU_Add key c = Some c' \<Longrightarrow>
    lru_history (insert (bare key) A) c'"
| looked_up: "lru_history A c \<Longrightarrow> key_state ts w s \<Longrightarrow> sap_invar p \<Longrightarrow> represented A tr wt p \<Longrightarrow>
    LRU_Get (US_ops no_failure) c (s, p) = Some (Inr (r, c', sp)) \<Longrightarrow> lru_history A c'"
| cleared: "lru_history A c \<Longrightarrow> lru_history {} (LRU_Clear c)"

lemma lru_lookup:
  assumes "lru_good A c" "key_state ts w s" "sap_invar p" "represented A tr wt p"
  shows "LRU_Get (US_ops no_failure) c (s, p) = Some (Inl None)
    \<or> (\<exists>r c' s' p'. LRU_Get (US_ops no_failure) c (s, p) = Some (Inr (r, c', s', p')) \<and> lru_good A c' \<and> key_state ts w s' \<and> same_view p p'
       \<and> (PS_IsEmpty r \<or> bare r \<in> A \<and> same_as ts w tr (bare r)))"
  using us.LRU_Get_fine [where A = A and c = c and s = "(s, p)" and ?p0.0 = p and ts = ts and w = w and tr = tr and wt = wt]
    assms same_view_refl by fastforce

lemma lru_history_good: "lru_history A c \<Longrightarrow> lru_good A c"
proof (induction rule: lru_history.induct)
  case (added A c key c')
  then show ?case by (intro lru_good_Add [OF lru_good_mono [OF added.IH]]) auto
next
  case (looked_up A c ts w s p tr wt r c' sp)
  from lru_lookup [OF looked_up.IH looked_up.hyps(2-4)] looked_up.hyps(5) show ?case by auto
qed (auto intro: lru_good_new lru_good_Clear)

text \<open>The 64-bit hash of a key and the 32-bit hash of its entry choose the same bucket.\<close>

lemma key_bucket_entry:
  assumes "ps_hashcode key = ucast hashcode"
  shows "key_bucket hashcode h = entry_bucket key h"
proof -
  have m: "(0x7fffffff :: u64) = mask 31" "(0x7fffffff :: u32) = mask 31" by (simp_all add: mask_eq_exp_minus_1)
  have "unat (hashcode AND 0x7fffffff) = unat ((ucast hashcode :: u32) AND 0x7fffffff)"
    unfolding m take_bit_eq_mask [symmetric] unsigned_take_bit_eq by (simp add: unsigned_ucast_eq)
  then show ?thesis using assms by (simp add: key_bucket_def entry_bucket_def)
qed

lemma mh_Add_room:
  assumes l: "layout h f" and key: "GetCookie key = 0" "\<not> PS_IsEmpty key"
    and room: "hash_count h < rehash_limit h" "overflow_count h + 1 < overflow_entries_size h"
    and len: "length (chain h f (entry_bucket key h)) \<le> overflow_limit h + 1"
  shows "\<exists>h' f'. mh_Add key h = Some h' \<and> layout h' f' \<and> hash_size h' = hash_size h
    \<and> chain h' f' (entry_bucket key h) = chain h f (entry_bucket key h) @ [bare key] \<and> (holds A h \<longrightarrow> holds (insert (bare key) A) h')"
proof -
  from mh_Insert_room [of h key] room obtain h1 where h1: "mh_Insert key h = Some h1" by auto
  then have c: "same_config h h1" by (rule mh_Insert_config)
  have grow: "overflow_count h1 \<le> overflow_count h + 1"
    using h1 by (auto simp: mh_Insert_def push_overflow_def Let_def split: if_splits prod.splits)
  from mh_Insert_refines [OF l key h1] obtain f' where f': "layout h1 f'" "chain h1 f' = append_entry h key (chain h f)" by blast
  define h' where "h' = h1\<lparr>hash_count := hash_count h1 + 1\<rparr>"
  have "mh_Add key h = Some h'"
    using h1 c grow room by (simp add: mh_Add_def h'_def same_config_def Let_def)
  moreover have "layout h' f'" "chain h' f' = chain h1 f'" using f'(1) by (simp_all add: h'_def layout_def chain_def fun_eq_iff)
  moreover have "holds (insert (bare key) A) h'" if "holds A h"
    using holds_Insert [OF holds_mono [OF that] _ h1, of "insert (bare key) A"] by (auto simp: h'_def holds_def)
  moreover have "overflow_count h \<noteq> max_cookie_size h" using layoutD(4) [OF l] room(2) by simp
  ultimately show ?thesis using f'(2) len c by (auto simp: append_entry_def Let_def h'_def same_config_def)
qed

section \<open>The memory configuration\<close>

lemma load_limits:
  "map load_limit hash_size_step_table =
    [598, 1217, 2447, 4902, 9817, 19649, 39311, 78624, 157276, 314561, 629135, 1258279, 2516572, 5033152, 10066320,
     20132636, 40265304, 80530616, 161061248, 322122528, 644245056, 1288490240, 2576980480]"
  by (simp add: hash_size_step_table_def load_limit_def float_round_def bit_length.simps Let_def)

lemma find_step_result:
  assumes "\<exists>step \<in> {k..<m}. limit < item_forecast step * sizeof_PackedState * i"
  shows "\<exists>step \<in> {k..<m}. find_step limit i [k..<m] = hash_size_step_table ! (step - 1)
    \<and> (k < step \<longrightarrow> item_forecast (step - 1) * sizeof_PackedState * i \<le> limit)
    \<and> (\<forall>j \<in> {k..<m}. limit < item_forecast j * sizeof_PackedState * i \<longrightarrow> step \<le> j)"
  using assms
proof (induction "m - k" arbitrary: k)
  case (Suc n)
  then have k: "k < m" by simp
  show ?case
  proof (cases "limit < item_forecast k * sizeof_PackedState * i")
    case True
    then show ?thesis using k by (intro bexI [of _ k]) (auto simp: upt_conv_Cons)
  next
    case False
    have "\<exists>step \<in> {Suc k..<m}. limit < item_forecast step * sizeof_PackedState * i"
      using Suc.prems False by (metis Suc_leI atLeastLessThan_iff le_neq_implies_less)
    moreover have "n = m - Suc k" using Suc.hyps(2) by simp
    ultimately obtain step where step: "step \<in> {Suc k..<m}"
      "find_step limit i [Suc k..<m] = hash_size_step_table ! (step - 1)"
      "Suc k < step \<longrightarrow> item_forecast (step - 1) * sizeof_PackedState * i \<le> limit"
      "\<forall>j \<in> {Suc k..<m}. limit < item_forecast j * sizeof_PackedState * i \<longrightarrow> step \<le> j"
      using Suc.hyps(1) by blast
    have "find_step limit i [k..<m] = hash_size_step_table ! (step - 1)"
      using k False step(2) by (simp add: upt_conv_Cons)
    moreover have "item_forecast (step - 1) * sizeof_PackedState * i \<le> limit"
      using step(1,3) False by (cases "step = Suc k") auto
    moreover have "step \<le> j" if "j \<in> {k..<m}" "limit < item_forecast j * sizeof_PackedState * i" for j
      using that step(4) False by (metis Suc_leI atLeastLessThan_iff le_neq_implies_less)
    ultimately show ?thesis using step(1) by (intro bexI [of _ step]) auto
  qed
qed simp

text \<open>Up to step 15 a quarter of the buckets can be addressed by cookies.\<close>

lemma table_quarter:
  assumes "1 \<le> step" "step \<le> 15"
  shows "memory_of (hash_size_step_table ! step) i = item_forecast step * sizeof_PackedState * i"
    "2029 \<le> hash_size_step_table ! step" "0 < load_limit (hash_size_step_table ! step)"
proof -
  have len: "length hash_size_step_table = 23" by (simp add: hash_size_step_table_def)
  have "\<forall>n \<in> set (take 15 (drop 1 hash_size_step_table)). 2029 \<le> n \<and> n div 4 \<le> MaxCookieSize"
    by (simp add: hash_size_step_table_def MaxCookieSize_def)
  moreover have "hash_size_step_table ! step = take 15 (drop 1 hash_size_step_table) ! (step - 1)"
    using assms len by simp
  moreover have "step - 1 < length (take 15 (drop 1 hash_size_step_table))" using assms len by simp
  ultimately have n: "2029 \<le> hash_size_step_table ! step" "hash_size_step_table ! step div 4 \<le> MaxCookieSize"
    using nth_mem by metis+
  then show "memory_of (hash_size_step_table ! step) i = item_forecast step * sizeof_PackedState * i"
    "2029 \<le> hash_size_step_table ! step" by (simp_all add: memory_of_def item_forecast_def Let_def min_absorb1)
  have "\<forall>n \<in> set (map load_limit hash_size_step_table). 0 < n" unfolding load_limits by simp
  then show "0 < load_limit (hash_size_step_table ! step)" using assms len by simp
qed

lemma fit_step_usage:
  assumes "182592 \<le> limit" "limit < 2717907948" "3 \<le> i" "i \<le> 6" "best_fit_memory_limit best \<le> limit"
    "best_fit_memory_limit best = 0 \<or> 0 < best_fit_maximum_number_of_items_per_table best"
  shows "best_fit_memory_limit (fit_step limit i best) \<le> limit" "0 < best_fit_maximum_number_of_items_per_table (fit_step limit i best)"
    "0 < best_fit_memory_limit (fit_step limit i best)"
proof -
  have f16: "item_forecast 16 = 75497443" "item_forecast 1 = 2536" by (simp_all add: item_forecast_def hash_size_step_table_def MaxCookieSize_def)
  have "limit < item_forecast 16 * sizeof_PackedState * i" using assms(2,3) f16 by (simp add: sizeof_PackedState_def)
  moreover have "16 \<in> {2..<22 :: nat}" by simp
  ultimately obtain step where step: "step \<in> {2..<22}" "find_step limit i [2..<22] = hash_size_step_table ! (step - 1)"
    "2 < step \<longrightarrow> item_forecast (step - 1) * sizeof_PackedState * i \<le> limit" "step \<le> 16"
    using find_step_result [of 2 22 limit i] by blast
  let ?n = "hash_size_step_table ! (step - 1)"
  have t: "memory_of ?n i = item_forecast (step - 1) * sizeof_PackedState * i" "2029 \<le> ?n" "0 < load_limit ?n"
    using table_quarter [of "step - 1"] step by auto
  have usage: "memory_of ?n i \<le> limit"
  proof (cases "2 < step")
    case False
    then have "step - 1 = 1" using step(1) by auto
    with t(1) f16 assms(1,4) show ?thesis by (simp add: sizeof_PackedState_def)
  qed (use step(3) t(1) in simp)
  have pos: "0 < memory_of ?n i" using t(2) assms(3) by (simp add: memory_of_def sizeof_PackedState_def)
  show "best_fit_memory_limit (fit_step limit i best) \<le> limit" "0 < best_fit_maximum_number_of_items_per_table (fit_step limit i best)"
    "0 < best_fit_memory_limit (fit_step limit i best)"
    using usage pos t(3) assms(5,6) step(2) by (auto simp: fit_step_def hash_min_size_step_def hash_max_size_step_def numeral_2_eq_2 Let_def)
qed

section \<open>An example\<close>

definition example_entry :: PackedState where
  "example_entry = PackedState 293 (ucast (state_hash [(7, 803)] 0)) 1"

lemma example_entry_fields:
  "ps_offset example_entry = 293" "ps_hashcode example_entry = ucast (state_hash [(7, 803)] 0)" "GetCookie example_entry = 0"
  "GetNumberOfOutgoingTransitions example_entry = 1" "\<not> PS_IsEmpty example_entry"
  using PackedState_fields [of 1 293] by (simp_all add: example_entry_def PS_IsEmpty_def)

lemma example_represented:
  "\<exists>p. sap_invar p \<and> represented {bare example_entry} (\<lambda>e. [(7, 803)]) (\<lambda>e. 0) p"
proof -
  from stored_example obtain p L V where p: "sap_run p L V" "state_stored p 293 [(7, 803)]" by blast
  then have "sap_invar p" using sap_run_invar by blast
  with p(2) show ?thesis by (auto simp: represented_def example_entry_fields)
qed

lemma example_key: "key_state [(7, 803)] 0 (US_Add 7 803 UnpackedState)"
  by (simp add: key_state_def hash_ok_def US_Add_def UnpackedState_def canonical_def)

lemma example_table:
  "layout new_generation (\<lambda>b. [])" "holds {} new_generation" "hash_count new_generation = 0" "overflow_count new_generation = 1"
  "rehash_limit new_generation = 4902" "overflow_entries_size new_generation = 2042" "overflow_limit new_generation = 8"
  "chain new_generation (\<lambda>b. []) b = []"
proof -
  have size: "hash_size_step_table ! 3 = 8171" by (simp add: hash_size_step_table_def)
  have "load_limit (hash_size_step_table ! 3) = map load_limit hash_size_step_table ! 3" by (simp add: hash_size_step_table_def)
  then have lim: "load_limit 8171 = 4902" unfolding load_limits size by simp
  note fields = new_generation_def MinimizationHash_def mh_Clear_def mh_Reset_def allocate_def Let_def hash_max_size_step_def
    MaxCookieSize_def
  show "layout new_generation (\<lambda>b. [])" "holds {} new_generation" by (rule layout_empty; simp add: fields size)+
  show "hash_count new_generation = 0" "overflow_count new_generation = 1" "rehash_limit new_generation = 4902"
    "overflow_entries_size new_generation = 2042" "overflow_limit new_generation = 8" "chain new_generation (\<lambda>b. []) b = []"
    by (simp_all add: fields size lim chain_def)
qed

section \<open>Properties\<close>

text \<open>
  C27: minimization is sound.  Whatever was added to the cache of written states, moved between its
  generations and looked up before, a lookup of an unpacked state ends, and what it finds was added and
  stands for a state in the array with exactly the same transitions, targets and final value and the same
  hash; the array is left as it was.  (The first case is a write outside the array of overflow entries
  when a generation is rehashed.)
\<close>

theorem minimization_returns_equal_state:
  assumes "lru_history A c" "key_state ts w s" "sap_invar p" "represented A tr wt p"
  shows "LRU_Get (US_ops no_failure) c (s, p) = Some (Inl None)
    \<or> (\<exists>r c' s' p'. LRU_Get (US_ops no_failure) c (s, p) = Some (Inr (r, c', s', p')) \<and> same_array p p'
       \<and> (PS_IsEmpty r \<or> bare r \<in> A \<and> tr (bare r) = ts \<and> ps_hashcode r = ucast (state_hash ts w)))"
  using lru_lookup [OF lru_history_good [OF assms(1)] assms(2-4)] unfolding same_view_def same_as_def by fastforce


theorem minimization_returns_equal_state_witness:
  "\<exists>c p. LRU_Add example_entry (LRU 10 3) = Some c \<and>
    (LRU_Get (US_ops no_failure) c (US_Add 7 803 UnpackedState, p) = Some (Inl None)
     \<or> (\<exists>r c' s' p'. LRU_Get (US_ops no_failure) c (US_Add 7 803 UnpackedState, p) = Some (Inr (r, c', s', p'))
        \<and> (PS_IsEmpty r \<or> bare r = bare example_entry)))"
proof -
  note t = example_table and e = example_entry_fields
  from mh_Add_room [OF t(1) e(3,5), where A = "{}"] obtain g where g: "mh_Add example_entry new_generation = Some g"
    by (auto simp: t)
  then obtain c where c: "LRU_Add example_entry (LRU 10 3) = Some c" by (simp add: LRU_Add_def LRU_def t)
  have h: "lru_history {bare example_entry} c" by (rule lru_history.added [OF lru_history.new e(3,5) c])
  from example_represented obtain p where "sap_invar p" "represented {bare example_entry} (\<lambda>e. [(7, 803)]) (\<lambda>e. 0) p" by blast
  from minimization_returns_equal_state [OF h example_key this] c show ?thesis by blast
qed

text \<open>
  C28: minimization finds what it has seen.  A state added to a table whose chain has room and that need not
  grow is found by the next lookup of an unpacked state with the same transitions and hash: the lookup
  returns an entry, and it stands for these transitions.
\<close>

theorem minimization_finds_added_state:
  assumes "layout h f" "holds A h" "key_state ts w s" "sap_invar p" "represented (insert (bare key) A) tr wt p"
    and "tr (bare key) = ts" "ps_hashcode key = ucast (state_hash ts w)" "GetCookie key = 0" "\<not> PS_IsEmpty key"
    and "length (chain h f (entry_bucket key h)) \<le> overflow_limit h + 1"
    and "hash_count h < rehash_limit h" "overflow_count h + 1 < overflow_entries_size h"
  shows "\<exists>h' r s' p'. mh_Add key h = Some h' \<and> mh_Get (US_ops no_failure) h' (s, p) = Some (Inr (r, s', p'))
    \<and> \<not> PS_IsEmpty r \<and> tr (bare r) = ts \<and> ps_hashcode r = ucast (state_hash ts w) \<and> same_array p p'"
proof -
  let ?A = "insert (bare key) A" and ?b = "entry_bucket key h"
  from mh_Add_room [OF assms(1,8,9,11,12,10), of A] assms(2) obtain h' f' where
    h': "mh_Add key h = Some h'" "layout h' f'" "hash_size h' = hash_size h" "chain h' f' ?b = chain h f ?b @ [bare key]"
    "holds ?A h'" by blast
  have b: "key_bucket (state_hash ts w) h' = ?b"
    using key_bucket_entry [OF assms(7), of h'] h'(3) by (simp add: entry_bucket_def)
  have "same_as ts w tr (bare key)" using assms(6,7) by (simp add: same_as_def)
  then have "find (same_as ts w tr) (chain h' f' ?b) \<noteq> None" by (auto simp: h'(4) find_None_iff)
  then obtain x where x: "find (same_as ts w tr) (chain h' f' ?b) = Some x" "same_as ts w tr x"
    by (auto simp: find_Some_iff)
  from us.mh_Get_exact [OF h'(2,5), where ts = ts and w = w and tr = tr and wt = wt and ?p0.0 = p and s = "(s, p)"]
    assms(3-5) same_view_refl [OF assms(4)] x(1) b obtain r s' p' where
    "mh_Get (US_ops no_failure) h' (s, p) = Some (Inr (r, s', p'))" "same_view p p'" "\<not> PS_IsEmpty r" "bare r = x" by auto
  with h'(1) x(2) show ?thesis by (auto simp: same_as_def same_view_def)
qed


theorem minimization_finds_added_state_witness:
  "\<exists>h' p r s' p'. mh_Add example_entry new_generation = Some h'
    \<and> mh_Get (US_ops no_failure) h' (US_Add 7 803 UnpackedState, p) = Some (Inr (r, s', p')) \<and> \<not> PS_IsEmpty r"
proof -
  note t = example_table and e = example_entry_fields
  from example_represented obtain p where p: "sap_invar p" "represented {bare example_entry} (\<lambda>e. [(7, 803)]) (\<lambda>e. 0) p" by blast
  from minimization_finds_added_state [OF t(1,2) example_key p(1) p(2) refl e(2,3,5)] obtain h' r s' p' where
    "mh_Add example_entry new_generation = Some h'" "\<not> PS_IsEmpty r"
    "mh_Get (US_ops no_failure) h' (US_Add 7 803 UnpackedState, p) = Some (Inr (r, s', p'))" by (auto simp: t)
  then show ?thesis by blast
qed

text \<open>
  For limits from twice the minimum up to about 2.7 GB the configuration of the cache keeps the memory
  limit: the memory forecast for the chosen number of generations is not above it, and every generation
  holds at least one item.
\<close>

theorem memory_limit_respected:
  assumes "182592 \<le> limit" "limit < 2717907948"
  shows "\<exists>c. FindMemoryLimitConfigurationForLRUCache limit 3 6 = Inr c \<and> best_fit_memory_limit c \<le> limit
    \<and> 0 < best_fit_maximum_number_of_items_per_table c"
proof -
  let ?c0 = "\<lparr>best_fit_memory_limit = 0, best_fit_generations = 0, best_fit_maximum_number_of_items_per_table = 0\<rparr>"
  note step = fit_step_usage [OF assms]
  have 3: "best_fit_memory_limit (fit_step limit 3 ?c0) \<le> limit" "0 < best_fit_maximum_number_of_items_per_table (fit_step limit 3 ?c0)"
    by (rule step; simp)+
  let ?c3 = "fit_step limit 3 ?c0"
  have 4: "best_fit_memory_limit (fit_step limit 4 ?c3) \<le> limit" "0 < best_fit_maximum_number_of_items_per_table (fit_step limit 4 ?c3)"
    by (rule step; use 3 in simp)+
  let ?c4 = "fit_step limit 4 ?c3"
  have 5: "best_fit_memory_limit (fit_step limit 5 ?c4) \<le> limit" "0 < best_fit_maximum_number_of_items_per_table (fit_step limit 5 ?c4)"
    by (rule step; use 4 in simp)+
  let ?c5 = "fit_step limit 5 ?c4"
  have 6: "best_fit_memory_limit (fit_step limit 6 ?c5) \<le> limit" "0 < best_fit_maximum_number_of_items_per_table (fit_step limit 6 ?c5)"
    by (rule step; use 5 in simp)+
  have upt: "[3..<Suc 6] = [3, 4, 5, 6 :: nat]" by (simp add: upt_rec)
  have "\<not> memory_of (hash_size_step_table ! hash_min_size_step) 3 > limit"
    using assms by (simp add: memory_of_def hash_size_step_table_def hash_min_size_step_def sizeof_PackedState_def)
  with 6 show ?thesis unfolding FindMemoryLimitConfigurationForLRUCache_def upt by simp
qed

theorem memory_limit_respected_witness:
  "\<exists>c. FindMemoryLimitConfigurationForLRUCache 1000000000 3 6 = Inr c \<and> best_fit_memory_limit c \<le> 1000000000"
  using memory_limit_respected [of 1000000000] by auto

text \<open>
  For low limits the memory limit is not kept.  The smallest table is taken without asking whether it
  fits, so the lowest accepted limit, 91296 bytes for three generations, yields six generations with twice
  the memory; one byte less is rejected.
\<close>

theorem memory_limit_exceeded:
  "FindMemoryLimitConfigurationForLRUCache 91296 3 6 =
     Inr \<lparr>best_fit_memory_limit = 182592, best_fit_generations = 6, best_fit_maximum_number_of_items_per_table = 1217\<rparr>
   \<and> FindMemoryLimitConfigurationForLRUCache 91295 3 6 = Inl (invalid_argument 91296)"
  by (simp add: FindMemoryLimitConfigurationForLRUCache_def fit_step_def memory_of_def hash_size_step_table_def hash_min_size_step_def
      hash_max_size_step_def sizeof_PackedState_def item_forecast_def MaxCookieSize_def upt_rec load_limit_def float_round_def
      bit_length.simps Let_def)

end
