(* ===== verification/Builder.thy ===== *)
theory Builder
  imports Minimization
begin

text \<open>
  The builder that places states in the sparse array: \<open>sparse_array_builder.h\<close>, the specialisation for
  \<open>SparseArrayPersistence<uint16_t>\<close>.

  Positions are natural numbers; \<open>OffsetTypeT\<close> is chosen for the size of the data and positions stay within
  it.  Errors are those of the persistence, a read behind the end of a tracker's window, a write outside a
  table of the cache, and the first transition of a state that has none.  The two search loops are a step
  (the body of the loop) and its iteration, which always ends.
\<close>

datatype builder_error = Persistence_Error mm_error | Read_Past_End | Hash_Out_Of_Bounds | Empty_State

record builder =
  number_of_states :: nat
  highest_persisted_state :: nat
  b_persistence :: persistence
  inner_weight :: bool
  minimize :: bool
  state_hashtable :: lru_cache
  state_start_positions :: tracker
  taken_positions :: tracker
  zerobyte_scrambling_state_start_positions :: tracker

definition COMPACT_SIZE_RELATIVE_MAX_VALUE :: nat where
  "COMPACT_SIZE_RELATIVE_MAX_VALUE = 32768"

definition COMPACT_SIZE_ABSOLUTE_MAX_VALUE :: nat where
  "COMPACT_SIZE_ABSOLUTE_MAX_VALUE = 16384"

definition COMPACT_SIZE_INNER_WEIGHT_MAX_VALUE :: nat where
  "COMPACT_SIZE_INNER_WEIGHT_MAX_VALUE = 0xffff"

definition SPARSE_ARRAY_SEARCH_OFFSET :: nat where
  "SPARSE_ARRAY_SEARCH_OFFSET = 151"

lemmas builder_constants = COMPACT_SIZE_RELATIVE_MAX_VALUE_def COMPACT_SIZE_ABSOLUTE_MAX_VALUE_def
  COMPACT_SIZE_INNER_WEIGHT_MAX_VALUE_def SPARSE_ARRAY_SEARCH_OFFSET_def

definition SparseArrayBuilder :: "nat \<Rightarrow> persistence \<Rightarrow> bool \<Rightarrow> bool \<Rightarrow> config_error + builder" where
  "SparseArrayBuilder limit p weights minimization =
     bind_sum (LRU_with_limit limit) (\<lambda>cache.
     Inr \<lparr>number_of_states = 0, highest_persisted_state = 0, b_persistence = p, inner_weight = weights,
           minimize = minimization, state_hashtable = cache, state_start_positions = PositionTracker,
           taken_positions = PositionTracker, zerobyte_scrambling_state_start_positions = PositionTracker\<rparr>)"

definition GetSize :: "builder \<Rightarrow> nat" where
  "GetSize b = (highest_persisted_state b + MAX_TRANSITIONS_OF_A_STATE) * 5"

definition lift_p :: "mm_error + 'a \<Rightarrow> builder_error + 'a" where
  "lift_p r = (case r of Inl e \<Rightarrow> Inl (Persistence_Error e) | Inr x \<Rightarrow> Inr x)"

definition b_write :: "fs \<Rightarrow> nat \<Rightarrow> u8 \<Rightarrow> u16 \<Rightarrow> builder \<Rightarrow> builder_error + builder" where
  "b_write fs offset label v b =
     bind_sum (lift_p (SAP_WriteTransition fs offset label v (b_persistence b))) (\<lambda>p. Inr (b\<lparr>b_persistence := p\<rparr>))"

section \<open>A place for a state\<close>

text \<open>The label of the first transition; the C++ reads whatever the array holds when there is none.\<close>

definition first_label :: "UnpackedState \<Rightarrow> nat" where
  "first_label s = fst (hd (outgoing_transitions s))"

text \<open>One turn of the search: the position to go on with, or the place that was found.\<close>

definition probe_state :: "builder \<Rightarrow> UnpackedState \<Rightarrow> nat \<Rightarrow> builder_error + (nat + nat \<times> UnpackedState)" where
  "probe_state b s start =
     (let starts = state_start_positions b; taken = taken_positions b
      in case PT_NextFreeSlot start starts of
           None \<Rightarrow> Inl Read_Past_End
         | Some position \<Rightarrow>
             if PT_IsSet position (zerobyte_scrambling_state_start_positions b) then Inr (Inl (position + 1))
             else if us_final s \<and> PT_IsSet (position + NUMBER_OF_STATE_CODINGS) starts then Inr (Inl (position + 1))
             else let shift = PT_IsAvailable (us_bitvector s) position taken
                  in if shift \<noteq> 0 then Inr (Inl (position + shift))
                     else if position > NUMBER_OF_STATE_CODINGS \<and> HasLabel FINAL_OFFSET_CODE s
                             \<and> PT_IsSet (position - NUMBER_OF_STATE_CODINGS) starts then Inr (Inl (position + 1))
                     else if first_label s \<noteq> 0 \<and> \<not> PT_IsSet position taken \<and> position \<ge> NUMBER_OF_STATE_CODINGS
                     then (case PT_NextFreeSlot (position - NUMBER_OF_STATE_CODINGS) starts of
                             None \<Rightarrow> Inl Read_Past_End
                           | Some z \<Rightarrow>
                               if z \<ge> position then Inr (Inl (position + 1))
                               else let label = of_nat (position - z) :: u8
                                    in if unat label = FINAL_OFFSET_CODE
                                          \<and> PT_IsSet (position - NUMBER_OF_STATE_CODINGS) starts
                                       then Inr (Inl (position + 1))
                                       else Inr (Inr (position, SetZerobyteLabel label (SetZerobyteState z s))))
                     else Inr (Inr (position, s)))"

subsection \<open>The search ends\<close>

text \<open>Beyond the windows of a tracker nothing is marked.\<close>

definition beyond :: "tracker \<Rightarrow> nat" where
  "beyond t = SLIDING_WINDOW_SIZE * Suc (window_start_position t)"

lemma beyond_window: "beyond t \<le> position \<longleftrightarrow> window_start_position t < blocker_window position"
  by (auto simp: beyond_def blocker_window_def SLIDING_WINDOW_SIZE_def div_less_iff_less_mult less_eq_div_iff_mult_less_eq
      simp flip: Suc_le_eq)

lemma beyond_free:
  assumes "beyond t \<le> position"
  shows "\<not> PT_IsSet position t" "PT_NextFreeSlot position t = Some position" "PT_IsAvailable bv position t = 0"
  using assms by (auto simp: beyond_window PT_IsSet_def PT_NextFreeSlot_def PT_IsAvailable_def Let_def)


lemma NextFreeSlot_ge: "PT_NextFreeSlot position t = Some r \<Longrightarrow> position \<le> r"
proof -
  assume r: "PT_NextFreeSlot position t = Some r"
  have split: "position = blocker_window position * SLIDING_WINDOW_SIZE + blocker_offset position"
    using position_split [of position] by (simp add: mult.commute)
  then have "position \<le> SLIDING_WINDOW_SIZE + blocker_window position * SLIDING_WINDOW_SIZE"
    using blocker_offset_less [of position] by linarith
  with split show ?thesis
    using r by (auto simp: PT_NextFreeSlot_def Let_def split: if_splits option.splits dest!: GetNextNonSetBit_Some)
qed

definition search_bound :: "builder \<Rightarrow> nat" where
  "search_bound b = beyond (state_start_positions b) + beyond (taken_positions b)
     + beyond (zerobyte_scrambling_state_start_positions b) + 260"

lemma probe_state_next:
  assumes "probe_state b s start = Inr (Inl n)"
  shows "start < n" "start < search_bound b"
proof -
  show "start < n"
    using assms by (auto simp: probe_state_def Let_def split: option.splits if_splits dest!: NextFreeSlot_ge)
  show "start < search_bound b"
  proof (rule ccontr)
    assume "\<not> start < search_bound b"
    then have far: "beyond (state_start_positions b) \<le> start - 255" "beyond (state_start_positions b) \<le> start"
      "beyond (state_start_positions b) \<le> start + 255" "beyond (taken_positions b) \<le> start"
      "beyond (zerobyte_scrambling_state_start_positions b) \<le> start" "255 \<le> start" by (simp_all add: search_bound_def)
    have "(of_nat (start - (start - 255)) :: u8) = 255" using far(6) by simp
    with assms beyond_free [OF far(1)] beyond_free [OF far(2)] beyond_free [OF far(3)] beyond_free [OF far(4)]
      beyond_free [OF far(5)] far(6)
    show False by (auto simp: probe_state_def NUMBER_OF_STATE_CODINGS_def FINAL_OFFSET_CODE_def Let_def split: if_splits)
  qed
qed

function find_free_bucket_loop :: "builder \<Rightarrow> UnpackedState \<Rightarrow> nat \<Rightarrow> builder_error + nat \<times> UnpackedState" where
  "find_free_bucket_loop b s start =
     (case probe_state b s start of
        Inl e \<Rightarrow> Inl e
      | Inr (Inr found) \<Rightarrow> Inr found
      | Inr (Inl n) \<Rightarrow> find_free_bucket_loop b s n)"
  by pat_completeness auto
termination
  by (relation "measure (\<lambda>(b, s, start). search_bound b - start)") (auto dest: probe_state_next intro: diff_less_mono2)

declare find_free_bucket_loop.simps [simp del]

definition FindFreeBucket :: "builder \<Rightarrow> UnpackedState \<Rightarrow> builder_error + nat \<times> UnpackedState" where
  "FindFreeBucket b s =
     (if outgoing_transitions s = [] then Inl Empty_State
      else let start = (if highest_persisted_state b > SPARSE_ARRAY_SEARCH_OFFSET
                        then highest_persisted_state b - SPARSE_ARRAY_SEARCH_OFFSET else 1)
           in case PT_NextFreeSlot (start + first_label s) (taken_positions b) of
                None \<Rightarrow> Inl Read_Past_End
              | Some position \<Rightarrow> find_free_bucket_loop b s (position - first_label s))"

section \<open>Writing a transition\<close>

text \<open>
  The search for the overflow buckets of a pointer.  A bucket that would be the weight of another state is
  skipped; below bucket 260 there is none, as the unsigned difference wraps around to a position nothing
  occupies.
\<close>

definition bad_slot :: "builder \<Rightarrow> nat \<Rightarrow> nat \<Rightarrow> nat option" where
  "bad_slot b start vshort_size =
     find (\<lambda>k. PT_IsSet (start + k) (taken_positions b)
              \<or> inner_weight b \<and> INNER_WEIGHT_TRANSITION_COMPACT \<le> start + k
                \<and> PT_IsSet (start + k - INNER_WEIGHT_TRANSITION_COMPACT) (state_start_positions b)) [1..<vshort_size]"

definition probe_overflow :: "builder \<Rightarrow> u64 \<Rightarrow> nat \<Rightarrow> builder_error + (nat + nat \<times> nat \<times> u8)" where
  "probe_overflow b high start0 =
     (let vshort_size = snd (encodeVarShort high (\<lambda>_. 0))
      in case PT_NextFreeSlot start0 (taken_positions b) of
           None \<Rightarrow> Inl Read_Past_End
         | Some start \<Rightarrow>
             if inner_weight b \<and> PT_IsSet (start + INNER_WEIGHT_TRANSITION_COMPACT) (state_start_positions b)
             then Inr (Inl (start + 1))
             else if PT_IsSet start (taken_positions b) then Inr (Inl (start + 1))
             else (case bad_slot b start vshort_size of
                     Some k \<Rightarrow> Inr (Inl (start + k + 1))
                   | None \<Rightarrow>
                       if start \<ge> NUMBER_OF_STATE_CODINGS
                       then (case PT_NextFreeSlot (start + vshort_size - NUMBER_OF_STATE_CODINGS - 1) (state_start_positions b) of
                               None \<Rightarrow> Inl Read_Past_End
                             | Some z \<Rightarrow>
                                 if z \<ge> start then Inr (Inl (start + vshort_size + 1))
                                 else let label = of_nat (start - z) :: u8
                                      in if unat label = FINAL_OFFSET_CODE then Inr (Inl (start + vshort_size + 1))
                                         else Inr (Inr (start, z, label)))
                       else Inr (Inr (start, 0, 0xff))))"

lemma encodeVarShort_bounds: "1 \<le> snd (encodeVarShort v f)" "snd (encodeVarShort v f) \<le> 5"
  using varshort_groups_nonempty [of v] getVarShortLength_le [of v]
  by (simp_all add: encodeVarShort_def encodeVarShort_loop_eq getVarShortLength_eq Suc_le_eq)

lemma bad_slot_Some: "bad_slot b start n = Some k \<Longrightarrow> 1 \<le> k \<and> k < n"
  by (auto simp: bad_slot_def find_Some_iff)

lemma probe_overflow_next:
  assumes "probe_overflow b high start = Inr (Inl n)"
  shows "start < n" "start < search_bound b"
proof -
  show "start < n"
    using assms by (auto simp: probe_overflow_def Let_def split: option.splits if_splits dest!: NextFreeSlot_ge)
  let ?n = "snd (encodeVarShort high (\<lambda>_. 0))"
  note n = encodeVarShort_bounds [of high "\<lambda>_. 0"]
  show "start < search_bound b"
  proof (rule ccontr)
    assume "\<not> start < search_bound b"
    then have far: "beyond (state_start_positions b) \<le> start - 260" "beyond (taken_positions b) \<le> start" "260 \<le> start"
      by (simp_all add: search_bound_def)
    have taken: "\<not> PT_IsSet (start + k) (taken_positions b)" for k
      using far by (intro beyond_free(1)) simp
    have starts: "\<not> PT_IsSet k (state_start_positions b)" if "start - 260 \<le> k" for k
      using far that by (intro beyond_free(1)) simp
    have "bad_slot b start ?n = None" using taken starts by (auto simp: bad_slot_def find_None_iff INNER_WEIGHT_TRANSITION_COMPACT_def)
    moreover have "PT_NextFreeSlot (start + ?n - 255 - 1) (state_start_positions b) = Some (start + ?n - 255 - 1)"
      using far n by (intro beyond_free(2)) simp
    moreover have "start - (start + ?n - 255 - 1) = 256 - ?n" using far n by simp
    moreover have "unat (of_nat (256 - ?n) :: u8) = 256 - ?n" using n by (simp add: unat_of_nat take_bit_nat_eq_self del: of_nat_diff)
    moreover have "256 - ?n \<noteq> 1" using n by simp
    ultimately show False
      using assms taken [of 0] starts [of "start + 260"] far beyond_free(2) [OF far(2)] n
      by (auto simp: probe_overflow_def NUMBER_OF_STATE_CODINGS_def FINAL_OFFSET_CODE_def INNER_WEIGHT_TRANSITION_COMPACT_def Let_def
          simp del: of_nat_diff split: if_splits)
  qed
qed


function find_overflow_loop :: "builder \<Rightarrow> u64 \<Rightarrow> nat \<Rightarrow> builder_error + nat \<times> nat \<times> u8" where
  "find_overflow_loop b high start =
     (case probe_overflow b high start of
        Inl e \<Rightarrow> Inl e
      | Inr (Inr found) \<Rightarrow> Inr found
      | Inr (Inl n) \<Rightarrow> find_overflow_loop b high n)"
  by pat_completeness auto
termination
  by (relation "measure (\<lambda>(b, high, start). search_bound b - start)") (auto dest: probe_overflow_next intro: diff_less_mono2)

declare find_overflow_loop.simps [simp del]

text \<open>The overflow buckets are marked and written one after the other.\<close>

fun write_overflow :: "fs \<Rightarrow> nat \<Rightarrow> u8 \<Rightarrow> u16 list \<Rightarrow> builder \<Rightarrow> builder_error + builder" where
  "write_overflow fs position label [] b = Inr b"
| "write_overflow fs position label (v # vs) b =
     bind_sum (b_write fs position label v (b\<lparr>taken_positions := PT_Set position (taken_positions b)\<rparr>)) (\<lambda>b1.
     write_overflow fs (position + 1) (label + 1) vs b1)"

definition vshort_list :: "u64 \<Rightarrow> u16 list" where
  "vshort_list v = (let (buffer, n) = encodeVarShort v (\<lambda>_. 0) in map buffer [0..<n])"

definition b_WriteTransition :: "fs \<Rightarrow> nat \<Rightarrow> u8 \<Rightarrow> u64 \<Rightarrow> builder \<Rightarrow> builder_error + builder" where
  "b_WriteTransition fs offset transitionId transitionPointer b =
     (let difference = (if offset + COMPACT_SIZE_WINDOW > unat transitionPointer
                        then offset + COMPACT_SIZE_WINDOW - unat transitionPointer else 2 ^ 64 - 1)
      in if difference < COMPACT_SIZE_RELATIVE_MAX_VALUE
         then b_write fs offset transitionId (of_nat difference) b
         else if unat transitionPointer < COMPACT_SIZE_ABSOLUTE_MAX_VALUE
         then b_write fs offset transitionId (ucast transitionPointer OR 0xC000) b
         else let relative = difference < unat transitionPointer;
                  overflow_code = (if relative then of_nat difference else transitionPointer) :: u64;
                  transitionPointer_low = overflow_code AND 0x7;
                  transitionPointer_high = drop_bit 3 overflow_code;
                  start0 = (if offset > COMPACT_SIZE_WINDOW then offset - COMPACT_SIZE_WINDOW else 0)
              in bind_sum (find_overflow_loop b transitionPointer_high start0) (\<lambda>(start_position, z, label).
                 bind_sum (write_overflow fs start_position label (vshort_list transitionPointer_high)
                             (b\<lparr>zerobyte_scrambling_state_start_positions :=
                                  PT_Set z (zerobyte_scrambling_state_start_positions b)\<rparr>)) (\<lambda>b1.
                 let overflow_bucket = COMPACT_SIZE_WINDOW + start_position - offset;
                     pt = (if relative then 0x8000 OR 0x8 else 0x8000) OR push_bit 4 (of_nat overflow_bucket :: u16)
                 in b_write fs offset transitionId (pt + ucast transitionPointer_low) b1)))"

section \<open>Writing a state\<close>

fun write_values :: "fs \<Rightarrow> nat \<Rightarrow> u8 \<Rightarrow> u16 list \<Rightarrow> builder \<Rightarrow> builder_error + builder" where
  "write_values fs position label [] b = Inr b"
| "write_values fs position label (v # vs) b =
     bind_sum (b_write fs position label v b) (write_values fs (position + 1) (label + 1) vs)"

definition WriteFinalTransition :: "fs \<Rightarrow> nat \<Rightarrow> u64 \<Rightarrow> builder \<Rightarrow> builder_error + builder" where
  "WriteFinalTransition fs offset final_value b =
     write_values fs (offset + FINAL_OFFSET_TRANSITION) (of_nat FINAL_OFFSET_CODE) (vshort_list final_value) b"

definition UpdateWeightIfNeeded :: "fs \<Rightarrow> nat \<Rightarrow> u32 \<Rightarrow> builder \<Rightarrow> builder_error + builder" where
  "UpdateWeightIfNeeded fs offset weight b =
     (let n_weight = min (unat weight) COMPACT_SIZE_INNER_WEIGHT_MAX_VALUE;
          bucket = offset + INNER_WEIGHT_TRANSITION_COMPACT
      in bind_sum (lift_p (ReadTransitionValue fs bucket (b_persistence b))) (\<lambda>(v, p).
         if unat v < n_weight
         then bind_sum (b_write fs bucket 0 (of_nat n_weight) (b\<lparr>b_persistence := p\<rparr>)) (\<lambda>b1.
              Inr (b1\<lparr>taken_positions := PT_Set bucket (taken_positions b1),
                      state_start_positions := PT_Set bucket (state_start_positions b1)\<rparr>))
         else Inr (b\<lparr>b_persistence := p\<rparr>)))"

fun write_transitions :: "fs \<Rightarrow> nat \<Rightarrow> (nat \<times> u64) list \<Rightarrow> builder \<Rightarrow> builder_error + builder" where
  "write_transitions fs offset [] b = Inr b"
| "write_transitions fs offset ((label, v) # ts) b =
     bind_sum (if label < FINAL_OFFSET_TRANSITION then b_WriteTransition fs (offset + label) (of_nat label) v b
               else if label = FINAL_OFFSET_TRANSITION then WriteFinalTransition fs offset v b
               else Inr b) (write_transitions fs offset ts)"

text \<open>
  Before the transitions: no other state may start 255 buckets below a transition with label 1, and the
  first bucket gets a label that is not 0 when it is not in use.
\<close>

definition block_start :: "nat \<Rightarrow> builder \<Rightarrow> builder" where
  "block_start position b = b\<lparr>state_start_positions := PT_Set position (state_start_positions b)\<rparr>"

definition write_zerobyte :: "fs \<Rightarrow> nat \<Rightarrow> UnpackedState \<Rightarrow> builder \<Rightarrow> builder_error + builder" where
  "write_zerobyte fs offset s b =
     (if first_label s \<noteq> 0
      then let b1 = (if first_label s = 1 \<and> offset \<ge> NUMBER_OF_STATE_CODINGS
                     then block_start (offset - NUMBER_OF_STATE_CODINGS) b else b)
           in if PT_IsSet offset (taken_positions b1) then Inr b1
              else b_WriteTransition fs offset (zerobyte_label s) 0
                     (if offset \<ge> NUMBER_OF_STATE_CODINGS
                      then b1\<lparr>zerobyte_scrambling_state_start_positions :=
                               PT_Set (zerobyte_state s) (zerobyte_scrambling_state_start_positions b1)\<rparr>
                      else b1)
      else Inr (if US_size s > 1 \<and> fst (outgoing_transitions s ! 1) = 1 \<and> offset \<ge> NUMBER_OF_STATE_CODINGS
                then block_start (offset - NUMBER_OF_STATE_CODINGS) b else b))"

definition WriteState :: "fs \<Rightarrow> nat \<Rightarrow> UnpackedState \<Rightarrow> builder \<Rightarrow> builder_error + builder" where
  "WriteState fs offset s b =
     (let b0 = b\<lparr>highest_persisted_state := max (highest_persisted_state b) offset\<rparr>
      in bind_sum (lift_p (BeginNewState fs offset (b_persistence b0))) (\<lambda>p.
         bind_sum (write_zerobyte fs offset s (b0\<lparr>b_persistence := p\<rparr>)) (\<lambda>b1.
         let b2 = b1\<lparr>taken_positions := PT_SetVector (us_bitvector s) offset (taken_positions b1)\<rparr>;
             b3 = (if us_final s then block_start (offset + NUMBER_OF_STATE_CODINGS) b2 else b2);
             b4 = block_start offset b3
         in bind_sum (write_transitions fs offset (outgoing_transitions s) b4) (\<lambda>b5.
            if us_weight s \<noteq> 0 then UpdateWeightIfNeeded fs offset (us_weight s) b5 else Inr b5))))"

section \<open>Persisting a state\<close>

text \<open>
  The result is the offset, the unpacked state (its minimization counter, zerobyte and hash change) and the
  builder.  \<open>None\<close> would be a lookup in the cache that does not end.
\<close>

definition write_new_state ::
  "fs \<Rightarrow> UnpackedState \<Rightarrow> builder \<Rightarrow> builder_error + nat \<times> UnpackedState \<times> builder" where
  "write_new_state fs s b =
     bind_sum (FindFreeBucket b (IncrementNoMinimizationCounter 1 s)) (\<lambda>(offset, s1).
     bind_sum (WriteState fs offset s1 b) (\<lambda>b1.
     let (hashcode, s2) = GetHashcode s1;
         b2 = b1\<lparr>number_of_states := number_of_states b1 + 1\<rparr>;
         packed_state = PackedState (of_nat offset) (ucast hashcode) (US_size s2)
     in if minimize b2 \<and> (number_of_states b2 < 1000000 \<or> no_minimization_counter s2 < 8)
        then (case LRU_Add packed_state (state_hashtable b2) of
                None \<Rightarrow> Inl Hash_Out_Of_Bounds
              | Some cache \<Rightarrow> Inr (offset, s2, b2\<lparr>state_hashtable := cache\<rparr>))
        else Inr (offset, s2, b2)))"

definition PersistState ::
  "fs \<Rightarrow> UnpackedState \<Rightarrow> builder \<Rightarrow> (builder_error + nat \<times> UnpackedState \<times> builder) option" where
  "PersistState fs s b =
     (if no_minimization_counter s = 0
      then (case LRU_Get (US_ops fs) (state_hashtable b) (s, b_persistence b) of
              None \<Rightarrow> None
            | Some (Inl None) \<Rightarrow> Some (Inl Hash_Out_Of_Bounds)
            | Some (Inl (Some e)) \<Rightarrow> Some (Inl (Persistence_Error e))
            | Some (Inr (existing, cache, s1, p)) \<Rightarrow>
                let b1 = b\<lparr>state_hashtable := cache, b_persistence := p\<rparr>
                in Some (if PS_IsEmpty existing then write_new_state fs s1 b1
                         else let offset = unat (ps_offset existing)
                              in bind_sum (if us_weight s1 > 0 then UpdateWeightIfNeeded fs offset (us_weight s1) b1
                                           else Inr b1) (\<lambda>b2. Inr (offset, s1, b2))))
      else Some (write_new_state fs s b))"


section \<open>A written pointer is read back\<close>

abbreviation b_value :: "builder \<Rightarrow> nat \<Rightarrow> u16" where
  "b_value b \<equiv> sap_value (b_persistence b)"

abbreviation b_label :: "builder \<Rightarrow> nat \<Rightarrow> u8" where
  "b_label b \<equiv> sap_label (b_persistence b)"

abbreviation b_invar :: "builder \<Rightarrow> bool" where
  "b_invar b \<equiv> sap_invar (b_persistence b)"

lemma lift_p_Inr [simp]: "lift_p r = Inr x \<longleftrightarrow> r = Inr x" "lift_p (Inr x) = Inr x"
  by (auto simp: lift_p_def split: sum.splits)

lemma b_write_effect:
  assumes "b_write no_failure offset l v b = Inr b'" "b_invar b"
  shows "b_invar b'" "b_label b' = (b_label b)(offset := l)" "b_value b' = (b_value b)(offset := v)"
    "b' = b\<lparr>b_persistence := b_persistence b'\<rparr>"
proof -
  from assms(1) obtain p where p: "SAP_WriteTransition no_failure offset l v (b_persistence b) = Inr p"
    "b' = b\<lparr>b_persistence := p\<rparr>" by (auto simp: b_write_def bind_sum_Inr_iff)
  from WriteTransition_writes [OF assms(2) WriteTransition_bound [OF p(1) assms(2)], of l v] p show
    "b_invar b'" "b_label b' = (b_label b)(offset := l)" "b_value b' = (b_value b)(offset := v)"
    "b' = b\<lparr>b_persistence := b_persistence b'\<rparr>" by auto
qed

lemma write_overflow_effect:
  assumes "write_overflow no_failure position l vs b = Inr b'" "b_invar b"
  shows "b_invar b' \<and> holds_at (b_value b') position vs
    \<and> (\<forall>i. i < position \<or> position + length vs \<le> i \<longrightarrow> b_value b' i = b_value b i \<and> b_label b' i = b_label b i)"
  using assms
proof (induction vs arbitrary: position l b)
  case Nil
  then show ?case by (simp add: holds_at_def)
next
  case (Cons v vs)
  from Cons.prems(1) obtain b1 where b1: "b_write no_failure position l v (b\<lparr>taken_positions := PT_Set position (taken_positions b)\<rparr>) = Inr b1"
    "write_overflow no_failure (position + 1) (l + 1) vs b1 = Inr b'" by (auto simp: bind_sum_Inr_iff)
  note w = b_write_effect [OF b1(1)]
  from Cons.IH [OF b1(2)] w Cons.prems(2) have IH: "b_invar b'" "holds_at (b_value b') (position + 1) vs"
    "\<forall>i. i < position + 1 \<or> position + 1 + length vs \<le> i \<longrightarrow> b_value b' i = b_value b1 i \<and> b_label b' i = b_label b1 i" by auto
  have "b_value b' position = v" using IH(3) w(3) Cons.prems(2) by simp
  with IH w(2,3) Cons.prems(2) show ?case by (auto simp: holds_at_def nth_Cons split: nat.splits)
qed

lemma probe_overflow_found:
  assumes "probe_overflow b high start0 = Inr (Inr (start, z, label))"
  shows "start0 \<le> start" "k < snd (encodeVarShort high (\<lambda>_. 0)) \<Longrightarrow> \<not> PT_IsSet (start + k) (taken_positions b)"
proof -
  show "start0 \<le> start"
    using assms by (auto simp: probe_overflow_def Let_def split: option.splits if_splits dest!: NextFreeSlot_ge)
  have "\<not> PT_IsSet start (taken_positions b)" "bad_slot b start (snd (encodeVarShort high (\<lambda>_. 0))) = None"
    using assms by (auto simp: probe_overflow_def Let_def split: option.splits if_splits)
  then show "\<not> PT_IsSet (start + k) (taken_positions b)" if "k < snd (encodeVarShort high (\<lambda>_. 0))"
    using that by (cases k) (auto simp: bad_slot_def find_None_iff)
qed

lemma find_overflow_found:
  assumes "find_overflow_loop b high start0 = Inr (start, z, label)"
  shows "start0 \<le> start \<and> (\<forall>k < snd (encodeVarShort high (\<lambda>_. 0)). \<not> PT_IsSet (start + k) (taken_positions b))"
  using assms
proof (induction b high start0 rule: find_overflow_loop.induct)
  case (1 b high start0)
  show ?case
  proof (cases "probe_overflow b high start0")
    case (Inl e)
    then show ?thesis using "1.prems" by (simp add: find_overflow_loop.simps [of b])
  next
    case (Inr r)
    show ?thesis
    proof (cases r)
      case (Inl n)
      have "find_overflow_loop b high n = Inr (start, z, label)"
        using Inr Inl "1.prems" by (simp add: find_overflow_loop.simps [of b high start0])
      from "1.IH" [OF Inr Inl this] probe_overflow_next(1) [of b high start0 n] Inr Inl show ?thesis by auto
    next
      case found: (Inr f)
      then have "f = (start, z, label)" using Inr "1.prems" by (simp add: find_overflow_loop.simps [of b high start0])
      with probe_overflow_found [of b high start0 start z label] Inr found show ?thesis by blast
    qed
  qed
qed

lemma vshort_list_groups: "vshort_list v = varshort_groups v"
  by (auto simp: vshort_list_def encodeVarShort_def encodeVarShort_loop_eq intro!: nth_equalityI)

lemma encodeVarShort_groups: "snd (encodeVarShort v f) = length (varshort_groups v)"
  by (simp add: encodeVarShort_def encodeVarShort_loop_eq)


lemma difference_word:
  assumes "unat target < offset + 512" "offset + 4096 < 2 ^ 64"
  shows "(of_nat offset :: u64) + 512 - target = of_nat (offset + 512 - unat target)"
    "unat ((of_nat offset :: u64) + 512 - target) = offset + 512 - unat target"
proof -
  show w: "(of_nat offset :: u64) + 512 - target = of_nat (offset + 512 - unat target)"
    using assms(1) by (simp add: of_nat_diff)
  show "unat ((of_nat offset :: u64) + 512 - target) = offset + 512 - unat target"
    unfolding w using assms(2) by (simp add: unat_of_nat take_bit_nat_eq_self del: of_nat_diff)
qed

lemma overflow_position:
  assumes "offset \<le> start + 512" "start < offset + 512"
  shows "unat (of_nat (512 + start - offset) :: u16) < 1024"
    "ucast (of_nat (512 + start - offset) :: u16) + of_nat offset - 512 + of_nat i = (of_nat (start + i) :: u64)"
proof -
  have u: "unat (of_nat (512 + start - offset) :: u16) = 512 + start - offset"
    using assms by (simp add: unat_of_nat take_bit_nat_eq_self del: of_nat_diff)
  then show "unat (of_nat (512 + start - offset) :: u16) < 1024" using assms by linarith
  have "ucast (of_nat (512 + start - offset) :: u16) = (of_nat (512 + start - offset) :: u64)"
    using u by (metis of_nat_unat)
  also have "\<dots> = 512 + of_nat start - of_nat offset" using assms by (simp add: of_nat_diff)
  finally show "ucast (of_nat (512 + start - offset) :: u16) + of_nat offset - 512 + of_nat i = (of_nat (start + i) :: u64)"
    by simp
qed

lemma WriteTransition_encodes:
  assumes inv: "b_invar b" and wr: "b_WriteTransition no_failure offset l target b = Inr b'" and range: "offset + 4096 < 2 ^ 64"
    and taken: "PT_IsSet offset (taken_positions b)"
    and near: "\<And>high start z label. find_overflow_loop b high (offset - 512) = Inr (start, z, label) \<Longrightarrow> start < offset + 512"
  shows "b_invar b'" "b_label b' offset = l" "encodes_pointer (\<lambda>i. b_value b' (unat i)) (of_nat offset) target"
proof -
  let ?B = "of_nat offset :: u64"
  define D where "D = (if offset + 512 > unat target then offset + 512 - unat target else 2 ^ 64 - 1)"
  have B: "unat ?B = offset" using range by (simp add: unat_of_nat take_bit_nat_eq_self)
  have D: "of_nat D = ?B + 512 - target" "unat (?B + 512 - target) = D" if "D < 2 ^ 64 - 1"
    using that difference_word [OF _ range, of target] by (auto simp: D_def split: if_splits)
  consider (relative) "D < 32768" "b_write no_failure offset l (of_nat D) b = Inr b'"
    | (absolute) "unat target < 16384" "b_write no_failure offset l (ucast target OR 0xC000) b = Inr b'"
    | (overflow) code start z label b1 where "\<not> D < 32768"
      "code = (if D < unat target then of_nat D else target)"
      "find_overflow_loop b (drop_bit 3 code) (offset - 512) = Inr (start, z, label)"
      "write_overflow no_failure start label (varshort_groups (drop_bit 3 code))
         (b\<lparr>zerobyte_scrambling_state_start_positions := PT_Set z (zerobyte_scrambling_state_start_positions b)\<rparr>) = Inr b1"
      "b_write no_failure offset l (overflow_code (D < unat target) (of_nat (512 + start - offset)) (ucast (code AND 0x7))) b1 = Inr b'"
  proof -
    note W = wr [unfolded b_WriteTransition_def COMPACT_SIZE_WINDOW_def builder_constants Let_def, folded D_def]
    consider "D < 32768" | "\<not> D < 32768" "unat target < 16384" | "\<not> D < 32768" "\<not> unat target < 16384" by blast
    then show thesis
    proof cases
      case 1
      with W relative show thesis by simp
    next
      case 2
      with W absolute show thesis by simp
    next
      case 3
      define code where "code = (if D < unat target then of_nat D else target)"
      from 3 W obtain start z label b1 where
        "find_overflow_loop b (drop_bit 3 code) (if offset > 512 then offset - 512 else 0) = Inr (start, z, label)"
        "write_overflow no_failure start label (vshort_list (drop_bit 3 code))
           (b\<lparr>zerobyte_scrambling_state_start_positions := PT_Set z (zerobyte_scrambling_state_start_positions b)\<rparr>) = Inr b1"
        "b_write no_failure offset l (((if D < unat target then 0x8000 OR 0x8 else 0x8000) OR push_bit 4 (of_nat (512 + start - offset)))
           + ucast (code AND 0x7)) b1 = Inr b'"
        unfolding code_def [symmetric] by (auto simp: bind_sum_Inr_iff simp del: of_nat_diff)
      moreover have "(if offset > 512 then offset - 512 else 0) = offset - 512" by simp
      moreover have "((if D < unat target then 0x8000 OR 0x8 else 0x8000) OR push_bit 4 (of_nat (512 + start - offset) :: u16)) + x
          = overflow_code (D < unat target) (of_nat (512 + start - offset)) x" for x
        by (simp add: overflow_code_def)
      ultimately show thesis using overflow [OF 3(1) code_def] by (simp add: vshort_list_groups)
    qed
  qed
  then have "b_invar b' \<and> b_label b' offset = l \<and> encodes_pointer (\<lambda>i. b_value b' (unat i)) ?B target"
  proof cases
    case relative
    then have d: "D < 2 ^ 64 - 1" by simp
    note w = b_write_effect [OF relative(2) inv]
    have "(of_nat D :: u16) = ucast (?B + 512 - target)" using D(2) [OF d] by (metis of_nat_unat)
    with w D(2) [OF d] relative(1) B show ?thesis by (simp add: encodes_pointer_def)
  next
    case absolute
    note w = b_write_effect [OF absolute(2) inv]
    with absolute(1) B show ?thesis by (simp add: encodes_pointer_def)
  next
    case overflow
    let ?vs = "varshort_groups (drop_bit 3 code)"
    note found = find_overflow_found [OF overflow(3)]
    have pos: "offset \<le> start + 512" "start < offset + 512" using found near [OF overflow(3)] by auto
    have vs: "length ?vs \<le> 5" using getVarShortLength_le [of "drop_bit 3 code"] by (simp add: getVarShortLength_eq)
    have apart: "offset < start \<or> start + length ?vs \<le> offset"
    proof (rule ccontr)
      assume "\<not> ?thesis"
      then have "start + (offset - start) = offset" "offset - start < length ?vs" by auto
      with found taken show False by (metis encodeVarShort_groups)
    qed
    from write_overflow_effect [OF overflow(4)] inv have w1: "b_invar b1" "holds_at (b_value b1) start ?vs" by auto
    note w = b_write_effect [OF overflow(5) w1(1)]
    have "holds_at (\<lambda>i. b_value b' (unat (ucast (of_nat (512 + start - offset) :: u16) + ?B - 512 + of_nat i))) 0 ?vs"
      unfolding holds_at_def
    proof (intro allI impI)
      fix k assume k: "k < length ?vs"
      have "unat (of_nat (start + k) :: u64) = start + k"
        using k vs pos range by (simp add: unat_of_nat take_bit_nat_eq_self del: of_nat_add)
      moreover have "start + k \<noteq> offset" using apart k by auto
      ultimately show "b_value b' (unat (ucast (of_nat (512 + start - offset) :: u16) + ?B - 512 + of_nat (0 + k))) = ?vs ! k"
        using w(3) w1(2) k overflow_position(2) [OF pos, of k] by (simp add: holds_at_def del: of_nat_add of_nat_diff)
    qed
    moreover have "\<not> 18446744073709551615 < unat target" using unat_u64_less [of target] by linarith
    moreover from this have "code = (if D < unat target then ?B + 512 - target else target)"
      using overflow(2) D(1) by (auto simp: D_def split: if_splits)
    ultimately have "encodes_pointer (\<lambda>i. b_value b' (unat i)) ?B target"
      unfolding encodes_pointer_def Let_def
      by (intro disjI2 exI [of _ "D < unat target"] exI [of _ "of_nat (512 + start - offset)"] conjI)
         (use w(3) B overflow_position(1) [OF pos] in simp_all)
    with w(1,2) show ?thesis by simp
  qed
  then show "b_invar b'" "b_label b' offset = l" "encodes_pointer (\<lambda>i. b_value b' (unat i)) ?B target" by auto
qed


section \<open>The place of a state\<close>

text \<open>
  What is known about the marked positions: the trackers are exact from 406 buckets below the highest state
  on, which is as far down as the search looks.
\<close>

definition knows :: "builder \<Rightarrow> nat set \<Rightarrow> nat set \<Rightarrow> nat set \<Rightarrow> bool" where
  "knows b S T Z \<longleftrightarrow> tracks S (state_start_positions b) \<and> tracks T (taken_positions b)
     \<and> tracks Z (zerobyte_scrambling_state_start_positions b)
     \<and> (\<forall>p. highest_persisted_state b \<le> p + 406 \<longrightarrow> in_reach (state_start_positions b) p \<and> in_reach (taken_positions b) p
          \<and> in_reach (zerobyte_scrambling_state_start_positions b) p)"

lemma knowsD:
  assumes "knows b S T Z" "highest_persisted_state b \<le> p + 406"
  shows "PT_IsSet p (state_start_positions b) \<longleftrightarrow> p \<in> S" "PT_IsSet p (taken_positions b) \<longleftrightarrow> p \<in> T"
    "PT_IsSet p (zerobyte_scrambling_state_start_positions b) \<longleftrightarrow> p \<in> Z"
    "PT_NextFreeSlot p (state_start_positions b) = Some r \<Longrightarrow> p \<le> r \<and> r \<notin> S"
    "state_bits bv \<Longrightarrow> PT_IsAvailable bv p (taken_positions b) = 0 \<longleftrightarrow> placed bv p \<inter> T = {}"
proof -
  from assms have k: "tracks S (state_start_positions b)" "tracks T (taken_positions b)"
    "tracks Z (zerobyte_scrambling_state_start_positions b)" "in_reach (state_start_positions b) p" "in_reach (taken_positions b) p"
    "in_reach (zerobyte_scrambling_state_start_positions b) p" by (auto simp: knows_def)
  show "PT_IsSet p (state_start_positions b) \<longleftrightarrow> p \<in> S" "PT_IsSet p (taken_positions b) \<longleftrightarrow> p \<in> T"
    "PT_IsSet p (zerobyte_scrambling_state_start_positions b) \<longleftrightarrow> p \<in> Z"
    using IsSet_correct k by blast+
  show "PT_NextFreeSlot p (state_start_positions b) = Some r \<Longrightarrow> p \<le> r \<and> r \<notin> S"
    using NextFreeSlot_correct [OF k(1,4)] by blast
  show "state_bits bv \<Longrightarrow> PT_IsAvailable bv p (taken_positions b) = 0 \<longleftrightarrow> placed bv p \<inter> T = {}"
    using IsAvailable_correct [OF k(2) _ k(5)] by blast
qed

text \<open>A good place: the buckets are free, no state starts there and none is disturbed.\<close>

definition good_place :: "nat set \<Rightarrow> nat set \<Rightarrow> nat set \<Rightarrow> UnpackedState \<Rightarrow> nat \<Rightarrow> UnpackedState \<Rightarrow> bool" where
  "good_place S T Z s offset s' \<longleftrightarrow>
     offset \<notin> S \<and> offset \<notin> Z \<and> placed (us_bitvector s) offset \<inter> T = {}
   \<and> (us_final s \<longrightarrow> offset + 255 \<notin> S)
   \<and> (255 < offset \<and> HasLabel 1 s \<longrightarrow> offset - 255 \<notin> S)
   \<and> (first_label s \<noteq> 0 \<and> offset \<notin> T \<and> 255 \<le> offset \<longrightarrow>
        zerobyte_state s' \<notin> S \<and> zerobyte_state s' < offset \<and> offset \<le> zerobyte_state s' + 255
        \<and> unat (zerobyte_label s') = offset - zerobyte_state s' \<and> unat (zerobyte_label s') \<noteq> 0)
   \<and> outgoing_transitions s' = outgoing_transitions s \<and> us_bitvector s' = us_bitvector s \<and> us_final s' = us_final s"

lemma probe_state_good:
  assumes k: "knows b S T Z" and bits: "state_bits (us_bitvector s)" and start: "highest_persisted_state b \<le> start + 151"
    and found: "probe_state b s start = Inr (Inr (offset, s'))"
  shows "good_place S T Z s offset s'"
proof -
  have free: "PT_NextFreeSlot start (state_start_positions b) = Some offset"
    using found by (auto simp: probe_state_def Let_def split: option.splits if_splits)
  with knowsD(4) [OF k, of start offset] start have o: "start \<le> offset" "offset \<notin> S" by auto
  then have reach: "highest_persisted_state b \<le> offset + 406" "highest_persisted_state b \<le> offset + 255 + 406"
    "255 \<le> offset \<Longrightarrow> highest_persisted_state b \<le> offset - 255 + 406" using start by auto
  note K = knowsD [OF k reach(1)] and K' = knowsD [OF k reach(2)] and K'' = knowsD [OF k reach(3)]
  note F = found [unfolded probe_state_def free option.case Let_def format_constants]
  have basic: "offset \<notin> Z" "us_final s \<Longrightarrow> offset + 255 \<notin> S" "PT_IsAvailable (us_bitvector s) offset (taken_positions b) = 0"
    "255 < offset \<and> HasLabel 1 s \<Longrightarrow> offset - 255 \<notin> S"
    using F K(3) K'(1) K''(1) by (auto split: if_splits)
  then have "placed (us_bitvector s) offset \<inter> T = {}" using K(5) [OF bits] by blast
  moreover have "outgoing_transitions s' = outgoing_transitions s \<and> us_bitvector s' = us_bitvector s \<and> us_final s' = us_final s"
    using F by (auto split: if_splits option.splits simp: SetZerobyteLabel_def SetZerobyteState_def)
  moreover have "zerobyte_state s' \<notin> S \<and> zerobyte_state s' < offset \<and> offset \<le> zerobyte_state s' + 255
        \<and> unat (zerobyte_label s') = offset - zerobyte_state s' \<and> unat (zerobyte_label s') \<noteq> 0"
    if z: "first_label s \<noteq> 0 \<and> offset \<notin> T \<and> 255 \<le> offset"
  proof -
    from F z K(2) obtain q where q: "PT_NextFreeSlot (offset - 255) (state_start_positions b) = Some q" "q < offset"
      "zerobyte_state s' = q" "zerobyte_label s' = of_nat (offset - q)"
      by (auto split: if_splits option.splits simp: SetZerobyteLabel_def SetZerobyteState_def not_le)
    with K''(4) [of q] z have "q \<notin> S" "offset \<le> q + 255" by auto
    moreover from this q have "unat (of_nat (offset - q) :: u8) = offset - q"
      by (simp add: unat_of_nat take_bit_nat_eq_self del: of_nat_diff)
    ultimately show ?thesis using q by auto
  qed
  ultimately show ?thesis using o(2) basic unfolding good_place_def by blast
qed

lemma find_free_bucket_good:
  assumes "find_free_bucket_loop b s start = Inr (offset, s')" "knows b S T Z" "state_bits (us_bitvector s)"
    "highest_persisted_state b \<le> start + 151"
  shows "good_place S T Z s offset s'"
  using assms
proof (induction b s start rule: find_free_bucket_loop.induct)
  case (1 b s start)
  show ?case
  proof (cases "probe_state b s start")
    case (Inl e)
    then show ?thesis using "1.prems" by (simp add: find_free_bucket_loop.simps [of b])
  next
    case (Inr r)
    show ?thesis
    proof (cases r)
      case (Inl n)
      have "find_free_bucket_loop b s n = Inr (offset, s')"
        using Inr Inl "1.prems"(1) by (simp add: find_free_bucket_loop.simps [of b s start])
      moreover have "start < n" using probe_state_next(1) [of b s start n] Inr Inl by simp
      ultimately show ?thesis using "1.IH" [OF Inr Inl] "1.prems"(2-4) by simp
    next
      case found: (Inr f)
      then have "f = (offset, s')" using Inr "1.prems"(1) by (simp add: find_free_bucket_loop.simps [of b s start])
      with probe_state_good [OF "1.prems"(2-4)] Inr found show ?thesis by blast
    qed
  qed
qed

lemma FindFreeBucket_good:
  assumes "FindFreeBucket b s = Inr (offset, s')" "knows b S T Z" "state_bits (us_bitvector s)"
  shows "good_place S T Z s offset s'"
proof -
  let ?start = "if highest_persisted_state b > SPARSE_ARRAY_SEARCH_OFFSET then highest_persisted_state b - SPARSE_ARRAY_SEARCH_OFFSET else 1"
  from assms(1) obtain position where p: "PT_NextFreeSlot (?start + first_label s) (taken_positions b) = Some position"
    "find_free_bucket_loop b s (position - first_label s) = Inr (offset, s')"
    by (auto simp: FindFreeBucket_def Let_def split: if_splits option.splits)
  from NextFreeSlot_ge [OF p(1)] have "highest_persisted_state b \<le> position - first_label s + 151"
    by (auto simp: SPARSE_ARRAY_SEARCH_OFFSET_def split: if_splits)
  with find_free_bucket_good [OF p(2) assms(2,3)] show ?thesis by blast
qed


section \<open>Weights\<close>

lemma UpdateWeight_effect:
  assumes "b_invar b" "offset + 260 < in_memory_buffer_offset (b_persistence b) + buffer_size (b_persistence b)"
  shows "\<exists>b'. UpdateWeightIfNeeded no_failure offset weight b = Inr b' \<and> b_invar b'
    \<and> unat (b_value b' (offset + 260)) = max (unat (b_value b (offset + 260))) (min (unat weight) 65535)
    \<and> (\<forall>i. i \<noteq> offset + 260 \<longrightarrow> b_value b' i = b_value b i \<and> b_label b' i = b_label b i)"
proof -
  let ?n = "min (unat weight) 65535" and ?i = "offset + 260"
  from ReadTransitionValue_reads [OF assms] obtain p where p:
    "ReadTransitionValue no_failure ?i (b_persistence b) = Inr (b_value b ?i, p)" "same_array (b_persistence b) p" by blast
  then have p': "sap_invar p" "sap_value p = b_value b" "sap_label p = b_label b" by (simp_all add: same_array_def)
  show ?thesis
  proof (cases "unat (b_value b ?i) < ?n")
    case True
    have "?i < in_memory_buffer_offset p + buffer_size p" using assms(2) p(2) by (auto simp: same_array_def)
    from WriteTransition_writes [OF p'(1) this, of 0 "of_nat ?n"] obtain p1 where p1:
      "SAP_WriteTransition no_failure ?i 0 (of_nat ?n) p = Inr p1" "sap_invar p1" "sap_label p1 = (sap_label p)(?i := 0)"
      "sap_value p1 = (sap_value p)(?i := of_nat ?n)" by blast
    have "unat (of_nat ?n :: u16) = ?n" by (simp add: unat_of_nat take_bit_nat_eq_self)
    with True p(1) p' p1 show ?thesis
      by (auto simp: UpdateWeightIfNeeded_def b_write_def Let_def COMPACT_SIZE_INNER_WEIGHT_MAX_VALUE_def
          INNER_WEIGHT_TRANSITION_COMPACT_def max_def)
  next
    case False
    with p(1) p' show ?thesis
      by (auto simp: UpdateWeightIfNeeded_def Let_def COMPACT_SIZE_INNER_WEIGHT_MAX_VALUE_def INNER_WEIGHT_TRANSITION_COMPACT_def max_def)
  qed
qed

section \<open>An example\<close>

definition example_builder :: builder where
  "example_builder = \<lparr>number_of_states = 0, highest_persisted_state = 0, b_persistence = SparseArrayPersistence 12000,
     inner_weight = False, minimize = True, state_hashtable = LRU 10 3, state_start_positions = PositionTracker,
     taken_positions = PT_Set 1000 PositionTracker, zerobyte_scrambling_state_start_positions = PositionTracker\<rparr>"

lemma example_builder_invar:
  "b_invar example_builder"
  "i < 4000 \<Longrightarrow> i < in_memory_buffer_offset (b_persistence example_builder) + buffer_size (b_persistence example_builder)"
proof -
  have "align16 (12000 div 3) = 4016" by (simp add: align16_def)
  then show "i < 4000 \<Longrightarrow> i < in_memory_buffer_offset (b_persistence example_builder) + buffer_size (b_persistence example_builder)"
    by (simp add: example_builder_def SparseArrayPersistence_def Let_def)
  show "b_invar example_builder" using sap_initial(1) [of 12000] by (simp add: example_builder_def)
qed

lemma NextFreeSlot_free:
  assumes t: "tracks T t" and w: "window_start_position t \<le> blocker_window p" and p: "p \<notin> T"
  shows "PT_NextFreeSlot p t = Some p"
proof (cases "window_start_position t = blocker_window p")
  case True
  have split: "p = SLIDING_WINDOW_SIZE * window_start_position t + blocker_offset p" using position_split [of p] True by simp
  from NextFreeSlot_current [OF t blocker_offset_less, of p] obtain r where r: "GetNextNonSetBit (blocker_offset p) (current_vector t) = Some r"
    "blocker_offset p \<le> r" "\<forall>q. blocker_offset p \<le> q \<and> q < r \<longrightarrow> SLIDING_WINDOW_SIZE * window_start_position t + q \<in> T" by blast
  have "r = blocker_offset p" using r(2,3) split p by (metis le_neq_implies_less order_refl)
  with True r(1) split show ?thesis by (simp add: PT_NextFreeSlot_def Let_def mult.commute)
qed (use w in \<open>simp add: PT_NextFreeSlot_def\<close>)

lemma example_tracks: "tracks {} PositionTracker" "tracks {1000} (PT_Set 1000 PositionTracker)"
  "window_start_position PositionTracker = 0" "window_start_position (PT_Set 1000 PositionTracker) = 0"
proof -
  show t: "tracks {} PositionTracker" by (rule tracks_initial)
  show w: "window_start_position PositionTracker = 0" by (simp add: PositionTracker_def)
  have b: "blocker_window 1000 = 0" by (simp add: blocker_window_def SLIDING_WINDOW_SIZE_def)
  show "tracks {1000} (PT_Set 1000 PositionTracker)" by (rule tracks_Set [OF t]) (simp add: b)
  show "window_start_position (PT_Set 1000 PositionTracker) = 0" by (simp add: PT_Set_def b w Let_def)
qed

lemma example_trackers:
  "PT_NextFreeSlot n PositionTracker = Some n" "\<not> PT_IsSet n PositionTracker"
  "n \<noteq> 1000 \<Longrightarrow> PT_NextFreeSlot n (PT_Set 1000 PositionTracker) = Some n"
  "PT_IsSet n (PT_Set 1000 PositionTracker) \<longleftrightarrow> n = 1000"
  using NextFreeSlot_free [OF example_tracks(1)] NextFreeSlot_free [OF example_tracks(2)]
    IsSet_correct [OF example_tracks(1)] IsSet_correct [OF example_tracks(2)]
  by (simp_all add: example_tracks(3,4) in_reach_def)

lemma example_overflow:
  "\<exists>z label. find_overflow_loop example_builder high (1000 - 512) = Inr (488, z, label)"
proof -
  let ?n = "snd (encodeVarShort high (\<lambda>_. 0))"
  have n: "?n \<in> {1, 2, 3, 4, 5}" using encodeVarShort_bounds [of high "\<lambda>_. 0"] by auto
  have k: "\<not> PT_IsSet (488 + k) (PT_Set 1000 PositionTracker)" if "k < ?n" for k
    using that n by (auto simp: example_trackers)
  then have bad: "bad_slot example_builder 488 ?n = None" by (auto simp: bad_slot_def find_None_iff example_builder_def)
  have u: "unat (of_nat (488 - (488 + ?n - 255 - 1)) :: u8) \<noteq> 1" using n by auto
  have "probe_overflow example_builder high 488 = Inr (Inr (488, 488 + ?n - 255 - 1, of_nat (488 - (488 + ?n - 255 - 1))))"
    using bad u k [of 0] n
    unfolding probe_overflow_def Let_def by (auto simp: example_builder_def format_constants example_trackers)
  then show ?thesis by (subst find_overflow_loop.simps) simp
qed

lemma b_write_ok:
  assumes "b_invar b" "offset < in_memory_buffer_offset (b_persistence b) + buffer_size (b_persistence b)"
  shows "\<exists>b'. b_write no_failure offset l v b = Inr b' \<and> b_invar b'
    \<and> in_memory_buffer_offset (b_persistence b') = in_memory_buffer_offset (b_persistence b)
    \<and> buffer_size (b_persistence b') = buffer_size (b_persistence b)"
  using WriteTransition_writes [OF assms, of l v] by (auto simp: b_write_def)

lemma write_overflow_ok:
  assumes "b_invar b" "position + length vs \<le> in_memory_buffer_offset (b_persistence b) + buffer_size (b_persistence b)"
  shows "\<exists>b'. write_overflow no_failure position l vs b = Inr b' \<and> b_invar b'
    \<and> in_memory_buffer_offset (b_persistence b') = in_memory_buffer_offset (b_persistence b)
    \<and> buffer_size (b_persistence b') = buffer_size (b_persistence b)"
  using assms
proof (induction vs arbitrary: position l b)
  case (Cons v vs)
  let ?b = "b\<lparr>taken_positions := PT_Set position (taken_positions b)\<rparr>"
  from b_write_ok [of ?b position l v] Cons.prems obtain b1 where "b_write no_failure position l v ?b = Inr b1" "b_invar b1"
    "in_memory_buffer_offset (b_persistence b1) = in_memory_buffer_offset (b_persistence b)"
    "buffer_size (b_persistence b1) = buffer_size (b_persistence b)" by auto
  with Cons.IH [of b1 "position + 1" "l + 1"] Cons.prems show ?case by auto
qed simp

section \<open>Properties\<close>





text \<open>
  C33: inner weights.  Updating the weight of a state leaves in its weight bucket the maximum of the old value
  and the new weight, capped at 65535, and changes no other bucket.
\<close>

theorem weight_is_maximum:
  assumes "b_invar b" "offset + 260 < in_memory_buffer_offset (b_persistence b) + buffer_size (b_persistence b)"
  shows "\<exists>b'. UpdateWeightIfNeeded no_failure offset weight b = Inr b'
    \<and> unat (b_value b' (offset + 260)) = max (unat (b_value b (offset + 260))) (min (unat weight) 65535)
    \<and> (\<forall>i. i \<noteq> offset + 260 \<longrightarrow> b_value b' i = b_value b i \<and> b_label b' i = b_label b i)"
  using UpdateWeight_effect [OF assms] by blast

theorem weight_is_maximum_witness:
  "\<exists>b'. UpdateWeightIfNeeded no_failure 1 70000 example_builder = Inr b' \<and> unat (b_value b' 261) = 65535"
proof -
  have "b_value example_builder 261 = 0" using sap_initial(4) [of 12000] by (simp add: example_builder_def)
  with weight_is_maximum [OF example_builder_invar(1), of 1 70000] example_builder_invar(2) [of 261] show ?thesis by auto
qed


definition full_tracker :: tracker where
  "full_tracker = \<lparr>window_start_position = 0, current_vector = \<lparr>bv_bits = replicate 32 (- 1) @ [0], bv_size = 2048\<rparr>,
     previous_vector = BitVector 2048\<rparr>"

definition full_builder :: builder where
  "full_builder = example_builder\<lparr>taken_positions := full_tracker\<rparr>"

lemma full_overflow: "find_overflow_loop full_builder 125000 488 = Inr (2048, 1794, 254)"
proof -
  have n: "snd (encodeVarShort 125000 (\<lambda>_. 0)) = 2"
    by (simp add: encodeVarShort_groups varshort_groups.simps)
  have t: "PT_NextFreeSlot 488 full_tracker = Some 2048" by code_simp
  have free: "\<not> PT_IsSet (2048 + k) full_tracker" for k
    using beyond_free(1) [of full_tracker] by (simp add: beyond_def full_tracker_def SLIDING_WINDOW_SIZE_def)
  have "bad_slot full_builder 2048 2 = None" using free by (auto simp: bad_slot_def find_None_iff full_builder_def example_builder_def)
  then have "probe_overflow full_builder 125000 488 = Inr (Inr (2048, 1794, 254))"
    unfolding probe_overflow_def n Let_def using t free [of 0]
    by (simp add: full_builder_def example_builder_def format_constants example_trackers)
  then show ?thesis by (subst find_overflow_loop.simps) simp
qed

text \<open>
  The search for overflow buckets does not stop at the end of the window.  When all buckets of the
  window are taken, the first free bucket lies further away than the pointer can express; the builder
  writes the pointer all the same, and the transition to state 1000000 leads to state 8576.
\<close>

theorem overflow_pointer_too_far:
  "\<exists>b'. b_WriteTransition no_failure 1000 65 1000000 full_builder = Inr b'
    \<and> ResolvePointer (array_automata (b_persistence b')) 1000 0 = 8576"
proof -
  let ?b0 = "full_builder\<lparr>zerobyte_scrambling_state_start_positions := PT_Set 1794 (zerobyte_scrambling_state_start_positions full_builder)\<rparr>"
  have inv: "b_invar ?b0" "i < 2100 \<Longrightarrow> i < in_memory_buffer_offset (b_persistence ?b0) + buffer_size (b_persistence ?b0)" for i
    using example_builder_invar by (simp_all add: full_builder_def)
  have "length (vshort_list 125000) = 2" by (simp add: vshort_list_groups varshort_groups.simps)
  with inv(1) inv(2) [of 2060] write_overflow_ok [of ?b0 2048 "vshort_list 125000" 254] obtain b1 where
    b1: "write_overflow no_failure 2048 254 (vshort_list 125000) ?b0 = Inr b1" "b_invar b1"
    "in_memory_buffer_offset (b_persistence b1) = in_memory_buffer_offset (b_persistence ?b0)"
    "buffer_size (b_persistence b1) = buffer_size (b_persistence ?b0)" by auto
  from b_write_ok [OF b1(2), where offset = 1000 and l = 65 and v = "0xE180"] inv(2) [of 1000] b1(3,4) obtain b' where b': "b_write no_failure 1000 65 0xE180 b1 = Inr b'" by auto
  have "b_WriteTransition no_failure 1000 65 1000000 full_builder = Inr b'"
    using full_overflow b1(1) b' by (simp add: b_WriteTransition_def format_constants builder_constants Let_def)
  moreover have "b_value b' 1000 = 0xE180" using b_write_effect(3) [OF b' b1(2)] by simp
  then have "ResolvePointer (array_automata (b_persistence b')) 1000 0 = 8576"
    by (simp add: ResolvePointer_def array_automata_def Let_def)
  ultimately show ?thesis by blast
qed

end
