(* ===== verification/Merger.thy ===== *)
theory Merger
  imports Dictionary "HOL-Library.Multiset" "HOL-Library.Sublist"
begin

text \<open>
  The dictionary merger: \<open>dictionary/fsa/segment_iterator.h\<close> and \<open>dictionary/dictionary_merger.h\<close>.
  Several dictionaries, the segments, are merged into one: the entry iterators of the segments wait in
  a priority queue, the newest entry of each key goes to the generator, unless the segment's list of
  deleted keys names it.  The value store and the generator are the template arguments of the class;
  here they are operations of a record.
\<close>

section \<open>The segment iterator\<close>

record SegmentIterator =
  si_entry :: EntryIterator
  si_index :: nat

definition SI_less :: "SegmentIterator \<Rightarrow> SegmentIterator \<Rightarrow> bool" where
  "SI_less lhs rhs =
     (if si_index lhs < si_index rhs then EI_greater (si_entry lhs) (si_entry rhs)
      else EI_less (si_entry rhs) (si_entry lhs))"

definition SI_bool :: "SegmentIterator \<Rightarrow> bool" where
  "SI_bool s \<longleftrightarrow> \<not> EI_eq (si_entry s) end_iterator"

definition SI_next :: "SegmentIterator \<Rightarrow> SegmentIterator option" where
  "SI_next s = map_option (\<lambda>it. s\<lparr>si_entry := it\<rparr>) (EI_next (si_entry s))"

text \<open>
  \<open>std::priority_queue\<close>, a container adapter whose top is a maximal element: here the elements in
  descending order.
\<close>

type_synonym pqueue = "SegmentIterator list"

definition pq_push :: "SegmentIterator \<Rightarrow> pqueue \<Rightarrow> pqueue" where
  "pq_push s q = stable_insert (\<lambda>a b. SI_less b a) s q"

definition pq_top :: "pqueue \<Rightarrow> SegmentIterator" where
  "pq_top q = hd q"

definition pq_pop :: "pqueue \<Rightarrow> pqueue" where
  "pq_pop q = tl q"

section \<open>The merger\<close>

record ValueHandle =
  value_idx :: u64
  weight :: u32
  no_minimization :: bool
  deleted :: bool

record MergeStats =
  stat_number_of_keys :: nat
  stat_deleted_keys :: nat
  stat_updated_keys :: nat

datatype merger_error = File_Added_Already | Different_Value_Store_Types | Incompatible_Value_Stores
  | Not_Merged_Yet | Generator_Failed

text \<open>
  The value store of the merge and the generator: what the merger calls of them.  A call of the
  generator may throw.
\<close>

record ('v, 'g) merge_env =
  new_value_store :: "string list \<Rightarrow> 'v"
  GetMergeWeight :: "'v \<Rightarrow> u64 \<Rightarrow> u32"
  AddValueMerge :: "'v \<Rightarrow> automata \<Rightarrow> u64 \<Rightarrow> u64 \<times> bool \<times> 'v"
  AddValueAppendMerge :: "'v \<Rightarrow> nat \<Rightarrow> u64 \<Rightarrow> u64 \<times> 'v"
  SparseArraySize :: "automata \<Rightarrow> nat"
  CreateGenerator :: "nat \<Rightarrow> 'v \<Rightarrow> 'g"
  generator_Add :: "'g \<Rightarrow> u8 list \<Rightarrow> ValueHandle \<Rightarrow> merger_error + 'g"
  generator_CloseFeeding :: "'g \<Rightarrow> merger_error + 'g"
  generator_SetManifest :: "'g \<Rightarrow> string \<Rightarrow> 'g"

record ('v, 'g) merger =
  generator :: "'g option"
  merge_store :: "'v option"
  append_merge :: bool
  dicts_to_merge :: "automata list"
  deleted_keys :: "u8 list list list"
  inputFiles :: "string list"
  segments_pqueue :: pqueue
  manifest :: string
  stats :: MergeStats

definition DictionaryMerger :: "bool \<Rightarrow> ('v, 'g) merger" where
  "DictionaryMerger appending = \<lparr>generator = None, merge_store = None, append_merge = appending, dicts_to_merge = [],
     deleted_keys = [], inputFiles = [], segments_pqueue = [], manifest = [],
     stats = \<lparr>stat_number_of_keys = 0, stat_deleted_keys = 0, stat_updated_keys = 0\<rparr>\<rparr>"

text \<open>
  A dictionary file: the automaton, the type of its value store, and the keys of the file of deleted keys
  beside it, when there is one.  The keys are sorted in descending order, so that the smallest is at the
  back.
\<close>

record dictionary_file =
  df_automata :: automata
  df_value_store_type :: nat
  df_deleted_keys :: "u8 list list option"

definition TryLoadDeletedKeys :: "dictionary_file \<Rightarrow> u8 list list" where
  "TryLoadDeletedKeys f =
     (case df_deleted_keys f of None \<Rightarrow> [] | Some ks \<Rightarrow> stable_sort (\<lambda>a b. key_less b a) ks)"

text \<open>The compatibility check of the value stores is that of the first dictionary's value store.\<close>

definition Merger_Add ::
  "(automata \<Rightarrow> automata \<Rightarrow> bool) \<Rightarrow> nat \<Rightarrow> string \<Rightarrow> dictionary_file \<Rightarrow> ('v, 'g) merger \<Rightarrow>
     (merger_error + ('v, 'g) merger) option" where
  "Merger_Add compatible value_store_type filename f m =
     (if filename \<in> set (inputFiles m) then Some (Inl File_Added_Already)
      else if df_value_store_type f \<noteq> value_store_type then Some (Inl Different_Value_Store_Types)
      else if \<not> append_merge m \<and> dicts_to_merge m \<noteq> [] \<and> \<not> compatible (dicts_to_merge m ! 0) (df_automata f)
      then Some (Inl Incompatible_Value_Stores)
      else Option.bind (EntryIterator (df_automata f) (GetStartState (df_automata f))) (\<lambda>it.
        let s = \<lparr>si_entry = it, si_index = length (segments_pqueue m)\<rparr>
        in if \<not> SI_bool s then Some (Inr m)
           else Some (Inr (m\<lparr>deleted_keys := deleted_keys m @ [TryLoadDeletedKeys f],
                            segments_pqueue := pq_push s (segments_pqueue m),
                            inputFiles := inputFiles m @ [filename],
                            dicts_to_merge := dicts_to_merge m @ [df_automata f]\<rparr>))))"

definition SetManifest :: "('v, 'g) merge_env \<Rightarrow> string \<Rightarrow> ('v, 'g) merger \<Rightarrow> ('v, 'g) merger" where
  "SetManifest env man m =
     m\<lparr>manifest := man, generator := map_option (\<lambda>g. generator_SetManifest env g man) (generator m)\<rparr>"

definition GetTotalSparseArraySize :: "('v, 'g) merge_env \<Rightarrow> ('v, 'g) merger \<Rightarrow> nat" where
  "GetTotalSparseArraySize env m = (\<Sum>A \<leftarrow> dicts_to_merge m. SparseArraySize env A)"

section \<open>Merging\<close>

text \<open>
  A key counts as deleted when it is at the back of the list of its segment; it then leaves the back of
  every list.
\<close>

fun drop_deleted :: "u8 list \<Rightarrow> u8 list list list \<Rightarrow> u8 list list list \<times> nat" where
  "drop_deleted key [] = ([], 0)"
| "drop_deleted key (d # ds) =
     (let (ds', n) = drop_deleted key ds
      in if d \<noteq> [] \<and> key = last d then (butlast d # ds', Suc n) else (d # ds', n))"

definition KeyDeleted ::
  "nat \<Rightarrow> u8 list \<Rightarrow> u8 list list list \<Rightarrow> MergeStats \<Rightarrow> bool \<times> u8 list list list \<times> MergeStats" where
  "KeyDeleted segment_index key dk st =
     (if dk ! segment_index \<noteq> [] \<and> key = last (dk ! segment_index)
      then (let (dk', n) = drop_deleted key (dk[segment_index := butlast (dk ! segment_index)])
            in (True, dk', st\<lparr>stat_deleted_keys := stat_deleted_keys st + 1 + n\<rparr>))
      else (False, dk, st))"

text \<open>The inner loop: the older entries of the key on top are passed over.\<close>

partial_function (option) pass_over :: "u8 list \<Rightarrow> pqueue \<Rightarrow> nat \<Rightarrow> (pqueue \<times> nat) option" where
  "pass_over top_key q updated =
     (if q \<noteq> [] \<and> EI_eq_key (si_entry (pq_top q)) top_key
      then Option.bind (SI_next (pq_top q)) (\<lambda>to_inc.
             pass_over top_key (if SI_bool to_inc then pq_push to_inc (pq_pop q) else pq_pop q) (updated + 1))
      else Some (q, updated))"

text \<open>The value of an entry in the merged dictionary: by a copy, or by the segment and the old value.\<close>

definition merge_handle ::
  "('v, 'g) merge_env \<Rightarrow> bool \<Rightarrow> 'v \<Rightarrow> automata \<Rightarrow> nat \<Rightarrow> u64 \<Rightarrow> ValueHandle \<times> 'v" where
  "merge_handle env appending vs A i v =
     (if appending
      then (let (idx, vs') = AddValueAppendMerge env vs i v
            in (\<lparr>value_idx = idx, weight = GetMergeWeight env vs v, no_minimization = False, deleted = False\<rparr>, vs'))
      else (let (idx, nm, vs') = AddValueMerge env vs A v
            in (\<lparr>value_idx = idx, weight = GetMergeWeight env vs v, no_minimization = nm, deleted = False\<rparr>, vs')))"

text \<open>
  The outer loop of \<open>CompleteMerge\<close> and \<open>AppendMerge\<close>, which differ only in how the value is added.
\<close>

partial_function (option) merge_loop ::
  "('v, 'g) merge_env \<Rightarrow> bool \<Rightarrow> 'v \<Rightarrow> 'g \<Rightarrow> u8 list list list \<Rightarrow> MergeStats \<Rightarrow> pqueue \<Rightarrow>
     (merger_error + 'v \<times> 'g \<times> u8 list list list \<times> MergeStats) option" where
  "merge_loop env appending vs g dk st q =
     (if q = [] then Some (Inr (vs, g, dk, st))
      else (let segment_it = pq_top q; top_key = EI_GetKey (si_entry segment_it) in
        Option.bind (pass_over top_key (pq_pop q) (stat_updated_keys st)) (\<lambda>(q1, updated).
        let (is_deleted, dk1, st1) = KeyDeleted (si_index segment_it) top_key dk (st\<lparr>stat_updated_keys := updated\<rparr>) in
        Option.bind (if is_deleted then Some (Inr (vs, g, st1))
             else (let (h, vs1) = merge_handle env appending vs (the (ei_fsa (si_entry segment_it)))
                                    (si_index segment_it) (EI_GetValueId (si_entry segment_it))
                   in Some (bind_sum (generator_Add env g top_key h) (\<lambda>g1.
                        Inr (vs1, g1, st1\<lparr>stat_number_of_keys := stat_number_of_keys st1 + 1\<rparr>))))) (\<lambda>r.
        case r of Inl e \<Rightarrow> Some (Inl e)
        | Inr (vs2, g2, st2) \<Rightarrow>
            Option.bind (SI_next segment_it) (\<lambda>next_it.
            merge_loop env appending vs2 g2 dk1 st2 (if SI_bool next_it then pq_push next_it q1 else q1))))))"

definition run_merge ::
  "('v, 'g) merge_env \<Rightarrow> bool \<Rightarrow> ('v, 'g) merger \<Rightarrow> (merger_error + ('v, 'g) merger) option" where
  "run_merge env appending m =
     (let vs = new_value_store env (inputFiles m);
          g = CreateGenerator env (GetTotalSparseArraySize env m) vs
      in Option.bind (merge_loop env appending vs g (deleted_keys m) (stats m) (segments_pqueue m)) (\<lambda>r.
           Some (bind_sum r (\<lambda>(vs', g', dk', st').
             bind_sum (generator_CloseFeeding env g') (\<lambda>g2.
             Inr (m\<lparr>generator := Some g2, merge_store := Some vs', deleted_keys := dk', stats := st',
                    segments_pqueue := [], dicts_to_merge := []\<rparr>))))))"

definition CompleteMerge :: "('v, 'g) merge_env \<Rightarrow> ('v, 'g) merger \<Rightarrow> (merger_error + ('v, 'g) merger) option" where
  "CompleteMerge env m = run_merge env False m"

definition AppendMerge :: "('v, 'g) merge_env \<Rightarrow> ('v, 'g) merger \<Rightarrow> (merger_error + ('v, 'g) merger) option" where
  "AppendMerge env m = run_merge env True m"

definition Merge :: "('v, 'g) merge_env \<Rightarrow> ('v, 'g) merger \<Rightarrow> (merger_error + ('v, 'g) merger) option" where
  "Merge env m =
     Option.bind (if append_merge m then AppendMerge env m else CompleteMerge env m) (\<lambda>r.
       Some (bind_sum r (\<lambda>m'. Inr (m'\<lparr>generator := map_option (\<lambda>g. generator_SetManifest env g (manifest m')) (generator m')\<rparr>))))"

lemma Merge_run:
  "Merge env m =
     Option.bind (run_merge env (append_merge m) m) (\<lambda>r.
       Some (bind_sum r (\<lambda>m'. Inr (m'\<lparr>generator := map_option (\<lambda>g. generator_SetManifest env g (manifest m')) (generator m')\<rparr>))))"
  by (simp add: Merge_def AppendMerge_def CompleteMerge_def)

definition WriteToFile :: "('v, 'g) merger \<Rightarrow> merger_error + 'g" where
  "WriteToFile m = (case generator m of None \<Rightarrow> Inl Not_Merged_Yet | Some g \<Rightarrow> Inr g)"


section \<open>The queue of segments\<close>

abbreviation si_key :: "SegmentIterator \<Rightarrow> u8 list" where
  "si_key s \<equiv> traversal_stack (si_entry s)"

text \<open>The order is that of the keys, reversed; among equal keys the higher index has priority.\<close>

lemma not_SI_less: "\<not> SI_less a b \<longleftrightarrow> key_less (si_key a) (si_key b) \<or> si_key a = si_key b \<and> si_index b \<le> si_index a"
  using key_less_linear [of "si_key a" "si_key b"] key_less_trans [of "si_key a" "si_key b" "si_key a"]
  by (auto simp: SI_less_def EI_greater_def EI_less_iff)

lemma not_SI_less_trans: "\<not> SI_less a b \<Longrightarrow> \<not> SI_less b c \<Longrightarrow> \<not> SI_less a c"
  unfolding not_SI_less using key_less_trans [of "si_key a" "si_key b" "si_key c"] by auto

lemma SI_less_asym: "SI_less a b \<Longrightarrow> \<not> SI_less b a"
  using key_less_linear [of "si_key a" "si_key b"] not_SI_less [of a b] not_SI_less [of b a] by auto

text \<open>The contract of a priority queue.\<close>

locale max_queue =
  fixes less :: "'a \<Rightarrow> 'a \<Rightarrow> bool" and ok :: "'q \<Rightarrow> bool" and elems :: "'q \<Rightarrow> 'a multiset"
    and push :: "'a \<Rightarrow> 'q \<Rightarrow> 'q" and top :: "'q \<Rightarrow> 'a" and pop :: "'q \<Rightarrow> 'q"
  assumes ok_push: "ok q \<Longrightarrow> ok (push x q)"
    and ok_pop: "ok q \<Longrightarrow> elems q \<noteq> {#} \<Longrightarrow> ok (pop q)"
    and elems_push: "elems (push x q) = add_mset x (elems q)"
    and elems_pop: "elems q \<noteq> {#} \<Longrightarrow> elems q = add_mset (top q) (elems (pop q))"
    and top_max: "ok q \<Longrightarrow> y \<in># elems q \<Longrightarrow> \<not> less (top q) y"
begin

lemma top_in: "elems q \<noteq> {#} \<Longrightarrow> top q \<in># elems q"
  by (subst elems_pop) simp_all

text \<open>Replacing the top element.\<close>

lemma elems_replace: "elems q \<noteq> {#} \<Longrightarrow> elems (push x (pop q)) = elems q - {#top q#} + {#x#}"
  using elems_pop [of q] elems_push [of x "pop q"] by simp

lemma ok_replace: "ok q \<Longrightarrow> elems q \<noteq> {#} \<Longrightarrow> ok (push x (pop q))"
  by (intro ok_push ok_pop)

end

definition pq_ok :: "pqueue \<Rightarrow> bool" where
  "pq_ok q \<longleftrightarrow> sorted_wrt (\<lambda>a b. \<not> SI_less a b) q"

lemma pq_ok_push: "pq_ok q \<Longrightarrow> pq_ok (pq_push s q)"
  unfolding pq_ok_def pq_push_def
proof (induction q)
  case (Cons y q)
  then show ?case
    using SI_less_asym [of s y] not_SI_less_trans [of s y] by auto
qed simp

lemma mset_pq_push [simp]: "mset (pq_push s q) = add_mset s (mset q)"
  unfolding pq_push_def by (induction q) auto

interpretation spq: max_queue SI_less pq_ok mset pq_push pq_top pq_pop
proof
  show "pq_ok q \<Longrightarrow> mset q \<noteq> {#} \<Longrightarrow> pq_ok (pq_pop q)" for q
    by (cases q) (auto simp: pq_ok_def pq_pop_def)
  show "mset q \<noteq> {#} \<Longrightarrow> mset q = add_mset (pq_top q) (mset (pq_pop q))" for q
    by (cases q) (auto simp: pq_top_def pq_pop_def)
  show "pq_ok q \<Longrightarrow> y \<in># mset q \<Longrightarrow> \<not> SI_less (pq_top q) y" for q y
    by (cases q) (auto simp: pq_ok_def pq_top_def not_SI_less)
qed (simp_all add: pq_ok_push)

section \<open>The entries an iterator still has\<close>

definition iterates :: "automata \<Rightarrow> (u8 list \<times> u64) list \<Rightarrow> EntryIterator \<Rightarrow> bool" where
  "iterates A items it \<longleftrightarrow>
     (\<exists>N ns. yields A N ns it \<and> items = map (\<lambda>(w, t). (w, GetStateValue A t)) ns)"

lemma iterates_Nil: "iterates A [] it \<longleftrightarrow> ei_state it = 0"
  by (auto simp: iterates_def yields_def)

lemma iterates_Cons:
  assumes "iterates A ((w, v) # items) it"
  shows "ei_state it \<noteq> 0" "ei_fsa it = Some A" "traversal_stack it = w" "EI_GetKey it = w" "EI_GetValueId it = v"
    "EI_eq_key it k \<longleftrightarrow> w = k" "\<exists>it'. EI_next it = Some it' \<and> iterates A items it'"
proof -
  from assms obtain N ns where ns: "yields A N ns it" "(w, v) # items = map (\<lambda>(w, t). (w, GetStateValue A t)) ns"
    by (auto simp: iterates_def)
  then obtain s ns' where ns': "ns = (w, s) # ns'" "v = GetStateValue A s" "items = map (\<lambda>(w, t). (w, GetStateValue A t)) ns'"
    by (cases ns) auto
  with ns obtain pd where pd: "ei_ok A N pd it" "EI_GetKey it = w" "traversal_stack it = w" "EI_GetValueId it = v"
    by (auto simp: yields_def)
  then show "ei_state it \<noteq> 0" "ei_fsa it = Some A" "traversal_stack it = w" "EI_GetKey it = w" "EI_GetValueId it = v"
    by (auto simp: ei_ok_def)
  have "length w = depth (ei_stack it)" using pd by (simp add: ei_ok_def path_to_def)
  then show "EI_eq_key it k \<longleftrightarrow> w = k"
    using pd by (auto simp: EI_eq_key_def EI_GetDepth_def)
  from EI_next_yields [OF ns(1)] ns' show "\<exists>it'. EI_next it = Some it' \<and> iterates A items it'"
    by (auto simp: iterates_def)
qed

lemma EntryIterator_iterates:
  assumes "number_of_keys A \<noteq> 0" "GetStartState A \<noteq> 0" "fsa_depth A N (GetStartState A)"
  shows "\<exists>it. EntryIterator A (GetStartState A) = Some it \<and> iterates A (entries A N (GetStartState A)) it"
  using EntryIterator_yields [OF assms] by (auto simp: iterates_def entries_def)


section \<open>What a merge must produce\<close>

type_synonym items = "(u8 list \<times> u64) list"

text \<open>
  The segments as lists of entries, oldest first.  The newest entry of a key is the one of the last
  segment that has the key.
\<close>

definition newest_entry :: "(u8 list \<times> 'w) list list \<Rightarrow> u8 list \<Rightarrow> nat \<Rightarrow> 'w \<Rightarrow> bool" where
  "newest_entry segs k i v \<longleftrightarrow>
     i < length segs \<and> (k, v) \<in> set (segs ! i) \<and> (\<forall>j < length segs. i < j \<longrightarrow> k \<notin> fst ` set (segs ! j))"

definition newest_entries :: "(u8 list \<times> 'w) list list \<Rightarrow> (u8 list \<times> nat \<times> 'w) list \<Rightarrow> bool" where
  "newest_entries segs es \<longleftrightarrow>
     sorted_wrt key_less (map fst es) \<and> (\<forall>k i v. (k, i, v) \<in> set es \<longleftrightarrow> newest_entry segs k i v)"

definition sorted_items :: "(u8 list \<times> 'w) list \<Rightarrow> bool" where
  "sorted_items xs \<longleftrightarrow> sorted_wrt key_less (map fst xs)"

lemma sorted_items_simps [simp]:
  "sorted_items []" "sorted_items (x # xs) \<longleftrightarrow> (\<forall>y \<in> set xs. key_less (fst x) (fst y)) \<and> sorted_items xs"
  by (auto simp: sorted_items_def)

text \<open>One turn of the merge removes a key from the front of every segment.\<close>

fun drop_key :: "u8 list \<Rightarrow> items \<Rightarrow> items" where
  "drop_key k [] = []"
| "drop_key k ((w, v) # xs) = (if w = k then xs else (w, v) # xs)"

definition key_min :: "u8 list \<Rightarrow> items list \<Rightarrow> bool" where
  "key_min k segs \<longleftrightarrow> (\<forall>xs \<in> set segs. \<forall>x \<in> set xs. k = fst x \<or> key_less k (fst x))"

lemma drop_key_absent: "k \<notin> fst ` set xs \<Longrightarrow> drop_key k xs = xs"
  by (cases xs rule: list.exhaust) (auto split: prod.splits)

lemma set_drop_key:
  assumes "sorted_items xs" "\<forall>x \<in> set xs. k = fst x \<or> key_less k (fst x)"
  shows "set (drop_key k xs) = {x \<in> set xs. fst x \<noteq> k}"
proof (cases xs)
  case (Cons x ys)
  obtain w v where x: "x = (w, v)" by (cases x)
  show ?thesis
  proof (cases "w = k")
    case True
    then show ?thesis using assms Cons x by auto
  next
    case False
    then have "key_less k w" using assms(2) Cons x by auto
    then have "fst y \<noteq> k" if "y \<in> set ys" for y
      using that assms(1) Cons x key_less_trans [of k w k] by auto
    then show ?thesis using Cons x False by auto
  qed
qed simp

lemma sorted_drop_key: "sorted_items xs \<Longrightarrow> sorted_items (drop_key k xs)"
  by (cases "(k, xs)" rule: drop_key.cases) auto

lemma newest_entry_drop_key:
  assumes "\<forall>xs \<in> set segs. sorted_items xs" "key_min k segs"
  shows "newest_entry (map (drop_key k) segs) k' i v \<longleftrightarrow> k' \<noteq> k \<and> newest_entry segs k' i v"
proof -
  have s: "set (drop_key k (segs ! j)) = {x \<in> set (segs ! j). fst x \<noteq> k}" if "j < length segs" for j
    using assms that nth_mem [OF that] by (intro set_drop_key) (auto simp: key_min_def)
  have keys: "k' \<notin> fst ` {x \<in> set xs. fst x \<noteq> k} \<longleftrightarrow> k' = k \<or> k' \<notin> fst ` set xs" for xs :: items by auto
  have m: "map (drop_key k) segs ! j = drop_key k (segs ! j)" if "j < length segs" for j using that by simp
  show ?thesis
  proof (cases "i < length segs")
    case True
    have "(\<forall>j < length segs. i < j \<longrightarrow> k' \<notin> fst ` set (map (drop_key k) segs ! j)) \<longleftrightarrow>
        (\<forall>j < length segs. i < j \<longrightarrow> k' = k \<or> k' \<notin> fst ` set (segs ! j))"
    proof (intro all_cong1 imp_cong refl)
      fix j assume j: "j < length segs"
      show "k' \<notin> fst ` set (map (drop_key k) segs ! j) \<longleftrightarrow> k' = k \<or> k' \<notin> fst ` set (segs ! j)"
        unfolding m [OF j] s [OF j] by (rule keys)
    qed
    with True show ?thesis unfolding newest_entry_def m [OF True] s [OF True] by auto
  qed (simp add: newest_entry_def)
qed

lemma newest_entry_unique: "newest_entry segs k i v \<Longrightarrow> newest_entry segs k j w \<Longrightarrow> i = j"
  using linorder_neq_iff [of i j] by (fastforce simp: newest_entry_def image_iff)

lemma sorted_items_unique: "sorted_items xs \<Longrightarrow> (k, v) \<in> set xs \<Longrightarrow> (k, w) \<in> set xs \<Longrightarrow> v = w"
  by (induction xs) auto

text \<open>The newest entries start with the top of the queue.\<close>

lemma newest_entries_Cons:
  assumes segs: "\<forall>xs \<in> set segs. sorted_items xs" "key_min k segs" and new: "newest_entry segs k i v"
    and es: "newest_entries (map (drop_key k) segs) es"
  shows "newest_entries segs ((k, i, v) # es)"
proof -
  have e: "(k', j, w) \<in> set es \<longleftrightarrow> k' \<noteq> k \<and> newest_entry segs k' j w" for k' j w
    using es newest_entry_drop_key [OF segs] by (simp add: newest_entries_def)
  have "key_less k (fst x)" if "x \<in> set es" for x
  proof -
    obtain k' j w where x: "x = (k', j, w)" by (cases x)
    with that e have ne: "k' \<noteq> k" and "newest_entry segs k' j w" by auto
    then have "(k', w) \<in> set (segs ! j)" "segs ! j \<in> set segs" by (auto simp: newest_entry_def)
    with segs(2) ne x show ?thesis by (fastforce simp: key_min_def)
  qed
  moreover have "newest_entry segs k j w \<longleftrightarrow> j = i \<and> w = v" for j w
  proof
    assume n: "newest_entry segs k j w"
    with new have j: "j = i" by (auto dest: newest_entry_unique)
    with n new have "(k, w) \<in> set (segs ! i)" "(k, v) \<in> set (segs ! i)" "segs ! i \<in> set segs"
      by (auto simp: newest_entry_def)
    with segs(1) sorted_items_unique [of "segs ! i" k w v] j show "j = i \<and> w = v" by auto
  qed (simp add: new)
  ultimately have "sorted_wrt key_less (map fst ((k, i, v) # es))"
    and "(k', j, w) \<in> set ((k, i, v) # es) \<longleftrightarrow> newest_entry segs k' j w" for k' j w
    using es unfolding newest_entries_def by (simp, cases "k' = k") (simp_all add: e)
  then show ?thesis unfolding newest_entries_def by blast
qed

lemma newest_entries_Nil:
  assumes "\<forall>xs \<in> set segs. xs = []"
  shows "newest_entries segs []"
proof -
  have "segs ! i = []" if "i < length segs" for i using assms nth_mem [OF that] by blast
  then show ?thesis by (auto simp: newest_entries_def newest_entry_def)
qed

section \<open>The queue holds the segments\<close>

text \<open>
  Every segment that has entries left waits in the queue, once, on its first remaining entry.
\<close>

definition queued :: "automata list \<Rightarrow> items list \<Rightarrow> pqueue \<Rightarrow> bool" where
  "queued As segs q \<longleftrightarrow> pq_ok q \<and> distinct (map si_index q) \<and> length segs = length As
     \<and> si_index ` set q = {i. i < length segs \<and> segs ! i \<noteq> []}
     \<and> (\<forall>s \<in> set q. iterates (As ! si_index s) (segs ! si_index s) (si_entry s))"

lemma queuedD:
  assumes "queued As segs q" "s \<in> set q"
  shows "si_index s < length segs" "\<exists>v xs. segs ! si_index s = (si_key s, v) # xs \<and> EI_GetKey (si_entry s) = si_key s
      \<and> EI_GetValueId (si_entry s) = v \<and> ei_fsa (si_entry s) = Some (As ! si_index s)
      \<and> (\<forall>k. EI_eq_key (si_entry s) k \<longleftrightarrow> si_key s = k)"
proof -
  have "si_index s \<in> si_index ` set q" using assms(2) by simp
  then have i: "si_index s < length segs" "segs ! si_index s \<noteq> []" using assms(1) by (simp_all add: queued_def)
  then obtain w v xs where x: "segs ! si_index s = (w, v) # xs" by (cases "segs ! si_index s") auto
  then have "iterates (As ! si_index s) ((w, v) # xs) (si_entry s)" using assms by (auto simp: queued_def)
  from iterates_Cons [OF this] i x show "si_index s < length segs"
    "\<exists>v xs. segs ! si_index s = (si_key s, v) # xs \<and> EI_GetKey (si_entry s) = si_key s
      \<and> EI_GetValueId (si_entry s) = v \<and> ei_fsa (si_entry s) = Some (As ! si_index s)
      \<and> (\<forall>k. EI_eq_key (si_entry s) k \<longleftrightarrow> si_key s = k)" by auto
qed

text \<open>Popping the top forgets its segment; pushing an iterator brings a segment back.\<close>

lemma queued_pop:
  assumes "queued As segs q" "q \<noteq> []"
  shows "queued As (segs[si_index (pq_top q) := []]) (pq_pop q)"
proof -
  obtain s q' where q: "q = s # q'" using assms(2) by (cases q) auto
  have "si_index s \<notin> si_index ` set q'" using assms(1) q by (simp add: queued_def)
  then have ne: "si_index t \<noteq> si_index s" if "t \<in> set q'" for t using that by (metis image_eqI)
  have "si_index ` set q' = {i. i < length segs \<and> segs ! i \<noteq> []} - {si_index s}"
    using assms(1) ne unfolding q queued_def by auto
  also have "\<dots> = {i. i < length segs \<and> segs[si_index s := []] ! i \<noteq> []}"
    using queuedD(1) [OF assms(1), of s] q by (auto simp: nth_list_update)
  finally have "si_index ` set q' = {i. i < length segs \<and> segs[si_index s := []] ! i \<noteq> []}" .
  moreover have "iterates (As ! si_index t) (segs[si_index s := []] ! si_index t) (si_entry t)" if "t \<in> set q'" for t
    using assms(1) ne [OF that] that q by (simp add: queued_def)
  ultimately show ?thesis
    using assms(1) spq.ok_pop [of q] unfolding q queued_def
    by (simp add: pq_pop_def pq_top_def)
qed

lemma queued_push:
  assumes "queued As segs q" "si_index s < length segs" "segs ! si_index s = []"
    and "iterates (As ! si_index s) xs (si_entry s)"
  shows "queued As (segs[si_index s := xs]) (if SI_bool s then pq_push s q else q)"
proof (cases xs)
  case Nil
  then have "\<not> SI_bool s" using assms(4) by (simp add: iterates_Nil SI_bool_def EI_eq_def end_iterator_def)
  with Nil show ?thesis using assms(1,3) list_update_id [of segs "si_index s"] by simp
next
  case (Cons x ys)
  have b: "SI_bool s" using assms(4) Cons
    by (cases x) (auto simp: SI_bool_def EI_eq_def end_iterator_def dest: iterates_Cons(1))
  have new: "si_index s \<notin> si_index ` set q" using assms(1,3) by (simp add: queued_def)
  have set: "set (pq_push s q) = insert s (set q)"
    using mset_pq_push [of s q] by (metis set_mset_add_mset_insert set_mset_mset)
  have "mset (map si_index (pq_push s q)) = mset (si_index s # map si_index q)" by simp
  then have "distinct (map si_index (pq_push s q))"
    using new assms(1) by (metis distinct.simps(2) list.set_map mset_eq_imp_distinct_iff queued_def)
  moreover have "si_index ` set (pq_push s q) = {i. i < length segs \<and> segs[si_index s := xs] ! i \<noteq> []}"
  proof -
    have "si_index ` set (pq_push s q) = insert (si_index s) {i. i < length segs \<and> segs ! i \<noteq> []}"
      using assms(1) by (simp add: set queued_def)
    then show ?thesis using assms(2) Cons by (auto simp: nth_list_update)
  qed
  moreover have "iterates (As ! si_index t) (segs[si_index s := xs] ! si_index t) (si_entry t)"
    if "t \<in> set (pq_push s q)" for t
  proof (cases "t = s")
    case False
    then have t: "t \<in> set q" using that set by auto
    then have "si_index t \<noteq> si_index s" using new by (metis image_eqI)
    then show ?thesis using t assms(1) by (simp add: queued_def)
  qed (use assms in simp)
  ultimately show ?thesis using b assms(1) by (simp add: queued_def pq_ok_push)
qed


text \<open>The top of the queue is the newest entry of the smallest key.\<close>

lemma queued_key:
  assumes "queued As segs q" "j < length segs" "\<forall>xs \<in> set segs. sorted_items xs" "x \<in> set (segs ! j)"
  shows "\<exists>t \<in> set q. si_index t = j \<and> (si_key t = fst x \<or> key_less (si_key t) (fst x))"
proof -
  have "j \<in> si_index ` set q" using assms(1,2,4) by (auto simp: queued_def)
  then obtain t where t: "t \<in> set q" "si_index t = j" by auto
  from queuedD(2) [OF assms(1) t(1)] obtain v xs where "segs ! j = (si_key t, v) # xs" using t(2) by auto
  with assms(2-4) nth_mem [OF assms(2)] t show ?thesis by fastforce
qed

lemma queued_top:
  assumes "queued As segs q" "q \<noteq> []" "\<forall>xs \<in> set segs. sorted_items xs"
  shows "key_min (si_key (pq_top q)) segs"
    and "newest_entry segs (si_key (pq_top q)) (si_index (pq_top q)) (EI_GetValueId (si_entry (pq_top q)))"
proof -
  let ?s = "pq_top q"
  have top: "?s \<in> set q" using spq.top_in [of q] assms(2) by simp
  have ok: "pq_ok q" using assms(1) by (simp add: queued_def)
  have max: "key_less (si_key ?s) (si_key t) \<or> si_key ?s = si_key t \<and> si_index t \<le> si_index ?s" if "t \<in> set q" for t
    using spq.top_max [OF ok, of t] that by (simp add: not_SI_less)
  show "key_min (si_key ?s) segs"
    unfolding key_min_def
  proof (intro ballI)
    fix xs x assume "xs \<in> set segs" "x \<in> set xs"
    then obtain j where "j < length segs" "x \<in> set (segs ! j)" by (auto simp: in_set_conv_nth)
    from queued_key [OF assms(1) this(1) assms(3) this(2)] obtain t where
      "t \<in> set q" "si_key t = fst x \<or> key_less (si_key t) (fst x)" by blast
    with max [of t] key_less_trans [of "si_key ?s" "si_key t" "fst x"]
    show "si_key ?s = fst x \<or> key_less (si_key ?s) (fst x)" by auto
  qed
  have "si_key ?s \<notin> fst ` set (segs ! j)" if j: "j < length segs" "si_index ?s < j" for j
  proof
    assume "si_key ?s \<in> fst ` set (segs ! j)"
    then obtain x where x: "x \<in> set (segs ! j)" "fst x = si_key ?s" by auto
    from queued_key [OF assms(1) j(1) assms(3) x(1)] obtain t where
      "t \<in> set q" "si_index t = j" "si_key t = si_key ?s \<or> key_less (si_key t) (si_key ?s)" using x(2) by auto
    with max [of t] j(2) key_less_trans [of "si_key ?s" "si_key t" "si_key ?s"] show False by auto
  qed
  moreover from queuedD(2) [OF assms(1) top] have "(si_key ?s, EI_GetValueId (si_entry ?s)) \<in> set (segs ! si_index ?s)"
    by (metis list.set_intros(1))
  moreover note queuedD(1) [OF assms(1) top]
  ultimately show "newest_entry segs (si_key ?s) (si_index ?s) (EI_GetValueId (si_entry ?s))"
    by (simp add: newest_entry_def)
qed

text \<open>The increment of the top, and its way back into a queue.\<close>

lemma queued_next:
  assumes "queued As segs q" "s \<in> set q" and q': "queued As segs' q'" "length segs' = length segs" "segs' ! si_index s = []"
  shows "\<exists>s'. SI_next s = Some s' \<and>
      queued As (segs'[si_index s := tl (segs ! si_index s)]) (if SI_bool s' then pq_push s' q' else q')"
proof -
  from queuedD [OF assms(1,2)] obtain v xs where x: "si_index s < length segs" "segs ! si_index s = (si_key s, v) # xs" by auto
  then have "iterates (As ! si_index s) ((si_key s, v) # xs) (si_entry s)" using assms(1,2) by (auto simp: queued_def)
  from iterates_Cons(7) [OF this] obtain it where it: "EI_next (si_entry s) = Some it" "iterates (As ! si_index s) xs it" by blast
  let ?s = "s\<lparr>si_entry := it\<rparr>"
  have "queued As (segs'[si_index ?s := xs]) (if SI_bool ?s then pq_push ?s q' else q')"
    by (rule queued_push) (use q' x it in simp_all)
  moreover have "SI_next s = Some ?s" using it(1) by (simp add: SI_next_def)
  ultimately show ?thesis using x(2) by auto
qed

lemma map_drop_key_absent: "(\<forall>xs \<in> set segs. k \<notin> fst ` set xs) \<Longrightarrow> map (drop_key k) segs = segs"
  by (induction segs) (simp_all add: drop_key_absent)

abbreviation having :: "u8 list \<Rightarrow> items list \<Rightarrow> nat" where
  "having k segs \<equiv> length (filter (\<lambda>xs. k \<in> fst ` set xs) segs)"

lemma having_tl:
  assumes "i < length segs" "segs ! i = (k, v) # xs" "sorted_items (segs ! i)"
  shows "having k segs = Suc (having k (segs[i := xs]))" "map (drop_key k) (segs[i := xs]) = map (drop_key k) segs"
proof -
  have k: "k \<notin> fst ` set xs" using assms(2,3) by auto
  have segs: "segs = take i segs @ ((k, v) # xs) # drop (Suc i) segs"
    using id_take_nth_drop [OF assms(1)] assms(2) by simp
  have upd: "segs[i := xs] = take i segs @ xs # drop (Suc i) segs" using assms(1) by (rule upd_conv_take_nth_drop)
  have "having k segs = having k (take i segs @ ((k, v) # xs) # drop (Suc i) segs)" using segs by metis
  also have "\<dots> = Suc (having k (segs[i := xs]))" unfolding upd using k by simp
  finally show "having k segs = Suc (having k (segs[i := xs]))" .
  have "map (drop_key k) segs = map (drop_key k) (take i segs @ ((k, v) # xs) # drop (Suc i) segs)" using segs by metis
  also have "\<dots> = map (drop_key k) (segs[i := xs])" unfolding upd using k by (simp add: drop_key_absent)
  finally show "map (drop_key k) (segs[i := xs]) = map (drop_key k) segs" ..
qed

lemma having_update: "i < length segs \<Longrightarrow> k \<notin> fst ` set xs \<Longrightarrow> having k (segs[i := xs]) = having k (segs[i := []])"
  by (simp add: upd_conv_take_nth_drop)

lemma pass_over_queued:
  assumes "queued As segs q" "\<forall>xs \<in> set segs. sorted_items xs" "key_min k segs"
  shows "\<exists>q'. pass_over k q u = Some (q', u + having k segs) \<and> queued As (map (drop_key k) segs) q'"
  using assms
proof (induction "having k segs" arbitrary: segs q u)
  case 0
  then have none: "\<forall>xs \<in> set segs. k \<notin> fst ` set xs" by (auto simp: filter_empty_conv)
  have "\<not> EI_eq_key (si_entry (pq_top q)) k" if "q \<noteq> []"
  proof -
    have t: "pq_top q \<in> set q" using spq.top_in [of q] that by simp
    from queuedD [OF 0(2) t] none nth_mem [of "si_index (pq_top q)" segs] show ?thesis by force
  qed
  with 0 none show ?case by (subst pass_over.simps) (auto simp: map_drop_key_absent)
next
  case (Suc n)
  obtain xs x where "xs \<in> set segs" "x \<in> set xs" "fst x = k"
    using Suc(2) by (metis (no_types, lifting) filter_empty_conv image_iff list.size(3) nat.distinct(1))
  then obtain j where j: "j < length segs" "x \<in> set (segs ! j)" "fst x = k" by (auto simp: in_set_conv_nth)
  from queued_key [OF Suc(3) j(1) Suc(4) j(2)] have q: "q \<noteq> []" by auto
  let ?s = "pq_top q"
  have s: "?s \<in> set q" using spq.top_in [of q] q by simp
  from queuedD [OF Suc(3) s] obtain v ys where ys: "si_index ?s < length segs" "segs ! si_index ?s = (si_key ?s, v) # ys"
    "EI_eq_key (si_entry ?s) k \<longleftrightarrow> si_key ?s = k" by auto
  have "si_key ?s = k \<or> key_less (si_key ?s) k" "k = si_key ?s \<or> key_less k (si_key ?s)"
    using queued_top(1) [OF Suc(3) q Suc(4)] Suc(5) j ys nth_mem [OF j(1)] nth_mem [OF ys(1)]
    by (fastforce simp: key_min_def)+
  then have k: "si_key ?s = k" using key_less_trans [of k "si_key ?s" k] by auto
  let ?segs = "segs[si_index ?s := ys]"
  from queued_next [OF Suc(3) s queued_pop [OF Suc(3) q]] ys obtain s' where s':
    "SI_next ?s = Some s'" "queued As ?segs (if SI_bool s' then pq_push s' (pq_pop q) else pq_pop q)" by auto
  have sorted: "sorted_items (segs ! si_index ?s)" using Suc(4) ys(1) by simp
  note h = having_tl [OF ys(1) ys(2) [unfolded k] sorted]
  have "sorted_items ys" "\<forall>x \<in> set ys. key_less k (fst x)" using sorted ys(2) k by simp_all
  then have "\<forall>xs \<in> set ?segs. sorted_items xs" "key_min k ?segs"
    using Suc(4,5) unfolding key_min_def by (blast dest!: set_update_subset_insert [THEN subsetD])+
  from Suc(1) [OF _ s'(2) this, of "u + 1"] h Suc(2) s'(1) ys(3) k q show ?case
    by (subst pass_over.simps) simp
qed


section \<open>The merge as a loop over the newest entries\<close>

fun process_entries ::
  "('v, 'g) merge_env \<Rightarrow> bool \<Rightarrow> automata list \<Rightarrow> (u8 list \<times> nat \<times> u64) list \<Rightarrow> 'v \<Rightarrow> 'g \<Rightarrow> u8 list list list \<Rightarrow>
     MergeStats \<Rightarrow> merger_error + 'v \<times> 'g \<times> u8 list list list \<times> MergeStats" where
  "process_entries env ap As [] vs g dk st = Inr (vs, g, dk, st)"
| "process_entries env ap As ((k, i, v) # es) vs g dk st =
     (let (is_deleted, dk1, st1) = KeyDeleted i k dk st in
      if is_deleted then process_entries env ap As es vs g dk1 st1
      else (let (h, vs1) = merge_handle env ap vs (As ! i) i v
            in bind_sum (generator_Add env g k h) (\<lambda>g1.
                 process_entries env ap As es vs1 g1 dk1 (st1\<lparr>stat_number_of_keys := stat_number_of_keys st1 + 1\<rparr>))))"

definition with_updated :: "nat \<Rightarrow> 'v \<times> 'g \<times> 'd \<times> MergeStats \<Rightarrow> 'v \<times> 'g \<times> 'd \<times> MergeStats" where
  "with_updated u = (\<lambda>(vs, g, dk, st). (vs, g, dk, st\<lparr>stat_updated_keys := u\<rparr>))"

lemma with_updated_simps [simp]:
  "with_updated u (vs, g, dk, st) = (vs, g, dk, st\<lparr>stat_updated_keys := u\<rparr>)"
  "with_updated u (with_updated w x) = with_updated u x"
  by (simp_all add: with_updated_def split: prod.splits)

lemma KeyDeleted_updated:
  "KeyDeleted i k dk (st\<lparr>stat_updated_keys := u\<rparr>) =
     (case KeyDeleted i k dk st of (b, dk', st') \<Rightarrow> (b, dk', st'\<lparr>stat_updated_keys := u\<rparr>))"
  by (simp add: KeyDeleted_def split: prod.splits)

lemma stats_commute:
  "st\<lparr>stat_updated_keys := u, stat_number_of_keys := n\<rparr> = st\<lparr>stat_number_of_keys := n, stat_updated_keys := u\<rparr>"
  by simp

lemma process_updated:
  "process_entries env ap As es vs g dk (st\<lparr>stat_updated_keys := u\<rparr>) =
     map_sum id (with_updated u) (process_entries env ap As es vs g dk st)"
proof (induction es arbitrary: vs g dk st)
  case (Cons e es)
  obtain k i v where e: "e = (k, i, v)" by (cases e)
  obtain b dk1 st1 where kd: "KeyDeleted i k dk st = (b, dk1, st1)" by (cases "KeyDeleted i k dk st")
  obtain h vs1 where mh: "merge_handle env ap vs (As ! i) i v = (h, vs1)" by fastforce
  show ?case
  proof (cases "generator_Add env g k h")
    case (Inl err)
    then show ?thesis using Cons.IH by (simp add: e KeyDeleted_updated kd mh)
  next
    case (Inr g1)
    have "process_entries env ap As es vs1 g1 dk1 (st1\<lparr>stat_updated_keys := u, stat_number_of_keys := Suc n\<rparr>) =
        map_sum id (with_updated u) (process_entries env ap As es vs1 g1 dk1 (st1\<lparr>stat_number_of_keys := Suc n\<rparr>))" for n
      using Cons.IH [of vs1 g1 dk1 "st1\<lparr>stat_number_of_keys := Suc n\<rparr>"] unfolding stats_commute .
    then show ?thesis using Cons.IH Inr by (simp add: e KeyDeleted_updated kd mh id_def)
  qed
qed simp

lemma merge_loop_step:
  assumes "queued As segs q" "q \<noteq> []" "\<forall>xs \<in> set segs. sorted_items xs"
  defines "k \<equiv> si_key (pq_top q)" and "i \<equiv> si_index (pq_top q)" and "v \<equiv> EI_GetValueId (si_entry (pq_top q))"
  shows "\<exists>q'. queued As (map (drop_key k) segs) q' \<and>
    merge_loop env ap vs g dk st q =
      (let (is_deleted, dk1, st1) = KeyDeleted i k dk (st\<lparr>stat_updated_keys := stat_updated_keys st + (having k segs - 1)\<rparr>) in
       if is_deleted then merge_loop env ap vs g dk1 st1 q'
       else (let (h, vs1) = merge_handle env ap vs (As ! i) i v
             in case generator_Add env g k h of Inl e \<Rightarrow> Some (Inl e)
                | Inr g1 \<Rightarrow> merge_loop env ap vs1 g1 dk1 (st1\<lparr>stat_number_of_keys := stat_number_of_keys st1 + 1\<rparr>) q'))"
proof -
  let ?s = "pq_top q"
  have s: "?s \<in> set q" using spq.top_in [of q] assms(2) by simp
  from queuedD(2) [OF assms(1) s] obtain xs where xs: "segs ! i = (k, v) # xs" "EI_GetKey (si_entry ?s) = k"
    "ei_fsa (si_entry ?s) = Some (As ! i)" unfolding k_def i_def v_def by blast
  have i: "i < length segs" unfolding i_def by (rule queuedD(1) [OF assms(1) s])
  have sorted: "sorted_items (segs ! i)" using assms(3) i by simp
  let ?rest = "segs[i := []]"
  have "key_min k ?rest" "\<forall>ys \<in> set ?rest. sorted_items ys"
    using queued_top(1) [OF assms(1-3)] assms(3) unfolding key_min_def k_def
    by (auto dest!: set_update_subset_insert [THEN subsetD])
  from pass_over_queued [OF queued_pop [OF assms(1,2), folded i_def] this(2,1), of "stat_updated_keys st"]
  obtain q1 where q1: "pass_over k (pq_pop q) (stat_updated_keys st) = Some (q1, stat_updated_keys st + having k ?rest)"
    "queued As (map (drop_key k) ?rest) q1" by blast
  have h: "having k ?rest = having k segs - 1"
  proof -
    have "k \<notin> fst ` set xs" using sorted xs(1) by auto
    with having_tl(1) [OF i xs(1) sorted] having_update [OF i this] show ?thesis by simp
  qed
  from queued_next [OF assms(1) s q1(2)] i obtain s' where s': "SI_next ?s = Some s'"
    "queued As ((map (drop_key k) ?rest)[i := xs]) (if SI_bool s' then pq_push s' q1 else q1)"
    using xs(1) unfolding i_def by auto
  have "(map (drop_key k) ?rest)[i := xs] = map (drop_key k) segs"
    using i xs(1) by (auto intro!: nth_equalityI simp: nth_list_update)
  with s' q1(1) show ?thesis
    by (intro exI [of _ "if SI_bool s' then pq_push s' q1 else q1"])
      (subst (1) merge_loop.simps, simp add: xs assms(2) h i_def [symmetric] v_def [symmetric] Let_def bind_sum_def
        split: prod.splits sum.splits)
qed


lemma drop_key_total:
  assumes "\<forall>xs \<in> set segs. sorted_items xs" "key_min k segs"
  shows "length (concat segs) = having k segs + length (concat (map (drop_key k) segs))"
  using assms
proof (induction segs)
  case (Cons xs segs)
  have "length xs = (if k \<in> fst ` set xs then 1 else 0) + length (drop_key k xs)"
  proof (cases xs)
    case (Cons x ys)
    obtain w v where x: "x = (w, v)" by (cases x)
    have "w = k" if "k \<in> fst ` set xs"
    proof -
      from that Cons x have "k = w \<or> key_less w k" using \<open>\<forall>xs \<in> set (xs # segs). sorted_items xs\<close> by auto
      moreover have "k = w \<or> key_less k w" using \<open>key_min k (xs # segs)\<close> Cons x by (auto simp: key_min_def)
      ultimately show ?thesis using key_less_trans [of k w k] by auto
    qed
    then show ?thesis using Cons x by auto
  qed simp
  with Cons show ?case by (auto simp: key_min_def)
qed simp

lemma drop_key_keeps:
  assumes "\<forall>xs \<in> set segs. sorted_items xs"
  shows "\<forall>xs \<in> set (map (drop_key k) segs). sorted_items xs"
  using assms by (simp add: sorted_drop_key)

text \<open>
  The loop processes the newest entry of every key, in the order of the keys, and counts the older
  entries it passes over.
\<close>

lemma merge_loop_entries:
  assumes "queued As segs q" "\<forall>xs \<in> set segs. sorted_items xs"
  shows "\<exists>es. newest_entries segs es \<and> length es \<le> length (concat segs) \<and>
    merge_loop env ap vs g dk st q = Some (map_sum id
      (with_updated (stat_updated_keys st + (length (concat segs) - length es))) (process_entries env ap As es vs g dk st))"
  using assms
proof (induction "length (concat segs)" arbitrary: segs q vs g dk st rule: less_induct)
  case less
  show ?case
  proof (cases "q = []")
    case True
    have empty: "\<forall>xs \<in> set segs. xs = []"
      using less.prems(1) True by (auto simp: queued_def in_set_conv_nth)
    then have "length (concat segs) = 0" by simp
    with newest_entries_Nil [OF empty] True show ?thesis
      by (intro exI [of _ "[]"]) (simp add: merge_loop.simps)
  next
    case False
    let ?s = "pq_top q"
    let ?k = "si_key ?s" and ?i = "si_index ?s" and ?v = "EI_GetValueId (si_entry ?s)"
    let ?segs = "map (drop_key ?k) segs"
    note top = queued_top [OF less.prems(1) False less.prems(2)]
    obtain q' where q': "queued As ?segs q'" and step: "merge_loop env ap vs g dk st q =
      (let (is_deleted, dk1, st1) = KeyDeleted ?i ?k dk (st\<lparr>stat_updated_keys := stat_updated_keys st + (having ?k segs - 1)\<rparr>) in
       if is_deleted then merge_loop env ap vs g dk1 st1 q'
       else (let (h, vs1) = merge_handle env ap vs (As ! ?i) ?i ?v
             in case generator_Add env g ?k h of Inl e \<Rightarrow> Some (Inl e)
                | Inr g1 \<Rightarrow> merge_loop env ap vs1 g1 dk1 (st1\<lparr>stat_number_of_keys := stat_number_of_keys st1 + 1\<rparr>) q'))"
      using merge_loop_step [OF less.prems(1) False less.prems(2), of env ap vs g dk st] by (elim exE conjE)
    have total: "length (concat segs) = having ?k segs + length (concat ?segs)"
      by (rule drop_key_total [OF less.prems(2) top(1)])
    have "segs ! ?i \<in> set segs" "?k \<in> fst ` set (segs ! ?i)" using top(2) by (force simp: newest_entry_def)+
    then have pos: "having ?k segs > 0" by (metis (mono_tags, lifting) length_greater_0_conv filter_empty_conv)
    have IH: "\<exists>es. newest_entries ?segs es \<and> length es \<le> length (concat ?segs) \<and>
      merge_loop env ap vs g dk st q' = Some (map_sum id
        (with_updated (stat_updated_keys st + (length (concat ?segs) - length es))) (process_entries env ap As es vs g dk st))"
      for vs g dk st
      using less.hyps [OF _ q' drop_key_keeps [OF less.prems(2)]] total pos by simp
    obtain b dk1 st1 where kd: "KeyDeleted ?i ?k dk st = (b, dk1, st1)" by (cases "KeyDeleted ?i ?k dk st")
    obtain h vs1 where mh: "merge_handle env ap vs (As ! ?i) ?i ?v = (h, vs1)" by fastforce
    define u where "u = stat_updated_keys st + (having ?k segs - 1)"
    have finish: ?thesis
      if r: "merge_loop env ap vs g dk st q = merge_loop env ap vs' g' dk' (st'\<lparr>stat_updated_keys := u\<rparr>) q'"
        and p: "\<And>es. process_entries env ap As ((?k, ?i, ?v) # es) vs g dk st = process_entries env ap As es vs' g' dk' st'"
      for vs' g' dk' st'
    proof -
      from IH [of vs' g' dk' "st'\<lparr>stat_updated_keys := u\<rparr>"] obtain es where
        es: "newest_entries ?segs es" "length es \<le> length (concat ?segs)"
        "merge_loop env ap vs g dk st q = Some (map_sum id (with_updated (u + (length (concat ?segs) - length es)))
           (map_sum id (with_updated u) (process_entries env ap As es vs' g' dk' st')))"
        unfolding r process_updated by auto
      have "u + (length (concat ?segs) - length es) =
          stat_updated_keys st + (length (concat segs) - length ((?k, ?i, ?v) # es))"
        using es(2) total pos unfolding u_def list.size by linarith
      with es(3) have "merge_loop env ap vs g dk st q = Some (map_sum id
          (with_updated (stat_updated_keys st + (length (concat segs) - length ((?k, ?i, ?v) # es))))
          (process_entries env ap As ((?k, ?i, ?v) # es) vs g dk st))"
        unfolding p by (cases "process_entries env ap As es vs' g' dk' st'") auto
      moreover have "length ((?k, ?i, ?v) # es) \<le> length (concat segs)"
        using es(2) total pos unfolding list.size by linarith
      ultimately show ?thesis using newest_entries_Cons [OF less.prems(2) top es(1)] by blast
    qed
    show ?thesis
    proof (cases b)
      case True
      then show ?thesis by (intro finish [of vs g dk1 st1]) (simp_all add: step u_def KeyDeleted_updated kd)
    next
      case False
      show ?thesis
      proof (cases "generator_Add env g ?k h")
        case (Inl err)
        from IH obtain es where es: "newest_entries ?segs es" "length es \<le> length (concat ?segs)" by blast
        have "merge_loop env ap vs g dk st q = Some (Inl err)"
          using Inl False by (simp add: step KeyDeleted_updated kd mh)
        moreover have "process_entries env ap As ((?k, ?i, ?v) # es) vs g dk st = Inl err"
          using Inl False by (simp add: kd mh)
        ultimately show ?thesis
          using newest_entries_Cons [OF less.prems(2) top es(1)] es(2) total pos
          by (intro exI [of _ "(?k, ?i, ?v) # es"]) (auto simp del: length_0_conv length_greater_0_conv)
      next
        case (Inr g1)
        then show ?thesis using False
          by (intro finish [of vs1 g1 dk1 "st1\<lparr>stat_number_of_keys := stat_number_of_keys st1 + 1\<rparr>"])
            (simp_all add: step u_def KeyDeleted_updated kd mh stats_commute)
      qed
    qed
  qed
qed


section \<open>Deleted keys\<close>

abbreviation descending :: "u8 list list \<Rightarrow> bool" where
  "descending \<equiv> sorted_wrt (\<lambda>a b. key_less b a)"

lemma last_descending:
  assumes "descending d" "k \<in> set d" "\<forall>x \<in> set d. x = k \<or> key_less k x"
  shows "d \<noteq> []" "last d = k" "butlast d = removeAll k d"
proof -
  obtain ds x where d: "d = ds @ [x]" using assms(2) by (cases d rule: rev_cases) auto
  have lt: "key_less x y" if "y \<in> set ds" for y using that assms(1) d by (simp add: sorted_wrt_append)
  have x: "x = k"
  proof (rule ccontr)
    assume ne: "x \<noteq> k"
    then have "key_less x k" "key_less k x" using lt [of k] assms(2,3) d by auto
    then show False using key_less_trans [of x k x] by simp
  qed
  then have "k \<notin> set ds" using lt [of k] by auto
  with x d show "d \<noteq> []" "last d = k" "butlast d = removeAll k d" by (simp_all add: removeAll_id)
qed

lemma last_absent: "k \<notin> set d \<Longrightarrow> \<not> (d \<noteq> [] \<and> k = last d)"
  by (metis last_in_set)

lemma drop_deleted_removes:
  assumes "\<forall>d \<in> set dk. descending d \<and> (\<forall>x \<in> set d. x = k \<or> key_less k x)"
  shows "fst (drop_deleted k dk) = map (removeAll k) dk
    \<and> sum_list (map length dk) = snd (drop_deleted k dk) + sum_list (map length (map (removeAll k) dk))"
  using assms
proof (induction dk)
  case (Cons d dk)
  obtain ds n where r: "drop_deleted k dk = (ds, n)" by fastforce
  have IH: "ds = map (removeAll k) dk" "sum_list (map length dk) = n + sum_list (map length ds)" using Cons r by simp_all
  show ?case
  proof (cases "k \<in> set d")
    case True
    from Cons.prems have "descending d" "\<forall>x \<in> set d. x = k \<or> key_less k x" by simp_all
    note l = last_descending [OF this(1) True this(2)]
    then have "drop_deleted k (d # dk) = (removeAll k d # ds, Suc n)" by (simp add: r)
    moreover have "length d = Suc (length (removeAll k d))" unfolding l(3) [symmetric] using l(1) by simp
    ultimately show ?thesis using IH by simp
  next
    case False
    then have "drop_deleted k (d # dk) = (d # ds, n)" using last_absent [OF False] by (simp add: r)
    with False IH show ?thesis by simp
  qed
qed simp

text \<open>
  The deleted keys a merge handles correctly: in every list each key occurs once, and the segment with the
  newest entry of a deleted key lists the key, too.
\<close>

definition deletes_ok :: "(u8 list \<times> nat \<times> 'w) list \<Rightarrow> u8 list list list \<Rightarrow> bool" where
  "deletes_ok es dk \<longleftrightarrow> (\<forall>d \<in> set dk. descending d) \<and> (\<forall>(k, i, v) \<in> set es. i < length dk)
     \<and> (\<forall>d \<in> set dk. \<forall>k \<in> set d. \<exists>(k', i, v) \<in> set es. k' = k \<and> k \<in> set (dk ! i))"

definition surviving :: "u8 list list list \<Rightarrow> (u8 list \<times> nat \<times> 'w) list \<Rightarrow> (u8 list \<times> nat \<times> 'w) list" where
  "surviving dk es = filter (\<lambda>(k, i, v). k \<notin> set (dk ! i)) es"

text \<open>The front of the entries decides about its key alone: the deleted keys are not smaller.\<close>

lemma deletes_ok_Cons:
  assumes es: "sorted_wrt key_less (map fst ((k, i, v) # es))" and dk: "deletes_ok ((k, i, v) # es) dk"
  shows "i < length dk" "\<forall>d \<in> set dk. descending d \<and> (\<forall>x \<in> set d. x = k \<or> key_less k x)"
    and "d \<in> set dk \<Longrightarrow> x \<in> set d \<Longrightarrow>
      x = k \<and> k \<in> set (dk ! i) \<or> key_less k x \<and> (\<exists>j w. (x, j, w) \<in> set es \<and> x \<in> set (dk ! j))"
proof -
  show "i < length dk" using dk by (auto simp: deletes_ok_def)
  have later: "key_less k (fst e)" if "e \<in> set es" for e using es that by auto
  have listed: "x = k \<and> k \<in> set (dk ! i) \<or> key_less k x \<and> (\<exists>j w. (x, j, w) \<in> set es \<and> x \<in> set (dk ! j))"
    if "d \<in> set dk" "x \<in> set d" for d x
  proof -
    from dk that obtain j w where j: "(x, j, w) \<in> set ((k, i, v) # es)" "x \<in> set (dk ! j)"
      unfolding deletes_ok_def by fastforce
    with later [of "(x, j, w)"] show ?thesis by auto
  qed
  then show "d \<in> set dk \<Longrightarrow> x \<in> set d \<Longrightarrow>
      x = k \<and> k \<in> set (dk ! i) \<or> key_less k x \<and> (\<exists>j w. (x, j, w) \<in> set es \<and> x \<in> set (dk ! j))" by blast
  show "\<forall>d \<in> set dk. descending d \<and> (\<forall>x \<in> set d. x = k \<or> key_less k x)"
    using dk listed unfolding deletes_ok_def by blast
qed

lemma descending_removeAll: "descending d \<Longrightarrow> descending (removeAll k d)"
  by (simp add: removeAll_filter_not_eq sorted_wrt_filter)

lemma sum_list_butlast:
  "i < length dk \<Longrightarrow> dk ! i \<noteq> [] \<Longrightarrow> sum_list (map length dk) = Suc (sum_list (map length (dk[i := butlast (dk ! i)])))"
proof (induction dk arbitrary: i)
  case (Cons d dk)
  then show ?case by (cases i) auto
qed simp

lemma KeyDeleted_ok:
  assumes es: "sorted_wrt key_less (map fst ((k, i, v) # es))" and dk: "deletes_ok ((k, i, v) # es) dk"
  shows "\<exists>st1. KeyDeleted i k dk st = (k \<in> set (dk ! i), map (removeAll k) dk, st1)
    \<and> (\<exists>n. st1 = st\<lparr>stat_deleted_keys := stat_deleted_keys st + n\<rparr>
        \<and> sum_list (map length dk) = n + sum_list (map length (map (removeAll k) dk)))"
proof (cases "k \<in> set (dk ! i)")
  case True
  note i = deletes_ok_Cons(1) [OF assms]
  have di: "descending (dk ! i)" "\<forall>x \<in> set (dk ! i). x = k \<or> key_less k x"
    using deletes_ok_Cons(2) [OF assms] i by auto
  note l = last_descending [OF di(1) True di(2)]
  let ?dk = "dk[i := butlast (dk ! i)]"
  have b: "\<forall>d \<in> set ?dk. descending d \<and> (\<forall>x \<in> set d. x = k \<or> key_less k x)"
    using deletes_ok_Cons(2) [OF assms] di descending_removeAll [of "dk ! i" k]
    by (auto simp: l(3) dest!: set_update_subset_insert [THEN subsetD])
  have m: "map (removeAll k) ?dk = map (removeAll k) dk"
    using i by (auto intro!: nth_equalityI simp: nth_list_update l(3) removeAll_filter_not_eq)
  obtain dk' n where r: "drop_deleted k ?dk = (dk', n)" by fastforce
  with drop_deleted_removes [OF b] sum_list_butlast [OF i l(1)]
  have "dk' = map (removeAll k) dk" "sum_list (map length dk) = Suc n + sum_list (map length (map (removeAll k) dk))"
    unfolding m by simp_all
  moreover have "KeyDeleted i k dk st = (True, dk', st\<lparr>stat_deleted_keys := stat_deleted_keys st + Suc n\<rparr>)"
    using l r by (simp add: KeyDeleted_def)
  ultimately show ?thesis using True by (auto intro!: exI [of _ "Suc n"])
next
  case False
  then have "k \<notin> set d" if "d \<in> set dk" for d using deletes_ok_Cons(3) [OF assms that, of k] by auto
  then have "map (removeAll k) dk = dk" by (simp add: map_idI)
  with last_absent [OF False] False show ?thesis by (auto simp: KeyDeleted_def)
qed

lemma deletes_ok_removeAll:
  assumes es: "sorted_wrt key_less (map fst ((k, i, v) # es))" and dk: "deletes_ok ((k, i, v) # es) dk"
  shows "deletes_ok es (map (removeAll k) dk)"
  unfolding deletes_ok_def
proof (intro conjI ballI)
  have len: "j < length dk" if "(k', j, w) \<in> set es" for k' j w using dk that by (auto simp: deletes_ok_def)
  show "descending d" if "d \<in> set (map (removeAll k) dk)" for d
    using that deletes_ok_Cons(2) [OF assms] descending_removeAll by auto
  show "case e of (k', j, v) \<Rightarrow> j < length (map (removeAll k) dk)" if "e \<in> set es" for e
    using len that by auto
  fix d x assume d: "d \<in> set (map (removeAll k) dk)" "x \<in> set d"
  then obtain d' where d': "d' \<in> set dk" "x \<in> set d'" "x \<noteq> k" by auto
  with deletes_ok_Cons(3) [OF assms d'(1,2)] obtain j w where j: "(x, j, w) \<in> set es" "x \<in> set (dk ! j)" by blast
  then have "x \<in> set (map (removeAll k) dk ! j)" using len [OF j(1)] d'(3) by simp
  with j(1) show "\<exists>(k', j, v) \<in> set es. k' = x \<and> x \<in> set (map (removeAll k) dk ! j)" by blast
qed

lemma surviving_removeAll:
  assumes es: "sorted_wrt key_less (map fst ((k, i, v) # es))" and dk: "deletes_ok ((k, i, v) # es) dk"
  shows "surviving (map (removeAll k) dk) es = surviving dk es"
  unfolding surviving_def
proof (rule filter_cong [OF refl])
  fix e assume e: "e \<in> set es"
  obtain k' j w where kj: "e = (k', j, w)" by (cases e)
  have "j < length dk" "k' \<noteq> k" using es dk e kj by (auto simp: deletes_ok_def)
  then show "(case e of (k', j, v) \<Rightarrow> k' \<notin> set (map (removeAll k) dk ! j)) = (case e of (k', j, v) \<Rightarrow> k' \<notin> set (dk ! j))"
    by (simp add: kj)
qed

text \<open>The surviving entries, handed to the value store and the generator one after the other.\<close>

fun add_entries ::
  "('v, 'g) merge_env \<Rightarrow> bool \<Rightarrow> automata list \<Rightarrow> (u8 list \<times> nat \<times> u64) list \<Rightarrow> 'v \<Rightarrow> 'g \<Rightarrow> merger_error + 'v \<times> 'g" where
  "add_entries env ap As [] vs g = Inr (vs, g)"
| "add_entries env ap As ((k, i, v) # es) vs g =
     (let (h, vs1) = merge_handle env ap vs (As ! i) i v
      in bind_sum (generator_Add env g k h) (add_entries env ap As es vs1))"

lemma process_entries_deletes:
  assumes "sorted_wrt key_less (map fst es)" "deletes_ok es dk"
  shows "process_entries env ap As es vs g dk st =
    bind_sum (add_entries env ap As (surviving dk es) vs g) (\<lambda>(vs', g').
      Inr (vs', g', map (\<lambda>_. []) dk,
        st\<lparr>stat_number_of_keys := stat_number_of_keys st + length (surviving dk es),
           stat_deleted_keys := stat_deleted_keys st + sum_list (map length dk)\<rparr>))"
  using assms
proof (induction es arbitrary: vs g dk st)
  case Nil
  then have d: "\<forall>d \<in> set dk. d = []" by (auto simp: deletes_ok_def)
  then have "map (\<lambda>_. []) dk = dk" "sum_list (map length dk) = 0" by (induction dk) auto
  then show ?case by (simp add: surviving_def)
next
  case (Cons e es)
  obtain k i v where e: "e = (k, i, v)" by (cases e)
  note prems = Cons.prems [unfolded e]
  from KeyDeleted_ok [OF prems] obtain n where kd:
    "KeyDeleted i k dk st = (k \<in> set (dk ! i), map (removeAll k) dk, st\<lparr>stat_deleted_keys := stat_deleted_keys st + n\<rparr>)"
    "sum_list (map length dk) = n + sum_list (map length (map (removeAll k) dk))" by blast
  have IH: "process_entries env ap As es vs g (map (removeAll k) dk) st =
    bind_sum (add_entries env ap As (surviving dk es) vs g) (\<lambda>(vs', g').
      Inr (vs', g', map (\<lambda>_. []) dk,
        st\<lparr>stat_number_of_keys := stat_number_of_keys st + length (surviving dk es),
           stat_deleted_keys := stat_deleted_keys st + sum_list (map length (map (removeAll k) dk))\<rparr>))" for vs g st
    using Cons.IH [OF _ deletes_ok_removeAll [OF prems]] prems(1) by (simp add: surviving_removeAll [OF prems] comp_def)
  show ?case
  proof (cases "k \<in> set (dk ! i)")
    case True
    then have "surviving dk (e # es) = surviving dk es" by (simp add: surviving_def e)
    with True kd IH show ?thesis by (simp add: e add.assoc)
  next
    case False
    then have "surviving dk (e # es) = e # surviving dk es" by (simp add: surviving_def e)
    with False kd IH show ?thesis
      by (cases "generator_Add env g k (fst (merge_handle env ap vs (As ! i) i v))")
        (auto simp: e split_def Let_def bind_sum_assoc add.assoc)
  qed
qed


text \<open>
  Whatever the lists of deleted keys are: an entry is dropped only when its own segment lists its key.
\<close>

abbreviation fewer_deleted :: "u8 list list list \<Rightarrow> u8 list list list \<Rightarrow> bool" where
  "fewer_deleted \<equiv> list_all2 (\<lambda>d d'. set d \<subseteq> set d')"

lemma drop_deleted_fewer: "fewer_deleted (fst (drop_deleted k dk)) dk"
  by (induction dk) (auto split: prod.splits dest: in_set_butlastD)

lemma KeyDeleted_sound:
  assumes "KeyDeleted i k dk st = (b, dk', st')" "i < length dk"
  shows "b \<Longrightarrow> k \<in> set (dk ! i)" "fewer_deleted dk' dk"
proof -
  let ?dk = "dk[i := butlast (dk ! i)]"
  have "fewer_deleted ?dk dk"
    using assms(2) by (auto simp: list_all2_conv_all_nth nth_list_update dest: in_set_butlastD)
  with drop_deleted_fewer [of k ?dk] have "fewer_deleted (fst (drop_deleted k ?dk)) dk"
    by (rule list_all2_trans [rotated]) auto
  then show "b \<Longrightarrow> k \<in> set (dk ! i)" "fewer_deleted dk' dk"
    using assms by (auto simp: KeyDeleted_def list_all2_refl split: if_splits prod.splits)
qed

lemma set_subseq: "subseq xs ys \<Longrightarrow> set xs \<subseteq> set ys"
  by (induction rule: list_emb.induct) auto

lemma sorted_wrt_subseq: "subseq xs ys \<Longrightarrow> sorted_wrt R ys \<Longrightarrow> sorted_wrt R xs"
  by (induction rule: list_emb.induct) (auto dest: set_subseq)

lemma process_entries_sound:
  assumes "\<forall>(k, i, v) \<in> set es. i < length dk"
  shows "\<exists>kept dk' st'. subseq kept es \<and> (\<forall>(k, i, v) \<in> set es. k \<notin> set (dk ! i) \<longrightarrow> (k, i, v) \<in> set kept) \<and>
    process_entries env ap As es vs g dk st =
      bind_sum (add_entries env ap As kept vs g) (\<lambda>(vs', g'). Inr (vs', g', dk', st'))"
  using assms
proof (induction es arbitrary: vs g dk st)
  case Nil
  show ?case by (rule exI [of _ "[]"]) simp
next
  case (Cons e es)
  obtain k i v where e: "e = (k, i, v)" by (cases e)
  obtain b dk1 st1 where kd: "KeyDeleted i k dk st = (b, dk1, st1)" by (cases "KeyDeleted i k dk st")
  have i: "i < length dk" using Cons.prems e by auto
  note sound = KeyDeleted_sound [OF kd i]
  have len: "length dk1 = length dk" using sound(2) by (rule list_all2_lengthD)
  have IH: "\<exists>kept dk' st'. subseq kept es \<and> (\<forall>(k, i, v) \<in> set es. k \<notin> set (dk ! i) \<longrightarrow> (k, i, v) \<in> set kept) \<and>
      process_entries env ap As es vs g dk1 st =
        bind_sum (add_entries env ap As kept vs g) (\<lambda>(vs', g'). Inr (vs', g', dk', st'))" for vs g st
  proof -
    have "\<forall>(k, i, v) \<in> set es. i < length dk1" using Cons.prems len by auto
    from Cons.IH [OF this, of vs g st] obtain kept dk' st' where IH: "subseq kept es"
      "\<forall>(k, i, v) \<in> set es. k \<notin> set (dk1 ! i) \<longrightarrow> (k, i, v) \<in> set kept"
      "process_entries env ap As es vs g dk1 st =
        bind_sum (add_entries env ap As kept vs g) (\<lambda>(vs', g'). Inr (vs', g', dk', st'))" by blast
    have "k \<notin> set (dk1 ! i)" if "(k, i, v) \<in> set es" "k \<notin> set (dk ! i)" for k i v
    proof -
      have "i < length dk" using Cons.prems that(1) by fastforce
      with sound(2) have "set (dk1 ! i) \<subseteq> set (dk ! i)" by (auto simp: list_all2_conv_all_nth)
      with that(2) show ?thesis by blast
    qed
    with IH show ?thesis by blast
  qed
  show ?case
  proof (cases b)
    case True
    from IH [of vs g st1] obtain kept dk' st' where
      "subseq kept es" "\<forall>(k, i, v) \<in> set es. k \<notin> set (dk ! i) \<longrightarrow> (k, i, v) \<in> set kept"
      "process_entries env ap As es vs g dk1 st1 =
        bind_sum (add_entries env ap As kept vs g) (\<lambda>(vs', g'). Inr (vs', g', dk', st'))" by blast
    with True sound(1) kd show ?thesis
      by (intro exI [of _ kept] exI [of _ dk'] exI [of _ st']) (auto simp: e)
  next
    case False
    obtain h vs1 where mh: "merge_handle env ap vs (As ! i) i v = (h, vs1)" by fastforce
    show ?thesis
    proof (cases "generator_Add env g k h")
      case (Inl err)
      from IH [of vs g st] obtain kept where "subseq kept es"
        "\<forall>(k, i, v) \<in> set es. k \<notin> set (dk ! i) \<longrightarrow> (k, i, v) \<in> set kept" by blast
      with False kd mh Inl show ?thesis
        by (intro exI [of _ "e # kept"] exI [of _ dk] exI [of _ st]) (auto simp: e)
    next
      case (Inr g1)
      from IH [of vs1 g1 "st1\<lparr>stat_number_of_keys := stat_number_of_keys st1 + 1\<rparr>"] obtain kept dk' st' where
        "subseq kept es" "\<forall>(k, i, v) \<in> set es. k \<notin> set (dk ! i) \<longrightarrow> (k, i, v) \<in> set kept"
        "process_entries env ap As es vs1 g1 dk1 (st1\<lparr>stat_number_of_keys := stat_number_of_keys st1 + 1\<rparr>) =
          bind_sum (add_entries env ap As kept vs1 g1) (\<lambda>(vs', g'). Inr (vs', g', dk', st'))" by blast
      with False kd mh Inr show ?thesis
        by (intro exI [of _ "e # kept"] exI [of _ dk'] exI [of _ st']) (auto simp: e)
    qed
  qed
qed


section \<open>Adding the segments\<close>

fun Add_files ::
  "(automata \<Rightarrow> automata \<Rightarrow> bool) \<Rightarrow> nat \<Rightarrow> (string \<times> dictionary_file) list \<Rightarrow> ('v, 'g) merger \<Rightarrow>
     (merger_error + ('v, 'g) merger) option" where
  "Add_files compatible t [] m = Some (Inr m)"
| "Add_files compatible t ((name, f) # fs) m =
     Option.bind (Merger_Add compatible t name f m) (\<lambda>r.
       case r of Inl e \<Rightarrow> Some (Inl e) | Inr m' \<Rightarrow> Add_files compatible t fs m')"

definition file_entries :: "nat \<Rightarrow> dictionary_file \<Rightarrow> items" where
  "file_entries N f = entries (df_automata f) N (GetStartState (df_automata f))"

text \<open>A readable dictionary: of bounded depth, and an empty one has no keys.\<close>

definition file_ok :: "nat \<Rightarrow> dictionary_file \<Rightarrow> bool" where
  "file_ok N f \<longleftrightarrow> (if number_of_keys (df_automata f) = 0 then file_entries N f = []
     else GetStartState (df_automata f) \<noteq> 0 \<and> fsa_depth (df_automata f) N (GetStartState (df_automata f)))"

definition nonempty_files :: "nat \<Rightarrow> (string \<times> dictionary_file) list \<Rightarrow> dictionary_file list" where
  "nonempty_files N inputs = filter (\<lambda>f. file_entries N f \<noteq> []) (map snd inputs)"

definition merger_ok :: "nat \<Rightarrow> bool \<Rightarrow> dictionary_file list \<Rightarrow> ('v, 'g) merger \<Rightarrow> bool" where
  "merger_ok N ap fs m \<longleftrightarrow> append_merge m = ap \<and> dicts_to_merge m = map df_automata fs
     \<and> deleted_keys m = map TryLoadDeletedKeys fs \<and> (\<forall>f \<in> set fs. file_entries N f \<noteq> [])
     \<and> stats m = \<lparr>stat_number_of_keys = 0, stat_deleted_keys = 0, stat_updated_keys = 0\<rparr>
     \<and> queued (map df_automata fs) (map (file_entries N) fs) (segments_pqueue m)"

lemma sorted_file_entries [simp]: "sorted_items (file_entries N f)"
  using entries_sorted by (simp add: sorted_items_def file_entries_def)

lemma queued_length:
  assumes "queued As segs q" "\<forall>xs \<in> set segs. xs \<noteq> []"
  shows "length q = length segs"
proof -
  have "length q = card (si_index ` set q)"
    using assms(1) distinct_card [of "map si_index q"] by (simp add: queued_def)
  also have "si_index ` set q = {..< length segs}" using assms by (auto simp: queued_def)
  finally show ?thesis by simp
qed

lemma queued_extend:
  assumes "queued As segs q"
  shows "queued (As @ [A]) (segs @ [[]]) q"
proof -
  have "{i. i < length (segs @ [[]]) \<and> (segs @ [[]]) ! i \<noteq> []} = {i. i < length segs \<and> segs ! i \<noteq> []}"
    by (auto simp: nth_append less_Suc_eq)
  moreover have "iterates ((As @ [A]) ! si_index s) ((segs @ [[]]) ! si_index s) (si_entry s)" if "s \<in> set q" for s
    using queuedD(1) [OF assms that] assms that by (simp add: queued_def nth_append)
  ultimately show ?thesis using assms unfolding queued_def by simp
qed

lemma Merger_Add_ok:
  assumes "merger_ok N ap fs m" "file_ok N f"
  shows "if name \<in> set (inputFiles m) \<or> df_value_store_type f \<noteq> t
      \<or> \<not> ap \<and> fs \<noteq> [] \<and> \<not> compatible (df_automata (hd fs)) (df_automata f)
    then \<exists>e. Merger_Add compatible t name f m = Some (Inl e)
    else \<exists>m'. Merger_Add compatible t name f m = Some (Inr m') \<and>
       merger_ok N ap (if file_entries N f = [] then fs else fs @ [f]) m' \<and>
       inputFiles m' = (if file_entries N f = [] then inputFiles m else inputFiles m @ [name])"
proof -
  let ?A = "df_automata f" and ?segs = "map (file_entries N) fs" and ?q = "segments_pqueue m"
  note m = assms(1) [unfolded merger_ok_def]
  obtain it where it: "EntryIterator ?A (GetStartState ?A) = Some it" "iterates ?A (file_entries N f) it"
  proof (cases "number_of_keys ?A = 0")
    case True
    with assms(2) have "EntryIterator ?A (GetStartState ?A) = Some end_iterator" "file_entries N f = []"
      by (simp_all add: file_ok_def EntryIterator_def GetNumberOfKeys_def)
    moreover have "ei_state end_iterator = 0" by (simp add: end_iterator_def)
    ultimately show ?thesis using that [of end_iterator] by (simp add: iterates_Nil)
  next
    case False
    with EntryIterator_iterates [OF False] assms(2) that show ?thesis
      by (auto simp: file_ok_def file_entries_def)
  qed
  let ?s = "\<lparr>si_entry = it, si_index = length ?q\<rparr>"
  have len: "length ?q = length fs" using queued_length [of "map df_automata fs" ?segs ?q] m by simp
  have bool: "SI_bool ?s \<longleftrightarrow> file_entries N f \<noteq> []"
    using it(2) iterates_Cons(1) [of ?A _ _ _ it]
    by (cases "file_entries N f") (auto simp: SI_bool_def EI_eq_def end_iterator_def iterates_Nil)
  have "queued (map df_automata fs @ [?A]) ((?segs @ [[]])[si_index ?s := file_entries N f])
      (if SI_bool ?s then pq_push ?s ?q else ?q)"
    by (rule queued_push) (use m it(2) len queued_extend in \<open>auto simp: nth_append\<close>)
  then have push: "queued (map df_automata (fs @ [f])) (map (file_entries N) (fs @ [f])) (pq_push ?s ?q)"
    if "file_entries N f \<noteq> []"
    using that bool len by (simp add: list_update_append)
  have hd: "fs \<noteq> [] \<Longrightarrow> map df_automata fs ! 0 = df_automata (hd fs)" by (simp add: hd_conv_nth)
  show ?thesis
    using it(1) bool push m hd by (auto simp: Merger_Add_def Let_def merger_ok_def)
qed

lemma Add_files_ok:
  assumes "merger_ok N ap fs m" "\<forall>(name, f) \<in> set inputs. file_ok N f"
    "Add_files compatible t inputs m = Some (Inr m')"
  shows "merger_ok N ap (fs @ nonempty_files N inputs) m'"
  using assms
proof (induction inputs arbitrary: fs m)
  case Nil
  then show ?case by (simp add: nonempty_files_def)
next
  case (Cons x inputs)
  obtain name f where x: "x = (name, f)" by (cases x)
  from Merger_Add_ok [OF Cons.prems(1), of f name t compatible] Cons.prems(2,3) x obtain m1 where m1:
    "Merger_Add compatible t name f m = Some (Inr m1)"
    "merger_ok N ap (if file_entries N f = [] then fs else fs @ [f]) m1" by (auto split: if_splits)
  from Cons.IH [OF m1(2)] Cons.prems(2,3) m1(1) x show ?case
    by (auto simp: nonempty_files_def split: if_splits)
qed

lemma merger_ok_initial: "merger_ok N ap [] (DictionaryMerger ap)"
  by (simp add: merger_ok_def DictionaryMerger_def queued_def pq_ok_def)

lemma descending_TryLoadDeletedKeys:
  assumes "\<forall>ks. df_deleted_keys f = Some ks \<longrightarrow> distinct ks"
  shows "descending (TryLoadDeletedKeys f)"
proof -
  have "descending (stable_insert (\<lambda>a b. key_less b a) x xs)" if "descending xs" "x \<notin> set xs" for x xs
    using that
  proof (induction xs)
    case (Cons y ys)
    then show ?case using key_less_linear [of x y] key_less_trans [of _ y x] by auto
  qed simp
  moreover have "set (stable_sort (\<lambda>a b. key_less b a) xs) = set xs" for xs :: "u8 list list"
    by (induction xs) (simp_all add: stable_sort_def)
  ultimately have "distinct ks \<Longrightarrow> descending (stable_sort (\<lambda>a b. key_less b a) ks)" for ks
    by (induction ks) (simp_all add: stable_sort_def)
  with assms show ?thesis by (simp add: TryLoadDeletedKeys_def split: option.splits)
qed


lemma Merge_entries:
  assumes "merger_ok N (append_merge m) fs m"
  shows "\<exists>es. newest_entries (map (file_entries N) fs) es \<and> length es \<le> length (concat (map (file_entries N) fs)) \<and>
    Merge env m =
      (let vs = new_value_store env (inputFiles m); g = CreateGenerator env (GetTotalSparseArraySize env m) vs in
       Some (bind_sum (process_entries env (append_merge m) (map df_automata fs) es vs g
                 (map TryLoadDeletedKeys fs) (stats m)) (\<lambda>(vs', g', dk', st').
             bind_sum (generator_CloseFeeding env g') (\<lambda>g2.
             Inr (m\<lparr>generator := Some (generator_SetManifest env g2 (manifest m)), merge_store := Some vs',
                    deleted_keys := dk', stats := st'\<lparr>stat_updated_keys :=
                      length (concat (map (file_entries N) fs)) - length es\<rparr>,
                    segments_pqueue := [], dicts_to_merge := []\<rparr>)))))"
proof -
  let ?segs = "map (file_entries N) fs" and ?vs = "new_value_store env (inputFiles m)"
  let ?g = "CreateGenerator env (GetTotalSparseArraySize env m) ?vs"
  note m = assms [unfolded merger_ok_def]
  have "queued (map df_automata fs) ?segs (segments_pqueue m)" "\<forall>xs \<in> set ?segs. sorted_items xs" using m by auto
  from merge_loop_entries [OF this, of env "append_merge m" ?vs ?g "deleted_keys m" "stats m"] m
  obtain es where es: "newest_entries ?segs es" "length es \<le> length (concat ?segs)"
    "merge_loop env (append_merge m) ?vs ?g (deleted_keys m) (stats m) (segments_pqueue m) = Some (map_sum id
      (with_updated (length (concat ?segs) - length es))
      (process_entries env (append_merge m) (map df_automata fs) es ?vs ?g (map TryLoadDeletedKeys fs) (stats m)))"
    by auto
  then show ?thesis
    by (intro exI [of _ es] conjI, simp_all add: Merge_run run_merge_def Let_def)
      (auto simp: bind_sum_def map_sum_def with_updated_def split: sum.splits prod.splits)
qed

lemma newest_index: "newest_entries segs es \<Longrightarrow> (k, i, v) \<in> set es \<Longrightarrow> i < length segs"
  by (simp add: newest_entries_def newest_entry_def)

section \<open>An example\<close>

text \<open>A dictionary with the key \<open>a\<close> (value 9), to be merged over the one with \<open>a\<close> and \<open>ab\<close>.\<close>

definition single_automata :: automata where
  "single_automata = \<lparr>
     a_labels = (\<lambda>i. if i = 1000 \<or> i = 500 then 1 else if i = 1097 then 97 else if i = 756 then 1 else 0),
     transitions_compact = (\<lambda>i. if i = 1097 then 1109 else if i = 756 then 9 else 0),
     properties_start_state = 1000, number_of_keys = 1\<rparr>"

lemma single_automata_out: "outgoing single_automata 1000 = [(500, 97)]" "outgoing single_automata 500 = []"
proof -
  have "out_labels single_automata 1000 = [97]"
    by (rule out_labels_eqI) (auto simp: single_automata_def unat_index word_unat_eq_iff)
  moreover have "out_labels single_automata 500 = []"
    by (rule out_labels_eqI) (auto simp: single_automata_def unat_index word_unat_eq_iff)
  moreover have "ResolvePointer single_automata 1000 97 = 500" by code_simp
  ultimately show "outgoing single_automata 1000 = [(500, 97)]" "outgoing single_automata 500 = []"
    by (simp_all add: outgoing_def)
qed

lemma single_automata_final: "IsFinalState single_automata 500" "GetStateValue single_automata 500 = 9"
  by code_simp+

definition old_file :: "u8 list list \<Rightarrow> dictionary_file" where
  "old_file ks = \<lparr>df_automata = small_automata, df_value_store_type = 1, df_deleted_keys = Some ks\<rparr>"

definition new_file :: dictionary_file where
  "new_file = \<lparr>df_automata = single_automata, df_value_store_type = 1, df_deleted_keys = None\<rparr>"

abbreviation example_inputs :: "u8 list list \<Rightarrow> (string \<times> dictionary_file) list" where
  "example_inputs ks \<equiv> [(''old'', old_file ks), (''new'', new_file)]"

text \<open>A generator that records the calls, and a value store that keeps the values.\<close>

definition trace_env :: "(unit, (u8 list \<times> u64) list) merge_env" where
  "trace_env = \<lparr>new_value_store = (\<lambda>_. ()), GetMergeWeight = (\<lambda>_ _. 0), AddValueMerge = (\<lambda>_ _ v. (v, False, ())),
     AddValueAppendMerge = (\<lambda>_ _ v. (v, ())), SparseArraySize = (\<lambda>_. 0), CreateGenerator = (\<lambda>_ _. []),
     generator_Add = (\<lambda>g k h. Inr (g @ [(k, value_idx h)])), generator_CloseFeeding = Inr,
     generator_SetManifest = (\<lambda>g _. g)\<rparr>"

lemma trace_env_simps [simp]:
  "new_value_store trace_env fs = ()" "GetMergeWeight trace_env vs v = 0" "AddValueMerge trace_env vs A v = (v, False, ())"
  "CreateGenerator trace_env n vs = []" "generator_Add trace_env g k h = Inr (g @ [(k, value_idx h)])"
  "generator_CloseFeeding trace_env g = Inr g" "generator_SetManifest trace_env g s = g"
  by (simp_all add: trace_env_def)

lemma add_entries_trace: "add_entries trace_env False As es vs g = Inr ((), g @ map (\<lambda>(k, i, v). (k, v)) es)"
  by (induction es arbitrary: vs g) (auto simp: merge_handle_def)

lemma example_entries:
  "file_entries (Suc (Suc 0)) (old_file ks) = [([97], 7), ([97, 98], 8)]"
  "file_entries (Suc (Suc 0)) new_file = [([97], 9)]"
proof -
  have "GetStartState small_automata = 1000" "GetStartState single_automata = 1000"
    by (simp_all add: GetStartState_def small_automata_def single_automata_def)
  then show "file_entries (Suc (Suc 0)) (old_file ks) = [([97], 7), ([97, 98], 8)]"
    "file_entries (Suc (Suc 0)) new_file = [([97], 9)]"
    using small_automata_entries
    by (simp_all add: file_entries_def old_file_def new_file_def entries_def single_automata_out single_automata_final)
qed

lemma example_ok: "\<forall>(name, f) \<in> set (example_inputs ks). file_ok (Suc (Suc 0)) f"
proof -
  have "GetStartState small_automata = 1000" "GetStartState single_automata = 1000"
    "number_of_keys small_automata = 2" "number_of_keys single_automata = 1"
    by (simp_all add: GetStartState_def small_automata_def single_automata_def)
  then show ?thesis using small_automata_depth
    by (simp add: file_ok_def old_file_def new_file_def single_automata_out)
qed

lemma example_nonempty: "nonempty_files (Suc (Suc 0)) (example_inputs ks) = [old_file ks, new_file]"
  by (simp add: nonempty_files_def example_entries)

lemma example_newest:
  "newest_entry [[([97], 7), ([97, 98], 8)], [([97], 9)]] k i v \<longleftrightarrow>
     (k, i, v) = ([97], 1, 9) \<or> (k, i, v) = ([97, 98], 0, 8)"
  by (auto simp: newest_entry_def less_Suc_eq)

lemma sorted_entries_unique:
  fixes xs ys :: "(u8 list \<times> 'a) list"
  shows "sorted_wrt key_less (map fst xs) \<Longrightarrow> sorted_wrt key_less (map fst ys) \<Longrightarrow> set xs = set ys \<Longrightarrow> xs = ys"
proof (induction xs arbitrary: ys)
  case (Cons x xs)
  then obtain y ys' where ys: "ys = y # ys'" by (cases ys) auto
  have less: "z \<in> set xs \<Longrightarrow> key_less (fst x) (fst z)" "z \<in> set ys' \<Longrightarrow> key_less (fst y) (fst z)" for z
    using Cons.prems ys by auto
  have "x = y"
  proof (rule ccontr)
    assume "x \<noteq> y"
    with Cons.prems(3) ys have "x \<in> set ys'" "y \<in> set xs" by auto
    with less [of x] less [of y] key_less_trans [of "fst x" "fst y" "fst x"] show False by auto
  qed
  moreover have "x \<notin> set xs" "y \<notin> set ys'" using less [of x] less [of y] by auto
  ultimately have "set xs = set ys'" using Cons.prems(3) ys by auto
  with Cons ys \<open>x = y\<close> show ?case by simp
qed simp

lemma example_es:
  assumes "newest_entries [[([97], 7), ([97, 98], 8)], [([97], 9)]] es"
  shows "es = [([97], 1, 9), ([97, 98], 0, 8)]"
proof (rule sorted_entries_unique)
  show "set es = set [([97], 1, 9), ([97, 98], 0, 8)]"
    using assms unfolding newest_entries_def example_newest by auto
qed (use assms in \<open>simp_all add: newest_entries_def\<close>)

lemma Add_example:
  "\<exists>m. Add_files (\<lambda>_ _. True) 1 (example_inputs ks) (DictionaryMerger ap :: ('v, 'g) merger) = Some (Inr m)
     \<and> inputFiles m = [''old'', ''new'']"
proof -
  let ?m0 = "DictionaryMerger ap :: ('v, 'g) merger"
  have ok: "file_ok (Suc (Suc 0)) (old_file ks)" "file_ok (Suc (Suc 0)) new_file" using example_ok [of ks] by auto
  have t: "df_value_store_type (old_file ks) = 1" "df_value_store_type new_file = 1" "inputFiles ?m0 = []"
    by (simp_all add: old_file_def new_file_def DictionaryMerger_def)
  from Merger_Add_ok [where m = ?m0, OF merger_ok_initial ok(1), of "''old''" 1 "\<lambda>_ _. True"] obtain m1 where m1:
    "Merger_Add (\<lambda>_ _. True) 1 ''old'' (old_file ks) ?m0 = Some (Inr m1)" "merger_ok (Suc (Suc 0)) ap [old_file ks] m1"
    "inputFiles m1 = [''old'']" by (auto simp: t example_entries)
  from Merger_Add_ok [OF m1(2) ok(2), of "''new''" 1 "\<lambda>_ _. True"] obtain m2 where m2:
    "Merger_Add (\<lambda>_ _. True) 1 ''new'' new_file m1 = Some (Inr m2)" "inputFiles m2 = [''old'', ''new'']"
    by (auto simp: t m1(3) example_entries)
  with m1(1) m2(1) show ?thesis by simp
qed

section \<open>Properties\<close>



text \<open>
  C26: a merge loses nothing.  Whatever the lists of deleted keys hold, the entries handed to the generator
  are newest entries of their keys, in ascending order, and every newest entry is among them whose own
  file does not list its key as deleted.
\<close>

theorem merge_keeps_undeleted:
  fixes m :: "('v, 'g) merger"
  assumes "\<forall>(name, f) \<in> set inputs. file_ok N f"
    and "Add_files compatible t inputs (DictionaryMerger ap) = Some (Inr m)"
  shows "let fs = nonempty_files N inputs; segs = map (file_entries N) fs;
             vs = new_value_store env (inputFiles m); g = CreateGenerator env (GetTotalSparseArraySize env m) vs
         in \<exists>kept dk' st'. sorted_wrt key_less (map fst kept)
              \<and> (\<forall>(k, i, v) \<in> set kept. newest_entry segs k i v)
              \<and> (\<forall>k i v. newest_entry segs k i v \<and> k \<notin> set (TryLoadDeletedKeys (fs ! i)) \<longrightarrow> (k, i, v) \<in> set kept)
              \<and> Merge env m = Some (bind_sum (add_entries env ap (map df_automata fs) kept vs g) (\<lambda>(vs', g').
                  bind_sum (generator_CloseFeeding env g') (\<lambda>g2.
                  Inr (m\<lparr>generator := Some (generator_SetManifest env g2 (manifest m)), merge_store := Some vs',
                     deleted_keys := dk', stats := st', segments_pqueue := [], dicts_to_merge := []\<rparr>))))"
proof -
  let ?fs = "nonempty_files N inputs"
  let ?segs = "map (file_entries N) ?fs" and ?dk = "map TryLoadDeletedKeys ?fs"
  from Add_files_ok [OF merger_ok_initial assms(1,2)] have m: "merger_ok N ap ?fs m" by simp
  then have ap: "append_merge m = ap" by (simp add: merger_ok_def)
  from Merge_entries [of N m ?fs env] m ap obtain es where es: "newest_entries ?segs es"
    and merge: "Merge env m = (let vs = new_value_store env (inputFiles m); g = CreateGenerator env (GetTotalSparseArraySize env m) vs in
       Some (bind_sum (process_entries env ap (map df_automata ?fs) es vs g ?dk (stats m)) (\<lambda>(vs', g', dk', st').
             bind_sum (generator_CloseFeeding env g') (\<lambda>g2.
             Inr (m\<lparr>generator := Some (generator_SetManifest env g2 (manifest m)), merge_store := Some vs',
                    deleted_keys := dk', stats := st'\<lparr>stat_updated_keys := length (concat ?segs) - length es\<rparr>,
                    segments_pqueue := [], dicts_to_merge := []\<rparr>)))))" by auto
  have idx: "\<forall>(k, i, v) \<in> set es. i < length ?dk" using newest_index [OF es] by auto
  let ?vs = "new_value_store env (inputFiles m)"
  from process_entries_sound [OF idx, of env ap "map df_automata ?fs" ?vs
      "CreateGenerator env (GetTotalSparseArraySize env m) ?vs" "stats m"] obtain kept dk' st' where kept:
    "subseq kept es" "\<forall>(k, i, v) \<in> set es. k \<notin> set (?dk ! i) \<longrightarrow> (k, i, v) \<in> set kept"
    "process_entries env ap (map df_automata ?fs) es ?vs (CreateGenerator env (GetTotalSparseArraySize env m) ?vs) ?dk (stats m) =
      bind_sum (add_entries env ap (map df_automata ?fs) kept ?vs (CreateGenerator env (GetTotalSparseArraySize env m) ?vs))
        (\<lambda>(vs', g'). Inr (vs', g', dk', st'))" by blast
  have "sorted_wrt key_less (map fst kept)"
    using es sorted_wrt_subseq [OF kept(1), of "\<lambda>a b. key_less (fst a) (fst b)"] by (simp add: newest_entries_def sorted_wrt_map)
  moreover have "\<forall>(k, i, v) \<in> set kept. newest_entry ?segs k i v"
    using es set_subseq [OF kept(1)] by (auto simp: newest_entries_def)
  moreover have "(k, i, v) \<in> set kept" if "newest_entry ?segs k i v" "k \<notin> set (TryLoadDeletedKeys (?fs ! i))" for k i v
  proof -
    have "(k, i, v) \<in> set es" "i < length ?fs" using that(1) es by (auto simp: newest_entries_def newest_entry_def)
    with kept(2) that(2) show ?thesis by force
  qed
  moreover have "Merge env m = Some (bind_sum (add_entries env ap (map df_automata ?fs) kept ?vs
        (CreateGenerator env (GetTotalSparseArraySize env m) ?vs)) (\<lambda>(vs', g').
      bind_sum (generator_CloseFeeding env g') (\<lambda>g2.
      Inr (m\<lparr>generator := Some (generator_SetManifest env g2 (manifest m)), merge_store := Some vs',
         deleted_keys := dk', stats := st'\<lparr>stat_updated_keys := length (concat ?segs) - length es\<rparr>,
         segments_pqueue := [], dicts_to_merge := []\<rparr>))))"
    unfolding merge Let_def kept(3) by (auto simp: bind_sum_def split: sum.splits)
  ultimately show ?thesis unfolding Let_def by blast
qed


theorem merge_keeps_undeleted_witness:
  "\<exists>m m' kept. Add_files (\<lambda>_ _. True) 1 (example_inputs []) (DictionaryMerger False) = Some (Inr m)
     \<and> Merge trace_env m = Some (Inr m') \<and> ([97], 1 :: nat, 9) \<in> set kept \<and> ([97, 98], 0, 8) \<in> set kept
     \<and> generator m' = Some (map (\<lambda>(k, i, v). (k, v)) kept)"
proof -
  let ?in = "example_inputs []"
  obtain m :: "(unit, (u8 list \<times> u64) list) merger" where m:
    "Add_files (\<lambda>_ _. True) 1 ?in (DictionaryMerger False) = Some (Inr m)" using Add_example by blast
  have dk: "TryLoadDeletedKeys (old_file []) = []" "TryLoadDeletedKeys new_file = []"
    by (simp_all add: TryLoadDeletedKeys_def old_file_def new_file_def stable_sort_def)
  from merge_keeps_undeleted [OF example_ok m, of trace_env] obtain kept m' where
    kept: "\<forall>k i v. newest_entry [[([97], 7), ([97, 98], 8)], [([97], 9)]] k i v
       \<and> k \<notin> set (TryLoadDeletedKeys ([old_file [], new_file] ! i)) \<longrightarrow> (k, i, v) \<in> set kept"
    and m': "Merge trace_env m = Some (Inr m')" "generator m' = Some (map (\<lambda>(k, i, v). (k, v)) kept)"
    by (auto simp: example_nonempty example_entries Let_def add_entries_trace)
  have "([97], 1, 9) \<in> set kept" using kept by (simp add: example_newest dk)
  moreover have "([97, 98], 0, 8) \<in> set kept" using kept by (simp add: example_newest dk)
  ultimately show ?thesis using m m' by blast
qed

text \<open>
  C39: a deleted key can come back.  The old dictionary has the keys \<open>a\<close> and \<open>ab\<close>, both deleted; then \<open>a\<close>
  is written again to a new dictionary.  The merge adds \<open>a\<close> from the new dictionary, but leaves the
  deletion of \<open>a\<close> at the back of the old list, where it hides the deletion of \<open>ab\<close>: the merged dictionary
  contains \<open>ab\<close> again.
\<close>

theorem merge_resurrects_deleted_key:
  "\<exists>m m'. Add_files (\<lambda>_ _. True) 1 (example_inputs [[97], [97, 98]]) (DictionaryMerger False) = Some (Inr m)
     \<and> Merge trace_env m = Some (Inr m') \<and> generator m' = Some [([97], 9), ([97, 98], 8)]"
proof -
  let ?in = "example_inputs [[97], [97, 98]]"
  obtain m :: "(unit, (u8 list \<times> u64) list) merger" where m:
    "Add_files (\<lambda>_ _. True) 1 ?in (DictionaryMerger False) = Some (Inr m)" using Add_example by blast
  have dk: "TryLoadDeletedKeys (old_file [[97], [97, 98]]) = [[97, 98], [97]]" "TryLoadDeletedKeys new_file = []"
    by (simp_all add: TryLoadDeletedKeys_def old_file_def new_file_def stable_sort_def)
  from Add_files_ok [OF merger_ok_initial example_ok m]
  have "merger_ok (Suc (Suc 0)) (append_merge m) [old_file [[97], [97, 98]], new_file] m" "\<not> append_merge m"
    by (simp_all add: example_nonempty merger_ok_def)
  with Merge_entries [OF this(1), of trace_env]
  have "\<exists>m'. Merge trace_env m = Some (Inr m') \<and> generator m' = Some [([97], 9), ([97, 98], 8)]"
    by (auto dest!: example_es simp: example_entries Let_def dk KeyDeleted_def merge_handle_def)
  with m show ?thesis by auto
qed

end
