(* ===== verification/Generator.thy ===== *)
theory Generator
  imports Builder Merger
begin

text \<open>
  The generator, \<open>generator.h\<close>: keys arrive in ascending order, are collected on a stack of unpacked states
  and handed to the builder as soon as no further key can change them.

  The value store is a record of the two operations the generator calls.  The stack and the builder are
  deleted when feeding is closed; until then the builder holds the persistence.  \<open>None\<close> is a call that
  does not return.
\<close>

datatype generator_state = FEEDING | FINALIZING | COMPILED

datatype generator_error = generator_exception string | Builder_Error builder_error | Config_Error config_error
  | No_Transition | Key_Out_Of_Range | Deleted_Object

record ('v, 'vs) value_store_ops =
  AddValue :: "'v \<Rightarrow> 'vs \<Rightarrow> (u64 \<times> bool) \<times> 'vs"
  GetWeightValue :: "'v \<Rightarrow> u32"

record 'vs generator =
  g_persistence :: persistence
  g_value_store :: 'vs
  g_builder :: "builder option"
  g_stack :: "UnpackedStateStack option"
  last_key :: "u8 list"
  highest_stack :: nat
  number_of_keys_added :: nat
  g_state :: generator_state
  start_state :: nat
  g_number_of_states :: nat
  g_manifest :: string

definition bind_run :: "('e + 'a) option \<Rightarrow> ('a \<Rightarrow> ('e + 'b) option) \<Rightarrow> ('e + 'b) option" where
  "bind_run m f = (case m of None \<Rightarrow> None | Some (Inl e) \<Rightarrow> Some (Inl e) | Some (Inr x) \<Rightarrow> f x)"

lemma bind_run_simps [simp]: "bind_run None f = None" "bind_run (Some (Inl e)) f = Some (Inl e)" "bind_run (Some (Inr x)) f = f x"
  by (simp_all add: bind_run_def)

lemma bind_run_Inr: "bind_run m f = Some (Inr y) \<longleftrightarrow> (\<exists>x. m = Some (Inr x) \<and> f x = Some (Inr y))"
  by (auto simp: bind_run_def split: option.splits sum.splits)

lemma bind_run_Inl:
  "bind_run m f = Some (Inl e) \<longleftrightarrow> m = Some (Inl e) \<or> (\<exists>x. m = Some (Inr x) \<and> f x = Some (Inl e))"
  by (auto simp: bind_run_def split: option.splits sum.splits)

section \<open>The operations\<close>

text \<open>
  A \<open>std::string\<close> has a zero byte behind its end and nothing after it.  The loop compares before it looks
  at the length.
\<close>

definition string_at :: "u8 list \<Rightarrow> nat \<Rightarrow> u8 option" where
  "string_at s i = (if i < length s then Some (s ! i) else if i = length s then Some 0 else None)"

function common_prefix_loop :: "u8 list \<Rightarrow> u8 list \<Rightarrow> nat \<Rightarrow> nat option" where
  "common_prefix_loop first second i =
     (case (string_at first i, string_at second i) of
        (Some x, Some y) \<Rightarrow> if x = y \<and> i < length first then common_prefix_loop first second (i + 1) else Some i
      | _ \<Rightarrow> None)"
  by pat_completeness auto
termination
  by (relation "measure (\<lambda>(first, second, i). length first - i)") auto

declare common_prefix_loop.simps [simp del]

definition get_common_prefix_length :: "u8 list \<Rightarrow> u8 list \<Rightarrow> nat option" where
  "get_common_prefix_length first second = common_prefix_loop first second 0"

text \<open>The memory is divided between the cache of states and the persistence.\<close>

definition memory_limit_minimization :: "nat \<Rightarrow> nat" where
  "memory_limit_minimization limit = (if limit > 400 * 1024 * 1024 then limit - 200 * 1024 * 1024 else limit div 2)"

definition Generator :: "nat \<Rightarrow> bool \<Rightarrow> bool \<Rightarrow> 'vs \<Rightarrow> generator_error + 'vs generator" where
  "Generator limit weights minimization vs =
     (let p = SparseArrayPersistence (limit - memory_limit_minimization limit)
      in case SparseArrayBuilder (memory_limit_minimization limit) p weights minimization of
           Inl e \<Rightarrow> Inl (Config_Error e)
         | Inr b \<Rightarrow> Inr \<lparr>g_persistence = p, g_value_store = vs, g_builder = Some b, g_stack = Some (UnpackedStateStack 30),
             last_key = [], highest_stack = 0, number_of_keys_added = 0, g_state = FEEDING, start_state = 0,
             g_number_of_states = 0, g_manifest = []\<rparr>)"

definition FeedStack :: "nat \<Rightarrow> u8 list \<Rightarrow> nat \<Rightarrow> UnpackedStateStack \<Rightarrow> nat \<times> UnpackedStateStack" where
  "FeedStack start key highest stk =
     (max highest (length key), fold (\<lambda>i. stack_Insert i (unat (key ! i)) 0) [start..<length key] stk)"

text \<open>
  States from the top of the stack are persisted and the position written into the last transition of the
  state below.
\<close>

definition lift_b :: "(builder_error + 'a) option \<Rightarrow> (generator_error + 'a) option" where
  "lift_b r = (case r of None \<Rightarrow> None | Some (Inl e) \<Rightarrow> Some (Inl (Builder_Error e)) | Some (Inr x) \<Rightarrow> Some (Inr x))"

fun ConsumeStack ::
  "fs \<Rightarrow> nat \<Rightarrow> nat \<Rightarrow> UnpackedStateStack \<Rightarrow> builder \<Rightarrow> (generator_error + nat \<times> UnpackedStateStack \<times> builder) option" where
  "ConsumeStack fs end_position 0 stk b = Some (Inr (0, stk, b))"
| "ConsumeStack fs end_position (Suc h) stk b =
     (if Suc h > end_position
      then bind_run (lift_b (PersistState fs (stack_Get (Suc h) stk) b)) (\<lambda>(transition_pointer, s, b1).
           case PushTransitionPointer h (of_nat transition_pointer) (no_minimization_counter s) (stack_put (Suc h) s stk) of
             None \<Rightarrow> Some (Inl No_Transition)
           | Some stk1 \<Rightarrow> ConsumeStack fs end_position h (stack_Erase (Suc h) stk1) b1)
      else Some (Inr (Suc h, stk, b)))"

text \<open>The common part of both \<open>Add\<close>: consume and feed; then the final state, the count and the weights.\<close>

definition feed_key ::
  "fs \<Rightarrow> nat \<Rightarrow> u8 list \<Rightarrow> 'vs generator \<Rightarrow> (generator_error + 'vs generator) option" where
  "feed_key fs commonPrefixLength input_key g =
     (case (g_stack g, g_builder g) of
        (Some stk, Some b) \<Rightarrow>
          bind_run (ConsumeStack fs commonPrefixLength (highest_stack g) stk b) (\<lambda>(h, stk1, b1).
          let (h2, stk2) = FeedStack commonPrefixLength input_key h stk1
          in Some (Inr (g\<lparr>g_stack := Some stk2, g_builder := Some b1, highest_stack := h2\<rparr>)))
      | _ \<Rightarrow> Some (Inl Deleted_Object))"

definition finish_key :: "u8 list \<Rightarrow> u64 \<Rightarrow> bool \<Rightarrow> u32 \<Rightarrow> 'vs generator \<Rightarrow> 'vs generator" where
  "finish_key input_key idx no_min w g =
     g\<lparr>g_stack := map_option (\<lambda>stk.
          let stk1 = InsertFinalState (length input_key) idx no_min stk
          in if w > 0 then UpdateWeights 0 (length input_key + 1) w stk1 else stk1) (g_stack g),
       number_of_keys_added := number_of_keys_added g + 1, last_key := input_key, g_state := FEEDING\<rparr>"

definition Generator_Add ::
  "fs \<Rightarrow> ('v, 'vs) value_store_ops \<Rightarrow> u8 list \<Rightarrow> 'v \<Rightarrow> 'vs generator \<Rightarrow> (generator_error + 'vs generator) option" where
  "Generator_Add fs ops input_key v g =
     (if g_state g \<noteq> FEEDING then Some (Inl (generator_exception ''not in feeding state''))
      else case get_common_prefix_length (last_key g) input_key of
             None \<Rightarrow> Some (Inl Key_Out_Of_Range)
           | Some commonPrefixLength \<Rightarrow>
               if commonPrefixLength = length input_key \<and> length (last_key g) = length input_key then Some (Inr g)
               else bind_run (feed_key fs commonPrefixLength input_key g) (\<lambda>g1.
                    let ((idx, no_min), vs) = AddValue ops v (g_value_store g1)
                    in Some (Inr (finish_key input_key idx no_min (GetWeightValue ops v) (g1\<lparr>g_value_store := vs\<rparr>)))))"

definition Generator_Add_handle ::
  "fs \<Rightarrow> u8 list \<Rightarrow> ValueHandle \<Rightarrow> 'vs generator \<Rightarrow> (generator_error + 'vs generator) option" where
  "Generator_Add_handle fs input_key handle g =
     (if g_state g \<noteq> FEEDING then Some (Inl (generator_exception ''not in feeding state''))
      else case get_common_prefix_length (last_key g) input_key of
             None \<Rightarrow> Some (Inl Key_Out_Of_Range)
           | Some commonPrefixLength \<Rightarrow>
               if commonPrefixLength = length input_key \<and> length (last_key g) = length input_key then Some (Inr g)
               else bind_run (feed_key fs commonPrefixLength input_key g) (\<lambda>g1.
                    Some (Inr (finish_key input_key (value_idx handle) (no_minimization handle) (weight handle) g1))))"

text \<open>
  Closing persists what is left on the stack, deletes stack and builder and flushes the persistence.  When a
  step fails the error is thrown; the generator is then left in the state \<open>FINALIZING\<close> and rejects every call.
\<close>

definition close_states :: "fs \<Rightarrow> 'vs generator \<Rightarrow> (generator_error + nat \<times> builder) option" where
  "close_states fs g =
     (case (g_stack g, g_builder g) of
        (Some stk, Some b) \<Rightarrow>
          if number_of_keys_added g > 0
          then bind_run (ConsumeStack fs 0 (highest_stack g) stk b) (\<lambda>(h, stk1, b1).
               bind_run (lift_b (PersistState fs (stack_Get 0 stk1) b1)) (\<lambda>(offset, s, b2). Some (Inr (offset, b2))))
          else Some (Inr (1, b))
      | _ \<Rightarrow> Some (Inl Deleted_Object))"

definition CloseFeeding :: "fs \<Rightarrow> 'vs generator \<Rightarrow> (generator_error + 'vs generator) option" where
  "CloseFeeding fs g =
     (if g_state g \<noteq> FEEDING then Some (Inl (generator_exception ''not in feeding state''))
      else bind_run (close_states fs g) (\<lambda>(offset, b).
           Some (case SAP_Flush fs (b_persistence b) of
                   Inl e \<Rightarrow> Inl (Builder_Error (Persistence_Error e))
                 | Inr p \<Rightarrow> Inr (g\<lparr>start_state := offset, g_stack := None, g_number_of_states := number_of_states b,
                     g_builder := None, g_persistence := p, g_state := COMPILED\<rparr>))))"

definition KEYVI_FILE_MAGIC :: "u8 list" where
  "KEYVI_FILE_MAGIC = [75, 69, 89, 86, 73, 70, 83, 65]"

text \<open>
  The file: magic, the properties as JSON (rendered by a parameter from the version the value store asks for
  and the fields of the generator), the sparse array, and what the value store writes.
\<close>

definition Generator_Write ::
  "(nat \<Rightarrow> nat \<Rightarrow> nat \<Rightarrow> nat \<Rightarrow> nat \<Rightarrow> string \<Rightarrow> u8 list) \<Rightarrow> ('vs \<Rightarrow> nat) \<Rightarrow> ('vs \<Rightarrow> u8 list) \<Rightarrow> 'vs generator \<Rightarrow>
   generator_error + u8 list" where
  "Generator_Write json min_version vs_write g =
     (if g_state g \<noteq> COMPILED then Inl (generator_exception ''not compiled yet'')
      else case SAP_Write (g_persistence g) of
             Inl e \<Rightarrow> Inl (Builder_Error (Persistence_Error e))
           | Inr bytes \<Rightarrow>
               Inr (KEYVI_FILE_MAGIC @ json (max 2 (min_version (g_value_store g))) (start_state g) (number_of_keys_added g)
                      (g_number_of_states g) (SAP_GetSize (g_persistence g)) (g_manifest g)
                    @ bytes @ vs_write (g_value_store g)))"

definition GetFsaSize :: "'vs generator \<Rightarrow> generator_error + nat" where
  "GetFsaSize g = (case g_builder g of None \<Rightarrow> Inl Deleted_Object | Some b \<Rightarrow> Inr (GetSize b))"

definition Generator_SetManifest :: "string \<Rightarrow> 'vs generator \<Rightarrow> 'vs generator" where
  "Generator_SetManifest m g = g\<lparr>g_manifest := m\<rparr>"


section \<open>The stack\<close>

lemma length_stack_fill [simp]: "i < length (unpacked_state_pool (stack_fill i stk))"
  by (simp add: stack_fill_def)

lemma stack_Get_pool: "stack_Get i stk = (if i < length (unpacked_state_pool stk) then unpacked_state_pool stk ! i else UnpackedState)"
  by (auto simp: stack_Get_def stack_fill_def nth_append)

lemma stack_Get_put: "stack_Get i (stack_put j s stk) = (if i = j then s else stack_Get i stk)"
  by (auto simp: stack_Get_pool stack_put_def stack_fill_def Let_def nth_append nth_list_update)

abbreviation outs :: "nat \<Rightarrow> UnpackedStateStack \<Rightarrow> (nat \<times> u64) list" where
  "outs i stk \<equiv> outgoing_transitions (stack_Get i stk)"

lemma out_Insert: "outs i (stack_Insert j l v stk) = (if i = j then outs i stk @ [(l, v)] else outs i stk)"
  by (simp add: stack_Insert_def stack_Get_put US_Add_def)

lemma out_InsertFinalState:
  "outs i (InsertFinalState j v b stk) = (if i = j then outs i stk @ [(256, v)] else outs i stk)"
  by (simp add: InsertFinalState_def stack_Get_put AddFinalState_def IncrementNoMinimizationCounter_def FINAL_OFFSET_TRANSITION_def Let_def)

lemma out_UpdateWeights: "outs i (UpdateWeights j n w stk) = outs i stk"
proof -
  have "outs i (fold (\<lambda>i stk. stack_put i (UpdateWeightIfHigher w (stack_Get i stk)) stk) xs stk) = outs i stk" for xs stk
    by (induction xs arbitrary: stk) (auto simp: stack_Get_put UpdateWeightIfHigher_def)
  then show ?thesis by (simp add: UpdateWeights_def)
qed

lemma out_Erase: "outs i (stack_Erase j stk) = (if i = j then [] else outs i stk)"
  by (simp add: stack_Erase_def stack_Get_put US_Clear_def)

lemma out_FeedStack:
  "outs j (snd (FeedStack c key h stk)) = (if c \<le> j \<and> j < length key then outs j stk @ [(unat (key ! j), 0)] else outs j stk)"
proof -
  have "outs j (fold (\<lambda>i. stack_Insert i (unat (key ! i)) 0) [c..<n] stk) =
      (if c \<le> j \<and> j < n then outs j stk @ [(unat (key ! j), 0)] else outs j stk)" for n
  proof (induction n)
    case (Suc n)
    then show ?case by (cases "c \<le> n") (auto simp: out_Insert)
  qed simp
  then show ?thesis by (simp add: FeedStack_def)
qed

lemma out_PushTransitionPointer:
  assumes "PushTransitionPointer h v n stk = Some stk'"
  shows "map fst (outs i stk') = map fst (outs i stk)" "i \<noteq> h \<Longrightarrow> outs i stk' = outs i stk"
proof -
  from assms obtain s where s: "SetTransitionValue v (stack_Get h stk) = Some s" "stk' = stack_put h (IncrementNoMinimizationCounter n s) stk"
    by (auto simp: PushTransitionPointer_def)
  then have ne: "outs h stk \<noteq> []" and o: "outgoing_transitions s = butlast (outs h stk) @ [(fst (last (outs h stk)), v)]"
    by (auto simp: SetTransitionValue_def split: if_splits)
  have "map fst (outgoing_transitions s) = map fst (outs h stk)"
    unfolding o using ne by (cases "outs h stk" rule: rev_cases) simp_all
  then show "map fst (outs i stk') = map fst (outs i stk)" by (simp add: s(2) stack_Get_put IncrementNoMinimizationCounter_def)
  show "i \<noteq> h \<Longrightarrow> outs i stk' = outs i stk" by (simp add: s(2) stack_Get_put)
qed

lemma ConsumeStack_stack:
  assumes "c \<le> h" "\<forall>i < h. outs i stk \<noteq> []" "\<forall>i > h. outs i stk = []"
  shows "ConsumeStack fs c h stk b = Some (Inl e) \<Longrightarrow> \<exists>be. e = Builder_Error be"
    and "ConsumeStack fs c h stk b = Some (Inr (h', stk', b')) \<Longrightarrow>
      h' = c \<and> (\<forall>i \<le> c. map fst (outs i stk') = map fst (outs i stk)) \<and> (\<forall>i > c. outs i stk' = [])"
proof -
  have "(\<forall>e. ConsumeStack fs c h stk b = Some (Inl e) \<longrightarrow> (\<exists>be. e = Builder_Error be))
    \<and> (\<forall>h' stk' b'. ConsumeStack fs c h stk b = Some (Inr (h', stk', b')) \<longrightarrow>
      h' = c \<and> (\<forall>i \<le> c. map fst (outs i stk') = map fst (outs i stk)) \<and> (\<forall>i > c. outs i stk' = []))"
    using assms
  proof (induction h arbitrary: stk b)
    case (Suc h)
    show ?case
    proof (cases "Suc h > c")
      case False
      then have "Suc h = c" "ConsumeStack fs c (Suc h) stk b = Some (Inr (Suc h, stk, b))" using Suc.prems(1) by simp_all
      with Suc.prems(3) show ?thesis by auto
    next
      case True
      show ?thesis
      proof (cases "PersistState fs (stack_Get (Suc h) stk) b")
        case None
        with True show ?thesis by (simp add: lift_b_def)
      next
        case (Some r)
        show ?thesis
        proof (cases r)
          case (Inl be)
          with True Some show ?thesis by (simp add: lift_b_def)
        next
          case (Inr x)
          obtain tp s b1 where x: "x = (tp, s, b1)" by (cases x)
          let ?stk0 = "stack_put (Suc h) s stk"
          have "outs h ?stk0 \<noteq> []" using Suc.prems(2) by (simp add: stack_Get_put)
          then obtain stk1 where stk1: "PushTransitionPointer h (of_nat tp) (no_minimization_counter s) ?stk0 = Some stk1"
            by (auto simp: PushTransitionPointer_def SetTransitionValue_def)
          note push = out_PushTransitionPointer [OF stk1]
          let ?stk2 = "stack_Erase (Suc h) stk1"
          have eq: "ConsumeStack fs c (Suc h) stk b = ConsumeStack fs c h ?stk2 b1"
            using True Some Inr x stk1 by (simp add: lift_b_def)
          have same: "map fst (outs i ?stk2) = map fst (outs i stk)" if "i \<noteq> Suc h" for i
            using push(1) [of i] that by (simp add: out_Erase stack_Get_put)
          have lower: "\<forall>i < h. outs i ?stk2 \<noteq> []"
          proof (intro allI impI)
            fix i assume i: "i < h"
            with same [of i] Suc.prems(2) show "outs i ?stk2 \<noteq> []" by (metis less_SucI list.map_disc_iff not_less_eq order.asym)
          qed
          have upper: "\<forall>i > h. outs i ?stk2 = []"
          proof (intro allI impI)
            fix i assume i: "h < i"
            with same [of i] Suc.prems(3) show "outs i ?stk2 = []"
              by (cases "i = Suc h") (auto simp: out_Erase)
          qed
          have le: "c \<le> h" using True by simp
          have IH: "(\<forall>e. ConsumeStack fs c h ?stk2 b1 = Some (Inl e) \<longrightarrow> (\<exists>be. e = Builder_Error be))
            \<and> (\<forall>h' stk' b'. ConsumeStack fs c h ?stk2 b1 = Some (Inr (h', stk', b')) \<longrightarrow>
               h' = c \<and> (\<forall>i \<le> c. map fst (outs i stk') = map fst (outs i ?stk2)) \<and> (\<forall>i > c. outs i stk' = []))"
            by (rule Suc.IH [OF le lower upper])
          have "map fst (outs i stk') = map fst (outs i stk)" if "map fst (outs i stk') = map fst (outs i ?stk2)" "i \<le> c" for i stk'
            using that same [of i] True by simp
          with IH show ?thesis unfolding eq by blast
        qed
      qed
    qed
  qed simp
  then show "ConsumeStack fs c h stk b = Some (Inl e) \<Longrightarrow> \<exists>be. e = Builder_Error be"
    "ConsumeStack fs c h stk b = Some (Inr (h', stk', b')) \<Longrightarrow>
      h' = c \<and> (\<forall>i \<le> c. map fst (outs i stk') = map fst (outs i stk)) \<and> (\<forall>i > c. outs i stk' = [])" by blast+
qed


section \<open>Keys in ascending order\<close>

lemma key_less_first_difference:
  assumes "key_less xs ys"
  shows "\<exists>n. n \<le> length xs \<and> n < length ys \<and> take n xs = take n ys \<and> (n = length xs \<or> n < length xs \<and> xs ! n < ys ! n)"
  using assms
proof (induction rule: lexordp.induct)
  case (Nil y ys)
  then show ?case by (intro exI [of _ 0]) simp
next
  case (Cons x y xs ys)
  then show ?case by (intro exI [of _ 0]) simp
next
  case (Cons_eq x y xs ys)
  then obtain n where "n \<le> length xs" "n < length ys" "take n xs = take n ys" "n = length xs \<or> n < length xs \<and> xs ! n < ys ! n" by blast
  moreover have "x = y" using Cons_eq.hyps by (metis linorder_neqE)
  ultimately show ?case by (intro exI [of _ "Suc n"]) auto
qed

lemma common_prefix_loop_at:
  assumes "n \<le> length xs" "n < length ys" "take n xs = take n ys" "n = length xs \<or> xs ! n \<noteq> ys ! n" "i \<le> n"
  shows "common_prefix_loop xs ys i = Some n"
  using assms(5)
proof (induction "n - i" arbitrary: i)
  case 0
  then have "i = n" by simp
  with assms show ?case by (subst common_prefix_loop.simps) (auto simp: string_at_def)
next
  case (Suc m)
  then have i: "i < n" by simp
  then have "xs ! i = ys ! i" using assms(3) by (metis nth_take)
  then have "common_prefix_loop xs ys i = common_prefix_loop xs ys (i + 1)"
    using i assms(1,2) by (subst common_prefix_loop.simps) (simp add: string_at_def)
  also have "\<dots> = Some n" using Suc i by (intro Suc.hyps) auto
  finally show ?case .
qed

lemma get_common_prefix_length_less:
  assumes "key_less xs ys"
  shows "\<exists>n. get_common_prefix_length xs ys = Some n \<and> n \<le> length xs \<and> n < length ys \<and> take n xs = take n ys
    \<and> (n = length xs \<or> n < length xs \<and> xs ! n < ys ! n)"
proof -
  from key_less_first_difference [OF assms] obtain n where n: "n \<le> length xs" "n < length ys" "take n xs = take n ys"
    "n = length xs \<or> n < length xs \<and> xs ! n < ys ! n" by blast
  then have "common_prefix_loop xs ys 0 = Some n" by (intro common_prefix_loop_at) auto
  with n show ?thesis by (auto simp: get_common_prefix_length_def)
qed

lemma canonical_fst: "map fst ts = map fst us \<Longrightarrow> canonical ts = canonical us"
proof -
  assume "map fst ts = map fst us"
  moreover have "map (\<lambda>(l, v). label_rank l) ts = map label_rank (map fst ts)" for ts :: "(nat \<times> u64) list" by (simp add: split_beta comp_def)
  ultimately show ?thesis by (simp only: canonical_def)
qed

lemma canonical_snoc:
  assumes "canonical ts" "ts = [] \<or> label_rank (fst (last ts)) < label_rank l"
  shows "canonical (ts @ [(l, v)])"
proof (cases "ts = []")
  case False
  have "label_rank (fst t) \<le> label_rank (fst (last ts))" if t: "t \<in> set ts" for t
  proof -
    from t obtain i where i: "i < length ts" "ts ! i = t" by (auto simp: in_set_conv_nth)
    have srt: "sorted_wrt (<) (map (\<lambda>(l, v). label_rank l) ts)" using assms(1) by (simp add: canonical_def)
    have "label_rank (fst (ts ! i)) \<le> label_rank (fst (ts ! (length ts - 1)))"
    proof (cases "i = length ts - 1")
      case False
      then have "i < length ts - 1" "length ts - 1 < length ts" using i(1) by simp_all
      with sorted_wrt_nth_less [OF srt, of i "length ts - 1"] i(1) show ?thesis by (simp add: split_beta less_imp_le)
    qed simp
    with i(2) False show ?thesis by (simp add: last_conv_nth)
  qed
  with assms False show ?thesis by (fastforce simp: canonical_def sorted_wrt_append)
qed (simp add: canonical_def)

section \<open>The invariant of the stack\<close>

text \<open>
  While feeding, every state on the path of the last key ends in the transition of the next byte of that
  key, the state of the key itself has only its final value, and all states above are empty.
\<close>

definition gstack_ok :: "u8 list \<Rightarrow> UnpackedStateStack \<Rightarrow> bool" where
  "gstack_ok key stk \<longleftrightarrow> (\<forall>i. canonical (outs i stk))
     \<and> (\<forall>i < length key. outs i stk \<noteq> [] \<and> fst (last (outs i stk)) = unat (key ! i))
     \<and> map fst (outs (length key) stk) = (if key = [] then [] else [256])
     \<and> (\<forall>i > length key. outs i stk = [])"

definition feeding_ok :: "'vs generator \<Rightarrow> bool" where
  "feeding_ok g \<longleftrightarrow> g_state g = FEEDING \<and> highest_stack g = length (last_key g) \<and> g_builder g \<noteq> None
     \<and> (\<exists>stk. g_stack g = Some stk \<and> gstack_ok (last_key g) stk)"

lemma feed_key_stack:
  assumes ok: "gstack_ok key stk" and n: "n \<le> length key" "n < length key'" "take n key = take n key'"
    "n = length key \<or> n < length key \<and> key ! n < key' ! n"
    and consumed: "\<forall>i \<le> n. map fst (outs i stk1) = map fst (outs i stk)" "\<forall>i > n. outs i stk1 = []"
  shows "gstack_ok key' (InsertFinalState (length key') v no_min (snd (FeedStack n key' h stk1)))"
    (is "gstack_ok key' ?stk")
proof -
  have out1: "outs i ?stk = (if i < n then outs i stk1 else if i < length key' then outs i stk1 @ [(unat (key' ! i), 0)]
      else if i = length key' then outs i stk1 @ [(256, v)] else outs i stk1)" for i
    using n(2) by (auto simp: out_InsertFinalState out_FeedStack)
  have fst_last: "fst (last (outs i stk1)) = fst (last (outs i stk))" "outs i stk1 \<noteq> []" if "i \<le> n" "outs i stk \<noteq> []" for i
    using consumed(1) that by (metis last_map list.map_disc_iff)+
  have can1: "canonical (outs i stk1)" for i
    using consumed ok canonical_fst [of "outs i stk1" "outs i stk"]
    by (cases "i \<le> n") (auto simp: gstack_ok_def canonical_def)
  have last_n: "outs n stk1 = [] \<or> label_rank (fst (last (outs n stk1))) < label_rank (unat (key' ! n))"
  proof (cases "n < length key")
    case True
    then have "outs n stk \<noteq> []" "fst (last (outs n stk)) = unat (key ! n)" using ok by (auto simp: gstack_ok_def)
    moreover have "unat (key ! n) < unat (key' ! n)" using n(4) True by (auto simp: word_less_nat_alt)
    moreover have "unat (key' ! n) \<noteq> 256" "unat (key ! n) \<noteq> 256"
      using unat_u8_less [of "key' ! n"] unat_u8_less [of "key ! n"] by linarith+
    ultimately have "label_rank (fst (last (outs n stk))) < label_rank (unat (key' ! n))"
      by (simp add: label_rank_def FINAL_OFFSET_TRANSITION_def)
    then show ?thesis using fst_last(1) [of n] \<open>outs n stk \<noteq> []\<close> by simp
  next
    case False
    then have "map fst (outs n stk1) \<in> {[], [256]}" using n(1) ok consumed(1) by (auto simp: gstack_ok_def)
    then have "outs n stk1 = [] \<or> fst (last (outs n stk1)) = 256" by (cases "outs n stk1" rule: rev_cases) auto
    moreover have "unat (key' ! n) \<noteq> 256" using unat_u8_less [of "key' ! n"] by linarith
    ultimately show ?thesis by (auto simp: label_rank_def FINAL_OFFSET_TRANSITION_def)
  qed
  have "canonical (outs i ?stk)" for i
  proof -
    consider "i < n" | "i = n" | "n < i" by linarith
    then show ?thesis
    proof cases
      case 2
      then show ?thesis using last_n can1 [of n] n(2) by (simp add: out1 canonical_snoc)
    next
      case 3
      then show ?thesis using consumed(2) by (simp add: out1 canonical_def)
    qed (simp add: out1 can1)
  qed
  moreover have "outs i ?stk \<noteq> [] \<and> fst (last (outs i ?stk)) = unat (key' ! i)" if "i < length key'" for i
  proof (cases "i < n")
    case True
    then have "key ! i = key' ! i" using n(3) by (metis nth_take)
    moreover have "outs i stk \<noteq> [] \<and> fst (last (outs i stk)) = unat (key ! i)" using ok True n(1) by (simp add: gstack_ok_def)
    ultimately show ?thesis using True fst_last [of i] by (simp add: out1)
  qed (simp add: out1 that)
  moreover have "map fst (outs (length key') ?stk) = (if key' = [] then [] else [256])" "\<forall>i > length key'. outs i ?stk = []"
    using n(2) consumed(2) by (auto simp: out1)
  ultimately show ?thesis by (simp add: gstack_ok_def)
qed


lemma gstack_ok_weights: "gstack_ok key (UpdateWeights i n w stk) = gstack_ok key stk"
  by (simp add: gstack_ok_def out_UpdateWeights)

lemma feed_key_ok:
  assumes ok: "feeding_ok g" and less: "key_less (last_key g) key"
    and n: "get_common_prefix_length (last_key g) key = Some n"
  shows "feed_key fs n key g = Some (Inl e) \<Longrightarrow> \<exists>be. e = Builder_Error be"
    and "feed_key fs n key g = Some (Inr g1) \<Longrightarrow> feeding_ok (finish_key key v no_min w (g1\<lparr>g_value_store := vs\<rparr>))
      \<and> number_of_keys_added g1 = number_of_keys_added g"
proof -
  from ok obtain stk b where g: "g_stack g = Some stk" "g_builder g = Some b" "gstack_ok (last_key g) stk"
    "highest_stack g = length (last_key g)" "g_state g = FEEDING" by (auto simp: feeding_ok_def)
  from get_common_prefix_length_less [OF less] n have n': "n \<le> length (last_key g)" "n < length key" "take n (last_key g) = take n key"
    "n = length (last_key g) \<or> n < length (last_key g) \<and> last_key g ! n < key ! n" by auto
  have st: "\<forall>i < length (last_key g). outs i stk \<noteq> []" "\<forall>i > length (last_key g). outs i stk = []"
    using g(3) by (auto simp: gstack_ok_def)
  note consume = ConsumeStack_stack [OF n'(1) st, where fs = fs and b = b]
  show "feed_key fs n key g = Some (Inl e) \<Longrightarrow> \<exists>be. e = Builder_Error be"
    using consume(1) g by (auto simp: feed_key_def bind_run_Inl split_beta Let_def)
  assume "feed_key fs n key g = Some (Inr g1)"
  then obtain h stk1 b1 where c: "ConsumeStack fs n (length (last_key g)) stk b = Some (Inr (h, stk1, b1))"
    and g1: "g1 = g\<lparr>g_stack := Some (snd (FeedStack n key h stk1)), g_builder := Some b1, highest_stack := fst (FeedStack n key h stk1)\<rparr>"
    using g by (auto simp: feed_key_def bind_run_Inr split_beta Let_def)
  from consume(2) [OF c] have h: "h = n" "\<forall>i \<le> n. map fst (outs i stk1) = map fst (outs i stk)" "\<forall>i > n. outs i stk1 = []" by auto
  have "gstack_ok key (InsertFinalState (length key) v no_min (snd (FeedStack n key h stk1)))"
    by (rule feed_key_stack [OF g(3) n' h(2,3)])
  moreover have "fst (FeedStack n key h stk1) = length key" using h(1) n'(2) by (simp add: FeedStack_def)
  ultimately show "feeding_ok (finish_key key v no_min w (g1\<lparr>g_value_store := vs\<rparr>)) \<and> number_of_keys_added g1 = number_of_keys_added g"
    by (simp add: feeding_ok_def finish_key_def g1 Let_def gstack_ok_weights)
qed

lemma Generator_Add_same:
  assumes "feeding_ok g"
  shows "Generator_Add fs ops (last_key g) v g = Some (Inr g)"
proof -
  have "get_common_prefix_length (last_key g) (last_key g) = Some (length (last_key g))"
  proof -
    have "common_prefix_loop xs xs i = Some (length xs)" if "i \<le> length xs" for xs i
      using that
    proof (induction "length xs - i" arbitrary: i)
      case 0
      then show ?case by (subst common_prefix_loop.simps) (simp add: string_at_def)
    next
      case (Suc m)
      then have "common_prefix_loop xs xs i = common_prefix_loop xs xs (i + 1)"
        by (subst common_prefix_loop.simps) (simp add: string_at_def)
      with Suc show ?case by simp
    qed
    then show ?thesis by (simp add: get_common_prefix_length_def)
  qed
  with assms show ?thesis by (simp add: Generator_Add_def feeding_ok_def)
qed

text \<open>Histories of a generator that is fed ascending keys, with the keys added so far.\<close>

inductive gen_run :: "('v, 'vs) value_store_ops \<Rightarrow> 'vs generator \<Rightarrow> u8 list list \<Rightarrow> bool" for ops where
  new: "Generator limit weights minimization vs = Inr g \<Longrightarrow> gen_run ops g []"
| add: "gen_run ops g keys \<Longrightarrow> key_less (last_key g) key \<Longrightarrow> Generator_Add fs ops key v g = Some (Inr g') \<Longrightarrow>
    gen_run ops g' (keys @ [key])"
| add_handle: "gen_run ops g keys \<Longrightarrow> key_less (last_key g) key \<Longrightarrow> Generator_Add_handle fs key handle g = Some (Inr g') \<Longrightarrow>
    gen_run ops g' (keys @ [key])"
| add_again: "gen_run ops g keys \<Longrightarrow> Generator_Add fs ops (last_key g) v g = Some (Inr g') \<Longrightarrow> gen_run ops g' keys"

lemma add_cases:
  assumes "feeding_ok g" "key_less (last_key g) key"
  obtains n where "get_common_prefix_length (last_key g) key = Some n"
    "Generator_Add fs ops key v g = bind_run (feed_key fs n key g) (\<lambda>g1.
      let ((idx, no_min), vs) = AddValue ops v (g_value_store g1)
      in Some (Inr (finish_key key idx no_min (GetWeightValue ops v) (g1\<lparr>g_value_store := vs\<rparr>))))"
proof -
  from get_common_prefix_length_less [OF assms(2)] obtain n where "get_common_prefix_length (last_key g) key = Some n" "n < length key" by blast
  then show thesis using assms(1) by (intro that) (simp_all add: Generator_Add_def feeding_ok_def)
qed

lemma add_handle_cases:
  assumes "feeding_ok g" "key_less (last_key g) key"
  obtains n where "get_common_prefix_length (last_key g) key = Some n"
    "Generator_Add_handle fs key handle g = bind_run (feed_key fs n key g) (\<lambda>g1.
      Some (Inr (finish_key key (value_idx handle) (no_minimization handle) (weight handle) g1)))"
proof -
  from get_common_prefix_length_less [OF assms(2)] obtain n where "get_common_prefix_length (last_key g) key = Some n" "n < length key" by blast
  then show thesis using assms(1) by (intro that) (simp_all add: Generator_Add_handle_def feeding_ok_def)
qed

lemma Generator_Add_error:
  assumes "feeding_ok g" "key_less (last_key g) key" "Generator_Add fs ops key v g = Some (Inl e)"
  shows "\<exists>be. e = Builder_Error be"
proof -
  obtain n where c: "get_common_prefix_length (last_key g) key = Some n"
    "Generator_Add fs ops key v g = bind_run (feed_key fs n key g) (\<lambda>g1.
      let ((idx, no_min), vs) = AddValue ops v (g_value_store g1)
      in Some (Inr (finish_key key idx no_min (GetWeightValue ops v) (g1\<lparr>g_value_store := vs\<rparr>))))"
    by (rule add_cases [OF assms(1,2)])
  from assms(3) [unfolded c(2) bind_run_Inl] have "feed_key fs n key g = Some (Inl e)" by (auto simp: split_beta)
  with feed_key_ok(1) [OF assms(1,2) c(1)] show ?thesis by blast
qed

lemma finish_key_fields [simp]:
  "number_of_keys_added (finish_key key v no_min w g) = number_of_keys_added g + 1" "last_key (finish_key key v no_min w g) = key"
  by (simp_all add: finish_key_def)

lemma gen_run_ok:
  "gen_run ops g keys \<Longrightarrow> feeding_ok g \<and> number_of_keys_added g = length keys \<and> last_key g = (if keys = [] then [] else last keys)"
proof (induction rule: gen_run.induct)
  case (new limit weights minimization vs g)
  then show ?case
    by (auto simp: Generator_def Let_def feeding_ok_def gstack_ok_def stack_Get_pool UnpackedStateStack_def UnpackedState_def
        canonical_def split: sum.splits)
next
  case (add g keys key fs v g')
  then have ok: "feeding_ok g" by blast
  obtain n where c: "get_common_prefix_length (last_key g) key = Some n"
    "Generator_Add fs ops key v g = bind_run (feed_key fs n key g) (\<lambda>g1.
      let ((idx, no_min), vs) = AddValue ops v (g_value_store g1)
      in Some (Inr (finish_key key idx no_min (GetWeightValue ops v) (g1\<lparr>g_value_store := vs\<rparr>))))"
    by (rule add_cases [OF ok add.hyps(2)])
  from c(1) add.hyps(3) [unfolded c(2) bind_run_Inr] obtain g1 idx no_min vs where
    n: "get_common_prefix_length (last_key g) key = Some n" "feed_key fs n key g = Some (Inr g1)"
    "g' = finish_key key idx no_min (GetWeightValue ops v) (g1\<lparr>g_value_store := vs\<rparr>)"
    by (auto simp: split_beta)
  from feed_key_ok(2) [OF ok add.hyps(2) n(1,2)] n(3) add.IH show ?case by auto
next
  case (add_handle g keys key fs handle g')
  then have ok: "feeding_ok g" by blast
  obtain n where c: "get_common_prefix_length (last_key g) key = Some n"
    "Generator_Add_handle fs key handle g = bind_run (feed_key fs n key g) (\<lambda>g1.
      Some (Inr (finish_key key (value_idx handle) (no_minimization handle) (weight handle) g1)))"
    by (rule add_handle_cases [OF ok add_handle.hyps(2)])
  from c(1) add_handle.hyps(3) [unfolded c(2) bind_run_Inr] obtain g1 where
    n: "get_common_prefix_length (last_key g) key = Some n" "feed_key fs n key g = Some (Inr g1)"
    "g' = finish_key key (value_idx handle) (no_minimization handle) (weight handle) g1" by auto
  from feed_key_ok(2) [OF ok add_handle.hyps(2) n(1,2), where vs = "g_value_store g1"] n(3) add_handle.IH show ?case by auto
next
  case (add_again g keys fs v g')
  then show ?case using Generator_Add_same [of g fs ops v] by auto
qed

lemma CloseFeeding_Inr:
  assumes "CloseFeeding fs g = Some (Inr g')"
  obtains offset b p where "close_states fs g = Some (Inr (offset, b))"
    "g' = g\<lparr>start_state := offset, g_stack := None, g_number_of_states := number_of_states b, g_builder := None,
             g_persistence := p, g_state := COMPILED\<rparr>"
proof -
  from assms obtain offset b where c: "close_states fs g = Some (Inr (offset, b))"
    "Some (case SAP_Flush fs (b_persistence b) of
             Inl e \<Rightarrow> Inl (Builder_Error (Persistence_Error e))
           | Inr p \<Rightarrow> Inr (g\<lparr>start_state := offset, g_stack := None, g_number_of_states := number_of_states b,
               g_builder := None, g_persistence := p, g_state := COMPILED\<rparr>)) = Some (Inr g')"
    by (auto simp: CloseFeeding_def bind_run_Inr split: if_split_asm)
  then show thesis using that by (cases "SAP_Flush fs (b_persistence b)") auto
qed

section \<open>An example\<close>

definition example_ops :: "(u64, unit) value_store_ops" where
  "example_ops = \<lparr>AddValue = (\<lambda>v vs. ((v, False), vs)), GetWeightValue = (\<lambda>v. 0)\<rparr>"

lemma example_generator:
  obtains g where "Generator 400000 False True () = Inr g" "gen_run example_ops g []" "last_key g = []" "g_value_store g = ()"
    "\<exists>g'. CloseFeeding no_failure g = Some (Inr g')"
    "\<exists>g'. Generator_Add no_failure example_ops [97] 5 g = Some (Inr g')"
proof -
  let ?p = "SparseArrayPersistence (400000 - 200000)"
  have "\<not> memory_of (hash_size_step_table ! hash_min_size_step) 3 > 200000"
    by (simp add: memory_of_def hash_size_step_table_def hash_min_size_step_def sizeof_PackedState_def)
  then obtain c where "FindMemoryLimitConfigurationForLRUCache 200000 3 6 = Inr c"
    by (simp add: FindMemoryLimitConfigurationForLRUCache_def Let_def)
  then obtain b where b: "SparseArrayBuilder 200000 ?p False True = Inr b" "b_persistence b = ?p"
    by (auto simp: SparseArrayBuilder_def LRU_with_limit_def)
  have m: "memory_limit_minimization 400000 = 200000" by (simp add: memory_limit_minimization_def)
  obtain g where g: "Generator 400000 False True () = Inr g" "g_state g = FEEDING" "last_key g = []" "highest_stack g = 0"
    "g_stack g = Some (UnpackedStateStack 30)" "g_builder g = Some b" "number_of_keys_added g = 0"
    using b by (simp add: Generator_def m Let_def)
  have run: "gen_run example_ops g []" using g(1) by (rule gen_run.new)
  have sap: "sap_run ?p (\<lambda>i. if i < 2 then 42 else 0) (\<lambda>i. 0)" by (rule sap_run.initial) simp_all
  then have p: "sap_invar ?p" "sap_sized ?p" using sap_run_invar by blast+
  then have "in_memory_buffer_offset ?p \<le> SAP_GetSize ?p" "SAP_GetSize ?p \<le> in_memory_buffer_offset ?p + buffer_size ?p"
    by (auto simp: sap_sized_def SAP_GetSize_def format_constants)
  from Flush_Write_out [OF p(1) this] obtain p' where p': "SAP_Flush no_failure ?p = Inr p'" by blast
  have close: "\<exists>g'. CloseFeeding no_failure g = Some (Inr g')"
    using g b(2) p' by (simp add: CloseFeeding_def close_states_def)
  have "get_common_prefix_length [] [97] = Some 0"
    by (simp add: get_common_prefix_length_def common_prefix_loop.simps string_at_def)
  then have "\<exists>g'. Generator_Add no_failure example_ops [97] 5 g = Some (Inr g')"
    using g by (simp add: Generator_Add_def feed_key_def FeedStack_def example_ops_def)
  with close show thesis by (intro that [OF g(1) run g(3)]) auto
qed

section \<open>Properties\<close>

text \<open>
  C31: the stack discipline.  Whatever ascending keys were fed, with or without repetitions, every state on
  the stack lists its final value and its transitions in the canonical order, the states along the last key
  end in the transition of its next byte, the states above are empty, and every distinct key was counted.
\<close>

theorem generator_stack_discipline:
  assumes "gen_run ops g keys"
  shows "\<exists>stk. g_stack g = Some stk \<and> (\<forall>i. canonical (outs i stk))
    \<and> (\<forall>i < length (last_key g). outs i stk \<noteq> [] \<and> fst (last (outs i stk)) = unat (last_key g ! i))
    \<and> (\<forall>i > length (last_key g). outs i stk = [])
    \<and> highest_stack g = length (last_key g) \<and> number_of_keys_added g = length keys"
  using gen_run_ok [OF assms] unfolding feeding_ok_def gstack_ok_def by blast

theorem generator_stack_discipline_witness:
  "\<exists>g g' stk. Generator 400000 False True () = Inr g \<and> Generator_Add no_failure example_ops [97] 5 g = Some (Inr g')
    \<and> g_stack g' = Some stk \<and> fst (last (outs 0 stk)) = 97 \<and> number_of_keys_added g' = 1"
proof (rule example_generator)
  fix g assume g: "Generator 400000 False True () = Inr g" "gen_run example_ops g []" "last_key g = []"
    "\<exists>g'. Generator_Add no_failure example_ops [97] 5 g = Some (Inr g')"
  then obtain g' where g': "Generator_Add no_failure example_ops [97] 5 g = Some (Inr g')" by blast
  have run: "gen_run example_ops g' ([] @ [[97]])" by (rule gen_run.add [OF g(2) _ g']) (simp add: g(3))
  then have "last_key g' = [97]" using gen_run_ok by fastforce
  with generator_stack_discipline [OF run] g(1) g' show ?thesis by auto
qed



end
