(* ===== verification/Index_Compiler.thy ===== *)
theory Index_Compiler
  imports Merger
begin

text \<open>
  The compiler of the index, \<open>dictionary/dictionary_index_compiler.h\<close>: it collects operations on keys,
  additions and deletions, and compiles the last operation of every key into a dictionary.

  A value handle names a value of the value store by its offset; the model keeps the value itself.  The
  generator receives the keys in ascending order and ignores the empty key, which it takes for a
  repetition of its initial last key (\<open>Generator_Add\<close>); \<open>ic_generator\<close> holds the entries it was given.
  The estimate of the memory, which nothing reads, is left out.
\<close>

type_synonym dict = "(u8 list \<times> string) list"

record key_value =
  kv_key :: "u8 list"
  kv_value :: string
  kv_deleted :: bool

datatype compiler_error = compiler_exception string

record index_compiler =
  ic_key_values :: "key_value list"
  ic_generator :: "dict option"
  ic_size_of_keys :: nat
  ic_parallel_sort_threshold :: int
  ic_manifest :: string

definition DictionaryIndexCompiler :: "int \<Rightarrow> index_compiler" where
  "DictionaryIndexCompiler threshold =
     \<lparr>ic_key_values = [], ic_generator = None, ic_size_of_keys = 0,
      ic_parallel_sort_threshold = threshold, ic_manifest = ''''\<rparr>"

definition key_value_less :: "key_value \<Rightarrow> key_value \<Rightarrow> bool" where
  "key_value_less a b \<longleftrightarrow> key_less (kv_key a) (kv_key b)"

definition ic_Add :: "u8 list \<Rightarrow> string \<Rightarrow> index_compiler \<Rightarrow> compiler_error + index_compiler" where
  "ic_Add key v c =
     (if ic_generator c \<noteq> None
      then Inl (compiler_exception ''You're not supposed to add more data once compilation is done!'')
      else Inr (c\<lparr>ic_size_of_keys := ic_size_of_keys c + length key,
                  ic_key_values := ic_key_values c @ [\<lparr>kv_key = key, kv_value = v, kv_deleted = False\<rparr>]\<rparr>))"

definition ic_Delete :: "u8 list \<Rightarrow> index_compiler \<Rightarrow> index_compiler" where
  "ic_Delete key c =
     c\<lparr>ic_key_values := ic_key_values c @ [\<lparr>kv_key = key, kv_value = '''', kv_deleted = True\<rparr>]\<rparr>"

text \<open>Both sorting functions are stable.\<close>

definition ic_Sort :: "index_compiler \<Rightarrow> index_compiler" where
  "ic_Sort c = c\<lparr>ic_key_values := stable_sort key_value_less (ic_key_values c)\<rparr>"

text \<open>The generator skips a key that equals its last key, initially the empty one.\<close>

definition give_to_generator :: "key_value \<Rightarrow> dict \<Rightarrow> dict" where
  "give_to_generator kv g =
     (if kv_key kv = (if g = [] then [] else fst (last g)) then g else g @ [(kv_key kv, kv_value kv)])"

fun compile_loop :: "key_value \<Rightarrow> key_value list \<Rightarrow> dict \<Rightarrow> dict" where
  "compile_loop last_kv [] g = (if \<not> kv_deleted last_kv then give_to_generator last_kv g else g)"
| "compile_loop last_kv (kv # kvs) g =
     (if kv_key last_kv = kv_key kv then compile_loop kv kvs g
      else compile_loop kv kvs (if \<not> kv_deleted last_kv then give_to_generator last_kv g else g))"

definition ic_Compile :: "index_compiler \<Rightarrow> index_compiler" where
  "ic_Compile c =
     (if ic_generator c \<noteq> None then c
      else (case ic_key_values (ic_Sort c) of
          [] \<Rightarrow> (ic_Sort c)\<lparr>ic_generator := Some []\<rparr>
        | kv # kvs \<Rightarrow> (ic_Sort c)\<lparr>ic_generator := Some (compile_loop kv kvs []), ic_key_values := []\<rparr>))"

definition ic_SetManifest :: "string \<Rightarrow> index_compiler \<Rightarrow> index_compiler" where
  "ic_SetManifest man c = c\<lparr>ic_manifest := man\<rparr>"

definition ic_Write :: "index_compiler \<Rightarrow> compiler_error + dict" where
  "ic_Write c = (case ic_generator c of None \<Rightarrow> Inl (compiler_exception ''not compiled yet'') | Some g \<Rightarrow> Inr g)"

section \<open>Sorting is stable\<close>

text \<open>What the sort relies on: the order compares keys, and elements with equal keys keep their order.\<close>

lemma sorted_stable_insert_key:
  "sorted_wrt (\<lambda>a b. \<not> key_value_less b a) xs \<Longrightarrow>
   sorted_wrt (\<lambda>a b. \<not> key_value_less b a) (stable_insert key_value_less x xs)"
proof (induction xs)
  case (Cons y xs)
  show ?case
  proof (cases "key_value_less y x")
    case True
    then have "\<not> key_value_less x y" by (auto simp: key_value_less_def dest: key_less_trans)
    with Cons True show ?thesis by auto
  next
    case False
    moreover have "\<not> key_value_less z x" if "z \<in> set xs" for z
      using Cons.prems False that key_less_linear [of "kv_key y" "kv_key z"]
      by (auto simp: key_value_less_def dest: key_less_trans)
    ultimately show ?thesis using Cons.prems by auto
  qed
qed simp

lemma sorted_stable_sort_key: "sorted_wrt (\<lambda>a b. \<not> key_value_less b a) (stable_sort key_value_less xs)"
  unfolding stable_sort_def by (induction xs) (simp_all add: sorted_stable_insert_key)

lemma filter_stable_insert_key:
  "filter (\<lambda>t. kv_key t = k) (stable_insert key_value_less x xs) = filter (\<lambda>t. kv_key t = k) (x # xs)"
  by (induction xs) (auto simp: key_value_less_def)

lemma filter_stable_sort_key:
  "filter (\<lambda>t. kv_key t = k) (stable_sort key_value_less xs) = filter (\<lambda>t. kv_key t = k) xs"
  unfolding stable_sort_def by (induction xs) (simp_all add: filter_stable_insert_key)

section \<open>The last operation of a key wins\<close>

text \<open>The abstract specification: operations on keys change a map.\<close>

definition apply_kv :: "key_value \<Rightarrow> (u8 list \<Rightarrow> string option) \<Rightarrow> u8 list \<Rightarrow> string option" where
  "apply_kv kv m = m(kv_key kv := (if kv_deleted kv then None else Some (kv_value kv)))"

definition last_operation :: "key_value list \<Rightarrow> u8 list \<Rightarrow> key_value option" where
  "last_operation kvs k = (let ops = filter (\<lambda>t. kv_key t = k) kvs in if ops = [] then None else Some (last ops))"

lemma last_operation_Nil [simp]: "last_operation [] k = None"
  by (simp add: last_operation_def)

lemma last_operation_snoc [simp]:
  "last_operation (kvs @ [kv]) k = (if kv_key kv = k then Some kv else last_operation kvs k)"
  by (simp add: last_operation_def)

lemma fold_apply_kv:
  "fold apply_kv kvs m k =
     (case last_operation kvs k of None \<Rightarrow> m k | Some kv \<Rightarrow> if kv_deleted kv then None else Some (kv_value kv))"
  by (induction kvs rule: rev_induct) (auto simp: apply_kv_def)

lemma last_operation_sort [simp]: "last_operation (stable_sort key_value_less kvs) = last_operation kvs"
  by (simp add: last_operation_def fun_eq_iff filter_stable_sort_key)

text \<open>The entries given so far are below the key at hand.\<close>

lemma give_to_generator_above:
  assumes "\<forall>x \<in> set g. key_less (fst x) (kv_key kv)"
  shows "give_to_generator kv g = (if kv_key kv = [] then g else g @ [(kv_key kv, kv_value kv)])"
proof (cases "g = []")
  case False
  then have "key_less (fst (last g)) (kv_key kv)" using assms by simp
  with False show ?thesis by (auto simp: give_to_generator_def)
qed (simp add: give_to_generator_def)

lemma compile_loop_entries:
  assumes "sorted_wrt (\<lambda>a b. \<not> key_value_less b a) (kv # kvs)"
    and "sorted_wrt key_less (map fst g)" "\<forall>x \<in> set g. key_less (fst x) (kv_key kv)" "[] \<notin> fst ` set g"
  shows "sorted_wrt key_less (map fst (compile_loop kv kvs g)) \<and> [] \<notin> fst ` set (compile_loop kv kvs g)
    \<and> (\<forall>k v. (k, v) \<in> set (compile_loop kv kvs g) \<longleftrightarrow>
        (k, v) \<in> set g \<or> k \<noteq> [] \<and> (\<exists>op. last_operation (kv # kvs) k = Some op \<and> \<not> kv_deleted op \<and> kv_value op = v))"
  using assms
proof (induction kvs arbitrary: kv g)
  case Nil
  then show ?case by (auto simp: give_to_generator_above last_operation_def sorted_wrt_append split: if_splits)
next
  case (Cons kv' kvs)
  show ?case
  proof (cases "kv_key kv = kv_key kv'")
    case True
    then have "last_operation (kv # kv' # kvs) = last_operation (kv' # kvs)"
      by (auto simp: last_operation_def fun_eq_iff Let_def)
    with True Cons.IH [of kv' g] Cons.prems show ?thesis by simp
  next
    case False
    let ?g = "if \<not> kv_deleted kv then give_to_generator kv g else g"
    have less: "key_less (kv_key kv) (kv_key kv')"
      using Cons.prems(1) False key_less_linear [of "kv_key kv" "kv_key kv'"] by (auto simp: key_value_less_def)
    have above: "\<not> key_less (kv_key x) (kv_key kv')" if "x \<in> set kvs" for x
      using Cons.prems(1) that by (auto simp: key_value_less_def)
    have give: "give_to_generator kv g = (if kv_key kv = [] then g else g @ [(kv_key kv, kv_value kv)])"
      by (rule give_to_generator_above [OF Cons.prems(3)])
    have only: "filter (\<lambda>t. kv_key t = kv_key kv) (kv' # kvs) = []"
    proof -
      have "kv_key x \<noteq> kv_key kv" if "x \<in> set kvs" for x using above [OF that] less by auto
      then show ?thesis using False by (auto simp: filter_empty_conv)
    qed
    have split: "last_operation (kv # kv' # kvs) k = (if k = kv_key kv then Some kv else last_operation (kv' # kvs) k)" for k
      using only by (auto simp: last_operation_def Let_def)
    have none: "last_operation (kv' # kvs) (kv_key kv) = None"
      using only by (simp add: last_operation_def)
    have "sorted_wrt key_less (map fst ?g)" using Cons.prems by (auto simp: give sorted_wrt_append)
    moreover have "\<forall>x \<in> set ?g. key_less (fst x) (kv_key kv')"
      using Cons.prems(3) less by (auto simp: give dest: key_less_trans)
    moreover have "[] \<notin> fst ` set ?g" using Cons.prems(4) by (auto simp: give split: if_splits)
    ultimately have "sorted_wrt key_less (map fst (compile_loop kv' kvs ?g)) \<and> [] \<notin> fst ` set (compile_loop kv' kvs ?g)
      \<and> (\<forall>k v. (k, v) \<in> set (compile_loop kv' kvs ?g) \<longleftrightarrow> (k, v) \<in> set ?g \<or>
          k \<noteq> [] \<and> (\<exists>op. last_operation (kv' # kvs) k = Some op \<and> \<not> kv_deleted op \<and> kv_value op = v))"
      using Cons.prems(1) by (intro Cons.IH) simp_all
    then show ?thesis using False none by (auto simp: split give)
  qed
qed

lemma map_of_unique:
  assumes "distinct (map fst d)" "\<And>v. (k, v) \<in> set d \<longleftrightarrow> r = Some v"
  shows "map_of d k = r"
proof (cases r)
  case None
  then show ?thesis using assms(2) by (force simp: map_of_eq_None_iff)
next
  case (Some v)
  then show ?thesis using assms by (simp add: map_of_is_SomeI)
qed

lemma sorted_keys_distinct: "sorted_wrt key_less ks \<Longrightarrow> distinct (ks :: u8 list list)"
  by (induction ks) auto

text \<open>
  What the index relies on: compiling yields the keys whose last operation is an addition, with the value
  added last, in ascending order; the empty key is dropped.
\<close>

lemma ic_Compile_dict:
  assumes "ic_generator c = None"
  obtains d where "ic_generator (ic_Compile c) = Some d" "sorted_wrt key_less (map fst d)"
    "map_of d = (fold apply_kv (ic_key_values c) (\<lambda>_. None))([] := None)"
proof (cases "stable_sort key_value_less (ic_key_values c)")
  case Nil
  have "last_operation (ic_key_values c) = (\<lambda>_. None)"
    using last_operation_sort [of "ic_key_values c"] Nil by (simp add: fun_eq_iff)
  then have f: "fold apply_kv (ic_key_values c) (\<lambda>_. None) k = None" for k by (simp add: fold_apply_kv)
  show ?thesis
    by (rule that [of "[]"]) (simp_all add: ic_Compile_def assms ic_Sort_def Nil f fun_eq_iff)
next
  case (Cons kv kvs)
  let ?d = "compile_loop kv kvs []"
  have sorted: "sorted_wrt (\<lambda>a b. \<not> key_value_less b a) (kv # kvs)"
    using sorted_stable_sort_key [of "ic_key_values c"] Cons by simp
  have last: "last_operation (kv # kvs) = last_operation (ic_key_values c)"
    using last_operation_sort [of "ic_key_values c"] Cons by simp
  have entries: "sorted_wrt key_less (map fst ?d)" "[] \<notin> fst ` set ?d"
    "(k, v) \<in> set ?d \<longleftrightarrow> k \<noteq> [] \<and> (\<exists>op. last_operation (ic_key_values c) k = Some op \<and> \<not> kv_deleted op \<and> kv_value op = v)" for k v
    using compile_loop_entries [OF sorted, of "[]"] by (simp_all add: last)
  have "map_of ?d = (fold apply_kv (ic_key_values c) (\<lambda>_. None))([] := None)"
  proof (rule ext, rule map_of_unique)
    show "distinct (map fst ?d)" by (rule sorted_keys_distinct [OF entries(1)])
    show "(k, v) \<in> set ?d \<longleftrightarrow> ((fold apply_kv (ic_key_values c) (\<lambda>_. None))([] := None)) k = Some v" for k v
      by (auto simp: entries fold_apply_kv split: option.split)
  qed
  then show ?thesis
    using entries by (intro that [of ?d]) (simp_all add: ic_Compile_def assms ic_Sort_def Cons)
qed

text \<open>A sequence of operations: a key with a value is added, a key without is deleted.\<close>

fun ic_run :: "(u8 list \<times> string option) list \<Rightarrow> index_compiler \<Rightarrow> compiler_error + index_compiler" where
  "ic_run [] c = Inr c"
| "ic_run ((k, Some v) # ops) c = bind_sum (ic_Add k v c) (ic_run ops)"
| "ic_run ((k, None) # ops) c = ic_run ops (ic_Delete k c)"

text \<open>The abstract specification of the index: a map from keys to values.\<close>

primrec replay :: "(u8 list \<times> string option) list \<Rightarrow> (u8 list \<Rightarrow> string option) \<Rightarrow> u8 list \<Rightarrow> string option" where
  "replay [] m = m"
| "replay (kr # ops) m = replay ops (m(fst kr := snd kr))"

lemma replay_append [simp]: "replay (ops @ ops') m = replay ops' (replay ops m)"
  by (induction ops arbitrary: m) simp_all

lemma apply_kv_record:
  "apply_kv \<lparr>kv_key = k, kv_value = v, kv_deleted = del\<rparr> m = m(k := (if del then None else Some v))"
  by (simp add: apply_kv_def)

lemma ic_run_replay:
  assumes "ic_generator c = None"
  shows "\<exists>c'. ic_run ops c = Inr c' \<and> ic_generator c' = None
    \<and> fold apply_kv (ic_key_values c') m = replay ops (fold apply_kv (ic_key_values c) m)"
  using assms
proof (induction ops c rule: ic_run.induct)
  case (2 k v ops c)
  let ?c = "c\<lparr>ic_size_of_keys := ic_size_of_keys c + length k,
     ic_key_values := ic_key_values c @ [\<lparr>kv_key = k, kv_value = v, kv_deleted = False\<rparr>]\<rparr>"
  have "ic_Add k v c = Inr ?c" using "2.prems" by (simp add: ic_Add_def)
  moreover from "2.prems" have "\<exists>c'. ic_run ops ?c = Inr c' \<and> ic_generator c' = None
      \<and> fold apply_kv (ic_key_values c') m = replay ops (fold apply_kv (ic_key_values ?c) m)"
    using "2.IH" [of ?c] calculation by simp
  ultimately show ?case by (simp add: apply_kv_record)
next
  case (3 k ops c)
  then show ?case by (simp add: ic_Delete_def apply_kv_record fun_upd_def)
qed simp

text \<open>
  C20: whatever additions and deletions the compiler of the index is given, in whatever order, it compiles
  them into a dictionary with ascending keys that holds for every key the value of the last operation on
  it, if that was an addition, and lacks the key otherwise; only the empty key is always missing.
\<close>

theorem index_compiler_last_operation_wins:
  "\<exists>c d. ic_run ops (DictionaryIndexCompiler t) = Inr c \<and> ic_Write (ic_Compile c) = Inr d
     \<and> sorted_wrt key_less (map fst d) \<and> map_of d = (replay ops Map.empty)([] := None)"
proof -
  obtain c where c: "ic_run ops (DictionaryIndexCompiler t) = Inr c" "ic_generator c = None"
    "fold apply_kv (ic_key_values c) Map.empty = replay ops Map.empty"
    using ic_run_replay [of "DictionaryIndexCompiler t" ops Map.empty] by (auto simp: DictionaryIndexCompiler_def)
  obtain d where "ic_generator (ic_Compile c) = Some d" "sorted_wrt key_less (map fst d)"
    "map_of d = (fold apply_kv (ic_key_values c) Map.empty)([] := None)"
    by (rule ic_Compile_dict [OF c(2)])
  with c show ?thesis by (auto simp: ic_Write_def)
qed

end
