(* ===== verification/Index_Segment.thy ===== *)
theory Index_Segment
  imports Index_Compiler
begin

text \<open>
  The segments of an index: \<open>index/internal/read_only_segment.h\<close> and \<open>index/internal/segment.h\<close>.  A segment
  is a dictionary file with up to two files of deleted keys beside it, \<open>.dk\<close> and, for the deletions during a
  merge, \<open>.dkm\<close>.

  The file system is a record of maps from the name of the dictionary file.  A set of deleted keys is a
  list without repetitions.  The modification times in a segment are never updated and stay 0, so that a
  file of deleted keys counts as changed whenever it exists.  A weak pointer is the object it points to,
  while that is alive; the argument \<open>held\<close> says whether a client still holds the set of deleted keys it
  was given (the match iterators of the matchers do).
\<close>

type_synonym filename = string
type_synonym deleted_t = "u8 list list"

record index_files =
  dictionary_files :: "filename \<Rightarrow> dict option"
  dk_files :: "filename \<Rightarrow> deleted_t option"
  dkm_files :: "filename \<Rightarrow> deleted_t option"
  toc_file :: "filename list option"

datatype index_error = File_Missing filename | Compiler_Failed compiler_error | Merge_Policy_Unknown string
  | Invalid_TOC | Order_Of_Segments

section \<open>Read-only segments\<close>

record ReadOnlySegment =
  dictionary_path :: filename
  dictionary :: "dict option"
  has_deleted_keys :: bool
  seg_deleted_keys :: "deleted_t option"
  deleted_keys_weak :: "deleted_t option"

definition LoadAndUnserializeDeletedKeys :: "deleted_t option \<Rightarrow> deleted_t" where
  "LoadAndUnserializeDeletedKeys file = (case file of None \<Rightarrow> [] | Some d \<Rightarrow> d)"

definition LoadDictionary ::
  "index_files \<Rightarrow> 'a ReadOnlySegment_scheme \<Rightarrow> index_error + 'a ReadOnlySegment_scheme" where
  "LoadDictionary f s =
     (case dictionary_files f (dictionary_path s) of
       None \<Rightarrow> Inl (File_Missing (dictionary_path s))
     | Some d \<Rightarrow> Inr (s\<lparr>dictionary := Some d\<rparr>))"

definition LoadDeletedKeys :: "bool \<Rightarrow> index_files \<Rightarrow> 'a ReadOnlySegment_scheme \<Rightarrow> 'a ReadOnlySegment_scheme" where
  "LoadDeletedKeys held f s =
     (let p = dictionary_path s
      in if dk_files f p \<noteq> None \<or> dkm_files f p \<noteq> None
         then s\<lparr>seg_deleted_keys := Some (List.union (LoadAndUnserializeDeletedKeys (dkm_files f p))
                                               (LoadAndUnserializeDeletedKeys (dk_files f p))),
                deleted_keys_weak := (if held then deleted_keys_weak s else None),
                has_deleted_keys := True\<rparr>
         else s)"

text \<open>The constructor for derived classes and the public one.\<close>

definition ReadOnlySegment_base :: "filename \<Rightarrow> ReadOnlySegment" where
  "ReadOnlySegment_base p =
     \<lparr>dictionary_path = p, dictionary = None, has_deleted_keys = False, seg_deleted_keys = None,
      deleted_keys_weak = None\<rparr>"

definition ReadOnlySegment_protected :: "index_files \<Rightarrow> filename \<Rightarrow> bool \<Rightarrow> bool \<Rightarrow> index_error + ReadOnlySegment" where
  "ReadOnlySegment_protected f p load_dictionary load_deleted_keys =
     (if dictionary_files f p = None then Inl (File_Missing p)
      else bind_sum (if load_dictionary then LoadDictionary f (ReadOnlySegment_base p)
                     else Inr (ReadOnlySegment_base p)) (\<lambda>s.
           Inr (if load_deleted_keys then LoadDeletedKeys False f s else s)))"

definition ReadOnlySegment_new :: "index_files \<Rightarrow> filename \<Rightarrow> index_error + ReadOnlySegment" where
  "ReadOnlySegment_new f p = ReadOnlySegment_protected f p True True"

definition DeletedKeysSize :: "'a ReadOnlySegment_scheme \<Rightarrow> nat" where
  "DeletedKeysSize s = (if has_deleted_keys s then length (the (seg_deleted_keys s)) else 0)"

definition DeletedKeys :: "'a ReadOnlySegment_scheme \<Rightarrow> deleted_t option \<times> 'a ReadOnlySegment_scheme" where
  "DeletedKeys s =
     (if \<not> has_deleted_keys s then (None, s)
      else (case deleted_keys_weak s of
              Some d \<Rightarrow> (Some d, s)
            | None \<Rightarrow> (seg_deleted_keys s, s\<lparr>deleted_keys_weak := seg_deleted_keys s\<rparr>)))"

definition IsDeleted :: "u8 list \<Rightarrow> 'a ReadOnlySegment_scheme \<Rightarrow> bool \<times> 'a ReadOnlySegment_scheme" where
  "IsDeleted k s =
     (if has_deleted_keys s then (let (d, s') = DeletedKeys s in (k \<in> set (the d), s')) else (False, s))"

abbreviation ReloadDeletedKeys :: "bool \<Rightarrow> index_files \<Rightarrow> 'a ReadOnlySegment_scheme \<Rightarrow> 'a ReadOnlySegment_scheme" where
  "ReloadDeletedKeys \<equiv> LoadDeletedKeys"

section \<open>Segments of the writer\<close>

record Segment = ReadOnlySegment +
  deleted_keys_for_write :: deleted_t
  deleted_keys_during_merge_for_write :: deleted_t
  dictionary_loaded :: bool
  deletes_loaded :: bool
  in_merge :: bool
  new_delete :: bool

definition Segment_of :: "ReadOnlySegment \<Rightarrow> bool \<Rightarrow> Segment" where
  "Segment_of s no_deletes =
     ReadOnlySegment.extend s \<lparr>deleted_keys_for_write = [], deleted_keys_during_merge_for_write = [],
       dictionary_loaded = False, deletes_loaded = no_deletes, in_merge = False, new_delete = False\<rparr>"

definition Segment_new :: "index_files \<Rightarrow> filename \<Rightarrow> bool \<Rightarrow> index_error + Segment" where
  "Segment_new f p no_deletes =
     bind_sum (ReadOnlySegment_protected f p False (\<not> no_deletes)) (\<lambda>s. Inr (Segment_of s no_deletes))"

definition Seg_Persist :: "index_files \<Rightarrow> Segment \<Rightarrow> bool \<times> index_files" where
  "Seg_Persist f s =
     (if \<not> new_delete s then (False, f)
      else if in_merge s
      then (True, f\<lparr>dkm_files := (dkm_files f)(dictionary_path s \<mapsto> deleted_keys_during_merge_for_write s)\<rparr>)
      else (True, f\<lparr>dk_files := (dk_files f)(dictionary_path s \<mapsto> deleted_keys_for_write s)\<rparr>))"

text \<open>The segment a merge has produced takes over the deletions its parents saw during the merge.\<close>

definition Segment_merged :: "index_files \<Rightarrow> filename \<Rightarrow> Segment list \<Rightarrow> index_error + index_files \<times> Segment" where
  "Segment_merged f p parents =
     bind_sum (ReadOnlySegment_protected f p False False) (\<lambda>b.
       let s = (Segment_of b True)
                 \<lparr>deleted_keys_for_write := fold (\<lambda>par d. List.union (deleted_keys_during_merge_for_write par) d) parents []\<rparr>
       in if deleted_keys_for_write s \<noteq> []
          then Inr (snd (Seg_Persist f (s\<lparr>new_delete := True\<rparr>)), s\<lparr>new_delete := True\<rparr>)
          else Inr (f, s))"

definition LazyLoadDictionary :: "index_files \<Rightarrow> Segment \<Rightarrow> index_error + Segment" where
  "LazyLoadDictionary f s =
     (if dictionary_loaded s then Inr s
      else bind_sum (LoadDictionary f s) (\<lambda>s'. Inr (s'\<lparr>dictionary_loaded := True\<rparr>)))"

definition GetDictionary :: "index_files \<Rightarrow> Segment \<Rightarrow> index_error + dict \<times> Segment" where
  "GetDictionary f s = bind_sum (LazyLoadDictionary f s) (\<lambda>s'. Inr (the (dictionary s'), s'))"

definition LazyLoadDeletedKeys :: "bool \<Rightarrow> index_files \<Rightarrow> Segment \<Rightarrow> Segment" where
  "LazyLoadDeletedKeys held f s =
     (if deletes_loaded s then s
      else (let s1 = LoadDeletedKeys held f s;
                s2 = (if has_deleted_keys s1
                      then (if in_merge s1
                            then s1\<lparr>deleted_keys_during_merge_for_write :=
                                   List.union (the (seg_deleted_keys s1)) (deleted_keys_during_merge_for_write s1)\<rparr>
                            else s1\<lparr>deleted_keys_for_write :=
                                   List.union (the (seg_deleted_keys s1)) (deleted_keys_for_write s1)\<rparr>)
                      else s1)
            in s2\<lparr>deletes_loaded := True\<rparr>))"

definition Seg_DeletedKeysSize :: "bool \<Rightarrow> index_files \<Rightarrow> Segment \<Rightarrow> nat \<times> Segment" where
  "Seg_DeletedKeysSize held f s =
     (let s' = LazyLoadDeletedKeys held f s
      in (length (deleted_keys_for_write s') + length (deleted_keys_during_merge_for_write s'), s'))"

definition Seg_HasDeletedKeys :: "bool \<Rightarrow> index_files \<Rightarrow> Segment \<Rightarrow> bool \<times> Segment" where
  "Seg_HasDeletedKeys held f s = (let (n, s') = Seg_DeletedKeysSize held f s in (n > 0, s'))"

definition Seg_DeletedKeys :: "bool \<Rightarrow> index_files \<Rightarrow> Segment \<Rightarrow> deleted_t option \<times> Segment" where
  "Seg_DeletedKeys held f s = DeletedKeys (LazyLoadDeletedKeys held f s)"

definition Seg_IsDeleted :: "bool \<Rightarrow> index_files \<Rightarrow> u8 list \<Rightarrow> Segment \<Rightarrow> bool \<times> Segment" where
  "Seg_IsDeleted held f k s = IsDeleted k (LazyLoadDeletedKeys held f s)"

definition ElectedForMerge :: "index_files \<Rightarrow> Segment \<Rightarrow> index_files \<times> Segment" where
  "ElectedForMerge f s = (snd (Seg_Persist f s), s\<lparr>in_merge := True\<rparr>)"

definition MergeFailed :: "index_files \<Rightarrow> Segment \<Rightarrow> index_files \<times> Segment" where
  "MergeFailed f s =
     (let s1 = s\<lparr>in_merge := False\<rparr>
      in if deleted_keys_during_merge_for_write s1 \<noteq> []
         then (let s2 = s1\<lparr>deleted_keys_for_write :=
                             List.union (deleted_keys_during_merge_for_write s1) (deleted_keys_for_write s1),
                           new_delete := True\<rparr>;
                   f' = snd (Seg_Persist f s2)
               in (f'\<lparr>dkm_files := (dkm_files f')(dictionary_path s := None)\<rparr>,
                   s2\<lparr>deleted_keys_during_merge_for_write := []\<rparr>))
         else (f, s1))"

definition Seg_Load :: "bool \<Rightarrow> index_files \<Rightarrow> Segment \<Rightarrow> index_error + Segment" where
  "Seg_Load held f s = bind_sum (LazyLoadDictionary f s) (\<lambda>s'. Inr (LazyLoadDeletedKeys held f s'))"

definition RemoveFiles :: "Segment \<Rightarrow> index_files \<Rightarrow> index_files" where
  "RemoveFiles s f =
     f\<lparr>dictionary_files := (dictionary_files f)(dictionary_path s := None),
       dkm_files := (dkm_files f)(dictionary_path s := None),
       dk_files := (dk_files f)(dictionary_path s := None)\<rparr>"

definition Dictionary_has :: "dict \<Rightarrow> u8 list \<Rightarrow> bool" where
  "Dictionary_has d k \<longleftrightarrow> map_of d k \<noteq> None"

definition DeleteKey :: "bool \<Rightarrow> index_files \<Rightarrow> u8 list \<Rightarrow> Segment \<Rightarrow> index_error + Segment" where
  "DeleteKey held f k s =
     bind_sum (GetDictionary f s) (\<lambda>(d, s1).
       if \<not> Dictionary_has d k then Inr s1
       else (let s2 = LazyLoadDeletedKeys held f s1;
                 s3 = (if in_merge s2
                       then s2\<lparr>deleted_keys_during_merge_for_write :=
                              List.insert k (deleted_keys_during_merge_for_write s2)\<rparr>
                       else s2\<lparr>deleted_keys_for_write := List.insert k (deleted_keys_for_write s2)\<rparr>)
             in Inr (s3\<lparr>new_delete := True\<rparr>)))"

section \<open>The deleted keys of a segment\<close>

text \<open>
  The deletions a segment stands for: those of its lists once they are loaded, those of its files before.
\<close>

definition file_set :: "deleted_t option \<Rightarrow> u8 list set" where
  "file_set file = set (LoadAndUnserializeDeletedKeys file)"

lemma file_set_simps [simp]: "file_set None = {}" "file_set (Some d) = set d"
  by (simp_all add: file_set_def LoadAndUnserializeDeletedKeys_def)

definition disk_deletes :: "index_files \<Rightarrow> filename \<Rightarrow> u8 list set" where
  "disk_deletes f p = file_set (dk_files f p) \<union> file_set (dkm_files f p)"

definition seg_deletes :: "index_files \<Rightarrow> Segment \<Rightarrow> u8 list set" where
  "seg_deletes f s =
     (if deletes_loaded s then set (deleted_keys_for_write s) \<union> set (deleted_keys_during_merge_for_write s)
      else disk_deletes f (dictionary_path s))"

text \<open>
  The invariant of a segment with the dictionary \<open>d\<close>.  The list for the time outside of merges lies in the
  file \<open>.dk\<close> while a merge runs, because it was persisted when the segment was elected; the file \<open>.dkm\<close>
  matters only during a merge; and unless \<open>new_delete\<close> is set the files hold all deletions.
\<close>

definition reader_set :: "'a ReadOnlySegment_scheme \<Rightarrow> u8 list set" where
  "reader_set s = (if has_deleted_keys s then set (the (seg_deleted_keys s)) else {})"

lemma reader_set_frame [simp]:
  fixes s :: Segment
  shows "reader_set (s\<lparr>dictionary := x\<rparr>) = reader_set s" "reader_set (s\<lparr>dictionary_loaded := b\<rparr>) = reader_set s"
    "reader_set (s\<lparr>deleted_keys_for_write := l\<rparr>) = reader_set s"
    "reader_set (s\<lparr>deleted_keys_during_merge_for_write := l\<rparr>) = reader_set s"
    "reader_set (s\<lparr>deletes_loaded := b\<rparr>) = reader_set s" "reader_set (s\<lparr>in_merge := b\<rparr>) = reader_set s"
    "reader_set (s\<lparr>new_delete := b\<rparr>) = reader_set s"
  by (simp_all add: reader_set_def)

definition lists_inv ::
  "bool \<Rightarrow> bool \<Rightarrow> bool \<Rightarrow> u8 list set \<Rightarrow> u8 list set \<Rightarrow> u8 list set \<Rightarrow> u8 list set \<Rightarrow> bool" where
  "lists_inv loaded merging new D M FD FM \<longleftrightarrow>
     (if loaded
      then (if merging then D \<subseteq> FD \<and> FD \<subseteq> D \<union> M \<and> FM \<subseteq> M else M = {} \<and> FM = {} \<and> FD \<subseteq> D)
           \<and> (new \<or> FD \<union> FM = D \<union> M)
      else D = {} \<and> M = {} \<and> FM = {} \<and> \<not> new)"

definition seg_inv :: "dict \<Rightarrow> index_files \<Rightarrow> Segment \<Rightarrow> bool" where
  "seg_inv d f s \<longleftrightarrow> dictionary_files f (dictionary_path s) = Some d \<and> dictionary s \<in> {None, Some d}
     \<and> (dictionary_loaded s \<longrightarrow> dictionary s = Some d)
     \<and> (has_deleted_keys s \<longrightarrow> seg_deleted_keys s \<noteq> None)
     \<and> (\<not> deletes_loaded s \<longrightarrow> reader_set s = disk_deletes f (dictionary_path s))
     \<and> lists_inv (deletes_loaded s) (in_merge s) (new_delete s)
          (set (deleted_keys_for_write s)) (set (deleted_keys_during_merge_for_write s))
          (file_set (dk_files f (dictionary_path s))) (file_set (dkm_files f (dictionary_path s)))"

text \<open>An operation on a segment touches only the files of deleted keys beside its own dictionary.\<close>

definition same_but :: "filename \<Rightarrow> index_files \<Rightarrow> index_files \<Rightarrow> bool" where
  "same_but p f f' \<longleftrightarrow> dictionary_files f' = dictionary_files f \<and> toc_file f' = toc_file f
     \<and> (\<forall>q. q \<noteq> p \<longrightarrow> dk_files f' q = dk_files f q \<and> dkm_files f' q = dkm_files f q)"

lemma same_but_refl [simp]: "same_but p f f"
  by (simp add: same_but_def)

lemma same_but_trans: "same_but p f f' \<Longrightarrow> same_but p f' f'' \<Longrightarrow> same_but p f f''"
  by (simp add: same_but_def)

lemma seg_inv_frame:
  assumes "same_but p f f'" "dictionary_path s \<noteq> p"
  shows "seg_inv d f' s = seg_inv d f s" "seg_deletes f' s = seg_deletes f s"
  using assms by (simp_all add: same_but_def seg_inv_def seg_deletes_def disk_deletes_def)

lemma lists_inv_unloaded [simp]:
  "lists_inv False m n D M FD FM \<longleftrightarrow> D = {} \<and> M = {} \<and> FM = {} \<and> \<not> n"
  by (simp add: lists_inv_def)

lemma lists_inv_persist:
  "lists_inv True True True D M FD FM \<Longrightarrow> lists_inv True True True D M FD M \<and> FD \<union> M = D \<union> M"
  "lists_inv True False True D M FD FM \<Longrightarrow> lists_inv True False True D M D FM \<and> D \<union> FM = D \<union> M"
  "lists_inv True m False D M FD FM \<Longrightarrow> FD \<union> FM = D \<union> M"
  by (auto simp: lists_inv_def)

lemma Seg_Persist_inv:
  assumes "seg_inv d f s"
  shows "seg_inv d (snd (Seg_Persist f s)) s" "seg_deletes (snd (Seg_Persist f s)) s = seg_deletes f s"
    "same_but (dictionary_path s) f (snd (Seg_Persist f s))"
    "disk_deletes (snd (Seg_Persist f s)) (dictionary_path s) = seg_deletes f s"
proof -
  let ?D = "set (deleted_keys_for_write s)" and ?M = "set (deleted_keys_during_merge_for_write s)"
  let ?FD = "file_set (dk_files f (dictionary_path s))" and ?FM = "file_set (dkm_files f (dictionary_path s))"
  from assms have l: "lists_inv (deletes_loaded s) (in_merge s) (new_delete s) ?D ?M ?FD ?FM" by (simp add: seg_inv_def)
  show "same_but (dictionary_path s) f (snd (Seg_Persist f s))" by (simp add: Seg_Persist_def same_but_def)
  show del: "seg_deletes (snd (Seg_Persist f s)) s = seg_deletes f s"
    using l by (cases "deletes_loaded s") (simp_all add: seg_deletes_def Seg_Persist_def)
  show "disk_deletes (snd (Seg_Persist f s)) (dictionary_path s) = seg_deletes f s"
    using l lists_inv_persist
    by (cases "deletes_loaded s"; cases "new_delete s"; cases "in_merge s")
      (fastforce simp: seg_deletes_def disk_deletes_def Seg_Persist_def)+
  show "seg_inv d (snd (Seg_Persist f s)) s"
    using assms
    by (cases "deletes_loaded s"; cases "new_delete s"; cases "in_merge s")
      (simp_all add: seg_inv_def Seg_Persist_def lists_inv_def)
qed

lemma LoadDeletedKeys_fields [simp]:
  "dictionary_path (LoadDeletedKeys held f s) = dictionary_path s" "dictionary (LoadDeletedKeys held f s) = dictionary s"
  "ReadOnlySegment.more (LoadDeletedKeys held f s) = ReadOnlySegment.more s"
  by (simp_all add: LoadDeletedKeys_def Let_def)

lemma LoadDeletedKeys_writer [simp]:
  fixes s :: Segment
  shows "deleted_keys_for_write (LoadDeletedKeys held f s) = deleted_keys_for_write s"
    "deleted_keys_during_merge_for_write (LoadDeletedKeys held f s) = deleted_keys_during_merge_for_write s"
    "dictionary_loaded (LoadDeletedKeys held f s) = dictionary_loaded s"
    "deletes_loaded (LoadDeletedKeys held f s) = deletes_loaded s"
    "in_merge (LoadDeletedKeys held f s) = in_merge s" "new_delete (LoadDeletedKeys held f s) = new_delete s"
  by (simp_all add: LoadDeletedKeys_def Let_def)

text \<open>What reloading makes of a segment: nothing without files, their union otherwise.\<close>

lemma LoadDeletedKeys_set:
  "dk_files f (dictionary_path s) \<noteq> None \<or> dkm_files f (dictionary_path s) \<noteq> None \<Longrightarrow>
     has_deleted_keys (LoadDeletedKeys held f s) \<and> seg_deleted_keys (LoadDeletedKeys held f s) \<noteq> None
       \<and> reader_set (LoadDeletedKeys held f s) = disk_deletes f (dictionary_path s)"
  by (auto simp: LoadDeletedKeys_def Let_def disk_deletes_def file_set_def reader_set_def)

lemma LoadDeletedKeys_none:
  "dk_files f (dictionary_path s) = None \<Longrightarrow> dkm_files f (dictionary_path s) = None \<Longrightarrow> LoadDeletedKeys held f s = s"
  by (simp add: LoadDeletedKeys_def)

lemma LoadDeletedKeys_reader:
  assumes "has_deleted_keys s \<longrightarrow> seg_deleted_keys s \<noteq> None" "reader_set s = disk_deletes f (dictionary_path s)"
  shows "reader_set (LoadDeletedKeys held f s) = disk_deletes f (dictionary_path s)"
    "has_deleted_keys (LoadDeletedKeys held f s) \<longrightarrow> seg_deleted_keys (LoadDeletedKeys held f s) \<noteq> None"
  using assms LoadDeletedKeys_set [of f s held] LoadDeletedKeys_none [of f s held] by fastforce+

lemma LoadDeletedKeys_inv:
  fixes s :: Segment
  assumes "seg_inv d f s"
  shows "seg_inv d f (LoadDeletedKeys held f s)" "seg_deletes f (LoadDeletedKeys held f s) = seg_deletes f s"
proof -
  have "has_deleted_keys s \<longrightarrow> seg_deleted_keys s \<noteq> None" using assms by (simp add: seg_inv_def)
  then have some: "has_deleted_keys (LoadDeletedKeys held f s) \<longrightarrow> seg_deleted_keys (LoadDeletedKeys held f s) \<noteq> None"
    by (simp add: LoadDeletedKeys_def Let_def)
  have "reader_set (LoadDeletedKeys held f s) = disk_deletes f (dictionary_path s)" if "\<not> deletes_loaded s"
    using that assms by (intro LoadDeletedKeys_reader) (simp_all add: seg_inv_def)
  with assms some show "seg_inv d f (LoadDeletedKeys held f s)" by (simp add: seg_inv_def)
  show "seg_deletes f (LoadDeletedKeys held f s) = seg_deletes f s" by (simp add: seg_deletes_def)
qed

lemma LazyLoadDeletedKeys_inv:
  assumes "seg_inv d f s"
  shows "seg_inv d f (LazyLoadDeletedKeys held f s)" "seg_deletes f (LazyLoadDeletedKeys held f s) = seg_deletes f s"
    "dictionary_path (LazyLoadDeletedKeys held f s) = dictionary_path s" "deletes_loaded (LazyLoadDeletedKeys held f s)"
    "in_merge (LazyLoadDeletedKeys held f s) = in_merge s" "new_delete (LazyLoadDeletedKeys held f s) = new_delete s"
    "dictionary (LazyLoadDeletedKeys held f s) = dictionary s"
proof -
  let ?s1 = "LoadDeletedKeys held f s"
  show "dictionary_path (LazyLoadDeletedKeys held f s) = dictionary_path s" "deletes_loaded (LazyLoadDeletedKeys held f s)"
    "in_merge (LazyLoadDeletedKeys held f s) = in_merge s" "new_delete (LazyLoadDeletedKeys held f s) = new_delete s"
    "dictionary (LazyLoadDeletedKeys held f s) = dictionary s"
    by (simp_all add: LazyLoadDeletedKeys_def Let_def)
  show "seg_deletes f (LazyLoadDeletedKeys held f s) = seg_deletes f s"
    "seg_inv d f (LazyLoadDeletedKeys held f s)"
  proof (atomize (full), cases "deletes_loaded s")
    case False
    let ?FD = "file_set (dk_files f (dictionary_path s))" and ?FM = "file_set (dkm_files f (dictionary_path s))"
    have inv: "seg_inv d f ?s1" using LoadDeletedKeys_inv [OF assms] by simp
    then have "reader_set ?s1 = disk_deletes f (dictionary_path s)" "?FM = {}"
      "deleted_keys_for_write s = []" "deleted_keys_during_merge_for_write s = []" "\<not> new_delete s"
      using False by (simp_all add: seg_inv_def)
    moreover from this(1,2) have "has_deleted_keys ?s1 \<Longrightarrow> set (the (seg_deleted_keys ?s1)) = ?FD"
      "\<not> has_deleted_keys ?s1 \<Longrightarrow> ?FD = {}"
      by (auto simp: reader_set_def disk_deletes_def split: if_splits)
    ultimately show "seg_deletes f (LazyLoadDeletedKeys held f s) = seg_deletes f s \<and> seg_inv d f (LazyLoadDeletedKeys held f s)"
      using inv False
      by (cases "has_deleted_keys ?s1"; cases "in_merge s")
        (simp_all add: LazyLoadDeletedKeys_def Let_def seg_inv_def seg_deletes_def disk_deletes_def lists_inv_def)
  qed (simp add: LazyLoadDeletedKeys_def assms)
qed

lemma LazyLoadDictionary_inv:
  assumes "seg_inv d f s"
  obtains s' where "LazyLoadDictionary f s = Inr s'" "seg_inv d f s'" "seg_deletes f s' = seg_deletes f s"
    "dictionary s' = Some d" "s' = s\<lparr>dictionary := Some d, dictionary_loaded := True\<rparr>"
proof
  show "LazyLoadDictionary f s = Inr (s\<lparr>dictionary := Some d, dictionary_loaded := True\<rparr>)"
    using assms by (auto simp: LazyLoadDictionary_def LoadDictionary_def seg_inv_def)
  show "seg_inv d f (s\<lparr>dictionary := Some d, dictionary_loaded := True\<rparr>)"
    using assms by (simp add: seg_inv_def)
qed (simp_all add: seg_deletes_def)

lemma GetDictionary_inv:
  assumes "seg_inv d f s"
  shows "GetDictionary f s = Inr (d, s\<lparr>dictionary := Some d, dictionary_loaded := True\<rparr>)"
    "seg_inv d f (s\<lparr>dictionary := Some d, dictionary_loaded := True\<rparr>)"
    "seg_deletes f (s\<lparr>dictionary := Some d, dictionary_loaded := True\<rparr>) = seg_deletes f s"
  by (rule LazyLoadDictionary_inv [OF assms], auto simp: GetDictionary_def)+

lemma Seg_Load_inv:
  assumes "seg_inv d f s"
  obtains s' where "Seg_Load held f s = Inr s'" "seg_inv d f s'" "seg_deletes f s' = seg_deletes f s"
    "dictionary_path s' = dictionary_path s"
proof -
  obtain s' where s': "LazyLoadDictionary f s = Inr s'" "seg_inv d f s'" "seg_deletes f s' = seg_deletes f s"
    "dictionary_path s' = dictionary_path s"
    by (rule LazyLoadDictionary_inv [OF assms]) auto
  show ?thesis
    by (rule that [of "LazyLoadDeletedKeys held f s'"]) (simp_all add: Seg_Load_def s' LazyLoadDeletedKeys_inv [OF s'(2)])
qed

lemma insert_deletion_inv:
  assumes "seg_inv d f s" "deletes_loaded s"
    and s': "s' = (if in_merge s then s\<lparr>deleted_keys_during_merge_for_write := List.insert k (deleted_keys_during_merge_for_write s)\<rparr>
      else s\<lparr>deleted_keys_for_write := List.insert k (deleted_keys_for_write s)\<rparr>)\<lparr>new_delete := True\<rparr>"
  shows "seg_inv d f s'" "seg_deletes f s' = insert k (seg_deletes f s)"
  using assms by (cases "in_merge s"; auto simp: seg_inv_def seg_deletes_def lists_inv_def)+

lemma DeleteKey_inv:
  assumes "seg_inv d f s"
  obtains s' where "DeleteKey held f k s = Inr s'" "seg_inv d f s'" "dictionary_path s' = dictionary_path s"
    "in_merge s' = in_merge s" "seg_deletes f s' = (if Dictionary_has d k then {k} else {}) \<union> seg_deletes f s"
proof (cases "Dictionary_has d k")
  case False
  show ?thesis
    by (rule that [of "s\<lparr>dictionary := Some d, dictionary_loaded := True\<rparr>"])
      (simp_all add: DeleteKey_def GetDictionary_inv [OF assms] False)
next
  case True
  let ?s1 = "LazyLoadDeletedKeys held f (s\<lparr>dictionary := Some d, dictionary_loaded := True\<rparr>)"
  let ?s2 = "(if in_merge ?s1
      then ?s1\<lparr>deleted_keys_during_merge_for_write := List.insert k (deleted_keys_during_merge_for_write ?s1)\<rparr>
      else ?s1\<lparr>deleted_keys_for_write := List.insert k (deleted_keys_for_write ?s1)\<rparr>)\<lparr>new_delete := True\<rparr>"
  note l = LazyLoadDeletedKeys_inv [OF GetDictionary_inv(2) [OF assms], of held]
  note i = insert_deletion_inv [OF l(1,4) refl, of k]
  show ?thesis
  proof (rule that [of ?s2])
    show "DeleteKey held f k s = Inr ?s2"
      by (simp add: DeleteKey_def GetDictionary_inv [OF assms] True Let_def)
    show "seg_deletes f ?s2 = (if Dictionary_has d k then {k} else {}) \<union> seg_deletes f s"
      using i(2) l(2) GetDictionary_inv(3) [OF assms] True by simp
  qed (use i l in simp_all)
qed

lemma ElectedForMerge_inv:
  assumes "seg_inv d f s"
  shows "seg_inv d (fst (ElectedForMerge f s)) (snd (ElectedForMerge f s))"
    "seg_deletes (fst (ElectedForMerge f s)) (snd (ElectedForMerge f s)) = seg_deletes f s"
    "same_but (dictionary_path s) f (fst (ElectedForMerge f s))"
    "dictionary_path (snd (ElectedForMerge f s)) = dictionary_path s" "in_merge (snd (ElectedForMerge f s))"
proof -
  note p = Seg_Persist_inv [OF assms]
  let ?f = "snd (Seg_Persist f s)"
  let ?D = "set (deleted_keys_for_write s)" and ?M = "set (deleted_keys_during_merge_for_write s)"
  let ?FD = "file_set (dk_files ?f (dictionary_path s))" and ?FM = "file_set (dkm_files ?f (dictionary_path s))"
  have l: "lists_inv (deletes_loaded s) (in_merge s) (new_delete s) ?D ?M ?FD ?FM" using p(1) by (simp add: seg_inv_def)
  have "?FD \<union> ?FM = ?D \<union> ?M" if "deletes_loaded s" using p(4,2) that by (simp add: disk_deletes_def seg_deletes_def)
  with l have "lists_inv (deletes_loaded s) True (new_delete s) ?D ?M ?FD ?FM"
    by (auto simp: lists_inv_def split: if_splits)
  with p(1) show "seg_inv d (fst (ElectedForMerge f s)) (snd (ElectedForMerge f s))"
    by (simp add: seg_inv_def ElectedForMerge_def)
  show "seg_deletes (fst (ElectedForMerge f s)) (snd (ElectedForMerge f s)) = seg_deletes f s"
    using p(2) by (cases "deletes_loaded s") (simp_all add: ElectedForMerge_def seg_deletes_def)
qed (simp_all add: ElectedForMerge_def Seg_Persist_inv [OF assms])

lemma MergeFailed_inv:
  assumes "seg_inv d f s"
  shows "seg_inv d (fst (MergeFailed f s)) (snd (MergeFailed f s))"
    "seg_deletes (fst (MergeFailed f s)) (snd (MergeFailed f s)) = seg_deletes f s"
    "same_but (dictionary_path s) f (fst (MergeFailed f s))"
    "dictionary_path (snd (MergeFailed f s)) = dictionary_path s" "\<not> in_merge (snd (MergeFailed f s))"
proof -
  let ?D = "set (deleted_keys_for_write s)" and ?M = "set (deleted_keys_during_merge_for_write s)"
  let ?FD = "file_set (dk_files f (dictionary_path s))" and ?FM = "file_set (dkm_files f (dictionary_path s))"
  have l: "lists_inv (deletes_loaded s) (in_merge s) (new_delete s) ?D ?M ?FD ?FM" using assms by (simp add: seg_inv_def)
  show "seg_inv d (fst (MergeFailed f s)) (snd (MergeFailed f s))"
  proof (cases "deleted_keys_during_merge_for_write s = []")
    case True
    with l have "lists_inv (deletes_loaded s) False (new_delete s) ?D ?M ?FD ?FM" by (auto simp: lists_inv_def split: if_splits)
    with assms True show ?thesis by (simp add: MergeFailed_def seg_inv_def)
  next
    case False
    with l have "deletes_loaded s" by (cases "deletes_loaded s") simp_all
    with assms False show ?thesis
      by (simp add: MergeFailed_def seg_inv_def Seg_Persist_def lists_inv_def)
  qed
  show "seg_deletes (fst (MergeFailed f s)) (snd (MergeFailed f s)) = seg_deletes f s"
  proof (cases "deleted_keys_during_merge_for_write s = []")
    case True
    then show ?thesis by (simp add: MergeFailed_def seg_deletes_def)
  next
    case False
    with l have "deletes_loaded s" by (cases "deletes_loaded s") simp_all
    with False show ?thesis by (simp add: MergeFailed_def seg_deletes_def Let_def Un_commute)
  qed
qed (simp_all add: MergeFailed_def Seg_Persist_def same_but_def Let_def)

lemma DeletedKeys_inv:
  assumes "seg_inv d f s"
  shows "seg_inv d f (snd (DeletedKeys s))" "seg_deletes f (snd (DeletedKeys s)) = seg_deletes f s"
    "dictionary_path (snd (DeletedKeys s)) = dictionary_path s" "in_merge (snd (DeletedKeys s)) = in_merge s"
    "deletes_loaded (snd (DeletedKeys s)) = deletes_loaded s"
proof -
  have "reader_set (s\<lparr>deleted_keys_weak := w\<rparr>) = reader_set s" for w by (simp add: reader_set_def)
  then have "seg_inv d f (s\<lparr>deleted_keys_weak := w\<rparr>)" for w using assms by (simp add: seg_inv_def)
  then show "seg_inv d f (snd (DeletedKeys s))"
    using assms by (cases "deleted_keys_weak s") (simp_all add: DeletedKeys_def)
qed (cases "deleted_keys_weak s"; simp add: DeletedKeys_def seg_deletes_def)+

lemma IsDeleted_snd: "snd (IsDeleted k s) = (if has_deleted_keys s then snd (DeletedKeys s) else s)"
  by (simp add: IsDeleted_def Let_def split_beta)

lemma Seg_IsDeleted_inv:
  assumes "seg_inv d f s"
  shows "seg_inv d f (snd (Seg_IsDeleted held f k s))" "seg_deletes f (snd (Seg_IsDeleted held f k s)) = seg_deletes f s"
    "dictionary_path (snd (Seg_IsDeleted held f k s)) = dictionary_path s"
    "in_merge (snd (Seg_IsDeleted held f k s)) = in_merge s"
  using DeletedKeys_inv [OF LazyLoadDeletedKeys_inv(1) [OF assms, of held]] LazyLoadDeletedKeys_inv [OF assms, of held]
  by (simp_all add: Seg_IsDeleted_def IsDeleted_snd)

section \<open>Runs of a segment\<close>

datatype seg_op = Op_DeleteKey "u8 list" | Op_Persist | Op_Reload | Op_Elected | Op_Failed | Op_Load | Op_Size
  | Op_IsDeleted "u8 list"

fun seg_step :: "bool \<Rightarrow> seg_op \<Rightarrow> index_files \<times> Segment \<Rightarrow> index_error + index_files \<times> Segment" where
  "seg_step held (Op_DeleteKey k) (f, s) = bind_sum (DeleteKey held f k s) (\<lambda>s'. Inr (f, s'))"
| "seg_step held Op_Persist (f, s) = Inr (snd (Seg_Persist f s), s)"
| "seg_step held Op_Reload (f, s) = Inr (f, ReloadDeletedKeys held f s)"
| "seg_step held Op_Elected (f, s) = Inr (ElectedForMerge f s)"
| "seg_step held Op_Failed (f, s) = Inr (MergeFailed f s)"
| "seg_step held Op_Load (f, s) = bind_sum (Seg_Load held f s) (\<lambda>s'. Inr (f, s'))"
| "seg_step held Op_Size (f, s) = Inr (f, snd (Seg_DeletedKeysSize held f s))"
| "seg_step held (Op_IsDeleted k) (f, s) = Inr (f, snd (Seg_IsDeleted held f k s))"

fun seg_run :: "bool \<Rightarrow> seg_op list \<Rightarrow> index_files \<times> Segment \<Rightarrow> index_error + index_files \<times> Segment" where
  "seg_run held [] fs = Inr fs"
| "seg_run held (op # ops) fs = bind_sum (seg_step held op fs) (seg_run held ops)"

fun op_deletes :: "dict \<Rightarrow> seg_op \<Rightarrow> u8 list set" where
  "op_deletes d (Op_DeleteKey k) = (if Dictionary_has d k then {k} else {})"
| "op_deletes d op = {}"

lemma seg_step_inv:
  assumes "seg_inv d f s"
  obtains f' s' where "seg_step held op (f, s) = Inr (f', s')" "seg_inv d f' s'"
    "seg_deletes f' s' = op_deletes d op \<union> seg_deletes f s" "dictionary_path s' = dictionary_path s"
proof (cases op)
  case (Op_DeleteKey k)
  obtain s' where "DeleteKey held f k s = Inr s'" "seg_inv d f s'" "dictionary_path s' = dictionary_path s"
    "seg_deletes f s' = (if Dictionary_has d k then {k} else {}) \<union> seg_deletes f s"
    by (rule DeleteKey_inv [OF assms])
  with Op_DeleteKey show ?thesis by (intro that [of f s']) simp_all
next
  case Op_Persist
  then show ?thesis using Seg_Persist_inv [OF assms] by (intro that [of "snd (Seg_Persist f s)" s]) simp_all
next
  case Op_Reload
  then show ?thesis using LoadDeletedKeys_inv [OF assms] by (intro that [of f "LoadDeletedKeys held f s"]) simp_all
next
  case Op_Elected
  then show ?thesis using ElectedForMerge_inv [OF assms]
    by (intro that [of "fst (ElectedForMerge f s)" "snd (ElectedForMerge f s)"]) simp_all
next
  case Op_Failed
  then show ?thesis using MergeFailed_inv [OF assms]
    by (intro that [of "fst (MergeFailed f s)" "snd (MergeFailed f s)"]) simp_all
next
  case Op_Load
  obtain s' where "Seg_Load held f s = Inr s'" "seg_inv d f s'" "seg_deletes f s' = seg_deletes f s"
    "dictionary_path s' = dictionary_path s" by (rule Seg_Load_inv [OF assms])
  with Op_Load show ?thesis by (intro that [of f s']) simp_all
next
  case Op_Size
  then show ?thesis using LazyLoadDeletedKeys_inv [OF assms]
    by (intro that [of f "LazyLoadDeletedKeys held f s"]) (simp_all add: Seg_DeletedKeysSize_def Let_def)
next
  case (Op_IsDeleted k)
  then show ?thesis using Seg_IsDeleted_inv [OF assms] by (intro that [of f "snd (Seg_IsDeleted held f k s)"]) simp_all
qed

lemma seg_run_inv:
  assumes "seg_inv d f s"
  shows "\<exists>f' s'. seg_run held ops (f, s) = Inr (f', s') \<and> seg_inv d f' s'
    \<and> seg_deletes f' s' = \<Union> (op_deletes d ` set ops) \<union> seg_deletes f s \<and> dictionary_path s' = dictionary_path s"
  using assms
proof (induction ops arbitrary: f s)
  case (Cons op ops)
  obtain f1 s1 where 1: "seg_step held op (f, s) = Inr (f1, s1)" "seg_inv d f1 s1"
    "seg_deletes f1 s1 = op_deletes d op \<union> seg_deletes f s" "dictionary_path s1 = dictionary_path s"
    by (rule seg_step_inv [OF Cons.prems])
  with Cons.IH [OF 1(2)] show ?case by auto
qed simp

lemma ReadOnlySegment_new_deletes:
  assumes "dictionary_files f p \<noteq> None"
  obtains r where "ReadOnlySegment_new f p = Inr r" "reader_set r = disk_deletes f p"
    "has_deleted_keys r \<longrightarrow> seg_deleted_keys r \<noteq> None" "dictionary r = dictionary_files f p" "dictionary_path r = p"
    "deleted_keys_weak r = None"
proof -
  obtain d where d: "dictionary_files f p = Some d" using assms by blast
  let ?r = "(ReadOnlySegment_base p)\<lparr>dictionary := Some d\<rparr>"
  have base: "dictionary_path ?r = p" "\<not> has_deleted_keys ?r" "reader_set ?r = {}"
    by (simp_all add: ReadOnlySegment_base_def reader_set_def)
  have new: "ReadOnlySegment_new f p = Inr (LoadDeletedKeys False f ?r)"
    by (simp add: ReadOnlySegment_new_def ReadOnlySegment_protected_def LoadDictionary_def d ReadOnlySegment_base_def)
  show ?thesis
  proof (rule that [OF new])
    show "reader_set (LoadDeletedKeys False f ?r) = disk_deletes f p"
      using LoadDeletedKeys_set [of f ?r False] LoadDeletedKeys_none [of f ?r False] base
      by (cases "dk_files f p = None \<and> dkm_files f p = None") (auto simp: disk_deletes_def)
    show "has_deleted_keys (LoadDeletedKeys False f ?r) \<longrightarrow> seg_deleted_keys (LoadDeletedKeys False f ?r) \<noteq> None"
      using base by (simp add: LoadDeletedKeys_def Let_def)
  qed (simp_all add: d base LoadDeletedKeys_def Let_def ReadOnlySegment_base_def)
qed

lemma Segment_of_fields [simp]:
  "dictionary_path (Segment_of b nd) = dictionary_path b" "dictionary (Segment_of b nd) = dictionary b"
  "has_deleted_keys (Segment_of b nd) = has_deleted_keys b" "seg_deleted_keys (Segment_of b nd) = seg_deleted_keys b"
  "reader_set (Segment_of b nd) = reader_set b" "deleted_keys_weak (Segment_of b nd) = deleted_keys_weak b"
  "deleted_keys_for_write (Segment_of b nd) = []" "deleted_keys_during_merge_for_write (Segment_of b nd) = []"
  "dictionary_loaded (Segment_of b nd) = False" "deletes_loaded (Segment_of b nd) = nd"
  "in_merge (Segment_of b nd) = False" "new_delete (Segment_of b nd) = False"
  by (simp_all add: Segment_of_def ReadOnlySegment.defs reader_set_def)

lemma Segment_new_inv:
  assumes "dictionary_files f p = Some d" "file_set (dkm_files f p) = {}"
    and "no_deletes \<Longrightarrow> dk_files f p = None"
  obtains s where "Segment_new f p no_deletes = Inr s" "seg_inv d f s" "seg_deletes f s = file_set (dk_files f p)"
    "dictionary_path s = p" "\<not> in_merge s" "deletes_loaded s = no_deletes" "no_deletes \<Longrightarrow> \<not> has_deleted_keys s"
    "deleted_keys_weak s = None" "deleted_keys_for_write s = []"
proof -
  let ?b = "if no_deletes then ReadOnlySegment_base p else LoadDeletedKeys False f (ReadOnlySegment_base p)"
  let ?s = "Segment_of ?b no_deletes"
  have base: "dictionary_path (ReadOnlySegment_base p) = p" "\<not> has_deleted_keys (ReadOnlySegment_base p)"
    "reader_set (ReadOnlySegment_base p) = {}" "dictionary (ReadOnlySegment_base p) = None"
    by (simp_all add: ReadOnlySegment_base_def reader_set_def)
  have b: "reader_set ?b = disk_deletes f p" if "\<not> no_deletes"
    using that LoadDeletedKeys_set [of f "ReadOnlySegment_base p" False] LoadDeletedKeys_none [of f "ReadOnlySegment_base p" False] base
    by (cases "dk_files f p = None \<and> dkm_files f p = None") (auto simp: disk_deletes_def)
  have some: "has_deleted_keys ?b \<longrightarrow> seg_deleted_keys ?b \<noteq> None"
    using base by (simp add: LoadDeletedKeys_def Let_def)
  show ?thesis
  proof (rule that)
    show "Segment_new f p no_deletes = Inr ?s"
      using assms(1) by (simp add: Segment_new_def ReadOnlySegment_protected_def)
    show "seg_inv d f ?s"
      using assms b some base by (auto simp: seg_inv_def lists_inv_def)
    show "seg_deletes f ?s = file_set (dk_files f p)"
      using assms by (simp add: seg_deletes_def base disk_deletes_def)
    show "deleted_keys_weak ?s = None" by (simp add: ReadOnlySegment_base_def LoadDeletedKeys_def Let_def)
    show "\<not> has_deleted_keys ?s" if no_deletes using that base by simp
  qed (simp_all add: base)
qed

text \<open>
  C21: a segment loses no deletion.  A segment is opened over files without deletions of an unfinished
  merge; then keys are deleted, deletions persisted and reloaded, the segment elected for merges that fail,
  in any order and before or after its lists are loaded.  No operation fails, the segment stands for the
  deletions of its file and for every deletion of a key its dictionary has, and once it persists a new
  reader of its files sees exactly these.
\<close>

theorem segment_loses_no_deletion:
  assumes "dictionary_files f p = Some d" "file_set (dkm_files f p) = {}"
  shows "\<exists>s f' s' r. Segment_new f p False = Inr s \<and> seg_run held ops (f, s) = Inr (f', s')
    \<and> seg_deletes f' s' = file_set (dk_files f p) \<union> {k. Op_DeleteKey k \<in> set ops \<and> Dictionary_has d k}
    \<and> ReadOnlySegment_new (snd (Seg_Persist f' s')) p = Inr r \<and> reader_set r = seg_deletes f' s'"
proof -
  obtain s where s: "Segment_new f p False = Inr s" "seg_inv d f s" "seg_deletes f s = file_set (dk_files f p)"
    "dictionary_path s = p"
    by (rule Segment_new_inv [OF assms, of False]) simp_all
  obtain f' s' where run: "seg_run held ops (f, s) = Inr (f', s')" "seg_inv d f' s'"
    "seg_deletes f' s' = \<Union> (op_deletes d ` set ops) \<union> seg_deletes f s" "dictionary_path s' = p"
    using seg_run_inv [OF s(2), of held ops] s(4) by blast
  have "\<Union> (op_deletes d ` set ops) = {k. Op_DeleteKey k \<in> set ops \<and> Dictionary_has d k}"
  proof -
    have "x \<in> op_deletes d op \<longleftrightarrow> op = Op_DeleteKey x \<and> Dictionary_has d x" for x op by (cases op) auto
    then show ?thesis by auto
  qed
  moreover have "dictionary_files (snd (Seg_Persist f' s')) p \<noteq> None"
    using Seg_Persist_inv(1) [OF run(2)] run(4) by (simp add: seg_inv_def)
  then obtain r where "ReadOnlySegment_new (snd (Seg_Persist f' s')) p = Inr r"
    "reader_set r = disk_deletes (snd (Seg_Persist f' s')) p" by (rule ReadOnlySegment_new_deletes)
  ultimately show ?thesis using s run Seg_Persist_inv(4) [OF run(2)] by (auto simp: run(4))
qed

text \<open>Two keys, \<open>a\<close> and \<open>b\<close>, in a dictionary with the given files beside it.\<close>

definition two_keys :: dict where
  "two_keys = [([97], ''1''), ([98], ''2'')]"

definition two_key_files :: "deleted_t option \<Rightarrow> deleted_t option \<Rightarrow> index_files" where
  "two_key_files dk dkm =
     \<lparr>dictionary_files = [''s'' \<mapsto> two_keys], dk_files = (\<lambda>_. None)(''s'' := dk), dkm_files = (\<lambda>_. None)(''s'' := dkm),
      toc_file = Some [''s'']\<rparr>"

theorem segment_loses_no_deletion_witness:
  "\<exists>s f' s' r. Segment_new (two_key_files (Some [[97]]) None) ''s'' False = Inr s
     \<and> seg_run False [Op_Elected, Op_DeleteKey [98], Op_DeleteKey [99], Op_Failed] (two_key_files (Some [[97]]) None, s) = Inr (f', s')
     \<and> seg_deletes f' s' = {[97], [98]}
     \<and> ReadOnlySegment_new (snd (Seg_Persist f' s')) ''s'' = Inr r \<and> reader_set r = {[97], [98]}"
proof -
  let ?ops = "[Op_Elected, Op_DeleteKey [98], Op_DeleteKey [99], Op_Failed]"
  have d: "dictionary_files (two_key_files (Some [[97]]) None) ''s'' = Some two_keys"
    "file_set (dkm_files (two_key_files (Some [[97]]) None) ''s'') = {}"
    by (simp_all add: two_key_files_def)
  have "{k. Op_DeleteKey k \<in> set ?ops \<and> Dictionary_has two_keys k} = {[98]}"
    by (auto simp: Dictionary_has_def two_keys_def)
  moreover have "file_set (dk_files (two_key_files (Some [[97]]) None) ''s'') = {[97]}"
    by (simp add: two_key_files_def)
  ultimately show ?thesis using segment_loses_no_deletion [OF d, of False ?ops] by (auto simp: insert_commute)
qed

text \<open>
  Deletions that only the file \<open>.dkm\<close> holds are lost by the next merge.  The file is left behind when the
  writer stops during a merge.  A segment opened again takes its keys into its list, but does not mark
  them as new, so that electing it does not write them to \<open>.dk\<close>, the only file the merger reads; and the
  merged segment takes over only the deletions made during the merge.
\<close>

theorem interrupted_merge_loses_deletion:
  "\<exists>s0. Segment_new (two_key_files None (Some [[97]])) ''s'' False = Inr s0
     \<and> (let s = LazyLoadDeletedKeys False (two_key_files None (Some [[97]])) s0;
            (f, s1) = ElectedForMerge (two_key_files None (Some [[97]])) s
        in seg_deletes f s1 = {[97]} \<and> dk_files f ''s'' = None \<and> deleted_keys_during_merge_for_write s1 = [])"
proof -
  obtain s0 where s0: "Segment_new (two_key_files None (Some [[97]])) ''s'' False = Inr s0"
    and s: "s0 = Segment_of (LoadDeletedKeys False (two_key_files None (Some [[97]])) (ReadOnlySegment_base ''s'')) False"
    by (auto simp: Segment_new_def ReadOnlySegment_protected_def two_key_files_def)
  have "deleted_keys_for_write (LazyLoadDeletedKeys False (two_key_files None (Some [[97]])) s0) = [[97]]"
    "deleted_keys_during_merge_for_write (LazyLoadDeletedKeys False (two_key_files None (Some [[97]])) s0) = []"
    "\<not> new_delete (LazyLoadDeletedKeys False (two_key_files None (Some [[97]])) s0)"
    "deletes_loaded (LazyLoadDeletedKeys False (two_key_files None (Some [[97]])) s0)"
    by (simp_all add: s LazyLoadDeletedKeys_def Let_def)
      (simp_all add: LoadDeletedKeys_def two_key_files_def ReadOnlySegment_base_def Let_def LoadAndUnserializeDeletedKeys_def
        List.union_def)
  then have "let s = LazyLoadDeletedKeys False (two_key_files None (Some [[97]])) s0;
            (f, s1) = ElectedForMerge (two_key_files None (Some [[97]])) s
        in seg_deletes f s1 = {[97]} \<and> dk_files f ''s'' = None \<and> deleted_keys_during_merge_for_write s1 = []"
    by (simp add: ElectedForMerge_def Seg_Persist_def seg_deletes_def two_key_files_def Let_def)
  with s0 show ?thesis by blast
qed

text \<open>
  A set of deleted keys that a client still holds hides all later deletions from lookups: the weak pointer
  is not reset when the set is replaced.
\<close>

lemma held_deleted_keys_are_stale:
  assumes "has_deleted_keys s" "deleted_keys_weak s = Some old"
  shows "fst (IsDeleted k (ReloadDeletedKeys True f s)) \<longleftrightarrow> k \<in> set old"
  using assms by (simp add: IsDeleted_def DeletedKeys_def LoadDeletedKeys_def Let_def)

end
