(* ===== verification/Index_Merge.thy ===== *)
theory Index_Merge
  imports Complex_Main Index_Segment
begin

text \<open>
  Merging segments of an index: what the merger makes of dictionaries and their deleted keys, the merge
  jobs (\<open>index/internal/merge_job.h\<close>) and the policies that choose the segments
  (\<open>index/internal/simple_merge_policy.h\<close>, \<open>tiered_merge_policy.h\<close>, \<open>merge_policy_selector.h\<close>).
\<close>

section \<open>The merged dictionary\<close>

text \<open>
  The merger as a function on entries: the newest entry of every key is emitted, unless its key is at the
  back of the list of deleted keys of its dictionary.  \<open>merger_output\<close> below relates it to \<open>Merge\<close>.
\<close>

fun newest_value :: "nat \<Rightarrow> (u8 list \<times> 'w) list list \<Rightarrow> u8 list \<Rightarrow> (nat \<times> 'w) option" where
  "newest_value i [] k = None"
| "newest_value i (d # ds) k =
     (case newest_value (Suc i) ds k of Some r \<Rightarrow> Some r | None \<Rightarrow> map_option (Pair i) (map_of d k))"

definition all_keys :: "(u8 list \<times> 'w) list list \<Rightarrow> u8 list list" where
  "all_keys ds = stable_sort key_less (remdups (map fst (concat ds)))"

definition newest_of :: "(u8 list \<times> 'w) list list \<Rightarrow> (u8 list \<times> nat \<times> 'w) list" where
  "newest_of ds = map (\<lambda>k. (k, the (newest_value 0 ds k))) (all_keys ds)"

fun merge_emit :: "(u8 list \<times> nat \<times> 'w) list \<Rightarrow> u8 list list list \<Rightarrow> (u8 list \<times> 'w) list" where
  "merge_emit [] dk = []"
| "merge_emit ((k, i, v) # es) dk =
     (if dk ! i \<noteq> [] \<and> k = last (dk ! i)
      then merge_emit es (fst (drop_deleted k (dk[i := butlast (dk ! i)])))
      else (k, v) # merge_emit es dk)"

text \<open>The inputs: the entries of a dictionary file and the keys of the file \<open>.dk\<close> beside it.\<close>

definition merge_dictionaries :: "((u8 list \<times> 'w) list \<times> u8 list list) list \<Rightarrow> (u8 list \<times> 'w) list" where
  "merge_dictionaries inputs =
     (let ins = filter (\<lambda>(d, dk). d \<noteq> []) inputs
      in merge_emit (newest_of (map fst ins)) (map (\<lambda>(d, dk). stable_sort (\<lambda>a b. key_less b a) dk) ins))"

subsection \<open>It is what the dictionary merger does\<close>

lemma KeyDeleted_emit:
  "KeyDeleted i k dk st =
     (if dk ! i \<noteq> [] \<and> k = last (dk ! i)
      then (True, fst (drop_deleted k (dk[i := butlast (dk ! i)])),
            st\<lparr>stat_deleted_keys := stat_deleted_keys st + 1 + snd (drop_deleted k (dk[i := butlast (dk ! i)]))\<rparr>)
      else (False, dk, st))"
  by (simp add: KeyDeleted_def split_beta Let_def)

lemma process_entries_emit:
  "\<exists>dk' st'. process_entries trace_env False As es vs g dk st = Inr ((), g @ merge_emit es dk, dk', st')"
proof (induction es arbitrary: vs g dk st)
  case (Cons e es)
  obtain k i v where e: "e = (k, i, v)" by (cases e)
  show ?case
  proof (cases "dk ! i \<noteq> [] \<and> k = last (dk ! i)")
    case True
    then show ?thesis using Cons.IH by (simp add: e KeyDeleted_emit)
  next
    case False
    then show ?thesis
      using Cons.IH [of "()" "g @ [(k, v)]" dk] by (auto simp: e KeyDeleted_emit merge_handle_def)
  qed
qed simp

lemma newest_value_None: "newest_value n ds k = None \<longleftrightarrow> (\<forall>d \<in> set ds. k \<notin> fst ` set d)"
proof (induction ds arbitrary: n)
  case (Cons d ds)
  then show ?case by (auto simp: map_of_eq_None_iff split: option.split)
qed simp

lemma newest_value_entry:
  assumes "\<forall>d \<in> set ds. sorted_items d"
  shows "newest_value n ds k = Some (i, v) \<longleftrightarrow> n \<le> i \<and> newest_entry ds k (i - n) v"
  using assms
proof (induction ds arbitrary: n i v)
  case (Cons d ds)
  have uniq: "map_of d k = Some w \<longleftrightarrow> (k, w) \<in> set d" for w
    using Cons.prems sorted_keys_distinct [of "map fst d"] by (simp add: sorted_items_def map_of_eq_Some_iff)
  have IH: "newest_value (Suc n) ds k = Some (j, w) \<longleftrightarrow> Suc n \<le> j \<and> newest_entry ds k (j - Suc n) w" for j w
    using Cons by simp
  have shift: "newest_entry (d # ds) k (Suc m) w \<longleftrightarrow> newest_entry ds k m w" for m w
    by (auto simp: newest_entry_def nth_Cons split: nat.splits)
  have zero: "newest_entry (d # ds) k 0 w \<longleftrightarrow> (k, w) \<in> set d \<and> (\<forall>x \<in> set ds. k \<notin> fst ` set x)" for w
    by (auto simp: newest_entry_def nth_Cons all_set_conv_all_nth split: nat.splits)
  show ?case
  proof (cases "newest_value (Suc n) ds k")
    case None
    then have absent: "\<forall>x \<in> set ds. k \<notin> fst ` set x" by (simp add: newest_value_None)
    then have "\<not> newest_entry (d # ds) k (Suc m) w" for m w
      using shift [of m w] by (metis fst_conv image_eqI newest_entry_def nth_mem)
    with None absent show ?thesis by (cases "i - n") (auto simp: uniq zero)
  next
    case (Some jw)
    obtain j w where jw: "jw = (j, w)" by (cases jw)
    with Some IH have j: "Suc n \<le> j" "newest_entry ds k (j - Suc n) w" by auto
    then have here: "newest_entry (d # ds) k (j - n) w" using shift [of "j - Suc n" w] by (simp add: Suc_diff_Suc)
    have same: "a = j - n \<and> x = w" if "newest_entry (d # ds) k a x" for a x
    proof -
      have a: "a = j - n" using newest_entry_unique [OF that here] .
      moreover have "sorted_items ((d # ds) ! a)" using that Cons.prems by (auto simp: newest_entry_def nth_Cons split: nat.splits)
      ultimately show ?thesis using that here sorted_items_unique by (auto simp: newest_entry_def)
    qed
    have "Some jw = Some (i, v) \<longleftrightarrow> n \<le> i \<and> newest_entry (d # ds) k (i - n) v"
    proof
      assume "n \<le> i \<and> newest_entry (d # ds) k (i - n) v"
      with same [of "i - n" v] j(1) have "i = j" "v = w" by auto
      then show "Some jw = Some (i, v)" by (simp add: jw)
    qed (use here j(1) jw in auto)
    with Some show ?thesis by simp
  qed
qed (simp add: newest_entry_def)

lemma set_stable_sort [simp]: "set (stable_sort R xs) = set xs"
  by (induction xs) (simp_all add: stable_sort_def)

lemma sorted_stable_sort_keys: "distinct ks \<Longrightarrow> sorted_wrt key_less (stable_sort key_less (ks :: u8 list list))"
proof (induction ks)
  case (Cons x xs)
  have "sorted_wrt key_less (stable_insert key_less y ys)" if "sorted_wrt key_less ys" "y \<notin> set ys" for y :: "u8 list" and ys
    using that
  proof (induction ys)
    case (Cons z zs)
    then show ?case using key_less_linear [of y z] key_less_trans [of y z] by auto
  qed simp
  moreover have "stable_sort key_less (x # xs) = stable_insert key_less x (stable_sort key_less xs)"
    by (simp add: stable_sort_def)
  ultimately show ?case using Cons by simp
qed (simp add: stable_sort_def)

lemma newest_of_entries:
  assumes "\<forall>d \<in> set ds. sorted_items d"
  shows "newest_entries ds (newest_of ds)"
  unfolding newest_entries_def
proof (intro conjI allI)
  show "sorted_wrt key_less (map fst (newest_of ds))"
    using sorted_stable_sort_keys [of "remdups (map fst (concat ds))"]
    by (simp add: newest_of_def all_keys_def comp_def del: map_concat)
  fix k i v
  have "newest_value 0 ds k = Some (i, v) \<longleftrightarrow> newest_entry ds k i v"
    using newest_value_entry [OF assms, of 0] by simp
  moreover have "k \<in> set (all_keys ds) \<longleftrightarrow> newest_value 0 ds k \<noteq> None"
    using newest_value_None [of 0 ds k] by (auto simp: all_keys_def)
  ultimately show "(k, i, v) \<in> set (newest_of ds) \<longleftrightarrow> newest_entry ds k i v"
    by (auto simp: newest_of_def)
qed

lemma newest_entries_determined: "newest_entries ds es \<Longrightarrow> newest_entries ds es' \<Longrightarrow> es = es'"
  by (rule sorted_entries_unique) (auto simp: newest_entries_def)

text \<open>With the generator that records its calls, \<open>Merge\<close> puts out \<open>merge_dictionaries\<close>.\<close>

lemma filter_inputs:
  "filter (\<lambda>(d, dk). d \<noteq> []) (map (\<lambda>(name, f). (file_entries N f, case df_deleted_keys f of None \<Rightarrow> [] | Some ks \<Rightarrow> ks)) inputs)
     = map (\<lambda>f. (file_entries N f, case df_deleted_keys f of None \<Rightarrow> [] | Some ks \<Rightarrow> ks)) (nonempty_files N inputs)"
  by (induction inputs) (auto simp: nonempty_files_def)

text \<open>
  C19: the merge of segments as the index sees it, a function on the entries of the dictionaries and their
  lists of deleted keys, is what the dictionary merger computes with its queue of entry iterators: the
  entries it hands to the generator, in this order.
\<close>

theorem merger_output:
  fixes m :: "(unit, (u8 list \<times> u64) list) merger"
  assumes "\<forall>(name, f) \<in> set inputs. file_ok N f"
    and "Add_files compatible t inputs (DictionaryMerger False) = Some (Inr m)"
  shows "\<exists>m'. Merge trace_env m = Some (Inr m') \<and> generator m' = Some (merge_dictionaries
    (map (\<lambda>(name, f). (file_entries N f, case df_deleted_keys f of None \<Rightarrow> [] | Some ks \<Rightarrow> ks)) inputs))"
proof -
  let ?fs = "nonempty_files N inputs"
  let ?segs = "map (file_entries N) ?fs" and ?dk = "map TryLoadDeletedKeys ?fs"
  from Add_files_ok [OF merger_ok_initial assms] have m: "merger_ok N False ?fs m" by simp
  then have ap: "\<not> append_merge m" by (simp add: merger_ok_def)
  from Merge_entries [of N m ?fs trace_env] m ap obtain es where es: "newest_entries ?segs es"
    and merge: "Merge trace_env m =
       Some (bind_sum (process_entries trace_env False (map df_automata ?fs) es () [] ?dk (stats m)) (\<lambda>(vs', g', dk', st').
             Inr (m\<lparr>generator := Some g', merge_store := Some vs',
                    deleted_keys := dk', stats := st'\<lparr>stat_updated_keys := length (concat ?segs) - length es\<rparr>,
                    segments_pqueue := [], dicts_to_merge := []\<rparr>)))" by (auto simp: Let_def)
  have "es = newest_of ?segs"
    by (rule newest_entries_determined [OF es newest_of_entries]) simp
  moreover have "map (\<lambda>(d, dk). stable_sort (\<lambda>a b. key_less b a) dk)
      (map (\<lambda>f. (file_entries N f, case df_deleted_keys f of None \<Rightarrow> [] | Some ks \<Rightarrow> ks)) ?fs) = ?dk"
    by (auto simp: TryLoadDeletedKeys_def stable_sort_def split: option.split)
  ultimately have "merge_dictionaries
      (map (\<lambda>(name, f). (file_entries N f, case df_deleted_keys f of None \<Rightarrow> [] | Some ks \<Rightarrow> ks)) inputs)
    = merge_emit es ?dk"
    unfolding merge_dictionaries_def filter_inputs Let_def by (simp add: comp_def cong: map_cong)
  moreover obtain dk' st' where
    "process_entries trace_env False (map df_automata ?fs) es () [] ?dk (stats m) = Inr ((), merge_emit es ?dk, dk', st')"
    using process_entries_emit [of "map df_automata ?fs" es "()" "[]" ?dk "stats m"] by auto
  ultimately show ?thesis unfolding merge by simp
qed

theorem merger_output_witness:
  "\<exists>m m'. Add_files (\<lambda>_ _. True) 1 (example_inputs [[97], [97, 98]]) (DictionaryMerger False) = Some (Inr m)
     \<and> Merge trace_env m = Some (Inr m')
     \<and> generator m' = Some (merge_dictionaries [([([97], 7), ([97, 98], 8)], [[97], [97, 98]]), ([([97], 9)], [])])"
proof -
  let ?in = "example_inputs [[97], [97, 98]]"
  obtain m :: "(unit, (u8 list \<times> u64) list) merger" where m:
    "Add_files (\<lambda>_ _. True) 1 ?in (DictionaryMerger False) = Some (Inr m)" using Add_example by blast
  have "map (\<lambda>(name, f). (file_entries (Suc (Suc 0)) f, case df_deleted_keys f of None \<Rightarrow> [] | Some ks \<Rightarrow> ks)) ?in
    = [([([97], 7), ([97, 98], 8)], [[97], [97, 98]]), ([([97], 9)], [])]"
    by (simp add: example_entries) (simp add: old_file_def new_file_def)
  with merger_output [OF example_ok m] m show ?thesis by auto
qed

subsection \<open>What a merge keeps\<close>

text \<open>
  Looking a key up in a list of dictionaries with deleted keys, newest first: the newest dictionary that
  has the key decides.
\<close>

fun hit :: "((u8 list \<times> 'w) list \<times> u8 list set) list \<Rightarrow> u8 list \<Rightarrow> ('w \<times> bool) option" where
  "hit [] k = None"
| "hit ((d, del) # xs) k = (case map_of d k of Some v \<Rightarrow> Some (v, k \<in> del) | None \<Rightarrow> hit xs k)"

definition visible :: "('w \<times> bool) option \<Rightarrow> 'w option" where
  "visible r = (case r of Some (v, False) \<Rightarrow> Some v | _ \<Rightarrow> None)"

lemma visible_simps [simp]: "visible None = None" "visible (Some (v, b)) = (if b then None else Some v)"
  by (simp_all add: visible_def)

lemma hit_append: "hit (xs @ ys) k = (case hit xs k of None \<Rightarrow> hit ys k | Some r \<Rightarrow> Some r)"
  by (induction xs k rule: hit.induct) (auto split: option.split)

lemma hit_None: "hit xs k = None \<longleftrightarrow> (\<forall>(d, del) \<in> set xs. map_of d k = None)"
  by (induction xs k rule: hit.induct) (auto split: option.split)

lemma hit_filter: "hit (filter (\<lambda>(d, del). d \<noteq> []) xs) k = hit xs k"
  by (induction xs k rule: hit.induct) (auto split: option.split)

abbreviation with_sets :: "((u8 list \<times> 'w) list \<times> u8 list list) list \<Rightarrow> ((u8 list \<times> 'w) list \<times> u8 list set) list" where
  "with_sets \<equiv> map (\<lambda>(d, dk). (d, set dk))"

lemma hit_newest_entry:
  assumes "\<forall>(d, dk) \<in> set ins. sorted_items d"
  shows "hit (rev (with_sets ins)) k = Some (v, b) \<longleftrightarrow>
    (\<exists>i. newest_entry (map fst ins) k i v \<and> b = (k \<in> set (snd (ins ! i))))"
  using assms
proof (induction ins rule: rev_induct)
  case (snoc x xs)
  obtain d dk where x: "x = (d, dk)" by (cases x)
  have d: "map_of d k = Some w \<longleftrightarrow> (k, w) \<in> set d" for w
    using snoc.prems sorted_keys_distinct [of "map fst d"] by (simp add: x sorted_items_def map_of_eq_Some_iff)
  have split: "newest_entry (map fst xs @ [d]) k i v \<longleftrightarrow>
      i = length xs \<and> (k, v) \<in> set d \<or> i < length xs \<and> newest_entry (map fst xs) k i v \<and> k \<notin> fst ` set d" for i
    by (auto simp: newest_entry_def nth_append less_Suc_eq)
  have bound: "newest_entry (map fst xs) k i v \<Longrightarrow> i < length xs" for i by (simp add: newest_entry_def)
  show ?case
  proof (cases "map_of d k")
    case None
    then have "k \<notin> fst ` set d" by (simp add: map_of_eq_None_iff)
    moreover have "(k, v) \<notin> set d" using None d by simp
    moreover have "hit (rev (with_sets xs)) k = Some (v, b) \<longleftrightarrow>
        (\<exists>i. newest_entry (map fst xs) k i v \<and> b = (k \<in> set (snd (xs ! i))))"
      using snoc by simp
    moreover have "newest_entry (map fst xs @ [d]) k i v \<and> b = (k \<in> set (snd ((xs @ [x]) ! i))) \<longleftrightarrow>
        newest_entry (map fst xs) k i v \<and> b = (k \<in> set (snd (xs ! i)))" for i
      using calculation bound [of i] by (auto simp: split nth_append)
    ultimately show ?thesis using None by (simp add: x)
  next
    case (Some w)
    then have "k \<in> fst ` set d" by (auto simp: d intro: rev_image_eqI)
    moreover have "(k, v) \<in> set d \<longleftrightarrow> v = w" using Some d [of v] by auto
    ultimately show ?thesis using Some by (auto simp: x split)
  qed
qed (simp add: newest_entry_def)

text \<open>The lists a merge handles correctly: the newest dictionary that has a deleted key lists it as deleted.\<close>

definition merge_clean :: "((u8 list \<times> 'w) list \<times> u8 list list) list \<Rightarrow> bool" where
  "merge_clean ins \<longleftrightarrow> (\<forall>(d, dk) \<in> set ins. d \<noteq> [] \<longrightarrow>
     (\<forall>k \<in> set dk. \<exists>v. hit (rev (with_sets ins)) k = Some (v, True)))"

lemma merge_emit_surviving:
  assumes "sorted_wrt key_less (map fst es)" "deletes_ok es dk"
  shows "merge_emit es dk = map (\<lambda>(k, i, v). (k, v)) (surviving dk es)"
  using assms
proof (induction es arbitrary: dk)
  case (Cons e es)
  obtain k i v where e: "e = (k, i, v)" by (cases e)
  note prems = Cons.prems [unfolded e]
  let ?st = "\<lparr>stat_number_of_keys = 0, stat_deleted_keys = 0, stat_updated_keys = 0\<rparr>"
  have IH: "merge_emit es (map (removeAll k) dk) = map (\<lambda>(k, i, v). (k, v)) (surviving dk es)"
    using Cons.IH [OF _ deletes_ok_removeAll [OF prems]] prems(1) by (simp add: surviving_removeAll [OF prems])
  from KeyDeleted_ok [OF prems, of ?st] obtain st1 where
    "KeyDeleted i k dk ?st = (k \<in> set (dk ! i), map (removeAll k) dk, st1)" by blast
  with IH show ?case
    unfolding KeyDeleted_emit by (cases "k \<in> set (dk ! i)") (auto simp: e surviving_def split: if_splits)
qed (simp add: surviving_def)

lemma merge_emit_sorted:
  assumes "sorted_wrt key_less (map fst es)"
  shows "sorted_wrt key_less (map fst (merge_emit es dk)) \<and> set (merge_emit es dk) \<subseteq> (\<lambda>(k, i, v). (k, v)) ` set es"
  using assms
proof (induction es dk rule: merge_emit.induct)
  case (2 k i v es dk)
  show ?case
  proof (cases "dk ! i \<noteq> [] \<and> k = last (dk ! i)")
    case True
    then show ?thesis using 2 by auto
  next
    case False
    have rest: "sorted_wrt key_less (map fst (merge_emit es dk))"
      "set (merge_emit es dk) \<subseteq> (\<lambda>(k, i, v). (k, v)) ` set es" using 2(2) [OF False] "2.prems" by simp_all
    have "key_less k (fst x)" if "x \<in> set (merge_emit es dk)" for x
      using subsetD [OF rest(2) that] "2.prems" by auto
    with rest False show ?thesis by auto
  qed
qed simp

lemma merge_dictionaries_sorted:
  assumes "\<forall>(d, dk) \<in> set ins. sorted_items d"
  shows "sorted_items (merge_dictionaries ins)"
proof -
  let ?ins = "filter (\<lambda>(d, dk). d \<noteq> []) ins"
  have "sorted_wrt key_less (map fst (newest_of (map fst ?ins)))"
    using newest_of_entries [of "map fst ?ins"] assms by (auto simp: newest_entries_def)
  then show ?thesis
    unfolding sorted_items_def merge_dictionaries_def Let_def by (rule merge_emit_sorted [THEN conjunct1])
qed

lemma descending_stable_sort: "distinct ks \<Longrightarrow> descending (stable_sort (\<lambda>a b. key_less b a) ks)"
  using descending_TryLoadDeletedKeys [of "\<lparr>df_automata = undefined, df_value_store_type = 0, df_deleted_keys = Some ks\<rparr>"]
  by (simp add: TryLoadDeletedKeys_def)

text \<open>The merged dictionary has what a lookup in its inputs finds.\<close>

lemma merge_dictionaries_hit:
  assumes sorted: "\<forall>(d, dk) \<in> set ins. sorted_items d \<and> distinct dk" and clean: "merge_clean ins"
  shows "map_of (merge_dictionaries ins) k = visible (hit (rev (with_sets ins)) k)"
proof -
  let ?ins = "filter (\<lambda>(d, dk). d \<noteq> []) ins"
  let ?es = "newest_of (map fst ?ins)" and ?dk = "map (\<lambda>(d, dk). stable_sort (\<lambda>a b. key_less b a) dk) ?ins"
  have s: "\<forall>(d, dk) \<in> set ?ins. sorted_items d" "\<forall>d \<in> set (map fst ?ins). sorted_items d" using sorted by auto
  note es = newest_of_entries [OF s(2)]
  then have sorted_es: "sorted_wrt key_less (map fst ?es)"
    and newest: "\<And>k i v. (k, i, v) \<in> set ?es \<longleftrightarrow> newest_entry (map fst ?ins) k i v" by (simp_all add: newest_entries_def)
  have same: "hit (rev (with_sets ?ins)) = hit (rev (with_sets ins))"
  proof -
    have "with_sets ?ins = filter (\<lambda>(d, del). d \<noteq> []) (with_sets ins)" by (induction ins) auto
    then have "rev (with_sets ?ins) = filter (\<lambda>(d, del). d \<noteq> []) (rev (with_sets ins))" by (simp add: rev_filter)
    then show ?thesis by (simp add: fun_eq_iff hit_filter)
  qed
  have dk_nth: "set (?dk ! i) = set (snd (?ins ! i))" if "i < length ?ins" for i
    using that by (simp add: split_beta)
  have hit: "hit (rev (with_sets ins)) k = Some (v, b) \<longleftrightarrow>
      (\<exists>i. (k, i, v) \<in> set ?es \<and> b = (k \<in> set (?dk ! i)))" for k v b
  proof -
    have bound: "i < length ?ins" if "newest_entry (map fst ?ins) k i v" for i using that by (simp add: newest_entry_def)
    show ?thesis unfolding same [symmetric] newest hit_newest_entry [OF s(1)]
      by (rule ex_cong1) (use bound dk_nth in blast)
  qed
  have "deletes_ok ?es ?dk"
    unfolding deletes_ok_def
  proof (intro conjI ballI)
    show "descending d" if "d \<in> set ?dk" for d using that sorted descending_stable_sort by auto
    show "case e of (k, i, v) \<Rightarrow> i < length ?dk" if "e \<in> set ?es" for e
      using newest_index [OF es] that by (cases e) simp
    fix d k assume d: "d \<in> set ?dk" "k \<in> set d"
    then obtain d' dk where "(d', dk) \<in> set ?ins" "k \<in> set dk" by auto
    with clean obtain v where "hit (rev (with_sets ins)) k = Some (v, True)" by (force simp: merge_clean_def)
    then show "\<exists>(k', i, v) \<in> set ?es. k' = k \<and> k \<in> set (?dk ! i)" by (auto simp: hit)
  qed
  then have emit: "merge_dictionaries ins = map (\<lambda>(k, i, v). (k, v)) (surviving ?dk ?es)"
    by (simp add: merge_dictionaries_def Let_def merge_emit_surviving [OF sorted_es])
  show ?thesis
  proof (rule map_of_unique)
    show "distinct (map fst (merge_dictionaries ins))"
      using merge_dictionaries_sorted [of ins] sorted sorted_keys_distinct by (auto simp: sorted_items_def)
    show "(k, v) \<in> set (merge_dictionaries ins) \<longleftrightarrow> visible (hit (rev (with_sets ins)) k) = Some v" for v
    proof -
      have "(k, v) \<in> set (merge_dictionaries ins) \<longleftrightarrow> hit (rev (with_sets ins)) k = Some (v, False)"
        unfolding hit emit by (force simp: surviving_def)
      then show ?thesis by (cases "hit (rev (with_sets ins)) k") (auto split: if_splits)
    qed
  qed
qed

section \<open>Merge jobs\<close>

text \<open>
  A job merges its segments in a thread of the process or in a process of its own.  The segments of a job are
  shared with the list of the writer; they are named here, and the objects live in a store.  The end of a
  merge is a step of its own: the thread or process reads the files of the segments and writes the merged
  dictionary, unless the environment makes it fail.
\<close>

datatype merge_process = Not_Started | Internal_Thread bool | Joined_Thread | External_Process "int option" | Released

record MergeJob =
  mj_segments :: "filename list"
  output_filename :: filename
  job_id :: nat
  exit_code :: int
  merge_done :: bool
  process_finished :: bool
  mj_process :: merge_process

definition MergeJob_new :: "filename list \<Rightarrow> nat \<Rightarrow> filename \<Rightarrow> MergeJob" where
  "MergeJob_new segs i out =
     \<lparr>mj_segments = segs, output_filename = out, job_id = i, exit_code = -1, merge_done = False,
      process_finished = False, mj_process = Not_Started\<rparr>"

definition merge_inputs :: "index_files \<Rightarrow> filename list \<Rightarrow> (dict \<times> deleted_t) list" where
  "merge_inputs f ns = map (\<lambda>n. (the (dictionary_files f n), LoadAndUnserializeDeletedKeys (dk_files f n))) ns"

definition execute_merge :: "bool \<Rightarrow> index_files \<Rightarrow> filename list \<Rightarrow> filename \<Rightarrow> index_files \<times> int" where
  "execute_merge succeeds f ns out =
     (if succeeds \<and> (\<forall>n \<in> set ns. dictionary_files f n \<noteq> None)
      then (f\<lparr>dictionary_files := (dictionary_files f)(out \<mapsto> merge_dictionaries (merge_inputs f ns))\<rparr>, 0)
      else (f, 1))"

definition mj_Run :: "nat \<Rightarrow> nat \<Rightarrow> bool \<Rightarrow> MergeJob \<Rightarrow> MergeJob" where
  "mj_Run threshold job_size force_external_merge j =
     (if \<not> force_external_merge \<and> job_size < threshold then j\<lparr>mj_process := Internal_Thread False\<rparr>
      else j\<lparr>mj_process := External_Process None\<rparr>)"

text \<open>The thread or process reaches its end.\<close>

definition mj_execute :: "bool \<Rightarrow> index_files \<times> MergeJob \<Rightarrow> index_files \<times> MergeJob" where
  "mj_execute succeeds = (\<lambda>(f, j).
     (case mj_process j of
       Internal_Thread False \<Rightarrow>
         (let (f', code) = execute_merge succeeds f (mj_segments j) (output_filename j)
          in (f', j\<lparr>exit_code := code, mj_process := Internal_Thread True\<rparr>))
     | External_Process None \<Rightarrow>
         (let (f', code) = execute_merge succeeds f (mj_segments j) (output_filename j)
          in (f', j\<lparr>mj_process := External_Process (Some code)\<rparr>))
     | _ \<Rightarrow> (f, j)))"

text \<open>Joining a thread waits until it has finished, also in \<open>TryFinalize\<close>.\<close>

definition TryFinalizeMerge :: "bool \<Rightarrow> index_files \<times> MergeJob \<Rightarrow> bool \<times> index_files \<times> MergeJob" where
  "TryFinalizeMerge succeeds = (\<lambda>(f, j).
     (case mj_process j of
       External_Process (Some code) \<Rightarrow>
         (True, f, j\<lparr>exit_code := code, process_finished := True, mj_process := Released\<rparr>)
     | External_Process None \<Rightarrow> (False, f, j)
     | Internal_Thread b \<Rightarrow>
         (let (f', j') = mj_execute succeeds (f, j)
          in (True, f', j'\<lparr>process_finished := True, mj_process := Joined_Thread\<rparr>))
     | _ \<Rightarrow> (False, f, j)))"

definition TryFinalize :: "bool \<Rightarrow> index_files \<times> MergeJob \<Rightarrow> bool \<times> index_files \<times> MergeJob" where
  "TryFinalize succeeds = (\<lambda>(f, j). if process_finished j then (True, f, j) else TryFinalizeMerge succeeds (f, j))"

definition mj_FinalizeMerge :: "bool \<Rightarrow> index_files \<times> MergeJob \<Rightarrow> index_files \<times> MergeJob" where
  "mj_FinalizeMerge succeeds = (\<lambda>(f, j).
     let (f', j') = mj_execute succeeds (f, j)
     in (f', (case mj_process j' of
                External_Process (Some code) \<Rightarrow> j'\<lparr>exit_code := code, mj_process := Released\<rparr>
              | Internal_Thread b \<Rightarrow> j'\<lparr>mj_process := Joined_Thread\<rparr>
              | _ \<Rightarrow> j')\<lparr>process_finished := True\<rparr>))"

definition mj_Finalize :: "bool \<Rightarrow> index_files \<times> MergeJob \<Rightarrow> index_files \<times> MergeJob" where
  "mj_Finalize succeeds = (\<lambda>(f, j). if \<not> process_finished j then mj_FinalizeMerge succeeds (f, j) else (f, j))"

definition Successful :: "MergeJob \<Rightarrow> bool" where
  "Successful j \<longleftrightarrow> exit_code j = 0"

section \<open>Merge policies\<close>

text \<open>
  A policy chooses names of segments; asking a segment for its deletions loads them, so that the store of
  segments is threaded through.  The number of keys of a segment is a property of its dictionary file.
\<close>

type_synonym segment_store = "filename \<Rightarrow> Segment option"

definition number_of_keys_of :: "index_files \<Rightarrow> filename \<Rightarrow> nat" where
  "number_of_keys_of f n = (case dictionary_files f n of None \<Rightarrow> 0 | Some d \<Rightarrow> length d)"

definition deleted_size_of :: "index_files \<Rightarrow> filename \<Rightarrow> segment_store \<Rightarrow> nat \<times> segment_store" where
  "deleted_size_of f n st = (let (m, s') = Seg_DeletedKeysSize False f (the (st n)) in (m, st(n \<mapsto> s')))"

definition MarkedForMerge :: "segment_store \<Rightarrow> filename \<Rightarrow> bool" where
  "MarkedForMerge st n \<longleftrightarrow> in_merge (the (st n))"

definition MAX_SEGMENT_PER_MERGE :: nat where
  "MAX_SEGMENT_PER_MERGE = 500"

fun simple_collect :: "segment_store \<Rightarrow> filename list \<Rightarrow> filename list \<Rightarrow> filename list" where
  "simple_collect st [] to_merge = to_merge"
| "simple_collect st (n # ns) to_merge =
     (let to_merge' = (if \<not> MarkedForMerge st n then to_merge @ [n] else to_merge)
      in if length to_merge' > MAX_SEGMENT_PER_MERGE then to_merge' else simple_collect st ns to_merge')"

definition SimpleMergePolicy_select ::
  "index_files \<Rightarrow> filename list \<Rightarrow> segment_store \<Rightarrow> filename list option \<times> segment_store" where
  "SimpleMergePolicy_select f segs st =
     (let to_merge = simple_collect st segs []
      in if length to_merge > 1 then (Some to_merge, st)
         else if length to_merge = 1
         then (let (n, st') = deleted_size_of f (to_merge ! 0) st
               in if n > 0 then (Some to_merge, st') else (None, st'))
         else (None, st))"

definition TIERED_MERGE_MAX_SEGMENT_PER_MERGE :: nat where
  "TIERED_MERGE_MAX_SEGMENT_PER_MERGE = 20"

definition TIERED_MERGE_FLOOR_SEGMENT_KEY_SIZE :: nat where
  "TIERED_MERGE_FLOOR_SEGMENT_KEY_SIZE = 10000"

text \<open>
  The score of a candidate is computed in floating point from four integers; \<open>rate\<close> stands for that
  computation.  Smaller is better.
\<close>

fun score_sums ::
  "index_files \<Rightarrow> filename list \<Rightarrow> segment_store \<Rightarrow> nat \<times> nat \<times> nat \<times> nat \<Rightarrow> (nat \<times> nat \<times> nat \<times> nat) \<times> segment_store" where
  "score_sums f [] st acc = (acc, st)"
| "score_sums f (n # ns) st (total_size, total_size_floored, total_deletes, biggest) =
     (let size = number_of_keys_of f n; (dels, st') = deleted_size_of f n st
      in score_sums f ns st' (total_size + size, total_size_floored + max TIERED_MERGE_FLOOR_SEGMENT_KEY_SIZE size,
           total_deletes + dels, max biggest size))"

definition ScoreCandidate ::
  "(nat \<times> nat \<times> nat \<times> nat \<Rightarrow> real) \<Rightarrow> index_files \<Rightarrow> filename list \<Rightarrow> segment_store \<Rightarrow> real \<times> segment_store" where
  "ScoreCandidate rate f candidate st = (let (acc, st') = score_sums f candidate st (0, 0, 0, 0) in (rate acc, st'))"

text \<open>The candidate that starts at a segment: its successors up to a segment in a merge, twenty at most.\<close>

fun tiered_candidate :: "segment_store \<Rightarrow> filename list \<Rightarrow> nat \<Rightarrow> filename list" where
  "tiered_candidate st [] room = []"
| "tiered_candidate st (n # ns) room =
     (if MarkedForMerge st n then [] else if room = 1 then [n] else n # tiered_candidate st ns (room - 1))"

fun tiered_loop ::
  "(nat \<times> nat \<times> nat \<times> nat \<Rightarrow> real) \<Rightarrow> index_files \<Rightarrow> filename list \<Rightarrow> segment_store \<Rightarrow> real \<Rightarrow> filename list \<Rightarrow>
     filename list \<times> segment_store" where
  "tiered_loop rate f [] st best_score best = (best, st)"
| "tiered_loop rate f (n # ns) st best_score best =
     (let candidate = tiered_candidate st (n # ns) TIERED_MERGE_MAX_SEGMENT_PER_MERGE
      in if candidate = [] then tiered_loop rate f ns st best_score best
         else (let (skip, st1) = (if length candidate = 1
                                  then (let (m, st') = deleted_size_of f (candidate ! 0) st in (m = 0, st'))
                                  else (False, st))
               in if skip then tiered_loop rate f ns st1 best_score best
                  else (let (score, st2) = ScoreCandidate rate f candidate st1
                        in if best_score = -1 \<or> score < best_score then tiered_loop rate f ns st2 score candidate
                           else tiered_loop rate f ns st2 best_score best)))"

definition TieredMergePolicy_select ::
  "(nat \<times> nat \<times> nat \<times> nat \<Rightarrow> real) \<Rightarrow> index_files \<Rightarrow> filename list \<Rightarrow> segment_store \<Rightarrow> filename list option \<times> segment_store" where
  "TieredMergePolicy_select rate f segs st =
     (let (best, st') = tiered_loop rate f segs st (-1) [] in (if best \<noteq> [] then Some best else None, st'))"

datatype merge_policy_kind = SimpleMergePolicy | TieredMergePolicy

definition to_lower :: "string \<Rightarrow> string" where
  "to_lower s = map (\<lambda>c. if of_char c \<ge> (65 :: nat) \<and> of_char c \<le> (90 :: nat) then char_of (of_char c + 32 :: nat) else c) s"

definition merge_policy :: "string \<Rightarrow> index_error + merge_policy_kind" where
  "merge_policy name =
     (if to_lower name = ''simple'' then Inr SimpleMergePolicy
      else if to_lower name = ''tiered'' then Inr TieredMergePolicy
      else Inl (Merge_Policy_Unknown (name @ '' is not a valid merge policy'')))"

subsection \<open>What the writer expects of a policy\<close>

text \<open>Asking segments for their deletions loads them and changes nothing else.\<close>

definition lazily :: "index_files \<Rightarrow> segment_store \<Rightarrow> segment_store \<Rightarrow> bool" where
  "lazily f st st' \<longleftrightarrow> (\<forall>n. st' n = st n \<or> st' n = map_option (LazyLoadDeletedKeys False f) (st n))"

lemma lazily_refl [simp]: "lazily f st st"
  by (simp add: lazily_def)

lemma LazyLoad_loaded: "deletes_loaded s \<Longrightarrow> LazyLoadDeletedKeys held f s = s"
  by (simp add: LazyLoadDeletedKeys_def)

lemma LazyLoad_fields [simp]:
  "deletes_loaded (LazyLoadDeletedKeys held f s)" "in_merge (LazyLoadDeletedKeys held f s) = in_merge s"
  "dictionary_path (LazyLoadDeletedKeys held f s) = dictionary_path s"
  by (simp_all add: LazyLoadDeletedKeys_def Let_def)

lemma lazily_trans: "lazily f st st' \<Longrightarrow> lazily f st' st'' \<Longrightarrow> lazily f st st''"
proof -
  assume l: "lazily f st st'" "lazily f st' st''"
  have "st'' n = st n \<or> st'' n = map_option (LazyLoadDeletedKeys False f) (st n)" for n
  proof -
    let ?L = "LazyLoadDeletedKeys False f"
    have "map_option ?L (map_option ?L (st n)) = map_option ?L (st n)"
      by (cases "st n") (simp_all add: LazyLoad_loaded)
    moreover have "st' n = st n \<or> st' n = map_option ?L (st n)" "st'' n = st' n \<or> st'' n = map_option ?L (st' n)"
      using l by (simp_all add: lazily_def)
    ultimately show ?thesis by auto
  qed
  then show ?thesis by (simp add: lazily_def)
qed

lemma lazily_cases:
  assumes "lazily f st st'" "st n = Some s"
  obtains s' where "st' n = Some s'" "s' = s \<or> s' = LazyLoadDeletedKeys False f s"
  using assms by (auto simp: lazily_def dest: spec [of _ n])

lemma lazily_loaded:
  assumes "lazily f st st'" "st n \<noteq> None"
  shows "st' n \<noteq> None" "in_merge (the (st' n)) = in_merge (the (st n))"
    "deletes_loaded (the (st n)) \<Longrightarrow> deletes_loaded (the (st' n))"
proof (atomize (full))
  obtain s where s: "st n = Some s" using assms(2) by blast
  obtain s' where "st' n = Some s'" "s' = s \<or> s' = LazyLoadDeletedKeys False f s" by (rule lazily_cases [OF assms(1) s])
  with s show "st' n \<noteq> None \<and> in_merge (the (st' n)) = in_merge (the (st n))
      \<and> (deletes_loaded (the (st n)) \<longrightarrow> deletes_loaded (the (st' n)))" by auto
qed

locale adjacent_policy =
  fixes select :: "index_files \<Rightarrow> filename list \<Rightarrow> segment_store \<Rightarrow> filename list option \<times> segment_store"
  assumes select_lazily: "\<forall>n \<in> set segs. st n \<noteq> None \<Longrightarrow> lazily f st (snd (select f segs st))"
    and select_adjacent: "\<forall>n \<in> set segs. st n \<noteq> None \<Longrightarrow> select f segs st = (Some ns, st') \<Longrightarrow>
      ns \<noteq> [] \<and> (\<exists>pre post. segs = pre @ ns @ post)"
    and select_unmarked: "\<forall>n \<in> set segs. st n \<noteq> None \<Longrightarrow> select f segs st = (Some ns, st') \<Longrightarrow> n \<in> set ns \<Longrightarrow>
      \<not> MarkedForMerge st n \<and> deletes_loaded (the (st' n))"

lemma deleted_size_of_lazily: "st n \<noteq> None \<Longrightarrow> lazily f st (snd (deleted_size_of f n st))"
  by (auto simp: deleted_size_of_def Seg_DeletedKeysSize_def Let_def lazily_def)

lemma deleted_size_of_loads: "deletes_loaded (the (snd (deleted_size_of f n st) n))"
  by (simp add: deleted_size_of_def Seg_DeletedKeysSize_def Let_def)

lemma score_acc_loads:
  assumes "\<forall>n \<in> set ns. st n \<noteq> None"
  shows "lazily f st (snd (score_sums f ns st acc)) \<and> (\<forall>n \<in> set ns. deletes_loaded (the (snd (score_sums f ns st acc) n)))"
  using assms
proof (induction f ns st acc rule: score_sums.induct)
  case (2 f n ns st a b c d)
  let ?st = "snd (deleted_size_of f n st)"
  obtain m where m: "deleted_size_of f n st = (m, ?st)" by (cases "deleted_size_of f n st") simp
  have l: "lazily f st ?st" "?st n \<noteq> None"
    using "2.prems" deleted_size_of_lazily lazily_loaded(1) by (simp, metis list.set_intros(1))
  have "\<forall>k \<in> set ns. ?st k \<noteq> None" using "2.prems" lazily_loaded(1) [OF l(1)] by simp
  note IH = "2.IH" [OF refl m [symmetric] refl this]
  have "deletes_loaded (the (?st n))" by (rule deleted_size_of_loads)
  then have "deletes_loaded (the (snd (score_sums f (n # ns) st (a, b, c, d)) n))"
    using lazily_loaded(3) [OF conjunct1 [OF IH] l(2)] by (subst score_sums.simps, subst m) (simp add: Let_def)
  moreover have "lazily f st (snd (score_sums f (n # ns) st (a, b, c, d)))"
    using lazily_trans [OF l(1) conjunct1 [OF IH]] by (subst score_sums.simps, subst m) (simp add: Let_def)
  moreover have "\<forall>k \<in> set ns. deletes_loaded (the (snd (score_sums f (n # ns) st (a, b, c, d)) k))"
    using IH by (subst score_sums.simps, subst m) (simp add: Let_def)
  ultimately show ?case by simp
qed simp

lemma tiered_candidate_prefix:
  "(\<exists>post. ns = tiered_candidate st ns room @ post) \<and> (\<forall>n \<in> set (tiered_candidate st ns room). \<not> MarkedForMerge st n)"
  by (induction st ns room rule: tiered_candidate.induct) auto

lemma lazily_marked: "lazily f st st' \<Longrightarrow> st n \<noteq> None \<Longrightarrow> MarkedForMerge st' n = MarkedForMerge st n"
  by (simp add: MarkedForMerge_def lazily_loaded)

text \<open>The best candidate so far: adjacent segments that are in no merge and have been loaded.\<close>

definition elected_ok :: "filename list \<Rightarrow> segment_store \<Rightarrow> filename list \<Rightarrow> bool" where
  "elected_ok segs st ns \<longleftrightarrow> (\<exists>pre post. segs = pre @ ns @ post)
     \<and> (\<forall>n \<in> set ns. \<not> MarkedForMerge st n \<and> deletes_loaded (the (st n)))"

lemma elected_ok_lazily:
  assumes "elected_ok segs st ns" "lazily f st st'" "\<forall>n \<in> set segs. st n \<noteq> None"
  shows "elected_ok segs st' ns"
proof -
  have "set ns \<subseteq> set segs" using assms(1) by (auto simp: elected_ok_def)
  then have "st n \<noteq> None" if "n \<in> set ns" for n using that assms(3) by blast
  then show ?thesis using assms lazily_marked [OF assms(2)] lazily_loaded(3) [OF assms(2)] by (simp add: elected_ok_def)
qed

lemma tiered_loop_ok:
  assumes "\<forall>n \<in> set segs. st n \<noteq> None" "segs = front @ ns" "elected_ok segs st best"
  shows "lazily f st (snd (tiered_loop rate f ns st sc0 best))
    \<and> elected_ok segs (snd (tiered_loop rate f ns st sc0 best)) (fst (tiered_loop rate f ns st sc0 best))"
  using assms
proof (induction ns arbitrary: st sc0 best front)
  case (Cons n ns)
  let ?c = "tiered_candidate st (n # ns) TIERED_MERGE_MAX_SEGMENT_PER_MERGE"
  have next': "segs = (front @ [n]) @ ns" using Cons.prems(2) by simp
  obtain post where post: "n # ns = ?c @ post" using tiered_candidate_prefix by blast
  then have sub: "set ?c \<subseteq> set segs" using Cons.prems(2) by (metis Un_iff set_append subsetI)
  let ?l = "if length ?c = 1 then (let (m, st') = deleted_size_of f (?c ! 0) st in (m = 0, st')) else (False, st)"
  obtain skip st1 where l: "?l = (skip, st1)" by fastforce
  have st1: "lazily f st st1" if "?c \<noteq> []"
  proof -
    have "?c ! 0 \<in> set segs" using that sub by (metis length_greater_0_conv nth_mem subsetD)
    then have "lazily f st (snd (deleted_size_of f (?c ! 0) st))" using Cons.prems(1) by (intro deleted_size_of_lazily) simp
    then show ?thesis using l by (auto simp: Let_def split_beta split: if_splits)
  qed
  have some: "\<forall>k \<in> set segs. st1 k \<noteq> None" if "?c \<noteq> []"
    using lazily_loaded(1) [OF st1 [OF that]] Cons.prems(1) by blast
  have best1: "elected_ok segs st1 best" if "?c \<noteq> []"
    using elected_ok_lazily [OF Cons.prems(3) st1 [OF that] Cons.prems(1)] .
  show ?case
  proof (cases "?c = []")
    case True
    then show ?thesis using Cons.IH [OF Cons.prems(1) next' Cons.prems(3)] by simp
  next
    case c: False
    show ?thesis
    proof (cases skip)
      case True
      have "tiered_loop rate f (n # ns) st sc0 best = tiered_loop rate f ns st1 sc0 best"
        using c l True by (simp add: Let_def split_beta del: tiered_candidate.simps)
      then show ?thesis
        using Cons.IH [OF some [OF c] next' best1 [OF c]] lazily_trans [OF st1 [OF c]] by simp
    next
      case False
      obtain sc st2 where sc: "ScoreCandidate rate f ?c st1 = (sc, st2)" by fastforce
      then have "st2 = snd (score_sums f ?c st1 (0, 0, 0, 0))" by (auto simp: ScoreCandidate_def split_beta Let_def)
      then have st2: "lazily f st1 st2" "\<forall>k \<in> set ?c. deletes_loaded (the (st2 k))"
        using score_acc_loads [of ?c st1 f "(0, 0, 0, 0)"] some [OF c] sub by blast+
      have loop: "tiered_loop rate f (n # ns) st sc0 best =
          (if sc0 = -1 \<or> sc < sc0 then tiered_loop rate f ns st2 sc ?c else tiered_loop rate f ns st2 sc0 best)"
        using c l False sc by (simp add: Let_def split_beta del: tiered_candidate.simps)
      have st': "lazily f st st2" using lazily_trans [OF st1 [OF c] st2(1)] .
      have some2: "\<forall>k \<in> set segs. st2 k \<noteq> None" using lazily_loaded(1) [OF st'] Cons.prems(1) by blast
      have "elected_ok segs st2 ?c"
        unfolding elected_ok_def
      proof (intro conjI ballI)
        show "\<exists>pre post. segs = pre @ ?c @ post" using post Cons.prems(2) by blast
        fix k assume k: "k \<in> set ?c"
        show "\<not> MarkedForMerge st2 k"
          using k sub Cons.prems(1) tiered_candidate_prefix lazily_marked [OF st'] by blast
        show "deletes_loaded (the (st2 k))" using st2(2) k by blast
      qed
      moreover have "elected_ok segs st2 best" using elected_ok_lazily [OF Cons.prems(3) st' Cons.prems(1)] .
      ultimately show ?thesis
        unfolding loop using Cons.IH [OF some2 next'] lazily_trans [OF st'] by simp
    qed
  qed
qed simp

interpretation tiered: adjacent_policy "TieredMergePolicy_select rate" for rate
proof
  fix segs :: "filename list" and st :: segment_store and f
  assume some: "\<forall>n \<in> set segs. st n \<noteq> None"
  have "elected_ok segs st []" unfolding elected_ok_def by (metis append_Nil empty_iff empty_set)
  note ok = tiered_loop_ok [OF some _ this, of "[]" segs f rate "-1", simplified]
  show "lazily f st (snd (TieredMergePolicy_select rate f segs st))"
    using ok by (simp add: TieredMergePolicy_select_def Let_def split_beta)
  fix ns st'
  assume sel: "TieredMergePolicy_select rate f segs st = (Some ns, st')"
  then have ns: "elected_ok segs st' ns" "ns \<noteq> []" "lazily f st st'"
    using ok by (auto simp: TieredMergePolicy_select_def Let_def split_beta split: if_splits)
  then show "ns \<noteq> [] \<and> (\<exists>pre post. segs = pre @ ns @ post)" by (simp add: elected_ok_def)
  fix n assume n: "n \<in> set ns"
  have "st n \<noteq> None" using n ns(1) some by (auto simp: elected_ok_def)
  then show "\<not> MarkedForMerge st n \<and> deletes_loaded (the (st' n))"
    using n ns(1) lazily_marked [OF ns(3), of n] by (auto simp: elected_ok_def)
qed

end
