(* ===== verification/Index_Writer.thy ===== *)
theory Index_Writer
  imports Index_Merge
begin

text \<open>
  The writer of an index, \<open>index/internal/index_writer_worker.h\<close> and \<open>util/active_object.h\<close>.  Clients put
  messages into a queue; one worker thread takes them out in order and runs a scheduled task in between;
  merges run in threads and processes of their own.  Every step of the worker is a function on the payload,
  which holds the files of the index, too.

  The names that \<open>unique_path\<close> draws are arguments of the steps.  The environment says how merges end, which
  segments clients still use, and carries the settings.
\<close>

record index_env =
  select_segments :: "index_files \<Rightarrow> filename list \<Rightarrow> segment_store \<Rightarrow> filename list option \<times> segment_store"
  merge_succeeds :: "filename \<Rightarrow> bool"
  in_use :: "filename \<Rightarrow> bool"
  max_concurrent_merges :: nat
  max_segments :: nat
  compile_key_threshold :: nat
  external_merge_key_threshold :: nat

record IndexPayload =
  p_files :: index_files
  p_store :: segment_store
  p_compiler :: "index_compiler option"
  p_segments :: "filename list"
  merge_jobs :: "MergeJob list"
  any_delete :: bool
  merge_enabled :: bool

section \<open>Adding and deleting\<close>

definition CreateCompilerIfNeeded :: "IndexPayload \<Rightarrow> IndexPayload" where
  "CreateCompilerIfNeeded w =
     (if p_compiler w = None then w\<lparr>p_compiler := Some (DictionaryIndexCompiler 10000)\<rparr> else w)"

definition compiler_Add :: "u8 list \<Rightarrow> string \<Rightarrow> IndexPayload \<Rightarrow> index_error + IndexPayload" where
  "compiler_Add k v w =
     (case ic_Add k v (the (p_compiler w)) of Inl e \<Rightarrow> Inl (Compiler_Failed e) | Inr c \<Rightarrow> Inr (w\<lparr>p_compiler := Some c\<rparr>))"

definition do_Add :: "u8 list \<Rightarrow> string \<Rightarrow> IndexPayload \<Rightarrow> index_error + IndexPayload" where
  "do_Add k v w = compiler_Add k v (CreateCompilerIfNeeded w)"

fun compiler_AddAll :: "(u8 list \<times> string) list \<Rightarrow> IndexPayload \<Rightarrow> index_error + IndexPayload" where
  "compiler_AddAll [] w = Inr w"
| "compiler_AddAll ((k, v) # kvs) w = bind_sum (compiler_Add k v w) (compiler_AddAll kvs)"

definition do_AddAll :: "(u8 list \<times> string) list \<Rightarrow> IndexPayload \<Rightarrow> index_error + IndexPayload" where
  "do_AddAll kvs w = compiler_AddAll kvs (CreateCompilerIfNeeded w)"

fun delete_in_segments :: "u8 list \<Rightarrow> filename list \<Rightarrow> IndexPayload \<Rightarrow> index_error + IndexPayload" where
  "delete_in_segments k [] w = Inr w"
| "delete_in_segments k (n # ns) w =
     bind_sum (DeleteKey False (p_files w) k (the (p_store w n))) (\<lambda>s.
       delete_in_segments k ns (w\<lparr>p_store := (p_store w)(n \<mapsto> s)\<rparr>))"

definition do_Delete :: "u8 list \<Rightarrow> IndexPayload \<Rightarrow> index_error + IndexPayload" where
  "do_Delete k w =
     (let w1 = w\<lparr>any_delete := True, p_compiler := map_option (ic_Delete k) (p_compiler w)\<rparr>
      in delete_in_segments k (p_segments w1) w1)"

section \<open>Persisting and compiling\<close>

definition WriteToc :: "IndexPayload \<Rightarrow> IndexPayload" where
  "WriteToc w = w\<lparr>p_files := (p_files w)\<lparr>toc_file := Some (p_segments w)\<rparr>\<rparr>"

definition persist_segment :: "filename \<Rightarrow> IndexPayload \<Rightarrow> IndexPayload" where
  "persist_segment n w =
     (let (persisted, f) = Seg_Persist (p_files w) (the (p_store w n))
      in if persisted
         then w\<lparr>p_files := f, p_store := (p_store w)(n \<mapsto> ReloadDeletedKeys False f (the (p_store w n)))\<rparr>
         else w)"

definition PersistDeletes :: "IndexPayload \<Rightarrow> IndexPayload" where
  "PersistDeletes w = (if any_delete w then fold persist_segment (p_segments w) w else w)\<lparr>any_delete := False\<rparr>"

definition do_Compile :: "filename \<Rightarrow> IndexPayload \<Rightarrow> index_error + IndexPayload" where
  "do_Compile p w =
     (case p_compiler w of
       None \<Rightarrow> Inr w
     | Some c \<Rightarrow>
         (case ic_Write (ic_Compile c) of
           Inl e \<Rightarrow> Inl (Compiler_Failed e)
         | Inr d \<Rightarrow>
             (let w1 = w\<lparr>p_files := (p_files w)\<lparr>dictionary_files := (dictionary_files (p_files w))(p \<mapsto> d)\<rparr>, p_compiler := None\<rparr>
              in bind_sum (Segment_new (p_files w1) p True) (\<lambda>s.
                   Inr (WriteToc (w1\<lparr>p_store := (p_store w1)(p \<mapsto> s), p_segments := p_segments w1 @ [p]\<rparr>))))))"

section \<open>Merging\<close>

text \<open>The list of segments without those of the job, whose first is replaced by the merged one.\<close>

fun replace_segments :: "filename list \<Rightarrow> filename \<Rightarrow> bool \<Rightarrow> filename list \<Rightarrow> filename list" where
  "replace_segments old out merged_new_segment [] = []"
| "replace_segments old out merged_new_segment (n # ns) =
     (if n \<in> set old
      then (if \<not> merged_new_segment then out # replace_segments old out True ns
            else replace_segments old out merged_new_segment ns)
      else n # replace_segments old out merged_new_segment ns)"

fun remove_old_segments :: "index_env \<Rightarrow> filename list \<Rightarrow> IndexPayload \<Rightarrow> index_error + IndexPayload" where
  "remove_old_segments env [] w = Inr w"
| "remove_old_segments env (n # ns) w =
     bind_sum (if in_use env n then Seg_Load False (p_files w) (the (p_store w n)) else Inr (the (p_store w n))) (\<lambda>s.
       remove_old_segments env ns (w\<lparr>p_store := (p_store w)(n \<mapsto> s), p_files := RemoveFiles s (p_files w)\<rparr>))"

fun fail_segments :: "filename list \<Rightarrow> IndexPayload \<Rightarrow> IndexPayload" where
  "fail_segments [] w = w"
| "fail_segments (n # ns) w =
     (let (f, s) = MergeFailed (p_files w) (the (p_store w n))
      in fail_segments ns (w\<lparr>p_files := f, p_store := (p_store w)(n \<mapsto> s)\<rparr>))"

definition replace_merged :: "MergeJob \<Rightarrow> IndexPayload \<Rightarrow> index_error + IndexPayload" where
  "replace_merged j w =
     bind_sum (if \<exists>n \<in> set (p_segments w). n \<in> set (mj_segments j)
               then bind_sum (Segment_merged (p_files w) (output_filename j) (map (\<lambda>n. the (p_store w n)) (mj_segments j)))
                      (\<lambda>(f, s). Inr (w\<lparr>p_files := f, p_store := (p_store w)(output_filename j \<mapsto> s)\<rparr>))
               else Inr w) (\<lambda>w1.
       Inr (WriteToc (w1\<lparr>p_segments := replace_segments (mj_segments j) (output_filename j) False (p_segments w1)\<rparr>)))"

definition finalize_job :: "index_env \<Rightarrow> MergeJob \<Rightarrow> IndexPayload \<Rightarrow> index_error + MergeJob \<times> IndexPayload \<times> bool" where
  "finalize_job env j w =
     (let (finalized, f, j1) = TryFinalize (merge_succeeds env (output_filename j)) (p_files w, j); w1 = w\<lparr>p_files := f\<rparr>
      in if \<not> finalized then Inr (j1, w1, False)
         else if Successful j1
         then bind_sum (replace_merged j1 w1) (\<lambda>w2. bind_sum (remove_old_segments env (mj_segments j1) w2) (\<lambda>w3.
                Inr (j1\<lparr>merge_done := True\<rparr>, w3, True)))
         else Inr (j1, fail_segments (mj_segments j1) w1, False))"

fun finalize_jobs ::
  "index_env \<Rightarrow> MergeJob list \<Rightarrow> IndexPayload \<Rightarrow> index_error + MergeJob list \<times> IndexPayload \<times> bool" where
  "finalize_jobs env [] w = Inr ([], w, False)"
| "finalize_jobs env (j # js) w =
     bind_sum (finalize_job env j w) (\<lambda>(j1, w1, any1). bind_sum (finalize_jobs env js w1) (\<lambda>(js2, w2, any2).
       Inr (j1 # js2, w2, any1 \<or> any2)))"

definition FinalizeMerge :: "index_env \<Rightarrow> IndexPayload \<Rightarrow> index_error + IndexPayload" where
  "FinalizeMerge env w =
     bind_sum (finalize_jobs env (merge_jobs w) w) (\<lambda>(js, w1, any_merge_finalized).
       Inr (w1\<lparr>merge_jobs := (if any_merge_finalized then filter (\<lambda>j. \<not> merge_done j) js else js)\<rparr>))"

fun elect_segments :: "filename list \<Rightarrow> IndexPayload \<Rightarrow> IndexPayload" where
  "elect_segments [] w = w"
| "elect_segments (n # ns) w =
     (let (f, s) = ElectedForMerge (p_files w) (the (p_store w n))
      in elect_segments ns (w\<lparr>p_files := f, p_store := (p_store w)(n \<mapsto> s)\<rparr>))"

definition RunMerge :: "index_env \<Rightarrow> filename \<Rightarrow> IndexPayload \<Rightarrow> IndexPayload" where
  "RunMerge env out w =
     (if length (merge_jobs w) = max_concurrent_merges env then w
      else (let (selected, st) = select_segments env (p_files w) (p_segments w) (p_store w); w1 = w\<lparr>p_store := st\<rparr>
            in case selected of
                 None \<Rightarrow> w1
               | Some to_merge \<Rightarrow>
                   (let w2 = elect_segments to_merge w1;
                        j = mj_Run (external_merge_key_threshold env) (\<Sum>n \<leftarrow> to_merge. number_of_keys_of (p_files w2) n)
                              (length (p_segments w2) + length to_merge + 10 > max_segments env) (MergeJob_new to_merge 0 out)
                    in w2\<lparr>merge_jobs := merge_jobs w2 @ [j]\<rparr>)))"

text \<open>The end of the thread or process of a job.\<close>

definition end_of_merge :: "index_env \<Rightarrow> nat \<Rightarrow> IndexPayload \<Rightarrow> IndexPayload" where
  "end_of_merge env i w =
     (if i < length (merge_jobs w)
      then (let (f, j) = mj_execute (merge_succeeds env (output_filename (merge_jobs w ! i))) (p_files w, merge_jobs w ! i)
            in w\<lparr>p_files := f, merge_jobs := (merge_jobs w)[i := j]\<rparr>)
      else w)"

definition ScheduledTask :: "index_env \<Rightarrow> filename \<Rightarrow> filename \<Rightarrow> IndexPayload \<Rightarrow> index_error + IndexPayload" where
  "ScheduledTask env out p w =
     bind_sum (if merge_jobs w \<noteq> [] then FinalizeMerge env w else Inr w) (\<lambda>w1.
       let w2 = (if merge_enabled w1 then RunMerge env out w1 else w1)
       in if p_compiler w2 = None \<and> \<not> any_delete w2 then Inr w2 else do_Compile p (PersistDeletes w2))"

section \<open>Opening and closing\<close>

fun load_segments :: "filename list \<Rightarrow> IndexPayload \<Rightarrow> index_error + IndexPayload" where
  "load_segments [] w = Inr w"
| "load_segments (n # ns) w =
     bind_sum (Segment_new (p_files w) n False) (\<lambda>s.
       load_segments ns (w\<lparr>p_store := (p_store w)(n \<mapsto> s), p_segments := p_segments w @ [n]\<rparr>))"

definition IndexPayload_new :: "index_files \<Rightarrow> IndexPayload" where
  "IndexPayload_new f =
     \<lparr>p_files = f, p_store = (\<lambda>_. None), p_compiler = None, p_segments = [], merge_jobs = [], any_delete = False,
      merge_enabled = True\<rparr>"

definition LoadIndex :: "index_files \<Rightarrow> index_error + IndexPayload" where
  "LoadIndex f =
     (case toc_file f of None \<Rightarrow> Inr (IndexPayload_new f) | Some names \<Rightarrow> load_segments names (IndexPayload_new f))"

fun finalize_all :: "index_env \<Rightarrow> MergeJob list \<Rightarrow> index_files \<Rightarrow> index_files \<times> MergeJob list" where
  "finalize_all env [] f = (f, [])"
| "finalize_all env (j # js) f =
     (let (f1, j1) = mj_Finalize (merge_succeeds env (output_filename j)) (f, j); (f2, js2) = finalize_all env js f1
      in (f2, j1 # js2))"

section \<open>The queue\<close>

datatype message = M_Add "u8 list" string | M_AddAll "(u8 list \<times> string) list" | M_Delete "u8 list" | M_Flush
  | M_Compile | M_Shutdown

definition do_message :: "index_env \<Rightarrow> filename \<Rightarrow> message \<Rightarrow> IndexPayload \<Rightarrow> index_error + IndexPayload" where
  "do_message env p m w =
     (case m of
       M_Add k v \<Rightarrow> do_Add k v w
     | M_AddAll kvs \<Rightarrow> do_AddAll kvs w
     | M_Delete k \<Rightarrow> do_Delete k w
     | M_Flush \<Rightarrow> do_Compile p (PersistDeletes w)
     | M_Compile \<Rightarrow> do_Compile p w
     | M_Shutdown \<Rightarrow> bind_sum (do_Compile p (w\<lparr>merge_enabled := False\<rparr>)) (\<lambda>w1.
         let (f, js) = finalize_all env (merge_jobs w1) (p_files w1)
         in Inr (w1\<lparr>p_files := f, merge_jobs := js\<rparr>)))"

record index_system =
  payload :: IndexPayload
  queue :: "message list"
  write_counter :: nat

definition push_message :: "message \<Rightarrow> index_system \<Rightarrow> index_system" where
  "push_message m s = s\<lparr>queue := queue s @ [m]\<rparr>"

text \<open>
  When the limit of segments is reached the caller flushes again and again until enough segments are
  merged; \<open>rounds\<close> says how often it does.
\<close>

definition CompileIfThresholdIsHit :: "index_env \<Rightarrow> nat \<Rightarrow> index_system \<Rightarrow> index_system" where
  "CompileIfThresholdIsHit env rounds s =
     (if write_counter s + 1 > compile_key_threshold env
      then (push_message M_Flush ^^ rounds) ((push_message M_Compile s)\<lparr>write_counter := 0\<rparr>)
      else s\<lparr>write_counter := write_counter s + 1\<rparr>)"

text \<open>The steps of the system: calls of clients, and what the worker and the merges do.\<close>

datatype index_step = Set_Key "u8 list" string nat | MSet_Keys "(u8 list \<times> string) list" nat | Delete_Key "u8 list" nat
  | Flush_Index | Work filename | Scheduled filename filename | End_Of_Merge nat

definition index_step :: "index_env \<Rightarrow> index_step \<Rightarrow> index_system \<Rightarrow> index_error + index_system" where
  "index_step env st s =
     (case st of
       Set_Key k v rounds \<Rightarrow> Inr (CompileIfThresholdIsHit env rounds (push_message (M_Add k v) s))
     | MSet_Keys kvs rounds \<Rightarrow> Inr (CompileIfThresholdIsHit env rounds (push_message (M_AddAll kvs) s))
     | Delete_Key k rounds \<Rightarrow> Inr (CompileIfThresholdIsHit env rounds (push_message (M_Delete k) s))
     | Flush_Index \<Rightarrow> Inr (push_message M_Flush s)
     | Work p \<Rightarrow>
         (case queue s of
           [] \<Rightarrow> Inr s
         | m # ms \<Rightarrow> bind_sum (do_message env p m (payload s)) (\<lambda>w. Inr (s\<lparr>payload := w, queue := ms\<rparr>)))
     | Scheduled out p \<Rightarrow> bind_sum (ScheduledTask env out p (payload s)) (\<lambda>w. Inr (s\<lparr>payload := w\<rparr>))
     | End_Of_Merge i \<Rightarrow> Inr (s\<lparr>payload := end_of_merge env i (payload s)\<rparr>))"

end
