(* ===== verification/Index_Refinement.thy ===== *)
theory Index_Refinement
  imports Index_Writer
begin

text \<open>
  The writer of an index implements a map from keys to values.  The view of the writer is the newest segment
  that has a key, overridden by the operations its compiler still holds; every step of the worker keeps it
  or changes it by the message it takes out of the queue, whatever merges run, start or end meanwhile.
\<close>

section \<open>Segments under the tiered policy\<close>

text \<open>
  Beyond \<open>seg_inv\<close>: the lists are sets; a segment in a merge was loaded before it was elected, so that its
  file \<open>.dk\<close>, which the merge reads, holds the deletions from before the merge; and a reader of the segment
  sees all deletions, unless there are new ones.
\<close>

definition lists_distinct :: "index_files \<Rightarrow> Segment \<Rightarrow> bool" where
  "lists_distinct f s \<longleftrightarrow> distinct (deleted_keys_for_write s) \<and> distinct (deleted_keys_during_merge_for_write s)
     \<and> distinct (LoadAndUnserializeDeletedKeys (dk_files f (dictionary_path s)))
     \<and> distinct (LoadAndUnserializeDeletedKeys (dkm_files f (dictionary_path s)))"

definition seg_ok :: "dict \<Rightarrow> index_files \<Rightarrow> Segment \<Rightarrow> bool" where
  "seg_ok d f s \<longleftrightarrow> seg_inv d f s \<and> lists_distinct f s
     \<and> (in_merge s \<longrightarrow> deletes_loaded s \<and> set (deleted_keys_for_write s) = file_set (dk_files f (dictionary_path s)))
     \<and> (\<not> new_delete s \<longrightarrow> reader_set s = seg_deletes f s)
     \<and> (deleted_keys_weak s = None \<or> deleted_keys_weak s = seg_deleted_keys s)"

lemma Load_simps [simp]:
  "LoadAndUnserializeDeletedKeys None = []" "LoadAndUnserializeDeletedKeys (Some d) = d"
  by (simp_all add: LoadAndUnserializeDeletedKeys_def)

lemma seg_ok_dictionary_loaded:
  "seg_ok d f s \<Longrightarrow> seg_ok d f (s\<lparr>dictionary := Some d, dictionary_loaded := True\<rparr>)"
  using GetDictionary_inv(2,3) by (simp add: seg_ok_def lists_distinct_def)

text \<open>Without new deletions the files say the same as the lists.\<close>

lemma disk_deletes_unchanged: "seg_inv d f s \<Longrightarrow> \<not> new_delete s \<Longrightarrow> disk_deletes f (dictionary_path s) = seg_deletes f s"
  by (cases "deletes_loaded s") (auto simp: seg_inv_def lists_inv_def seg_deletes_def disk_deletes_def)

lemma LoadDeletedKeys_weak:
  "deleted_keys_weak s = None \<or> deleted_keys_weak s = seg_deleted_keys s \<Longrightarrow>
     deleted_keys_weak (LoadDeletedKeys False f s) = None
       \<or> deleted_keys_weak (LoadDeletedKeys False f s) = seg_deleted_keys (LoadDeletedKeys False f s)"
  by (simp add: LoadDeletedKeys_def Let_def)

lemma seg_ok_reload:
  assumes "seg_ok d f s"
  shows "seg_ok d f (LoadDeletedKeys False f s)"
proof -
  have inv: "seg_inv d f s" using assms by (simp add: seg_ok_def)
  have "reader_set (LoadDeletedKeys False f s) = seg_deletes f s" if "\<not> new_delete s"
    using that assms disk_deletes_unchanged [OF inv that] inv LoadDeletedKeys_reader(1) [of s f False]
    by (simp add: seg_ok_def seg_inv_def)
  then show ?thesis
    using assms LoadDeletedKeys_inv [OF inv] LoadDeletedKeys_weak [of s f] by (simp add: seg_ok_def lists_distinct_def)
qed

lemma distinct_Union [simp]: "distinct ys \<Longrightarrow> distinct (List.union xs ys)"
  by simp

lemma seg_ok_lazy:
  assumes "seg_ok d f s"
  shows "seg_ok d f (LazyLoadDeletedKeys False f s)"
    "deleted_keys_during_merge_for_write (LazyLoadDeletedKeys False f s) = deleted_keys_during_merge_for_write s"
proof -
  have inv: "seg_inv d f s" using assms by (simp add: seg_ok_def)
  show dkm: "deleted_keys_during_merge_for_write (LazyLoadDeletedKeys False f s) = deleted_keys_during_merge_for_write s"
    using assms by (auto simp: LazyLoadDeletedKeys_def Let_def seg_ok_def)
  have "distinct (deleted_keys_for_write (LazyLoadDeletedKeys False f s))"
    using assms by (auto simp: LazyLoadDeletedKeys_def Let_def seg_ok_def lists_distinct_def)
  moreover have "deleted_keys_for_write (LazyLoadDeletedKeys False f s) = deleted_keys_for_write s" if "in_merge s"
    using assms that by (auto simp: LazyLoadDeletedKeys_def Let_def seg_ok_def)
  moreover have "reader_set (LazyLoadDeletedKeys False f s) = seg_deletes f s" if "\<not> new_delete s"
  proof (cases "deletes_loaded s")
    case False
    have "reader_set (LazyLoadDeletedKeys False f s) = reader_set (LoadDeletedKeys False f s)"
      using False by (simp add: LazyLoadDeletedKeys_def Let_def)
    with seg_ok_reload [OF assms] that show ?thesis by (simp add: seg_ok_def LoadDeletedKeys_inv(2) [OF inv])
  qed (use assms that in \<open>simp add: LazyLoad_loaded seg_ok_def\<close>)
  moreover have "deleted_keys_weak (LazyLoadDeletedKeys False f s) = None
      \<or> deleted_keys_weak (LazyLoadDeletedKeys False f s) = seg_deleted_keys (LazyLoadDeletedKeys False f s)"
    using assms LoadDeletedKeys_weak [of s f] by (simp add: LazyLoadDeletedKeys_def Let_def seg_ok_def)
  ultimately show "seg_ok d f (LazyLoadDeletedKeys False f s)"
    using assms LazyLoadDeletedKeys_inv [OF inv, of False] dkm by (simp add: seg_ok_def lists_distinct_def)
qed

lemma seg_ok_persist:
  assumes "seg_ok d f s"
  shows "seg_ok d (snd (Seg_Persist f s)) s"
proof -
  have "seg_inv d f s" using assms by (simp add: seg_ok_def)
  note p = Seg_Persist_inv [OF this]
  have "in_merge s \<Longrightarrow> dk_files (snd (Seg_Persist f s)) (dictionary_path s) = dk_files f (dictionary_path s)"
    by (simp add: Seg_Persist_def)
  moreover have "lists_distinct (snd (Seg_Persist f s)) s"
    using assms by (simp add: Seg_Persist_def seg_ok_def lists_distinct_def)
  ultimately show ?thesis using assms p(1,2) by (simp add: seg_ok_def)
qed

lemma seg_ok_elected:
  assumes "seg_ok d f s" "\<not> in_merge s" "deletes_loaded s"
  shows "seg_ok d (fst (ElectedForMerge f s)) (snd (ElectedForMerge f s))"
    "deleted_keys_during_merge_for_write (snd (ElectedForMerge f s)) = deleted_keys_during_merge_for_write s"
proof -
  have inv: "seg_inv d f s" using assms by (simp add: seg_ok_def)
  let ?f = "snd (Seg_Persist f s)"
  have "lists_distinct ?f s" using seg_ok_persist [OF assms(1)] by (simp add: seg_ok_def)
  moreover have "set (deleted_keys_for_write s) = file_set (dk_files ?f (dictionary_path s))"
    using Seg_Persist_inv(1,4) [OF inv] assms(2,3)
    by (simp add: seg_inv_def lists_inv_def disk_deletes_def seg_deletes_def)
  ultimately show "seg_ok d (fst (ElectedForMerge f s)) (snd (ElectedForMerge f s))"
    using ElectedForMerge_inv(1,2) [OF inv] Seg_Persist_inv(2) [OF inv] seg_ok_persist [OF assms(1)] assms(3)
    by (simp add: seg_ok_def ElectedForMerge_def lists_distinct_def)
qed (simp add: ElectedForMerge_def)

lemma seg_ok_delete:
  assumes "seg_ok d f s"
  obtains s' where "DeleteKey False f k s = Inr s'" "seg_ok d f s'" "dictionary_path s' = dictionary_path s"
    "in_merge s' = in_merge s" "seg_deletes f s' = (if Dictionary_has d k then {k} else {}) \<union> seg_deletes f s"
    "set (deleted_keys_during_merge_for_write s') =
       (if Dictionary_has d k \<and> in_merge s then {k} else {}) \<union> set (deleted_keys_during_merge_for_write s)"
proof -
  have inv: "seg_inv d f s" using assms by (simp add: seg_ok_def)
  let ?s0 = "s\<lparr>dictionary := Some d, dictionary_loaded := True\<rparr>"
  let ?s1 = "LazyLoadDeletedKeys False f ?s0"
  note ok = seg_ok_lazy [OF seg_ok_dictionary_loaded [OF assms]]
  obtain s' where s': "DeleteKey False f k s = Inr s'" "seg_inv d f s'" "dictionary_path s' = dictionary_path s"
    "in_merge s' = in_merge s" "seg_deletes f s' = (if Dictionary_has d k then {k} else {}) \<union> seg_deletes f s"
    by (rule DeleteKey_inv [OF inv])
  have eq: "s' = (if \<not> Dictionary_has d k then ?s0 else
      (if in_merge s then ?s1\<lparr>deleted_keys_during_merge_for_write := List.insert k (deleted_keys_during_merge_for_write ?s1)\<rparr>
       else ?s1\<lparr>deleted_keys_for_write := List.insert k (deleted_keys_for_write ?s1)\<rparr>)\<lparr>new_delete := True\<rparr>)"
    using s'(1) by (auto simp: DeleteKey_def GetDictionary_inv [OF inv] Let_def)
  have dkm: "set (deleted_keys_during_merge_for_write s') =
       (if Dictionary_has d k \<and> in_merge s then {k} else {}) \<union> set (deleted_keys_during_merge_for_write s)"
    using ok(2) by (simp add: eq)
  have lists: "lists_distinct f s'" using ok(1) assms by (simp add: eq seg_ok_def lists_distinct_def)
  moreover have "deletes_loaded s' \<and> set (deleted_keys_for_write s') = file_set (dk_files f (dictionary_path s'))" if "in_merge s"
  proof -
    have "?s1 = ?s0" using that assms by (simp add: LazyLoad_loaded seg_ok_def)
    then show ?thesis using that assms s'(3) by (simp add: eq seg_ok_def)
  qed
  moreover have "\<not> new_delete s' \<longrightarrow> reader_set s' = seg_deletes f s'"
  proof (cases "Dictionary_has d k")
    case False
    then have "s' = ?s0" by (simp add: eq)
    with seg_ok_dictionary_loaded [OF assms] show ?thesis by (simp add: seg_ok_def)
  qed (simp add: eq)
  moreover have "deleted_keys_weak s' = None \<or> deleted_keys_weak s' = seg_deleted_keys s'"
    using ok(1) assms by (simp add: eq seg_ok_def)
  ultimately have "seg_ok d f s'" using s' by (simp add: seg_ok_def)
  with s' dkm show ?thesis by (intro that [of s']) simp_all
qed

section \<open>The segments of an index\<close>

text \<open>What a segment is to the index: its dictionary, its deletions, those made during a merge.\<close>

definition dict_at :: "index_files \<Rightarrow> filename \<Rightarrow> dict" where
  "dict_at f n = the (dictionary_files f n)"

definition dels :: "index_files \<Rightarrow> segment_store \<Rightarrow> filename \<Rightarrow> u8 list set" where
  "dels f st n = seg_deletes f (the (st n))"

definition dkms :: "segment_store \<Rightarrow> filename \<Rightarrow> u8 list set" where
  "dkms st n = set (deleted_keys_during_merge_for_write (the (st n)))"

abbreviation has_key :: "index_files \<Rightarrow> filename \<Rightarrow> u8 list \<Rightarrow> bool" where
  "has_key f n \<equiv> Dictionary_has (dict_at f n)"

definition stored :: "index_files \<Rightarrow> segment_store \<Rightarrow> filename \<Rightarrow> bool" where
  "stored f st n \<longleftrightarrow> (\<exists>s. st n = Some s \<and> dictionary_path s = n \<and> seg_ok (dict_at f n) f s \<and> sorted_items (dict_at f n))"

definition agree :: "index_files \<Rightarrow> index_files \<Rightarrow> filename \<Rightarrow> bool" where
  "agree f f' n \<longleftrightarrow> dictionary_files f' n = dictionary_files f n \<and> dk_files f' n = dk_files f n \<and> dkm_files f' n = dkm_files f n"

lemma agree_refl [simp]: "agree f f n"
  by (simp add: agree_def)

lemma agree_toc [simp]: "agree f (f'\<lparr>toc_file := t\<rparr>) n \<longleftrightarrow> agree f f' n"
  by (simp add: agree_def)

lemma agree_trans: "agree f f' n \<Longrightarrow> agree f' f'' n \<Longrightarrow> agree f f'' n"
  by (simp add: agree_def)

lemma same_but_agree: "same_but p f f' \<Longrightarrow> n \<noteq> p \<Longrightarrow> agree f f' n"
  by (simp add: same_but_def agree_def)

lemma agree_cong:
  assumes "agree f f' n"
  shows "dict_at f' n = dict_at f n" "dictionary_path s = n \<Longrightarrow> seg_ok d f' s = seg_ok d f s"
    "dictionary_path s = n \<Longrightarrow> seg_deletes f' s = seg_deletes f s"
  using assms by (simp_all add: agree_def dict_at_def seg_ok_def seg_inv_def lists_distinct_def disk_deletes_def seg_deletes_def)

lemma stored_cong:
  assumes "agree f f' n" "st' n = st n" "stored f st n"
  shows "stored f' st' n" "dels f' st' n = dels f st n" "dkms st' n = dkms st n" "MarkedForMerge st' n = MarkedForMerge st n"
  using assms agree_cong [OF assms(1)] by (auto simp: stored_def dels_def dkms_def MarkedForMerge_def)

text \<open>
  The segments \<open>segs\<close>, oldest first, with the segments of the running jobs \<open>L\<close>: jobs hold adjacent segments,
  a segment takes part in one job at most; a deletion that a segment knows of is known to every older segment
  with the key; and a deletion during a merge is known to all segments of the job that have the key.
\<close>

definition seg_world :: "index_files \<Rightarrow> segment_store \<Rightarrow> filename list \<Rightarrow> filename list list \<Rightarrow> bool" where
  "seg_world f st segs L \<longleftrightarrow> distinct segs \<and> (\<forall>n \<in> set segs. stored f st n)
     \<and> distinct (concat L) \<and> (\<forall>l \<in> set L. l \<noteq> [] \<and> (\<exists>pre post. segs = pre @ l @ post))
     \<and> (\<forall>n \<in> set segs. MarkedForMerge st n \<longleftrightarrow> n \<in> set (concat L))
     \<and> sorted_wrt (\<lambda>a b. \<forall>k. k \<in> dels f st b \<and> has_key f a k \<longrightarrow> k \<in> dels f st a) segs
     \<and> (\<forall>l \<in> set L. \<forall>n \<in> set l. \<forall>m \<in> set l. \<forall>k. k \<in> dkms st n \<and> has_key f m k \<longrightarrow> k \<in> dkms st m)"

lemma seg_worldD:
  assumes "seg_world f st segs L"
  shows "distinct segs" "n \<in> set segs \<Longrightarrow> stored f st n" "distinct (concat L)" "l \<in> set L \<Longrightarrow> l \<noteq> []"
    "l \<in> set L \<Longrightarrow> \<exists>pre post. segs = pre @ l @ post"
    "n \<in> set segs \<Longrightarrow> MarkedForMerge st n \<longleftrightarrow> n \<in> set (concat L)"
    "sorted_wrt (\<lambda>a b. \<forall>k. k \<in> dels f st b \<and> has_key f a k \<longrightarrow> k \<in> dels f st a) segs"
    "l \<in> set L \<Longrightarrow> n \<in> set l \<Longrightarrow> m \<in> set l \<Longrightarrow> k \<in> dkms st n \<Longrightarrow> has_key f m k \<Longrightarrow> k \<in> dkms st m"
  using assms unfolding seg_world_def by blast+

lemma seg_world_job_segments:
  assumes "seg_world f st segs L" "l \<in> set L" "n \<in> set l"
  shows "n \<in> set segs" "MarkedForMerge st n"
proof -
  from seg_worldD(5) [OF assms(1,2)] assms(3) show n: "n \<in> set segs" by auto
  show "MarkedForMerge st n" using seg_worldD(6) [OF assms(1) n] assms(2,3) by auto
qed

definition seg_view :: "index_files \<Rightarrow> segment_store \<Rightarrow> filename list \<Rightarrow> u8 list \<Rightarrow> string option" where
  "seg_view f st segs k = visible (hit (rev (map (\<lambda>n. (dict_at f n, dels f st n)) segs)) k)"

text \<open>Steps that leave dictionaries, deletions and marks alone keep the world and the view.\<close>

lemma seg_world_cong:
  assumes "seg_world f st segs L"
    and "\<And>n. n \<in> set segs \<Longrightarrow> stored f' st' n \<and> dict_at f' n = dict_at f n \<and> dels f' st' n = dels f st n
      \<and> dkms st' n = dkms st n \<and> MarkedForMerge st' n = MarkedForMerge st n"
  shows "seg_world f' st' segs L"
proof -
  note w = seg_worldD [OF assms(1)]
  note sub = seg_world_job_segments(1) [OF assms(1)]
  have "sorted_wrt (\<lambda>a b. \<forall>k. k \<in> dels f' st' b \<and> has_key f' a k \<longrightarrow> k \<in> dels f' st' a) segs"
    by (rule sorted_wrt_mono_rel [OF _ w(7)]) (simp add: assms(2))
  moreover have "k \<in> dkms st' m" if "l \<in> set L" "n \<in> set l" "m \<in> set l" "k \<in> dkms st' n" "has_key f' m k" for l n m k
    using w(8) [OF that(1-3), of k] that(4,5) assms(2) sub [OF that(1,2)] sub [OF that(1,3)] by simp
  ultimately show ?thesis
    unfolding seg_world_def using w(1,3,4,5,6) assms(2) by blast
qed

lemma seg_view_cong:
  assumes "\<And>n. n \<in> set segs \<Longrightarrow> dict_at f' n = dict_at f n \<and> dels f' st' n = dels f st n"
  shows "seg_view f' st' segs = seg_view f st segs"
  using assms by (simp add: seg_view_def fun_eq_iff cong: map_cong)

lemma seg_world_agree:
  assumes "seg_world f st segs L" "\<And>n. n \<in> set segs \<Longrightarrow> agree f f' n \<and> st' n = st n"
  shows "seg_world f' st' segs L" "seg_view f' st' segs = seg_view f st segs"
proof -
  have "stored f' st' n \<and> dict_at f' n = dict_at f n \<and> dels f' st' n = dels f st n
      \<and> dkms st' n = dkms st n \<and> MarkedForMerge st' n = MarkedForMerge st n" if "n \<in> set segs" for n
    using assms(2) [OF that] stored_cong [of f f' n st' st] agree_cong(1) [of f f' n] seg_worldD(2) [OF assms(1) that] by simp
  note same = this
  show "seg_world f' st' segs L" by (rule seg_world_cong [OF assms(1) same])
  show "seg_view f' st' segs = seg_view f st segs" by (rule seg_view_cong) (use same in blast)
qed

lemma seg_world_lazily:
  assumes "seg_world f st segs L" "lazily f st st'"
  shows "seg_world f st' segs L" "seg_view f st' segs = seg_view f st segs"
proof -
  have "stored f st' n \<and> dict_at f n = dict_at f n \<and> dels f st' n = dels f st n
      \<and> dkms st' n = dkms st n \<and> MarkedForMerge st' n = MarkedForMerge st n" if "n \<in> set segs" for n
  proof -
    have "stored f st n" by (rule seg_worldD(2) [OF assms(1) that])
    then obtain s where s: "st n = Some s" "dictionary_path s = n" "seg_ok (dict_at f n) f s" "sorted_items (dict_at f n)"
      by (auto simp: stored_def)
    have inv: "seg_inv (dict_at f n) f s" using s(3) by (simp add: seg_ok_def)
    obtain s' where s': "st' n = Some s'" "s' = s \<or> s' = LazyLoadDeletedKeys False f s"
      by (rule lazily_cases [OF assms(2) s(1)])
    then show ?thesis
      using s seg_ok_lazy [OF s(3)] LazyLoadDeletedKeys_inv(2) [OF inv]
      by (auto simp: stored_def dels_def dkms_def MarkedForMerge_def)
  qed
  note same = this
  show "seg_world f st' segs L" by (rule seg_world_cong [OF assms(1) same])
  show "seg_view f st' segs = seg_view f st segs" by (rule seg_view_cong) (use same in blast)
qed

subsection \<open>Deleting a key\<close>

lemma delete_in_segments_run:
  assumes "\<forall>n \<in> set ns. stored (p_files w) (p_store w) n" "distinct ns"
  shows "\<exists>st'. delete_in_segments k ns w = Inr (w\<lparr>p_store := st'\<rparr>)
    \<and> (\<forall>n. n \<notin> set ns \<longrightarrow> st' n = p_store w n)
    \<and> (\<forall>n \<in> set ns. stored (p_files w) st' n \<and> MarkedForMerge st' n = MarkedForMerge (p_store w) n
        \<and> dels (p_files w) st' n = (if has_key (p_files w) n k then {k} else {}) \<union> dels (p_files w) (p_store w) n
        \<and> dkms st' n = (if has_key (p_files w) n k \<and> MarkedForMerge (p_store w) n then {k} else {}) \<union> dkms (p_store w) n)"
  using assms
proof (induction ns arbitrary: w)
  case Nil
  show ?case by (rule exI [of _ "p_store w"]) simp
next
  case (Cons n ns)
  obtain s where s: "p_store w n = Some s" "dictionary_path s = n" "seg_ok (dict_at (p_files w) n) (p_files w) s"
    "sorted_items (dict_at (p_files w) n)"
    using Cons.prems(1) by (auto simp: stored_def)
  obtain s' where s': "DeleteKey False (p_files w) k s = Inr s'" "seg_ok (dict_at (p_files w) n) (p_files w) s'"
    "dictionary_path s' = dictionary_path s" "in_merge s' = in_merge s"
    "seg_deletes (p_files w) s' = (if has_key (p_files w) n k then {k} else {}) \<union> seg_deletes (p_files w) s"
    "set (deleted_keys_during_merge_for_write s') =
       (if has_key (p_files w) n k \<and> in_merge s then {k} else {}) \<union> set (deleted_keys_during_merge_for_write s)"
    by (rule seg_ok_delete [OF s(3)])
  let ?st = "(p_store w)(n \<mapsto> s')"
  let ?w = "w\<lparr>p_store := ?st\<rparr>"
  have other: "MarkedForMerge ?st m = MarkedForMerge (p_store w) m" "dels (p_files w) ?st m = dels (p_files w) (p_store w) m"
    "dkms ?st m = dkms (p_store w) m" "stored (p_files w) ?st m = stored (p_files w) (p_store w) m" if "m \<noteq> n" for m
    using that by (simp_all add: MarkedForMerge_def dels_def dkms_def stored_def)
  have pre: "\<forall>m \<in> set ns. stored (p_files ?w) (p_store ?w) m" "distinct ns"
  proof -
    show "\<forall>m \<in> set ns. stored (p_files ?w) (p_store ?w) m"
    proof
      fix m assume "m \<in> set ns"
      then have "m \<noteq> n" "stored (p_files w) (p_store w) m" using Cons.prems by auto
      with other(4) [of m] show "stored (p_files ?w) (p_store ?w) m" by (simp del: fun_upd_apply)
    qed
    show "distinct ns" using Cons.prems(2) by simp
  qed
  obtain st' where st': "delete_in_segments k ns ?w = Inr (?w\<lparr>p_store := st'\<rparr>)"
    "\<forall>m. m \<notin> set ns \<longrightarrow> st' m = ?st m"
    "\<forall>m \<in> set ns. stored (p_files w) st' m \<and> MarkedForMerge st' m = MarkedForMerge ?st m
        \<and> dels (p_files w) st' m = (if has_key (p_files w) m k then {k} else {}) \<union> dels (p_files w) ?st m
        \<and> dkms st' m = (if has_key (p_files w) m k \<and> MarkedForMerge ?st m then {k} else {}) \<union> dkms ?st m"
    using Cons.IH [OF pre] by (simp del: fun_upd_apply) blast
  have n: "n \<notin> set ns" "st' n = Some s'" using Cons.prems(2) st'(2) by auto
  have "stored (p_files w) st' n \<and> MarkedForMerge st' n = MarkedForMerge (p_store w) n
        \<and> dels (p_files w) st' n = (if has_key (p_files w) n k then {k} else {}) \<union> dels (p_files w) (p_store w) n
        \<and> dkms st' n = (if has_key (p_files w) n k \<and> MarkedForMerge (p_store w) n then {k} else {}) \<union> dkms (p_store w) n"
    using n s s' by (simp add: stored_def MarkedForMerge_def dels_def dkms_def)
  moreover have "stored (p_files w) st' m \<and> MarkedForMerge st' m = MarkedForMerge (p_store w) m
        \<and> dels (p_files w) st' m = (if has_key (p_files w) m k then {k} else {}) \<union> dels (p_files w) (p_store w) m
        \<and> dkms st' m = (if has_key (p_files w) m k \<and> MarkedForMerge (p_store w) m then {k} else {}) \<union> dkms (p_store w) m"
    if "m \<in> set ns" for m
  proof -
    have "m \<noteq> n" using n(1) that by blast
    then show ?thesis using st'(3) that other [of m] by (simp del: fun_upd_apply)
  qed
  moreover have "delete_in_segments k (n # ns) w = Inr (w\<lparr>p_store := st'\<rparr>)"
    using st'(1) s s'(1) by simp
  ultimately show ?case using st'(2) by (intro exI [of _ st']) auto
qed

text \<open>A deletion removes the key from the view and nothing else.\<close>

lemma hit_delete:
  "visible (hit (map (\<lambda>n. (d n, (if Dictionary_has (d n) k then {k} else {}) \<union> del n)) ns) x) =
     (if x = k then None else visible (hit (map (\<lambda>n. (d n, del n)) ns) x))"
  by (induction ns) (auto simp: Dictionary_has_def split: option.split)

lemma seg_world_delete:
  assumes world: "seg_world f st segs L"
    and step: "\<forall>n \<in> set segs. stored f st' n \<and> MarkedForMerge st' n = MarkedForMerge st n
        \<and> dels f st' n = (if has_key f n k then {k} else {}) \<union> dels f st n
        \<and> dkms st' n = (if has_key f n k \<and> MarkedForMerge st n then {k} else {}) \<union> dkms st n"
  shows "seg_world f st' segs L" "seg_view f st' segs = (seg_view f st segs)(k := None)"
proof -
  note w = seg_worldD [OF world]
  note sub = seg_world_job_segments(1) [OF world] and marked = seg_world_job_segments(2) [OF world]
  have "sorted_wrt (\<lambda>a b. \<forall>x. x \<in> dels f st' b \<and> has_key f a x \<longrightarrow> x \<in> dels f st' a) segs"
    by (rule sorted_wrt_mono_rel [OF _ w(7)]) (use step in \<open>auto split: if_splits\<close>)
  moreover have "x \<in> dkms st' m" if "l \<in> set L" "n \<in> set l" "m \<in> set l" "x \<in> dkms st' n" "has_key f m x" for l n m x
  proof -
    have "x = k \<or> x \<in> dkms st n" using step sub [OF that(1,2)] that(4) by (auto split: if_splits)
    moreover have "x \<in> dkms st m" if "x \<in> dkms st n"
      by (rule w(8) [OF \<open>l \<in> set L\<close> \<open>n \<in> set l\<close> \<open>m \<in> set l\<close> that \<open>has_key f m x\<close>])
    ultimately show ?thesis using step sub [OF that(1,3)] marked [OF that(1,3)] that(5) by auto
  qed
  ultimately show "seg_world f st' segs L" unfolding seg_world_def using w(1,3,4,5,6) step by blast
  have "rev (map (\<lambda>n. (dict_at f n, dels f st' n)) segs) =
      map (\<lambda>n. (dict_at f n, (if has_key f n k then {k} else {}) \<union> dels f st n)) (rev segs)"
    using step by (simp add: rev_map)
  then have "seg_view f st' segs x = (if x = k then None else seg_view f st segs x)" for x
    unfolding seg_view_def by (simp only: hit_delete) (simp add: rev_map)
  then show "seg_view f st' segs = (seg_view f st segs)(k := None)" by (simp add: fun_eq_iff)
qed

subsection \<open>Persisting\<close>

lemma persist_segment_run:
  assumes "stored (p_files w) (p_store w) n"
  shows "\<exists>f' st'. persist_segment n w = w\<lparr>p_files := f', p_store := st'\<rparr> \<and> same_but n (p_files w) f'
    \<and> (\<forall>m. m \<noteq> n \<longrightarrow> st' m = p_store w m)
    \<and> stored f' st' n \<and> dels f' st' n = dels (p_files w) (p_store w) n \<and> dkms st' n = dkms (p_store w) n
    \<and> MarkedForMerge st' n = MarkedForMerge (p_store w) n \<and> disk_deletes f' n = dels (p_files w) (p_store w) n
    \<and> (MarkedForMerge (p_store w) n \<longrightarrow> dk_files f' n = dk_files (p_files w) n)
    \<and> reader_set (the (st' n)) = dels f' st' n"
proof -
  let ?f = "p_files w"
  obtain s where s: "p_store w n = Some s" "dictionary_path s = n" "seg_ok (dict_at ?f n) ?f s" "sorted_items (dict_at ?f n)"
    using assms by (auto simp: stored_def)
  have inv: "seg_inv (dict_at ?f n) ?f s" using s(3) by (simp add: seg_ok_def)
  let ?f' = "snd (Seg_Persist ?f s)"
  note p = Seg_Persist_inv [OF inv]
  have dict: "dict_at ?f' n = dict_at ?f n" using p(3) by (simp add: same_but_def dict_at_def)
  have ok: "seg_ok (dict_at ?f n) ?f' s" by (rule seg_ok_persist [OF s(3)])
  have marked: "in_merge s \<Longrightarrow> dk_files ?f' n = dk_files ?f n" by (simp add: Seg_Persist_def s(2) [symmetric])
  show ?thesis
  proof (cases "new_delete s")
    case False
    then have "persist_segment n w = w" by (simp add: persist_segment_def Seg_Persist_def s)
    moreover have "reader_set s = seg_deletes ?f s" "disk_deletes ?f n = seg_deletes ?f s"
      using s(3) False disk_deletes_unchanged [OF inv False] by (simp_all add: seg_ok_def s(2))
    ultimately show ?thesis
      using assms s by (intro exI [of _ ?f] exI [of _ "p_store w"]) (simp add: dels_def)
  next
    case True
    let ?s = "LoadDeletedKeys False ?f' s"
    have inv': "seg_inv (dict_at ?f n) ?f' s" using ok by (simp add: seg_ok_def)
    have "persist_segment n w = w\<lparr>p_files := ?f', p_store := (p_store w)(n \<mapsto> ?s)\<rparr>"
      using True by (simp add: persist_segment_def Seg_Persist_def s)
    moreover have "dk_files ?f' (dictionary_path s) \<noteq> None \<or> dkm_files ?f' (dictionary_path s) \<noteq> None"
      using True by (simp add: Seg_Persist_def)
    then have "reader_set ?s = seg_deletes ?f s" using LoadDeletedKeys_set [of ?f' s False] p(4) by simp
    ultimately show ?thesis
      using s p(2,3,4) seg_ok_reload [OF ok] LoadDeletedKeys_inv(2) [OF inv', of False] dict marked
      by (intro exI [of _ ?f'] exI [of _ "(p_store w)(n \<mapsto> ?s)"])
        (simp add: dels_def dkms_def MarkedForMerge_def stored_def)
  qed
qed

lemma fold_persist_run:
  assumes "\<forall>n \<in> set ns. stored (p_files w) (p_store w) n" "distinct ns"
  shows "\<exists>f' st'. fold persist_segment ns w = w\<lparr>p_files := f', p_store := st'\<rparr>
    \<and> dictionary_files f' = dictionary_files (p_files w) \<and> toc_file f' = toc_file (p_files w)
    \<and> (\<forall>n. n \<notin> set ns \<longrightarrow> agree (p_files w) f' n \<and> st' n = p_store w n)
    \<and> (\<forall>n \<in> set ns. stored f' st' n \<and> dels f' st' n = dels (p_files w) (p_store w) n \<and> dkms st' n = dkms (p_store w) n
        \<and> MarkedForMerge st' n = MarkedForMerge (p_store w) n \<and> disk_deletes f' n = dels (p_files w) (p_store w) n
        \<and> (MarkedForMerge (p_store w) n \<longrightarrow> dk_files f' n = dk_files (p_files w) n)
        \<and> reader_set (the (st' n)) = dels f' st' n)"
  using assms
proof (induction ns arbitrary: w)
  case Nil
  show ?case by (rule exI [of _ "p_files w"], rule exI [of _ "p_store w"]) simp
next
  case (Cons n ns)
  obtain f1 st1 where 1: "persist_segment n w = w\<lparr>p_files := f1, p_store := st1\<rparr>" "same_but n (p_files w) f1"
    "\<forall>m. m \<noteq> n \<longrightarrow> st1 m = p_store w m"
    and n: "stored f1 st1 n \<and> dels f1 st1 n = dels (p_files w) (p_store w) n \<and> dkms st1 n = dkms (p_store w) n
      \<and> MarkedForMerge st1 n = MarkedForMerge (p_store w) n \<and> disk_deletes f1 n = dels (p_files w) (p_store w) n
      \<and> (MarkedForMerge (p_store w) n \<longrightarrow> dk_files f1 n = dk_files (p_files w) n)
      \<and> reader_set (the (st1 n)) = dels f1 st1 n"
    using persist_segment_run [of w n] Cons.prems(1) by (simp add: conj_assoc) blast
  have other: "agree (p_files w) f1 m" "st1 m = p_store w m" if "m \<noteq> n" for m
    using same_but_agree [OF 1(2) that] 1(3) that by simp_all
  let ?w = "w\<lparr>p_files := f1, p_store := st1\<rparr>"
  have keep: "stored f1 st1 m" "dels f1 st1 m = dels (p_files w) (p_store w) m" "dkms st1 m = dkms (p_store w) m"
    "MarkedForMerge st1 m = MarkedForMerge (p_store w) m" if "m \<in> set ns" for m
  proof -
    have m: "m \<noteq> n" "stored (p_files w) (p_store w) m" using that Cons.prems by auto
    show "stored f1 st1 m" "dels f1 st1 m = dels (p_files w) (p_store w) m" "dkms st1 m = dkms (p_store w) m"
      "MarkedForMerge st1 m = MarkedForMerge (p_store w) m"
      using stored_cong [of "p_files w" f1 m st1 "p_store w"] other [OF m(1)] m(2) by simp_all
  qed
  have pre: "\<forall>m \<in> set ns. stored (p_files ?w) (p_store ?w) m" "distinct ns" using keep(1) Cons.prems(2) by simp_all
  obtain f' st' where 2: "fold persist_segment ns ?w = w\<lparr>p_files := f', p_store := st'\<rparr>"
    "dictionary_files f' = dictionary_files f1" "toc_file f' = toc_file f1"
    "\<forall>m. m \<notin> set ns \<longrightarrow> agree f1 f' m \<and> st' m = st1 m"
    and ns: "\<forall>m \<in> set ns. stored f' st' m \<and> dels f' st' m = dels f1 st1 m \<and> dkms st' m = dkms st1 m
        \<and> MarkedForMerge st' m = MarkedForMerge st1 m \<and> disk_deletes f' m = dels f1 st1 m
        \<and> (MarkedForMerge st1 m \<longrightarrow> dk_files f' m = dk_files f1 m)
        \<and> reader_set (the (st' m)) = dels f' st' m"
    using Cons.IH [OF pre] by (simp add: conj_assoc) blast
  have "n \<notin> set ns" using Cons.prems(2) by simp
  then have n': "agree f1 f' n" "st' n = st1 n" using 2(4) by simp_all
  have "disk_deletes f' n = disk_deletes f1 n" using n'(1) by (simp add: agree_def disk_deletes_def)
  moreover have "stored f' st' n" "dels f' st' n = dels f1 st1 n" "dkms st' n = dkms st1 n"
    "MarkedForMerge st' n = MarkedForMerge st1 n" "dk_files f' n = dk_files f1 n" "reader_set (the (st' n)) = reader_set (the (st1 n))"
    using stored_cong [of f1 f' n st' st1] n n' by (simp_all add: agree_def)
  ultimately have for_n: "stored f' st' n \<and> dels f' st' n = dels (p_files w) (p_store w) n \<and> dkms st' n = dkms (p_store w) n
        \<and> MarkedForMerge st' n = MarkedForMerge (p_store w) n \<and> disk_deletes f' n = dels (p_files w) (p_store w) n
        \<and> (MarkedForMerge (p_store w) n \<longrightarrow> dk_files f' n = dk_files (p_files w) n)
        \<and> reader_set (the (st' n)) = dels f' st' n"
    using n by simp
  have for_m: "stored f' st' m \<and> dels f' st' m = dels (p_files w) (p_store w) m \<and> dkms st' m = dkms (p_store w) m
        \<and> MarkedForMerge st' m = MarkedForMerge (p_store w) m \<and> disk_deletes f' m = dels (p_files w) (p_store w) m
        \<and> (MarkedForMerge (p_store w) m \<longrightarrow> dk_files f' m = dk_files (p_files w) m)
        \<and> reader_set (the (st' m)) = dels f' st' m" if "m \<in> set ns" for m
  proof -
    have "m \<noteq> n" using that \<open>n \<notin> set ns\<close> by blast
    then have "dk_files f1 m = dk_files (p_files w) m" using other(1) by (simp add: agree_def)
    then show ?thesis using ns that keep [OF that] by simp
  qed
  have frame: "agree (p_files w) f' m \<and> st' m = p_store w m" if "m \<notin> set (n # ns)" for m
    using that 2(4) other [of m] agree_trans by auto
  show ?case
    using 1 2(1-3) for_n for_m frame by (intro exI [of _ f'] exI [of _ st']) (auto simp: same_but_def)
qed

subsection \<open>The end of a merge\<close>

lemma hit_find:
  "hit (map (\<lambda>n. (d n, e n)) ns) k =
     (case List.find (\<lambda>n. Dictionary_has (d n) k) ns of None \<Rightarrow> None | Some n \<Rightarrow> Some (the (map_of (d n) k), k \<in> e n))"
  by (induction ns) (auto simp: Dictionary_has_def split: option.split)

lemma find_SomeD: "List.find P xs = Some x \<Longrightarrow> x \<in> set xs \<and> P x"
  by (auto simp: find_Some_iff)

lemma visible_hit:
  "visible (hit (map (\<lambda>n. (d n, e n)) ns) k) =
     (case List.find (\<lambda>n. Dictionary_has (d n) k) ns of None \<Rightarrow> None | Some n \<Rightarrow> if k \<in> e n then None else map_of (d n) k)"
  using find_SomeD [of "\<lambda>n. Dictionary_has (d n) k" ns]
  by (cases "List.find (\<lambda>n. Dictionary_has (d n) k) ns") (auto simp: hit_find Dictionary_has_def)

lemma find_append: "List.find P (xs @ ys) = (case List.find P xs of None \<Rightarrow> List.find P ys | Some x \<Rightarrow> Some x)"
  by (induction xs) simp_all

lemma seg_view_find:
  "seg_view f st segs k =
     (case List.find (\<lambda>n. has_key f n k) (rev segs) of None \<Rightarrow> None
      | Some n \<Rightarrow> if k \<in> dels f st n then None else map_of (dict_at f n) k)"
  by (simp add: seg_view_def rev_map visible_hit)

text \<open>Adjacent parts of a list without repetitions that have nothing in common lie one behind the other.\<close>

lemma adjacent_parts:
  assumes "pre @ l @ post = a @ l' @ b" "distinct (pre @ l @ post)" "l \<noteq> []" "l' \<noteq> []" "set l \<inter> set l' = {}"
  shows "(\<exists>b'. pre = a @ l' @ b') \<or> (\<exists>a'. post = a' @ l' @ b)"
proof -
  from iffD1 [OF append_eq_append_conv2 assms(1)] obtain us where
    "pre = a @ us \<and> us @ l @ post = l' @ b \<or> pre @ us = a \<and> l @ post = us @ l' @ b" by blast
  then show ?thesis
  proof (elim disjE conjE)
    assume 1: "pre = a @ us" "us @ l @ post = l' @ b"
    from iffD1 [OF append_eq_append_conv2 1(2)] obtain vs where
      "us = l' @ vs \<and> vs @ l @ post = b \<or> us @ vs = l' \<and> l @ post = vs @ b" by blast
    then show ?thesis
    proof (elim disjE conjE)
      assume 2: "us @ vs = l'" "l @ post = vs @ b"
      then have "vs = []" using assms(3,5) by (cases vs; cases l) auto
      with 1(1) 2(1) show ?thesis by (intro disjI1 exI [of _ "[]"]) simp
    qed (use 1(1) in auto)
  next
    assume 1: "pre @ us = a" "l @ post = us @ l' @ b"
    from iffD1 [OF append_eq_append_conv2 1(2)] obtain vs where
      "l = us @ vs \<and> vs @ post = l' @ b \<or> l @ vs = us \<and> post = vs @ l' @ b" by blast
    then show ?thesis
    proof (elim disjE conjE)
      assume 2: "l = us @ vs" "vs @ post = l' @ b"
      then have "vs = []" using assms(4,5) by (cases vs; cases l') auto
      with 2 show ?thesis by (intro disjI2 exI [of _ "[]"]) simp
    qed auto
  qed
qed

lemma with_sets_inputs:
  "with_sets (merge_inputs f ns) = map (\<lambda>n. (dict_at f n, file_set (dk_files f n))) ns"
  by (simp add: merge_inputs_def dict_at_def file_set_def comp_def)

text \<open>In a merge the deletions of a segment are those of its file \<open>.dk\<close> and those made since.\<close>

lemma marked_dels:
  assumes "stored f st n" "MarkedForMerge st n"
  shows "dels f st n = file_set (dk_files f n) \<union> dkms st n"
proof -
  obtain s where s: "st n = Some s" "dictionary_path s = n" "seg_ok (dict_at f n) f s" using assms(1) by (auto simp: stored_def)
  then have "deletes_loaded s" "set (deleted_keys_for_write s) = file_set (dk_files f n)"
    using assms(2) by (simp_all add: MarkedForMerge_def seg_ok_def)
  then show ?thesis by (simp add: dels_def dkms_def seg_deletes_def s(1))
qed

text \<open>What the merged dictionary has, in terms of the newest segment of the job that has the key.\<close>

lemma merged_dictionary:
  assumes "\<forall>n \<in> set l. stored f st n" "merge_clean (merge_inputs f l)"
  shows "map_of (merge_dictionaries (merge_inputs f l)) k =
    (case List.find (\<lambda>n. has_key f n k) (rev l) of None \<Rightarrow> None
     | Some n \<Rightarrow> if k \<in> file_set (dk_files f n) then None else map_of (dict_at f n) k)"
proof -
  have "\<forall>(d, dk) \<in> set (merge_inputs f l). sorted_items d \<and> distinct dk"
    using assms(1) by (auto simp: merge_inputs_def stored_def seg_ok_def lists_distinct_def dict_at_def)
  from merge_dictionaries_hit [OF this assms(2), of k] show ?thesis by (simp add: with_sets_inputs rev_map visible_hit)
qed

lemma seg_world_merge:
  assumes world: "seg_world f st segs (L1 @ l # L2)" and segs: "segs = pre @ l @ post"
    and clean: "merge_clean (merge_inputs f l)" and out: "out \<notin> set segs"
    and others: "\<And>n. n \<in> set pre \<union> set post \<Longrightarrow> agree f f' n \<and> st' n = st n"
    and merged: "dict_at f' out = merge_dictionaries (merge_inputs f l)" "stored f' st' out" "\<not> MarkedForMerge st' out"
      "dels f' st' out = \<Union> (dkms st ` set l)"
  shows "seg_world f' st' (pre @ out # post) (L1 @ L2)" "seg_view f' st' (pre @ out # post) = seg_view f st segs"
proof -
  note w = seg_worldD [OF world]
  have l: "l \<in> set (L1 @ l # L2)" by simp
  have in_l: "n \<in> set segs" "MarkedForMerge st n" "stored f st n" if "n \<in> set l" for n
    using seg_world_job_segments [OF world l that] w(2) by simp_all
  have split: "dels f st n = file_set (dk_files f n) \<union> dkms st n" if "n \<in> set l" for n
    using marked_dels in_l [OF that] by blast
  have same: "stored f' st' n" "dict_at f' n = dict_at f n" "dels f' st' n = dels f st n" "dkms st' n = dkms st n"
    "MarkedForMerge st' n = MarkedForMerge st n" if "n \<in> set pre \<union> set post" for n
  proof -
    have "stored f st n" using that segs w(2) by auto
    with others [OF that] show "stored f' st' n" "dict_at f' n = dict_at f n" "dels f' st' n = dels f st n"
      "dkms st' n = dkms st n" "MarkedForMerge st' n = MarkedForMerge st n"
      using stored_cong [of f f' n st' st] agree_cong(1) [of f f' n] by auto
  qed
  have has_merged: "map_of (merge_dictionaries (merge_inputs f l)) k =
      (case List.find (\<lambda>n. has_key f n k) (rev l) of None \<Rightarrow> None
       | Some n \<Rightarrow> if k \<in> file_set (dk_files f n) then None else map_of (dict_at f n) k)" for k
    by (rule merged_dictionary [OF _ clean, of st]) (use in_l in blast)
  have older: "k \<in> dels f st a" if "a \<in> set pre" "b \<in> set (l @ post)" "k \<in> dels f st b" "has_key f a k" for a b k
    using w(7) that segs by (auto simp: sorted_wrt_append)
  have newer: "k \<in> dels f st a" if "a \<in> set l" "b \<in> set post" "k \<in> dels f st b" "has_key f a k" for a b k
    using w(7) that segs by (auto simp: sorted_wrt_append)
  have sorted: "sorted_wrt (\<lambda>a b. \<forall>k. k \<in> dels f' st' b \<and> has_key f' a k \<longrightarrow> k \<in> dels f' st' a) (pre @ out # post)"
  proof -
    let ?P = "\<lambda>f st a b. \<forall>k. k \<in> dels f st b \<and> has_key f a k \<longrightarrow> k \<in> dels f st a"
    have "sorted_wrt (?P f st) (pre @ post)" using w(7) by (auto simp: segs sorted_wrt_append)
    then have "sorted_wrt (?P f' st') (pre @ post)"
      by (rule sorted_wrt_mono_rel [rotated]) (use same in auto)
    moreover have "?P f' st' a out" if a: "a \<in> set pre" for a
    proof (intro allI impI)
      fix k assume k: "k \<in> dels f' st' out \<and> has_key f' a k"
      then obtain n where "n \<in> set l" "k \<in> dkms st n" using merged(4) by auto
      then have "k \<in> dels f st a" using older [OF a, of n k] split k same(2) [of a] a by auto
      then show "k \<in> dels f' st' a" using same(3) [of a] a by simp
    qed
    moreover have "?P f' st' out b" if b: "b \<in> set post" for b
    proof (intro allI impI)
      fix k assume k: "k \<in> dels f' st' b \<and> has_key f' out k"
      then have "map_of (merge_dictionaries (merge_inputs f l)) k \<noteq> None" by (simp add: Dictionary_has_def merged(1))
      then obtain n where n: "List.find (\<lambda>n. has_key f n k) (rev l) = Some n" "k \<notin> file_set (dk_files f n)"
        unfolding has_merged by (auto split: option.splits if_splits)
      then have n': "n \<in> set l" "has_key f n k" using find_SomeD by fastforce+
      have "k \<in> dels f st b" using k same(3) [of b] b by simp
      then have "k \<in> dels f st n" using newer [OF n'(1) b] n'(2) by blast
      then show "k \<in> dels f' st' out" using split [OF n'(1)] n(2) n'(1) merged(4) by auto
    qed
    ultimately show ?thesis by (auto simp: sorted_wrt_append)
  qed
  have dist: "distinct (pre @ out # post)" using w(1) out segs by auto
  have disj: "set l \<inter> set l' = {}" if "l' \<in> set (L1 @ L2)" for l'
  proof -
    have "set l \<inter> set (concat L1) = {}" "set l \<inter> set (concat L2) = {}" using w(3) by auto
    moreover have "set l' \<subseteq> set (concat L1) \<union> set (concat L2)" using that by auto
    ultimately show ?thesis by blast
  qed
  have part: "\<exists>a b. pre @ out # post = a @ l' @ b" if "l' \<in> set (L1 @ L2)" for l'
  proof -
    have l': "l' \<in> set (L1 @ l # L2)" using that by auto
    obtain a b where ab: "segs = a @ l' @ b" using w(5) [OF l'] by blast
    have "(\<exists>b'. pre = a @ l' @ b') \<or> (\<exists>a'. post = a' @ l' @ b)"
      using adjacent_parts [of pre l post a l' b] ab segs w(1) w(4) [OF l] w(4) [OF l'] disj [OF that] by simp
    then show ?thesis
    proof (elim disjE exE)
      fix b' assume "pre = a @ l' @ b'"
      then show ?thesis by (intro exI [of _ a] exI [of _ "b' @ out # post"]) simp
    next
      fix a' assume "post = a' @ l' @ b"
      then show ?thesis by (intro exI [of _ "pre @ out # a'"] exI [of _ b]) simp
    qed
  qed
  have jobs_in: "n \<in> set pre \<union> set post" if "l' \<in> set (L1 @ L2)" "n \<in> set l'" for l' n
  proof -
    have "l' \<in> set (L1 @ l # L2)" using that(1) by auto
    then have "n \<in> set segs" by (rule seg_world_job_segments(1) [OF world _ that(2)])
    moreover have "n \<notin> set l" using disj [OF that(1)] that(2) by blast
    ultimately show ?thesis using segs by auto
  qed
  have marks: "MarkedForMerge st' n \<longleftrightarrow> n \<in> set (concat (L1 @ L2))" if "n \<in> set (pre @ out # post)" for n
  proof (cases "n = out")
    case True
    then show ?thesis using merged(3) jobs_in out segs by fastforce
  next
    case False
    then have n: "n \<in> set pre \<union> set post" using that by auto
    then have "n \<in> set segs" "n \<notin> set l" using segs w(1) by auto
    then show ?thesis using w(6) [of n] same(5) [OF n] by auto
  qed
  have merging: "k \<in> dkms st' m" if "l' \<in> set (L1 @ L2)" "n \<in> set l'" "m \<in> set l'" "k \<in> dkms st' n" "has_key f' m k" for l' n m k
  proof -
    have l': "l' \<in> set (L1 @ l # L2)" using that(1) by auto
    show ?thesis
      using w(8) [OF l' that(2,3), of k] that(4,5) same(2,4) [OF jobs_in [OF that(1,2)]] same(2,4) [OF jobs_in [OF that(1,3)]] by simp
  qed
  show "seg_world f' st' (pre @ out # post) (L1 @ L2)"
    unfolding seg_world_def
  proof (intro conjI ballI allI impI)
    show "stored f' st' n" if "n \<in> set (pre @ out # post)" for n using that same(1) merged(2) by auto
    show "distinct (concat (L1 @ L2))" using w(3) by auto
    show "l' \<noteq> []" if "l' \<in> set (L1 @ L2)" for l' using w(4) that by auto
  qed (use dist part marks sorted merging in blast)+
  show "seg_view f' st' (pre @ out # post) = seg_view f st segs"
  proof (rule ext)
    fix k
    let ?find = "List.find (\<lambda>n. has_key f n k)"
    have find': "List.find (\<lambda>n. has_key f' n k) (rev ns) = ?find (rev ns)" if "set ns \<subseteq> set pre \<union> set post" for ns
      by (rule find_cong) (use same(2) that in auto)
    have found: "n \<in> set ns \<and> has_key f n k" if "?find (rev ns) = Some n" for ns n
      using find_SomeD [OF that] by simp
    have old: "?find (rev segs) = (case ?find (rev post) of Some n \<Rightarrow> Some n | None \<Rightarrow>
        (case ?find (rev l) of Some n \<Rightarrow> Some n | None \<Rightarrow> ?find (rev pre)))"
      by (simp add: segs find_append split: option.split)
    have new: "List.find (\<lambda>n. has_key f' n k) (rev post @ out # rev pre) = (case ?find (rev post) of Some n \<Rightarrow> Some n | None \<Rightarrow>
        if has_key f' out k then Some out else ?find (rev pre))"
      by (simp add: find_append find' split: option.split)
    show "seg_view f' st' (pre @ out # post) k = seg_view f st segs k"
    proof (cases "?find (rev post)")
      case (Some n)
      then show ?thesis using found [OF Some] same [of n] by (simp add: seg_view_find old new)
    next
      case None
      note post = this
      have in_pre: "seg_view f' st' (pre @ out # post) k = seg_view f st pre k" if "\<not> has_key f' out k"
        using that post found [of pre] same by (auto simp: seg_view_find new split: option.split)
      show ?thesis
      proof (cases "?find (rev l)")
        case None
        then have "\<not> has_key f' out k" by (simp add: Dictionary_has_def merged(1) has_merged)
        with in_pre post None show ?thesis by (simp add: seg_view_find old)
      next
        case (Some n)
        note n = found [OF Some]
        have old': "seg_view f st segs k = (if k \<in> dels f st n then None else map_of (dict_at f n) k)"
          using post Some by (simp add: seg_view_find old)
        show ?thesis
        proof (cases "k \<in> file_set (dk_files f n)")
          case True
          then have "k \<in> dels f st n" using split n by auto
          moreover from True Some have "\<not> has_key f' out k" by (simp add: Dictionary_has_def merged(1) has_merged)
          moreover have "seg_view f st pre k = None"
          proof (cases "?find (rev pre)")
            case (Some m)
            then have "k \<in> dels f st m" using found [OF Some] older [of m n k] n \<open>k \<in> dels f st n\<close> by auto
            with Some show ?thesis by (simp add: seg_view_find)
          qed (simp add: seg_view_find)
          ultimately show ?thesis using in_pre old' by simp
        next
          case False
          then have m: "map_of (dict_at f' out) k = map_of (dict_at f n) k" using Some by (simp add: merged(1) has_merged)
          then have "has_key f' out k" using n by (simp add: Dictionary_has_def)
          then have "seg_view f' st' (pre @ out # post) k =
              (if k \<in> dels f' st' out then None else map_of (dict_at f n) k)"
            using post m by (simp add: seg_view_find new)
          moreover have "k \<in> dels f' st' out \<longleftrightarrow> k \<in> dels f st n"
          proof
            assume "k \<in> dels f' st' out"
            then obtain n' where "n' \<in> set l" "k \<in> dkms st n'" using merged(4) by auto
            then have "k \<in> dkms st n" using w(8) [OF l, of n' n k] n by blast
            then show "k \<in> dels f st n" using split n by auto
          qed (use split False n merged(4) in auto)
          ultimately show ?thesis using old' by simp
        qed
      qed
    qed
  qed
qed

subsection \<open>New segments and new jobs\<close>

lemma seg_world_append:
  assumes world: "seg_world f st segs L" and p: "p \<notin> set segs"
    and others: "\<And>n. n \<in> set segs \<Longrightarrow> agree f f' n \<and> st' n = st n"
    and new: "stored f' st' p" "\<not> MarkedForMerge st' p" "dels f' st' p = {}"
  shows "seg_world f' st' (segs @ [p]) L"
    "seg_view f' st' (segs @ [p]) k =
       (case map_of (dict_at f' p) k of Some v \<Rightarrow> Some v | None \<Rightarrow> seg_view f st segs k)"
proof -
  have old: "seg_world f' st' segs L" "seg_view f' st' segs = seg_view f st segs"
    by (rule seg_world_agree [OF world], erule others)+
  note w = seg_worldD [OF old(1)]
  note sub = seg_world_job_segments(1) [OF old(1)]
  show "seg_world f' st' (segs @ [p]) L"
    unfolding seg_world_def
  proof (intro conjI ballI allI impI)
    show "distinct (segs @ [p])" using w(1) p by simp
    show "stored f' st' n" if "n \<in> set (segs @ [p])" for n using that w(2) new(1) by auto
    show "distinct (concat L)" by (rule w(3))
    show "\<exists>pre post. segs @ [p] = pre @ l @ post" if l: "l \<in> set L" for l
    proof -
      obtain pre post where "segs = pre @ l @ post" using w(5) [OF l] by blast
      then show ?thesis by (intro exI [of _ pre] exI [of _ "post @ [p]"]) simp
    qed
    show "MarkedForMerge st' n = (n \<in> set (concat L))" if "n \<in> set (segs @ [p])" for n
    proof (cases "n = p")
      case True
      have "p \<notin> set (concat L)" using p sub by fastforce
      with True new(2) show ?thesis by simp
    qed (use that w(6) in auto)
    show "sorted_wrt (\<lambda>a b. \<forall>k. k \<in> dels f' st' b \<and> has_key f' a k \<longrightarrow> k \<in> dels f' st' a) (segs @ [p])"
      using w(7) new(3) by (simp add: sorted_wrt_append)
  qed (use w(4,8) in blast)+
  have "seg_view f' st' (segs @ [p]) k =
       (case map_of (dict_at f' p) k of Some v \<Rightarrow> Some v | None \<Rightarrow> seg_view f' st' segs k)"
    using new(3) by (simp add: seg_view_def split: option.split)
  then show "seg_view f' st' (segs @ [p]) k =
       (case map_of (dict_at f' p) k of Some v \<Rightarrow> Some v | None \<Rightarrow> seg_view f st segs k)"
    unfolding old(2) .
qed

lemma elect_segments_run:
  assumes "\<forall>n \<in> set ns. stored (p_files w) (p_store w) n \<and> \<not> MarkedForMerge (p_store w) n \<and> deletes_loaded (the (p_store w n))"
    and "distinct ns"
  shows "\<exists>f' st'. elect_segments ns w = w\<lparr>p_files := f', p_store := st'\<rparr>
    \<and> dictionary_files f' = dictionary_files (p_files w) \<and> toc_file f' = toc_file (p_files w)
    \<and> (\<forall>n. n \<notin> set ns \<longrightarrow> agree (p_files w) f' n \<and> st' n = p_store w n)
    \<and> (\<forall>n \<in> set ns. stored f' st' n \<and> dels f' st' n = dels (p_files w) (p_store w) n \<and> dkms st' n = {}
        \<and> MarkedForMerge st' n \<and> disk_deletes f' n = dels (p_files w) (p_store w) n)"
  using assms
proof (induction ns arbitrary: w)
  case Nil
  show ?case by (rule exI [of _ "p_files w"], rule exI [of _ "p_store w"]) simp
next
  case (Cons n ns)
  let ?f = "p_files w"
  obtain s where s: "p_store w n = Some s" "dictionary_path s = n" "seg_ok (dict_at ?f n) ?f s" "sorted_items (dict_at ?f n)"
    using Cons.prems(1) by (auto simp: stored_def)
  have inv: "seg_inv (dict_at ?f n) ?f s" using s(3) by (simp add: seg_ok_def)
  have um: "\<not> in_merge s" "deletes_loaded s" using Cons.prems(1) s(1) by (simp_all add: MarkedForMerge_def)
  obtain f1 s1 where fs: "ElectedForMerge ?f s = (f1, s1)" by fastforce
  note e = ElectedForMerge_inv [OF inv, unfolded fs fst_conv snd_conv]
  note ok = seg_ok_elected [OF s(3) um, unfolded fs fst_conv snd_conv]
  have f1: "f1 = snd (Seg_Persist ?f s)" using fs by (simp add: ElectedForMerge_def)
  let ?w = "w\<lparr>p_files := f1, p_store := (p_store w)(n \<mapsto> s1)\<rparr>"
  have other: "agree ?f f1 m" "p_store ?w m = p_store w m" if "m \<noteq> n" for m
    using same_but_agree [OF e(3)] that s(2) by simp_all
  have keep: "stored f1 (p_store ?w) m" "dels f1 (p_store ?w) m = dels ?f (p_store w) m"
    "dkms (p_store ?w) m = dkms (p_store w) m" "MarkedForMerge (p_store ?w) m = MarkedForMerge (p_store w) m"
    "deletes_loaded (the (p_store ?w m)) = deletes_loaded (the (p_store w m))" if "m \<in> set ns" for m
  proof -
    have m: "m \<noteq> n" "stored ?f (p_store w) m" using that Cons.prems by auto
    show "stored f1 (p_store ?w) m" "dels f1 (p_store ?w) m = dels ?f (p_store w) m"
      "dkms (p_store ?w) m = dkms (p_store w) m" "MarkedForMerge (p_store ?w) m = MarkedForMerge (p_store w) m"
      "deletes_loaded (the (p_store ?w m)) = deletes_loaded (the (p_store w m))"
      using stored_cong [of ?f f1 m "p_store ?w" "p_store w"] other [OF m(1)] m by simp_all
  qed
  have "\<forall>m \<in> set ns. stored (p_files ?w) (p_store ?w) m \<and> \<not> MarkedForMerge (p_store ?w) m \<and> deletes_loaded (the (p_store ?w m))"
    using Cons.prems keep by simp
  from Cons.IH [OF this] Cons.prems(2) obtain f' st' where 2: "elect_segments ns ?w = ?w\<lparr>p_files := f', p_store := st'\<rparr>"
    "dictionary_files f' = dictionary_files f1" "toc_file f' = toc_file f1"
    "\<forall>m. m \<notin> set ns \<longrightarrow> agree f1 f' m \<and> st' m = p_store ?w m"
    and ns: "\<forall>m \<in> set ns. stored f' st' m \<and> dels f' st' m = dels f1 (p_store ?w) m \<and> dkms st' m = {}
        \<and> MarkedForMerge st' m \<and> disk_deletes f' m = dels f1 (p_store ?w) m"
    by (simp add: conj_assoc del: fun_upd_apply) blast
  have "n \<notin> set ns" using Cons.prems(2) by simp
  then have n': "agree f1 f' n" "st' n = Some s1" using 2(4) by simp_all
  have dict: "dict_at f1 n = dict_at ?f n" using e(3) by (simp add: same_but_def dict_at_def)
  have "stored f1 (p_store ?w) n" using e(4) ok(1) s dict by (simp add: stored_def)
  moreover have "dels f1 (p_store ?w) n = dels ?f (p_store w) n" using e(2) by (simp add: dels_def s)
  moreover have "dkms (p_store ?w) n = {}"
    using ok(2) inv um by (simp add: dkms_def seg_inv_def lists_inv_def)
  moreover have "MarkedForMerge (p_store ?w) n" using e(5) by (simp add: MarkedForMerge_def)
  moreover have "disk_deletes f1 n = dels ?f (p_store w) n"
    using Seg_Persist_inv(4) [OF inv] by (simp add: f1 s dels_def)
  ultimately have for_n: "stored f' st' n \<and> dels f' st' n = dels ?f (p_store w) n \<and> dkms st' n = {}
        \<and> MarkedForMerge st' n \<and> disk_deletes f' n = dels ?f (p_store w) n"
    using stored_cong [of f1 f' n st' "p_store ?w"] n' by (simp add: agree_def disk_deletes_def)
  have for_m: "stored f' st' m \<and> dels f' st' m = dels ?f (p_store w) m \<and> dkms st' m = {}
        \<and> MarkedForMerge st' m \<and> disk_deletes f' m = dels ?f (p_store w) m" if "m \<in> set ns" for m
    using ns that keep [OF that] by simp
  have frame: "agree ?f f' m \<and> st' m = p_store w m" if "m \<notin> set (n # ns)" for m
    using that 2(4) other [of m] agree_trans by auto
  have "elect_segments (n # ns) w = w\<lparr>p_files := f', p_store := st'\<rparr>" using 2(1) by (simp add: s fs)
  then show ?case
    using 2(2,3) e(3) for_n for_m frame by (intro exI [of _ f'] exI [of _ st']) (auto simp: same_but_def)
qed

lemma seg_world_elect:
  assumes world: "seg_world f st segs L" and l: "l \<noteq> []" "segs = pre @ l @ post" "\<forall>n \<in> set l. \<not> MarkedForMerge st n"
    and others: "\<And>n. n \<in> set segs \<Longrightarrow> n \<notin> set l \<Longrightarrow> agree f f' n \<and> st' n = st n"
    and dict: "dictionary_files f' = dictionary_files f"
    and elected: "\<And>n. n \<in> set l \<Longrightarrow> stored f' st' n \<and> dels f' st' n = dels f st n \<and> dkms st' n = {} \<and> MarkedForMerge st' n"
  shows "seg_world f' st' segs (L @ [l])" "seg_view f' st' segs = seg_view f st segs"
proof -
  note w = seg_worldD [OF world]
  have same: "stored f' st' n" "dict_at f' n = dict_at f n" "dels f' st' n = dels f st n"
    "n \<notin> set l \<Longrightarrow> dkms st' n = dkms st n" "MarkedForMerge st' n \<longleftrightarrow> MarkedForMerge st n \<or> n \<in> set l" if "n \<in> set segs" for n
  proof -
    have "stored f st n" using that w(2) by blast
    then show "stored f' st' n" "dict_at f' n = dict_at f n" "dels f' st' n = dels f st n"
      "n \<notin> set l \<Longrightarrow> dkms st' n = dkms st n" "MarkedForMerge st' n \<longleftrightarrow> MarkedForMerge st n \<or> n \<in> set l"
      using others [OF that] elected stored_cong [of f f' n st' st] dict
      by (cases "n \<in> set l"; simp add: dict_at_def)+
  qed
  show "seg_view f' st' segs = seg_view f st segs" by (rule seg_view_cong) (use same in blast)
  have sub: "set l \<subseteq> set segs" using l(2) by auto
  have disj: "set l \<inter> set (concat L) = {}"
    using w(6) l(3) sub by (auto simp: disjoint_iff simp del: set_concat)
  show "seg_world f' st' segs (L @ [l])"
    unfolding seg_world_def
  proof (intro conjI ballI allI impI)
    show "distinct segs" by (rule w(1))
    show "stored f' st' n" if "n \<in> set segs" for n using same(1) [OF that] .
    have "distinct l" using w(1) l(2) by simp
    then show "distinct (concat (L @ [l]))" using w(3) disj by auto
    show "l' \<noteq> []" if "l' \<in> set (L @ [l])" for l' using that w(4) l(1) by auto
    show "\<exists>pre post. segs = pre @ l' @ post" if "l' \<in> set (L @ [l])" for l' using that w(5) l(2) by auto
    show "MarkedForMerge st' n = (n \<in> set (concat (L @ [l])))" if "n \<in> set segs" for n
      using same(5) [OF that] w(6) [OF that] by auto
    show "sorted_wrt (\<lambda>a b. \<forall>k. k \<in> dels f' st' b \<and> has_key f' a k \<longrightarrow> k \<in> dels f' st' a) segs"
      by (rule sorted_wrt_mono_rel [OF _ w(7)]) (simp add: same)
    fix l' n m k
    assume a: "l' \<in> set (L @ [l])" "n \<in> set l'" "m \<in> set l'" "k \<in> dkms st' n \<and> has_key f' m k"
    show "k \<in> dkms st' m"
    proof (cases "l' \<in> set L")
      case True
      have "n \<in> set (concat L)" "m \<in> set (concat L)" using True a by auto
      then have "n \<notin> set l" "m \<notin> set l" using disj by auto
      moreover have "n \<in> set segs" "m \<in> set segs" using seg_world_job_segments(1) [OF world True] a by auto
      ultimately show ?thesis using w(8) [OF True a(2,3), of k] a(4) same(2,4) by simp
    next
      case False
      then show ?thesis using a elected by auto
    qed
  qed
qed

end
