(* ===== verification/Index_System.thy ===== *)
theory Index_System
  imports Index_Refinement
begin

text \<open>
  The steps of the index writer against the invariant of its payload, and the runs of the whole system: the
  contents of the index are those of a map from keys to values to which the calls of the clients were
  applied in their order.
\<close>

section \<open>The invariant of the payload\<close>

text \<open>The jobs whose result is not yet in the list of segments.\<close>

definition live :: "MergeJob list \<Rightarrow> MergeJob list" where
  "live js = filter (\<lambda>j. \<not> merge_done j) js"

lemma live_simps [simp]:
  "live [] = []" "live (j # js) = (if merge_done j then live js else j # live js)" "live (js @ js') = live js @ live js'"
  by (simp_all add: live_def)

definition written :: "index_files \<Rightarrow> MergeJob \<Rightarrow> bool" where
  "written f j \<longleftrightarrow> dictionary_files f (output_filename j) = Some (merge_dictionaries (merge_inputs f (mj_segments j)))"

text \<open>A job: its output is a new name, and it holds the merged dictionary once the merge has ended.\<close>

definition job_ok :: "index_files \<Rightarrow> filename list \<Rightarrow> MergeJob \<Rightarrow> bool" where
  "job_ok f segs j \<longleftrightarrow> output_filename j \<notin> set segs
     \<and> dk_files f (output_filename j) = None \<and> dkm_files f (output_filename j) = None
     \<and> (case mj_process j of
          Internal_Thread b \<Rightarrow> \<not> process_finished j \<and> (b \<longrightarrow> exit_code j = 0 \<and> written f j)
        | External_Process None \<Rightarrow> \<not> process_finished j
        | External_Process (Some code) \<Rightarrow> \<not> process_finished j \<and> code = 0 \<and> written f j
        | Not_Started \<Rightarrow> False
        | _ \<Rightarrow> process_finished j \<and> exit_code j = 0 \<and> written f j)"

text \<open>
  The compiler holds operations; a key whose last operation is a deletion has been deleted from the
  segments, too.
\<close>

definition compiler_ok :: "IndexPayload \<Rightarrow> bool" where
  "compiler_ok w \<longleftrightarrow> (\<forall>c. p_compiler w = Some c \<longrightarrow> ic_generator c = None
     \<and> (\<forall>k kv. last_operation (ic_key_values c) k = Some kv \<and> kv_deleted kv \<longrightarrow>
          seg_view (p_files w) (p_store w) (p_segments w) k = None))"

definition persisted :: "index_files \<Rightarrow> segment_store \<Rightarrow> filename list \<Rightarrow> bool" where
  "persisted f st segs \<longleftrightarrow> (\<forall>n \<in> set segs. disk_deletes f n = dels f st n)"

definition toc_ok :: "IndexPayload \<Rightarrow> bool" where
  "toc_ok w \<longleftrightarrow> toc_file (p_files w) = Some (p_segments w) \<or> toc_file (p_files w) = None \<and> p_segments w = []"

definition winv :: "MergeJob list \<Rightarrow> IndexPayload \<Rightarrow> bool" where
  "winv js w \<longleftrightarrow> seg_world (p_files w) (p_store w) (p_segments w) (map mj_segments (live js))
     \<and> (\<forall>j \<in> set (live js). job_ok (p_files w) (p_segments w) j) \<and> distinct (map output_filename (live js))
     \<and> compiler_ok w \<and> (\<not> any_delete w \<longrightarrow> persisted (p_files w) (p_store w) (p_segments w)) \<and> toc_ok w"

definition payload_ok :: "IndexPayload \<Rightarrow> bool" where
  "payload_ok w \<longleftrightarrow> winv (merge_jobs w) w \<and> (\<forall>j \<in> set (merge_jobs w). \<not> merge_done j)"

text \<open>
  The contents of the index: the segments, overridden by the operations in the compiler.  The empty key is
  never compiled.
\<close>

definition write_view :: "IndexPayload \<Rightarrow> u8 list \<Rightarrow> string option" where
  "write_view w =
     ((case p_compiler w of None \<Rightarrow> \<lambda>m. m | Some c \<Rightarrow> fold apply_kv (ic_key_values c))
        (seg_view (p_files w) (p_store w) (p_segments w)))([] := None)"

lemma write_view_drop [simp]: "(write_view w)([] := None) = write_view w"
  by (simp add: write_view_def)

lemma merge_inputs_cong:
  "(\<And>n. n \<in> set ns \<Longrightarrow> dictionary_files f' n = dictionary_files f n \<and> dk_files f' n = dk_files f n) \<Longrightarrow>
     merge_inputs f' ns = merge_inputs f ns"
  by (simp add: merge_inputs_def)

text \<open>A job depends on the dictionaries and \<open>.dk\<close> files of its segments and the files of its output.\<close>

lemma job_ok_cong:
  assumes "job_ok f segs j" "agree f f' (output_filename j)" "output_filename j \<notin> set segs'"
    and "\<And>n. n \<in> set (mj_segments j) \<Longrightarrow> dictionary_files f' n = dictionary_files f n \<and> dk_files f' n = dk_files f n"
  shows "job_ok f' segs' j"
proof -
  have "merge_inputs f' (mj_segments j) = merge_inputs f (mj_segments j)" by (rule merge_inputs_cong) (rule assms(4))
  then show ?thesis
    using assms(1-3) by (auto simp: job_ok_def agree_def written_def split: merge_process.splits option.splits)
qed

lemma winvD:
  assumes "winv js w"
  shows "seg_world (p_files w) (p_store w) (p_segments w) (map mj_segments (live js))"
    "j \<in> set (live js) \<Longrightarrow> job_ok (p_files w) (p_segments w) j" "distinct (map output_filename (live js))"
    "compiler_ok w" "\<not> any_delete w \<Longrightarrow> persisted (p_files w) (p_store w) (p_segments w)" "toc_ok w"
  using assms by (simp_all add: winv_def)

lemma winv_job_segments:
  assumes "winv js w" "j \<in> set (live js)" "n \<in> set (mj_segments j)"
  shows "n \<in> set (p_segments w)" "MarkedForMerge (p_store w) n"
  using seg_world_job_segments [OF winvD(1) [OF assms(1)], of "mj_segments j" n] assms(2,3) by simp_all

lemma winv_output:
  assumes "winv js w" "j \<in> set (live js)"
  shows "output_filename j \<notin> set (p_segments w)"
  using winvD(2) [OF assms] by (simp add: job_ok_def)

text \<open>Steps that change files and store, but no dictionary and no deletion.\<close>

lemma winv_files:
  assumes w: "winv js w" and w': "w' = w\<lparr>p_files := f', p_store := st', any_delete := a\<rparr>"
    and dict: "dictionary_files f' = dictionary_files (p_files w)" and toc: "toc_file f' = toc_file (p_files w)"
    and others: "\<And>n. n \<notin> set (p_segments w) \<Longrightarrow> agree (p_files w) f' n"
    and same: "\<And>n. n \<in> set (p_segments w) \<Longrightarrow> stored f' st' n \<and> dels f' st' n = dels (p_files w) (p_store w) n
      \<and> dkms st' n = dkms (p_store w) n \<and> MarkedForMerge st' n = MarkedForMerge (p_store w) n
      \<and> (MarkedForMerge (p_store w) n \<longrightarrow> dk_files f' n = dk_files (p_files w) n)"
    and del: "\<not> a \<Longrightarrow> persisted f' st' (p_segments w)"
  shows "winv js w'" "write_view w' = write_view w"
proof -
  have dicts: "dict_at f' n = dict_at (p_files w) n" for n using dict by (simp add: dict_at_def)
  have view: "seg_view f' st' (p_segments w) = seg_view (p_files w) (p_store w) (p_segments w)"
    by (rule seg_view_cong) (use same dicts in blast)
  have "seg_world f' st' (p_segments w) (map mj_segments (live js))"
    by (rule seg_world_cong [OF winvD(1) [OF w]]) (use same dicts in blast)
  moreover have "job_ok f' (p_segments w) j" if j: "j \<in> set (live js)" for j
  proof (rule job_ok_cong [OF winvD(2) [OF w j]])
    show "agree (p_files w) f' (output_filename j)" "output_filename j \<notin> set (p_segments w)"
      using others winv_output [OF w j] by simp_all
    show "dictionary_files f' n = dictionary_files (p_files w) n \<and> dk_files f' n = dk_files (p_files w) n"
      if "n \<in> set (mj_segments j)" for n
      using dict same winv_job_segments [OF w j that] by simp
  qed
  ultimately show "winv js w'"
    using winvD(3,4,6) [OF w] del by (simp add: winv_def w' compiler_ok_def view toc_ok_def toc)
  show "write_view w' = write_view w" by (simp add: write_view_def w' view)
qed

section \<open>Adding and deleting\<close>

lemma winv_compiler:
  assumes "winv js w" "compiler_ok (w\<lparr>p_compiler := c\<rparr>)"
  shows "winv js (w\<lparr>p_compiler := c\<rparr>)"
  using assms by (simp add: winv_def toc_ok_def)

lemma CreateCompilerIfNeeded_ok:
  assumes "winv js w"
  shows "winv js (CreateCompilerIfNeeded w)" "write_view (CreateCompilerIfNeeded w) = write_view w"
    "p_compiler (CreateCompilerIfNeeded w) \<noteq> None"
  using winv_compiler [OF assms, of "Some (DictionaryIndexCompiler 10000)"] assms
  by (simp_all add: CreateCompilerIfNeeded_def compiler_ok_def DictionaryIndexCompiler_def write_view_def)

definition same_world :: "IndexPayload \<Rightarrow> IndexPayload \<Rightarrow> bool" where
  "same_world w w' \<longleftrightarrow> p_files w' = p_files w \<and> p_store w' = p_store w \<and> p_segments w' = p_segments w
     \<and> merge_jobs w' = merge_jobs w \<and> any_delete w' = any_delete w"

lemma CreateCompilerIfNeeded_same [simp]: "same_world w (CreateCompilerIfNeeded w)"
  by (simp add: same_world_def CreateCompilerIfNeeded_def)

lemma same_world_trans: "same_world w w' \<Longrightarrow> same_world w' w'' \<Longrightarrow> same_world w w''"
  by (simp add: same_world_def)

lemma compiler_Add_ok:
  assumes "winv js w" "p_compiler w \<noteq> None"
  obtains w' where "compiler_Add k v w = Inr w'" "winv js w'" "write_view w' = ((write_view w)(k := Some v))([] := None)"
    "p_compiler w' \<noteq> None" "same_world w w'"
proof -
  obtain c where c: "p_compiler w = Some c" using assms(2) by blast
  have gen: "ic_generator c = None" using winvD(4) [OF assms(1)] c by (simp add: compiler_ok_def)
  obtain c' where c': "ic_Add k v c = Inr c'" "ic_generator c' = None"
    "ic_key_values c' = ic_key_values c @ [\<lparr>kv_key = k, kv_value = v, kv_deleted = False\<rparr>]"
    using gen by (simp add: ic_Add_def)
  have "compiler_ok (w\<lparr>p_compiler := Some c'\<rparr>)"
    using winvD(4) [OF assms(1)] c c'(2,3) by (auto simp: compiler_ok_def split: if_splits)
  from winv_compiler [OF assms(1) this] show ?thesis
    using c c' by (intro that [of "w\<lparr>p_compiler := Some c'\<rparr>"])
      (auto simp: compiler_Add_def write_view_def apply_kv_record same_world_def)
qed

lemma replay_drop: "(replay ops (m([] := None)))([] := None) = (replay ops m)([] := None)"
proof (induction ops arbitrary: m)
  case (Cons kr ops)
  show ?case
  proof (cases "fst kr = []")
    case False
    then have "(m([] := None))(fst kr := snd kr) = (m(fst kr := snd kr))([] := None)" by (rule fun_upd_twist [symmetric])
    then show ?thesis by (simp only: replay.simps Cons.IH)
  next
    case True
    then show ?thesis by (simp only: replay.simps fun_upd_upd)
  qed
qed simp

lemma compiler_AddAll_ok:
  assumes "winv js w" "p_compiler w \<noteq> None"
  shows "\<exists>w'. compiler_AddAll kvs w = Inr w' \<and> winv js w' \<and> same_world w w'
    \<and> write_view w' = (replay (map (\<lambda>(k, v). (k, Some v)) kvs) (write_view w))([] := None)"
  using assms
proof (induction kvs arbitrary: w)
  case Nil
  then show ?case by (simp add: write_view_drop same_world_def)
next
  case (Cons kv kvs)
  obtain k v where kv: "kv = (k, v)" by (cases kv)
  obtain w1 where 1: "compiler_Add k v w = Inr w1" "winv js w1" "write_view w1 = ((write_view w)(k := Some v))([] := None)"
    "p_compiler w1 \<noteq> None" "same_world w w1" by (rule compiler_Add_ok [OF Cons.prems])
  from Cons.IH [OF 1(2,4)] obtain w' where "compiler_AddAll kvs w1 = Inr w'" "winv js w'" "same_world w1 w'"
    "write_view w' = (replay (map (\<lambda>(k, v). (k, Some v)) kvs) (write_view w1))([] := None)" by blast
  moreover from this(4) have "write_view w' = (replay (map (\<lambda>(k, v). (k, Some v)) (kv # kvs)) (write_view w))([] := None)"
    by (simp only: 1(3) replay_drop kv list.map prod.case replay.simps fst_conv snd_conv)
  moreover have "same_world w w'" using same_world_trans 1(5) calculation(3) by blast
  ultimately show ?case using 1(1) by (intro exI [of _ w']) (simp add: kv)
qed

lemma do_Delete_ok:
  assumes w: "winv js w"
  obtains w' where "do_Delete k w = Inr w'" "winv js w'" "write_view w' = (write_view w)(k := None)"
    "p_files w' = p_files w" "p_segments w' = p_segments w" "merge_jobs w' = merge_jobs w" "any_delete w'"
proof -
  let ?w = "w\<lparr>any_delete := True, p_compiler := map_option (ic_Delete k) (p_compiler w)\<rparr>"
  note world = winvD(1) [OF w]
  have "\<forall>n \<in> set (p_segments ?w). stored (p_files ?w) (p_store ?w) n" "distinct (p_segments ?w)"
    using seg_worldD(1,2) [OF world] by simp_all
  from delete_in_segments_run [OF this, of k] obtain st' where
    run: "delete_in_segments k (p_segments w) ?w = Inr (?w\<lparr>p_store := st'\<rparr>)"
    and step: "\<forall>n \<in> set (p_segments w). stored (p_files w) st' n \<and> MarkedForMerge st' n = MarkedForMerge (p_store w) n
        \<and> dels (p_files w) st' n = (if has_key (p_files w) n k then {k} else {}) \<union> dels (p_files w) (p_store w) n
        \<and> dkms st' n = (if has_key (p_files w) n k \<and> MarkedForMerge (p_store w) n then {k} else {}) \<union> dkms (p_store w) n"
    by auto
  let ?w' = "?w\<lparr>p_store := st'\<rparr>"
  note d = seg_world_delete [OF world step]
  have gen: "ic_generator (ic_Delete k c) = ic_generator c"
    "ic_key_values (ic_Delete k c) = ic_key_values c @ [\<lparr>kv_key = k, kv_value = '''', kv_deleted = True\<rparr>]" for c
    by (simp_all add: ic_Delete_def)
  have "compiler_ok ?w'"
    unfolding compiler_ok_def
  proof (intro allI impI conjI)
    fix c assume "p_compiler ?w' = Some c"
    then obtain c0 where c0: "p_compiler w = Some c0" "c = ic_Delete k c0" by auto
    then show "ic_generator c = None" using winvD(4) [OF w] by (simp add: compiler_ok_def gen)
    fix x kv assume "last_operation (ic_key_values c) x = Some kv \<and> kv_deleted kv"
    then show "seg_view (p_files ?w') (p_store ?w') (p_segments ?w') x = None"
      using winvD(4) [OF w] c0 by (auto simp: compiler_ok_def gen d(2) split: if_splits)
  qed
  moreover have "job_ok (p_files w) (p_segments w) j" if "j \<in> set (live js)" for j using winvD(2) [OF w that] .
  ultimately have "winv js ?w'" using d(1) winvD(3,6) [OF w] by (simp add: winv_def toc_ok_def)
  moreover have "write_view ?w' = (write_view w)(k := None)"
  proof (cases "p_compiler w")
    case None
    then show ?thesis by (auto simp: write_view_def d(2) fun_eq_iff)
  next
    case (Some c)
    have "fold apply_kv kvs (m(k := None)) x = fold apply_kv kvs m x" if "x \<noteq> k" for kvs m x
      using that by (simp add: fold_apply_kv split: option.split)
    then show ?thesis using Some by (auto simp: write_view_def d(2) fun_eq_iff gen apply_kv_record)
  qed
  ultimately show ?thesis using run by (intro that [of ?w']) (simp_all add: do_Delete_def)
qed

section \<open>Persisting and compiling\<close>

definition readers_synced :: "IndexPayload \<Rightarrow> bool" where
  "readers_synced w \<longleftrightarrow> (\<forall>n \<in> set (p_segments w).
     reader_set (the (p_store w n)) = dels (p_files w) (p_store w) n)"

lemma PersistDeletes_ok:
  assumes w: "winv js w"
  shows "winv js (PersistDeletes w)" "write_view (PersistDeletes w) = write_view w"
    "p_segments (PersistDeletes w) = p_segments w" "merge_jobs (PersistDeletes w) = merge_jobs w"
    "p_compiler (PersistDeletes w) = p_compiler w" "\<not> any_delete (PersistDeletes w)"
    "any_delete w \<Longrightarrow> readers_synced (PersistDeletes w)"
    "\<not> any_delete w \<Longrightarrow> PersistDeletes w = w"
    "\<And>n. n \<notin> set (p_segments w) \<Longrightarrow> agree (p_files w) (p_files (PersistDeletes w)) n"
proof -
  note world = winvD(1) [OF w]
  have "\<forall>n \<in> set (p_segments w). stored (p_files w) (p_store w) n" "distinct (p_segments w)"
    using seg_worldD(1,2) [OF world] by simp_all
  from fold_persist_run [OF this] obtain f' st' where
    run: "fold persist_segment (p_segments w) w = w\<lparr>p_files := f', p_store := st'\<rparr>"
    and files: "dictionary_files f' = dictionary_files (p_files w)" "toc_file f' = toc_file (p_files w)"
      "\<forall>n. n \<notin> set (p_segments w) \<longrightarrow> agree (p_files w) f' n \<and> st' n = p_store w n"
    and segs: "\<forall>n \<in> set (p_segments w). stored f' st' n \<and> dels f' st' n = dels (p_files w) (p_store w) n
        \<and> dkms st' n = dkms (p_store w) n \<and> MarkedForMerge st' n = MarkedForMerge (p_store w) n
        \<and> disk_deletes f' n = dels (p_files w) (p_store w) n
        \<and> (MarkedForMerge (p_store w) n \<longrightarrow> dk_files f' n = dk_files (p_files w) n)
        \<and> reader_set (the (st' n)) = dels f' st' n" by blast
  have eq: "PersistDeletes w = (if any_delete w then w\<lparr>p_files := f', p_store := st', any_delete := False\<rparr> else w)"
    by (simp add: PersistDeletes_def run)
  have yes: "winv js (w\<lparr>p_files := f', p_store := st', any_delete := False\<rparr>)
    \<and> write_view (w\<lparr>p_files := f', p_store := st', any_delete := False\<rparr>) = write_view w"
  proof (intro conjI)
    show "winv js (w\<lparr>p_files := f', p_store := st', any_delete := False\<rparr>)"
      by (rule winv_files(1) [OF w refl files(1,2)]) (use files(3) segs in \<open>auto simp: persisted_def\<close>)
    show "write_view (w\<lparr>p_files := f', p_store := st', any_delete := False\<rparr>) = write_view w"
      by (rule winv_files(2) [OF w refl files(1,2)]) (use files(3) segs in \<open>auto simp: persisted_def\<close>)
  qed
  show "winv js (PersistDeletes w)" "write_view (PersistDeletes w) = write_view w" using yes w by (simp_all add: eq)
  show "any_delete w \<Longrightarrow> readers_synced (PersistDeletes w)" using segs by (simp add: eq readers_synced_def)
  show "\<And>n. n \<notin> set (p_segments w) \<Longrightarrow> agree (p_files w) (p_files (PersistDeletes w)) n" using files(3) by (simp add: eq)
  show "p_segments (PersistDeletes w) = p_segments w" "merge_jobs (PersistDeletes w) = merge_jobs w"
    "p_compiler (PersistDeletes w) = p_compiler w" "\<not> any_delete (PersistDeletes w)"
    "\<not> any_delete w \<Longrightarrow> PersistDeletes w = w"
    by (simp_all add: eq)
qed

text \<open>A name that nothing in the index uses.\<close>

definition fresh_name :: "IndexPayload \<Rightarrow> filename \<Rightarrow> bool" where
  "fresh_name w p \<longleftrightarrow> p \<notin> set (p_segments w) \<and> p \<notin> output_filename ` set (merge_jobs w)
     \<and> dictionary_files (p_files w) p = None \<and> dk_files (p_files w) p = None \<and> dkm_files (p_files w) p = None"

lemma do_Compile_ok:
  assumes w: "winv (merge_jobs w) w" and p: "fresh_name w p"
  obtains w' where "do_Compile p w = Inr w'" "winv (merge_jobs w) w'" "write_view w' = write_view w"
    "merge_jobs w' = merge_jobs w" "any_delete w' = any_delete w" "p_compiler w' = None"
    "readers_synced w \<Longrightarrow> readers_synced w'" "\<And>n. n \<noteq> p \<Longrightarrow> agree (p_files w) (p_files w') n"
    "set (p_segments w') \<subseteq> insert p (set (p_segments w))" "merge_enabled w' = merge_enabled w"
proof (cases "p_compiler w")
  case None
  with w show ?thesis by (intro that [of w]) (auto simp: do_Compile_def)
next
  case (Some c)
  note world = winvD(1) [OF w]
  have gen: "ic_generator c = None" and del: "\<And>k kv. last_operation (ic_key_values c) k = Some kv \<Longrightarrow> kv_deleted kv \<Longrightarrow>
      seg_view (p_files w) (p_store w) (p_segments w) k = None"
    using winvD(4) [OF w] Some by (auto simp: compiler_ok_def)
  obtain d where d: "ic_generator (ic_Compile c) = Some d" "sorted_wrt key_less (map fst d)"
    "map_of d = (fold apply_kv (ic_key_values c) Map.empty)([] := None)"
    by (rule ic_Compile_dict [OF gen])
  let ?f = "(p_files w)\<lparr>dictionary_files := (dictionary_files (p_files w))(p \<mapsto> d)\<rparr>"
  have files: "dictionary_files ?f p = Some d" "dk_files ?f p = None" "dkm_files ?f p = None"
    using p by (simp_all add: fresh_name_def)
  have "file_set (dkm_files ?f p) = {}" using files by simp
  from Segment_new_inv [OF files(1) this, of True] files(2) obtain s where
    s: "Segment_new ?f p True = Inr s" "seg_inv d ?f s" "seg_deletes ?f s = {}"
    "dictionary_path s = p" "\<not> in_merge s" "deletes_loaded s" "\<not> has_deleted_keys s" "deleted_keys_weak s = None"
    "deleted_keys_for_write s = []"
    by auto
  let ?st = "(p_store w)(p \<mapsto> s)"
  let ?w' = "WriteToc (w\<lparr>p_files := ?f, p_compiler := None, p_store := ?st, p_segments := p_segments w @ [p]\<rparr>)"
  let ?f' = "?f\<lparr>toc_file := Some (p_segments w @ [p])\<rparr>"
  have run: "do_Compile p w = Inr ?w'"
    using Some d(1) s(1) by (simp add: do_Compile_def ic_Write_def)
  have p_new: "p \<notin> set (p_segments w)" using p by (simp add: fresh_name_def)
  have dkm: "deleted_keys_during_merge_for_write s = []"
    using s(2,5,6) by (simp add: seg_inv_def lists_inv_def)
  have "agree ?f ?f' p" by (simp add: agree_def)
  have ok: "seg_ok d ?f' s"
  proof -
    have "seg_inv d ?f' s" "seg_deletes ?f' s = {}"
      using s(2,3,4,6) by (simp_all add: seg_inv_def disk_deletes_def seg_deletes_def)
    then show ?thesis using s files dkm by (simp add: seg_ok_def lists_distinct_def reader_set_def)
  qed
  have new: "stored ?f' ?st p" "\<not> MarkedForMerge ?st p" "dels ?f' ?st p = {}" "dict_at ?f' p = d"
    using ok s d(2) dkm
    by (simp_all add: stored_def MarkedForMerge_def dels_def dict_at_def sorted_items_def seg_deletes_def)
  have others: "agree (p_files w) ?f' n \<and> ?st n = p_store w n" if "n \<noteq> p" for n
    using that by (simp add: agree_def)
  have others': "agree (p_files w) ?f' n \<and> ?st n = p_store w n" if "n \<in> set (p_segments w)" for n
    using that p_new by (intro others) blast
  note app = seg_world_append [OF world p_new others' new(1-3)]
  have job: "job_ok ?f' (p_segments w @ [p]) j" if j: "j \<in> set (live (merge_jobs w))" for j
  proof (rule job_ok_cong [OF winvD(2) [OF w j]])
    have "output_filename j \<noteq> p" using p j by (auto simp: fresh_name_def live_def)
    then show "agree (p_files w) ?f' (output_filename j)" "output_filename j \<notin> set (p_segments w @ [p])"
      using others winv_output [OF w j] by auto
    fix n assume "n \<in> set (mj_segments j)"
    then have "n \<in> set (p_segments w)" by (rule winv_job_segments(1) [OF w j])
    then show "dictionary_files ?f' n = dictionary_files (p_files w) n \<and> dk_files ?f' n = dk_files (p_files w) n"
      using others' by (simp add: agree_def)
  qed
  have same: "dels ?f' ?st n = dels (p_files w) (p_store w) n" "disk_deletes ?f' n = disk_deletes (p_files w) n"
    "?st n = p_store w n" if "n \<in> set (p_segments w)" for n
  proof -
    have "stored (p_files w) (p_store w) n" using seg_worldD(2) [OF world that] .
    with others' [OF that] show "dels ?f' ?st n = dels (p_files w) (p_store w) n"
      using stored_cong(2) [of "p_files w" ?f' n ?st "p_store w"] by blast
    show "?st n = p_store w n" using others' [OF that] by blast
  qed (simp add: disk_deletes_def)
  have pers: "persisted ?f' ?st (p_segments w @ [p])" if "\<not> any_delete w"
    using winvD(5) [OF w that] same new(3) files by (auto simp: persisted_def disk_deletes_def)
  have inv: "winv (merge_jobs w) ?w'"
    using app(1) job winvD(3) [OF w] pers by (simp add: winv_def WriteToc_def compiler_ok_def toc_ok_def)
  have view: "write_view ?w' = write_view w"
  proof (rule ext)
    fix k
    show "write_view ?w' k = write_view w k"
    proof (cases "k = []")
      case False
      have "map_of d k = (case last_operation (ic_key_values c) k of None \<Rightarrow> None
          | Some kv \<Rightarrow> if kv_deleted kv then None else Some (kv_value kv))"
        using False by (simp add: d(3) fold_apply_kv)
      then show ?thesis
        using False Some del [of k] app(2) [of k]
        by (auto simp: write_view_def WriteToc_def new(4) fold_apply_kv split: option.splits)
    qed (simp add: write_view_def)
  qed
  have sync: "readers_synced ?w'" if "readers_synced w"
    using that same new(3) s(7) by (auto simp: readers_synced_def WriteToc_def reader_set_def)
  show ?thesis by (rule that [OF run inv view _ _ _ sync]) (use others in \<open>auto simp: WriteToc_def\<close>)
qed

section \<open>Merging\<close>

context adjacent_policy
begin

text \<open>Starting a merge changes neither the segments nor their deletions.\<close>

lemma RunMerge_ok:
  assumes w: "winv (merge_jobs w) w" and env: "select_segments env = select" and out: "fresh_name w out"
  obtains w' where "RunMerge env out w = w'" "winv (merge_jobs w') w'" "write_view w' = write_view w"
    "any_delete w' = any_delete w" "p_compiler w' = p_compiler w" "p_segments w' = p_segments w"
    "\<And>n. n \<notin> set (p_segments w) \<Longrightarrow> agree (p_files w) (p_files w') n"
    "set (map output_filename (merge_jobs w')) \<subseteq> insert out (set (map output_filename (merge_jobs w)))"
    "\<forall>j \<in> set (merge_jobs w'). merge_done j \<longrightarrow> j \<in> set (merge_jobs w)"
proof (cases "length (merge_jobs w) = max_concurrent_merges env")
  case True
  with w show ?thesis by (intro that [of w]) (auto simp: RunMerge_def)
next
  case False
  note world = winvD(1) [OF w]
  obtain sel st where sel: "select (p_files w) (p_segments w) (p_store w) = (sel, st)" by fastforce
  have some: "\<forall>n \<in> set (p_segments w). p_store w n \<noteq> None"
    using seg_worldD(2) [OF world] by (auto simp: stored_def)
  have lazy: "lazily (p_files w) (p_store w) st" using select_lazily [OF some, of "p_files w"] by (simp add: sel)
  let ?w1 = "w\<lparr>p_store := st\<rparr>"
  note lw = seg_world_lazily [OF world lazy]
  have dels_lazy: "dels (p_files w) st n = dels (p_files w) (p_store w) n" if "n \<in> set (p_segments w)" for n
  proof -
    have "stored (p_files w) (p_store w) n" by (rule seg_worldD(2) [OF world that])
    then obtain s where s: "p_store w n = Some s" "seg_inv (dict_at (p_files w) n) (p_files w) s"
      by (auto simp: stored_def seg_ok_def)
    obtain s' where s': "st n = Some s'" "s' = s \<or> s' = LazyLoadDeletedKeys False (p_files w) s"
      by (rule lazily_cases [OF lazy s(1)])
    then show ?thesis using s LazyLoadDeletedKeys_inv(2) [OF s(2), of False] by (auto simp: dels_def)
  qed
  have inv1: "winv (merge_jobs w) ?w1" "write_view ?w1 = write_view w"
    using w lw dels_lazy by (simp_all add: winv_def compiler_ok_def toc_ok_def persisted_def write_view_def)
  show ?thesis
  proof (cases sel)
    case None
    then have "RunMerge env out w = ?w1" using False by (simp add: RunMerge_def env sel)
    then show ?thesis using inv1 by (intro that [of ?w1]) auto
  next
    case (Some l)
    note sel' = sel [unfolded Some]
    have l: "l \<noteq> []" "\<exists>pre post. p_segments w = pre @ l @ post" using select_adjacent [OF some sel'] by simp_all
    then obtain pre post where split: "p_segments w = pre @ l @ post" by blast
    have in_segs: "n \<in> set (p_segments w)" if "n \<in> set l" for n using that split by simp
    have unmarked: "\<not> MarkedForMerge (p_store w) n" "deletes_loaded (the (st n))" if "n \<in> set l" for n
      using select_unmarked [OF some sel' that] by simp_all
    have um: "\<not> MarkedForMerge st n" if "n \<in> set l" for n
      using unmarked(1) [OF that] lazily_marked [OF lazy, of n] some in_segs [OF that] by simp
    have pre: "\<forall>n \<in> set l. stored (p_files ?w1) (p_store ?w1) n \<and> \<not> MarkedForMerge (p_store ?w1) n
        \<and> deletes_loaded (the (p_store ?w1 n))"
      using seg_worldD(2) [OF lw(1)] in_segs um unmarked(2) by simp
    have "distinct l" using seg_worldD(1) [OF world] split by simp
    from elect_segments_run [OF pre this] obtain f' st' where
      run: "elect_segments l ?w1 = ?w1\<lparr>p_files := f', p_store := st'\<rparr>"
      and files: "dictionary_files f' = dictionary_files (p_files w)" "toc_file f' = toc_file (p_files w)"
        "\<forall>n. n \<notin> set l \<longrightarrow> agree (p_files w) f' n \<and> st' n = st n"
      and elected: "\<forall>n \<in> set l. stored f' st' n \<and> dels f' st' n = dels (p_files w) st n \<and> dkms st' n = {}
        \<and> MarkedForMerge st' n \<and> disk_deletes f' n = dels (p_files w) st n"
      by auto
    let ?j = "mj_Run (external_merge_key_threshold env) (\<Sum>n \<leftarrow> l. number_of_keys_of f' n)
              (length (p_segments w) + length l + 10 > max_segments env) (MergeJob_new l 0 out)"
    let ?w' = "w\<lparr>p_files := f', p_store := st', merge_jobs := merge_jobs w @ [?j]\<rparr>"
    have eq: "RunMerge env out w = ?w'" using False by (simp add: RunMerge_def env sel Some run Let_def)
    have j: "mj_segments ?j = l" "output_filename ?j = out" "\<not> merge_done ?j"
      by (simp_all add: mj_Run_def MergeJob_new_def)
    have others: "agree (p_files w) f' n \<and> st' n = st n" if "n \<in> set (p_segments w)" "n \<notin> set l" for n
      using files(3) that(2) by blast
    have um': "\<forall>n \<in> set l. \<not> MarkedForMerge st n" using um by blast
    have el: "stored f' st' n \<and> dels f' st' n = dels (p_files w) st n \<and> dkms st' n = {} \<and> MarkedForMerge st' n"
      if "n \<in> set l" for n using elected that by blast
    note ew = seg_world_elect [OF lw(1) l(1) split um' others files(1) el]
    have out': "out \<notin> set (p_segments w)" "dk_files (p_files w) out = None" "dkm_files (p_files w) out = None"
      "out \<notin> output_filename ` set (merge_jobs w)" using out by (simp_all add: fresh_name_def)
    have new_job: "job_ok f' (p_segments w) ?j"
    proof -
      have "agree (p_files w) f' out" using files(3) out'(1) in_segs by blast
      then show ?thesis using out' by (simp add: job_ok_def mj_Run_def MergeJob_new_def agree_def)
    qed
    have old_jobs: "job_ok f' (p_segments w) i" if i: "i \<in> set (live (merge_jobs w))" for i
    proof (rule job_ok_cong [OF winvD(2) [OF w i]])
      show "agree (p_files w) f' (output_filename i)" "output_filename i \<notin> set (p_segments w)"
        using files(3) winv_output [OF w i] in_segs by blast+
      fix n assume n: "n \<in> set (mj_segments i)"
      have "MarkedForMerge (p_store w) n" by (rule winv_job_segments(2) [OF w i n])
      then have "n \<notin> set l" using unmarked(1) by blast
      then show "dictionary_files f' n = dictionary_files (p_files w) n \<and> dk_files f' n = dk_files (p_files w) n"
        using files(3) by (simp add: agree_def)
    qed
    have pers: "persisted f' st' (p_segments w)" if a: "\<not> any_delete w"
      unfolding persisted_def
    proof
      fix n assume n: "n \<in> set (p_segments w)"
      show "disk_deletes f' n = dels f' st' n"
      proof (cases "n \<in> set l")
        case True
        then show ?thesis using elected by simp
      next
        case False
        have "stored (p_files w) st n" using seg_worldD(2) [OF lw(1) n] .
        then have "dels f' st' n = dels (p_files w) st n" using others [OF n False] stored_cong(2) by blast
        moreover have "disk_deletes f' n = disk_deletes (p_files w) n"
          using others [OF n False] by (simp add: agree_def disk_deletes_def)
        moreover have "disk_deletes (p_files w) n = dels (p_files w) (p_store w) n"
          using winvD(5) [OF w a] n by (simp add: persisted_def)
        ultimately show ?thesis using dels_lazy [OF n] by simp
      qed
    qed
    have view: "seg_view f' st' (p_segments w) = seg_view (p_files w) (p_store w) (p_segments w)"
      using ew(2) lw(2) by simp
    have "out \<notin> output_filename ` set (live (merge_jobs w))" using out'(4) by (auto simp: live_def)
    then have "winv (merge_jobs ?w') ?w'"
      using ew(1) new_job old_jobs winvD(3,4,6) [OF w] j pers
      by (auto simp: winv_def compiler_ok_def toc_ok_def files(2) view)
    moreover have "write_view ?w' = write_view w" by (simp add: write_view_def view)
    moreover have "agree (p_files w) f' n" if "n \<notin> set (p_segments w)" for n using that files(3) in_segs by blast
    ultimately show ?thesis using eq j by (intro that [of ?w']) auto
  qed
qed

end

subsection \<open>Ending a merge\<close>

lemma execute_merge_ok:
  assumes "succeeds" "\<forall>n \<in> set ns. dictionary_files f n \<noteq> None"
  shows "execute_merge succeeds f ns out =
    (f\<lparr>dictionary_files := (dictionary_files f)(out \<mapsto> merge_dictionaries (merge_inputs f ns))\<rparr>, 0)"
  using assms by (simp add: execute_merge_def)

text \<open>Trying to finalize a job finds it running, or leaves its merged dictionary in the output file.\<close>

lemma TryFinalize_ok:
  assumes job: "job_ok f segs j" and succ: "succeeds" and dicts: "\<forall>n \<in> set (mj_segments j). dictionary_files f n \<noteq> None"
    and out: "output_filename j \<notin> set (mj_segments j)"
  obtains "TryFinalize succeeds (f, j) = (False, f, j)"
  | f1 j1 where "TryFinalize succeeds (f, j) = (True, f1, j1)" "Successful j1" "mj_segments j1 = mj_segments j"
    "output_filename j1 = output_filename j" "merge_done j1 = merge_done j"
    "dictionary_files f1 (output_filename j) = Some (merge_dictionaries (merge_inputs f (mj_segments j)))"
    "\<And>n. n \<noteq> output_filename j \<Longrightarrow> agree f f1 n" "dk_files f1 = dk_files f" "dkm_files f1 = dkm_files f" "toc_file f1 = toc_file f"
proof (cases "mj_process j")
  case (Internal_Thread b)
  show ?thesis
  proof (cases b)
    case True
    let ?j = "j\<lparr>process_finished := True, mj_process := Joined_Thread\<rparr>"
    show ?thesis
    proof (rule that(2))
      show "TryFinalize succeeds (f, j) = (True, f, ?j)"
        using job Internal_Thread True by (simp add: TryFinalize_def TryFinalizeMerge_def mj_execute_def job_ok_def)
      show "Successful ?j" "dictionary_files f (output_filename j) = Some (merge_dictionaries (merge_inputs f (mj_segments j)))"
        using job Internal_Thread True by (simp_all add: job_ok_def Successful_def written_def)
    qed simp_all
  next
    case False
    let ?f = "f\<lparr>dictionary_files := (dictionary_files f)(output_filename j \<mapsto> merge_dictionaries (merge_inputs f (mj_segments j)))\<rparr>"
    let ?j = "j\<lparr>exit_code := 0, process_finished := True, mj_process := Joined_Thread\<rparr>"
    show ?thesis
    proof (rule that(2))
      show "TryFinalize succeeds (f, j) = (True, ?f, ?j)"
        using job Internal_Thread False
        by (simp add: TryFinalize_def TryFinalizeMerge_def mj_execute_def job_ok_def execute_merge_ok [OF succ dicts])
    qed (simp_all add: Successful_def agree_def)
  qed
next
  case (External_Process res)
  show ?thesis
  proof (cases res)
    case None
    then have "TryFinalize succeeds (f, j) = (False, f, j)"
      using job External_Process by (simp add: TryFinalize_def TryFinalizeMerge_def job_ok_def)
    then show ?thesis by (rule that(1))
  next
    case (Some code)
    let ?j = "j\<lparr>exit_code := code, process_finished := True, mj_process := Released\<rparr>"
    show ?thesis
    proof (rule that(2))
      show "TryFinalize succeeds (f, j) = (True, f, ?j)"
        using job External_Process Some by (simp add: TryFinalize_def TryFinalizeMerge_def job_ok_def)
      show "Successful ?j" "dictionary_files f (output_filename j) = Some (merge_dictionaries (merge_inputs f (mj_segments j)))"
        using job External_Process Some by (simp_all add: job_ok_def Successful_def written_def)
    qed simp_all
  qed
next
  case Joined_Thread
  then show ?thesis
    using job by (intro that(2) [of f j]) (simp_all add: TryFinalize_def job_ok_def Successful_def written_def)
next
  case Released
  then show ?thesis
    using job by (intro that(2) [of f j]) (simp_all add: TryFinalize_def job_ok_def Successful_def written_def)
qed (use job in \<open>simp add: job_ok_def\<close>)

lemma set_fold_union: "set (fold (\<lambda>par d. List.union (g par) d) ps d0) = \<Union> (set ` g ` set ps) \<union> set d0"
  by (induction ps arbitrary: d0) auto

lemma distinct_fold_union: "distinct d0 \<Longrightarrow> distinct (fold (\<lambda>par d. List.union (g par) d) ps d0)"
  by (induction ps arbitrary: d0) auto

lemma Segment_merged_ok:
  assumes "dictionary_files f p = Some d" "dk_files f p = None" "dkm_files f p = None"
  obtains f' s where "Segment_merged f p parents = Inr (f', s)" "same_but p f f'" "dictionary_path s = p" "seg_ok d f' s"
    "\<not> in_merge s" "seg_deletes f' s = \<Union> (set ` deleted_keys_during_merge_for_write ` set parents)"
    "disk_deletes f' p = seg_deletes f' s" "reader_set s = {}" "deletes_loaded s"
proof -
  let ?dk = "fold (\<lambda>par d. List.union (deleted_keys_during_merge_for_write par) d) parents []"
  let ?s0 = "(Segment_of (ReadOnlySegment_base p) True)\<lparr>deleted_keys_for_write := ?dk\<rparr>"
  have dk: "set ?dk = \<Union> (set ` deleted_keys_during_merge_for_write ` set parents)" "distinct ?dk"
    using set_fold_union [of deleted_keys_during_merge_for_write parents "[]"]
      distinct_fold_union [of "[]" deleted_keys_during_merge_for_write parents] by simp_all
  have base: "dictionary_path (ReadOnlySegment_base p) = p" "reader_set (ReadOnlySegment_base p) = {}"
    "dictionary (ReadOnlySegment_base p) = None" "\<not> has_deleted_keys (ReadOnlySegment_base p)"
    "deleted_keys_weak (ReadOnlySegment_base p) = None"
    by (simp_all add: ReadOnlySegment_base_def reader_set_def)
  show ?thesis
  proof (cases "?dk = []")
    case True
    have "Segment_merged f p parents = Inr (f, ?s0)"
      using assms True by (simp add: Segment_merged_def ReadOnlySegment_protected_def Let_def)
    then show ?thesis
      using assms base dk True
      by (intro that [of f ?s0]) (simp_all add: seg_ok_def seg_inv_def lists_inv_def lists_distinct_def seg_deletes_def
          disk_deletes_def)
  next
    case False
    let ?s = "?s0\<lparr>new_delete := True\<rparr>" and ?f = "f\<lparr>dk_files := (dk_files f)(p \<mapsto> ?dk)\<rparr>"
    have "Segment_merged f p parents = Inr (?f, ?s)"
      using assms(1) False base
      by (simp add: Segment_merged_def ReadOnlySegment_protected_def Let_def Seg_Persist_def)
    then show ?thesis
      using assms base dk False
      by (intro that [of ?f ?s]) (simp_all add: seg_ok_def seg_inv_def lists_inv_def lists_distinct_def seg_deletes_def
          disk_deletes_def same_but_def)
  qed
qed

lemma replace_none: "set xs \<inter> set l = {} \<Longrightarrow> replace_segments l out b xs = xs"
  by (induction xs) auto

lemma replace_append:
  "replace_segments l out b (xs @ ys) = replace_segments l out b xs @ replace_segments l out (b \<or> set xs \<inter> set l \<noteq> {}) ys"
  by (induction xs arbitrary: b) auto

lemma replace_all: "set xs \<subseteq> set l \<Longrightarrow> replace_segments l out True xs = []"
  by (induction xs) auto

lemma replace_segments_adjacent:
  assumes "distinct (pre @ l @ post)" "l \<noteq> []"
  shows "replace_segments l out False (pre @ l @ post) = pre @ out # post"
proof -
  obtain x xs where l: "l = x # xs" using assms(2) by (cases l) auto
  have "replace_segments l out False l = [out]" using replace_all [of xs l out] unfolding l by auto
  moreover have "set pre \<inter> set l = {}" "set post \<inter> set l = {}" "set l \<inter> set l \<noteq> {}" using assms by auto
  ultimately show ?thesis by (simp add: replace_append replace_none)
qed

lemma remove_old_segments_run:
  assumes "\<forall>n \<in> set ns. stored (p_files w) (p_store w) n" "distinct ns"
  shows "\<exists>f' st'. remove_old_segments env ns w = Inr (w\<lparr>p_files := f', p_store := st'\<rparr>) \<and> toc_file f' = toc_file (p_files w)
    \<and> (\<forall>n. n \<notin> set ns \<longrightarrow> agree (p_files w) f' n \<and> st' n = p_store w n)"
  using assms
proof (induction ns arbitrary: w)
  case Nil
  show ?case by (rule exI [of _ "p_files w"], rule exI [of _ "p_store w"]) simp
next
  case (Cons n ns)
  let ?f = "p_files w"
  obtain s where s: "p_store w n = Some s" "dictionary_path s = n" "seg_inv (dict_at ?f n) ?f s"
    using Cons.prems(1) by (auto simp: stored_def seg_ok_def)
  obtain s0 where "Seg_Load False ?f s = Inr s0" "dictionary_path s0 = dictionary_path s"
    by (rule Seg_Load_inv [OF s(3)])
  then obtain s' where s': "(if in_use env n then Seg_Load False ?f s else Inr s) = Inr s'" "dictionary_path s' = n"
    using s(2) by (cases "in_use env n") auto
  let ?f1 = "RemoveFiles s' ?f" and ?st1 = "(p_store w)(n \<mapsto> s')"
  let ?w = "w\<lparr>p_store := ?st1, p_files := ?f1\<rparr>"
  have other: "agree ?f ?f1 m \<and> ?st1 m = p_store w m" if "m \<noteq> n" for m
    using that s'(2) by (simp add: agree_def RemoveFiles_def)
  have "stored ?f1 ?st1 m" if "m \<in> set ns" for m
  proof -
    have "m \<noteq> n" "stored ?f (p_store w) m" using that Cons.prems by auto
    then show ?thesis using stored_cong(1) [of ?f ?f1 m ?st1 "p_store w"] other by blast
  qed
  then have "\<forall>m \<in> set ns. stored (p_files ?w) (p_store ?w) m" by simp
  from Cons.IH [OF this] Cons.prems(2) obtain f' st' where
    2: "remove_old_segments env ns ?w = Inr (?w\<lparr>p_files := f', p_store := st'\<rparr>)" "toc_file f' = toc_file ?f1"
    "\<forall>m. m \<notin> set ns \<longrightarrow> agree ?f1 f' m \<and> st' m = ?st1 m"
    by (auto simp del: fun_upd_apply)
  have "remove_old_segments env (n # ns) w = Inr (w\<lparr>p_files := f', p_store := st'\<rparr>)"
    by (simp only: remove_old_segments.simps s(1) option.sel s'(1) bind_sum_simps 2(1)) simp
  moreover have "agree ?f f' m \<and> st' m = p_store w m" if "m \<notin> set (n # ns)" for m
    using that 2(3) other [of m] agree_trans by (simp del: fun_upd_apply) blast
  moreover have "toc_file f' = toc_file ?f" using 2(2) by (simp add: RemoveFiles_def)
  ultimately show ?case by blast
qed

definition jobs_clean :: "index_files \<Rightarrow> MergeJob list \<Rightarrow> bool" where
  "jobs_clean f js \<longleftrightarrow> (\<forall>j \<in> set (live js). merge_clean (merge_inputs f (mj_segments j)))"

lemma live_snoc: "live (js1 @ j # js2) = live js1 @ (if merge_done j then [] else [j]) @ live js2"
  by simp

text \<open>
  Finalizing one job: it keeps the contents, whether the job is still running or its segments are
  replaced, and it does not touch the other jobs.
\<close>

lemma finalize_job_ok:
  assumes w: "winv (js1 @ j # js2) w" and nd: "\<not> merge_done j" and succ: "merge_succeeds env (output_filename j)"
    and clean: "merge_clean (merge_inputs (p_files w) (mj_segments j))"
  obtains j' w' b where "finalize_job env j w = Inr (j', w', b)" "winv (js1 @ j' # js2) w'" "write_view w' = write_view w"
    "any_delete w' = any_delete w" "p_compiler w' = p_compiler w" "merge_enabled w' = merge_enabled w"
    "merge_done j' = b" "output_filename j' = output_filename j" "merge_jobs w' = merge_jobs w"
    "\<And>i. i \<in> set (live (js1 @ js2)) \<Longrightarrow> merge_inputs (p_files w') (mj_segments i) = merge_inputs (p_files w) (mj_segments i)"
    "\<And>n. n \<notin> set (p_segments w) \<Longrightarrow> n \<noteq> output_filename j \<Longrightarrow> agree (p_files w) (p_files w') n"
    "set (p_segments w') \<subseteq> insert (output_filename j) (set (p_segments w))"
proof -
  let ?f = "p_files w" and ?l = "mj_segments j" and ?out = "output_filename j"
  have L: "live (js1 @ j # js2) = live js1 @ j # live js2" using nd by simp
  have j: "j \<in> set (live (js1 @ j # js2))" using L by simp
  note world = winvD(1) [OF w]
  note job = winvD(2) [OF w j]
  have world': "seg_world ?f (p_store w) (p_segments w) (map mj_segments (live js1) @ ?l # map mj_segments (live js2))"
    using world L by simp
  have l: "?l \<noteq> []" "\<exists>pre post. p_segments w = pre @ ?l @ post"
    using seg_worldD(4,5) [OF world'] by simp_all
  then obtain pre post where split: "p_segments w = pre @ ?l @ post" by blast
  have dist: "distinct (pre @ ?l @ post)" using seg_worldD(1) [OF world] split by simp
  have in_l: "stored ?f (p_store w) n" if "n \<in> set ?l" for n
    using seg_worldD(2) [OF world] split that by simp
  have dicts: "\<forall>n \<in> set ?l. dictionary_files ?f n \<noteq> None"
    using in_l by (fastforce simp: stored_def seg_ok_def seg_inv_def)
  have out: "?out \<notin> set (p_segments w)" "dk_files ?f ?out = None" "dkm_files ?f ?out = None"
    using job by (simp_all add: job_ok_def)
  have out_l: "?out \<notin> set ?l" using out split by simp
  from TryFinalize_ok [OF job succ dicts out_l] show ?thesis
  proof cases
    case 1
    then have "finalize_job env j w = Inr (j, w, False)" by (simp add: finalize_job_def)
    then show ?thesis using w nd by (intro that [of j w False]) auto
  next
    case (2 f1 j1)
    let ?parents = "map (\<lambda>n. the (p_store w n)) ?l"
    have "dictionary_files f1 ?out = Some (merge_dictionaries (merge_inputs ?f ?l))" "dk_files f1 ?out = None" "dkm_files f1 ?out = None"
      using 2 out by simp_all
    then obtain f2 s where m: "Segment_merged f1 ?out ?parents = Inr (f2, s)" "same_but ?out f1 f2"
      "dictionary_path s = ?out" "seg_ok (merge_dictionaries (merge_inputs ?f ?l)) f2 s" "\<not> in_merge s"
      "seg_deletes f2 s = \<Union> (set ` deleted_keys_during_merge_for_write ` set ?parents)"
      "disk_deletes f2 ?out = seg_deletes f2 s"
      by (rule Segment_merged_ok)
    let ?segs = "pre @ ?out # post" and ?st2 = "(p_store w)(?out \<mapsto> s)"
    let ?f2 = "f2\<lparr>toc_file := Some ?segs\<rparr>"
    let ?w2 = "w\<lparr>p_files := ?f2, p_store := ?st2, p_segments := ?segs\<rparr>"
    have rep: "replace_segments ?l ?out False (p_segments w) = ?segs"
      unfolding split by (rule replace_segments_adjacent [OF dist l(1)])
    have ex: "\<exists>n \<in> set (p_segments w). n \<in> set ?l" using split l(1) by (cases "mj_segments j") auto
    have replaced: "replace_merged j1 (w\<lparr>p_files := f1\<rparr>) = Inr ?w2"
      using ex m(1) rep by (simp add: replace_merged_def 2 WriteToc_def)
    have ag2: "agree ?f ?f2 n \<and> ?st2 n = p_store w n" if "n \<noteq> ?out" for n
      using agree_trans [OF 2(7) [OF that] same_but_agree [OF m(2) that]] that by simp
    have st_l: "\<forall>n \<in> set ?l. stored (p_files ?w2) (p_store ?w2) n"
    proof
      fix n assume n: "n \<in> set ?l"
      then have "n \<noteq> ?out" using out_l by blast
      then show "stored (p_files ?w2) (p_store ?w2) n"
        using stored_cong(1) [of ?f ?f2 n ?st2 "p_store w"] ag2 in_l [OF n] by (simp del: fun_upd_apply)
    qed
    have "distinct ?l" using dist by simp
    from remove_old_segments_run [OF st_l this, of env] obtain f' st' where
      rem: "remove_old_segments env ?l ?w2 = Inr (?w2\<lparr>p_files := f', p_store := st'\<rparr>)" "toc_file f' = Some ?segs"
      "\<forall>n. n \<notin> set ?l \<longrightarrow> agree ?f2 f' n \<and> st' n = ?st2 n"
      by (auto simp del: fun_upd_apply)
    let ?w' = "w\<lparr>p_files := f', p_store := st', p_segments := ?segs\<rparr>" and ?j' = "j1\<lparr>merge_done := True\<rparr>"
    have run: "finalize_job env j w = Inr (?j', ?w', True)"
      using 2 replaced rem(1) by (simp add: finalize_job_def Let_def)
    have others: "agree ?f f' n \<and> st' n = p_store w n" if "n \<notin> set ?l" "n \<noteq> ?out" for n
    proof -
      have a: "agree ?f2 f' n" "st' n = ?st2 n" using rem(3) that(1) by blast+
      have b: "agree ?f ?f2 n" "?st2 n = p_store w n" using ag2 [OF that(2)] by blast+
      show ?thesis using agree_trans [OF b(1) a(1)] a(2) b(2) by (simp only: simp_thms)
    qed
    have outside: "agree ?f f' n \<and> st' n = p_store w n" if "n \<in> set pre \<union> set post" for n
    proof (rule others)
      show "n \<notin> set ?l" using that dist by auto
      show "n \<noteq> ?out" using that out(1) split by auto
    qed
    have at_out: "agree f2 f' ?out" "st' ?out = Some s" using rem(3) out_l by (simp_all add: agree_def)
    have dict_out: "dict_at f2 ?out = merge_dictionaries (merge_inputs ?f ?l)"
      using m(2) 2(6) by (simp add: dict_at_def same_but_def)
    have sorted: "sorted_items (merge_dictionaries (merge_inputs ?f ?l))"
      by (rule merge_dictionaries_sorted) (use in_l in \<open>auto simp: merge_inputs_def stored_def dict_at_def\<close>)
    have "stored f2 ?st2 ?out" using m(3,4) sorted by (simp add: stored_def dict_out)
    then have new: "stored f' st' ?out" "dels f' st' ?out = dels f2 ?st2 ?out" "MarkedForMerge st' ?out = MarkedForMerge ?st2 ?out"
      using stored_cong [of f2 f' ?out st' ?st2] at_out by simp_all
    have dels_out: "dels f' st' ?out = \<Union> (dkms (p_store w) ` set ?l)"
      using new(2) m(6) by (simp add: dels_def dkms_def)
    have unm: "\<not> MarkedForMerge st' ?out" using new(3) m(5) by (simp add: MarkedForMerge_def)
    have dict': "dict_at f' ?out = merge_dictionaries (merge_inputs ?f ?l)"
      using agree_cong(1) [OF at_out(1)] dict_out by simp
    note merged = seg_world_merge [OF world' split clean out(1) outside dict' new(1) unm dels_out]
    have dist_out: "?out \<notin> output_filename ` (set (live js1) \<union> set (live js2))"
      using winvD(3) [OF w] L by auto
    have rest: "i \<in> set (live (js1 @ j # js2))" "output_filename i \<noteq> ?out" if "i \<in> set (live (js1 @ js2))" for i
    proof -
      have i: "i \<in> set (live js1) \<union> set (live js2)" using that by simp
      then show "i \<in> set (live (js1 @ j # js2))" using L by auto
      show "output_filename i \<noteq> ?out" using image_eqI [of _ output_filename i, OF refl i] dist_out by metis
    qed
    have seg_i: "n \<in> set pre \<union> set post" if i: "i \<in> set (live (js1 @ js2))" and n: "n \<in> set (mj_segments i)" for i n
    proof -
      have "n \<in> set (p_segments w)" by (rule winv_job_segments(1) [OF w rest(1) [OF i] n])
      moreover have "n \<notin> set ?l"
        using seg_worldD(3) [OF world'] i n by auto
      ultimately show ?thesis using split by auto
    qed
    have inputs: "merge_inputs f' (mj_segments i) = merge_inputs ?f (mj_segments i)" if "i \<in> set (live (js1 @ js2))" for i
      by (rule merge_inputs_cong) (use seg_i [OF that] outside in \<open>auto simp: agree_def\<close>)
    have jobs: "job_ok f' ?segs i" if i: "i \<in> set (live (js1 @ js2))" for i
    proof (rule job_ok_cong [OF winvD(2) [OF w rest(1) [OF i]]])
      have "output_filename i \<notin> set (p_segments w)" by (rule winv_output [OF w rest(1) [OF i]])
      then show "agree ?f f' (output_filename i)" "output_filename i \<notin> set ?segs"
        using others rest(2) [OF i] split by auto
      show "dictionary_files f' n = dictionary_files ?f n \<and> dk_files f' n = dk_files ?f n" if "n \<in> set (mj_segments i)" for n
        using outside seg_i [OF i that] by (simp add: agree_def)
    qed
    have pers: "persisted f' st' ?segs" if a: "\<not> any_delete w"
      unfolding persisted_def
    proof
      fix n assume "n \<in> set ?segs"
      then consider "n = ?out" | "n \<in> set pre \<union> set post" by auto
      then show "disk_deletes f' n = dels f' st' n"
      proof cases
        case 1
        have "disk_deletes f' ?out = disk_deletes f2 ?out" using at_out(1) by (simp add: agree_def disk_deletes_def)
        then show ?thesis using 1 m(7) new(2) by (simp add: dels_def)
      next
        case 2
        have "stored ?f (p_store w) n" using 2 split seg_worldD(2) [OF world] by auto
        then have "dels f' st' n = dels ?f (p_store w) n" using outside [OF 2] stored_cong(2) by blast
        moreover have "disk_deletes f' n = disk_deletes ?f n" using outside [OF 2] by (simp add: agree_def disk_deletes_def)
        ultimately show ?thesis using winvD(5) [OF w a] 2 split by (simp add: persisted_def) blast
      qed
    qed
    have inv: "winv (js1 @ ?j' # js2) ?w'"
      using merged jobs winvD(3,4) [OF w] pers rem(2) L
      by (auto simp: winv_def compiler_ok_def toc_ok_def)
    have "seg_view f' st' ?segs = seg_view ?f (p_store w) (p_segments w)" by (rule merged(2))
    then have view: "write_view ?w' = write_view w" by (simp add: write_view_def)
    show ?thesis
      by (rule that [OF run inv view]) (use inputs others split 2(4) in auto)
  qed
qed

end
