(* ===== verification/Index_Runs.thy ===== *)
theory Index_Runs
  imports Index_System
begin

text \<open>
  The scheduled task, the messages and the runs of the writer: whatever the clients call and in whatever
  order the worker, the scheduled task and the merges run, the index holds what a map from keys to values
  would hold after the same calls.
\<close>

section \<open>Finalizing merges\<close>

lemma winv_jobs_field [simp]: "winv js (w\<lparr>merge_jobs := x\<rparr>) = winv js w"
  by (simp add: winv_def compiler_ok_def toc_ok_def)

lemma write_view_jobs_field [simp]: "write_view (w\<lparr>merge_jobs := x\<rparr>) = write_view w"
  by (simp add: write_view_def)

lemma live_filter [simp]: "live (filter (\<lambda>j. \<not> merge_done j) js) = live js"
  by (simp add: live_def)

lemma live_all: "\<forall>j \<in> set js. \<not> merge_done j \<Longrightarrow> live js = js"
  by (simp add: live_def)

definition outputs :: "MergeJob list \<Rightarrow> filename set" where
  "outputs js = output_filename ` set js"

lemma outputs_simps [simp]: "outputs [] = {}" "outputs (j # js) = insert (output_filename j) (outputs js)"
  "outputs (js @ js') = outputs js \<union> outputs js'"
  by (auto simp: outputs_def)

text \<open>What finalizing may change: nothing but segments, jobs and files that the jobs are about.\<close>

definition only_jobs :: "filename set \<Rightarrow> IndexPayload \<Rightarrow> IndexPayload \<Rightarrow> bool" where
  "only_jobs out w w' \<longleftrightarrow> any_delete w' = any_delete w \<and> p_compiler w' = p_compiler w \<and> merge_enabled w' = merge_enabled w
     \<and> merge_jobs w' = merge_jobs w \<and> set (p_segments w') \<subseteq> set (p_segments w) \<union> out
     \<and> (\<forall>n. n \<notin> set (p_segments w) \<union> out \<longrightarrow> agree (p_files w) (p_files w') n)"

lemma only_jobs_refl [simp]: "only_jobs out w w"
  by (simp add: only_jobs_def)

lemma only_jobs_trans:
  assumes 1: "only_jobs a w w'" and 2: "only_jobs b w' w''"
  shows "only_jobs (a \<union> b) w w''"
proof -
  have segs: "set (p_segments w') \<subseteq> set (p_segments w) \<union> a" "set (p_segments w'') \<subseteq> set (p_segments w') \<union> b"
    using 1 2 by (simp_all add: only_jobs_def)
  have "agree (p_files w) (p_files w'') n" if n: "n \<notin> set (p_segments w) \<union> (a \<union> b)" for n
  proof (rule agree_trans)
    show "agree (p_files w) (p_files w') n" using 1 n by (simp add: only_jobs_def)
    have "n \<notin> set (p_segments w') \<union> b" using segs(1) n by blast
    then show "agree (p_files w') (p_files w'') n" using 2 by (simp add: only_jobs_def)
  qed
  moreover have "set (p_segments w'') \<subseteq> set (p_segments w) \<union> (a \<union> b)" using segs by blast
  ultimately show ?thesis using 1 2 by (simp add: only_jobs_def)
qed

lemma finalize_jobs_ok:
  assumes "winv (js1 @ js) w" "\<forall>j \<in> set js. \<not> merge_done j" "jobs_clean (p_files w) js"
    and succ: "\<forall>out. merge_succeeds env out"
  shows "\<exists>js' w' b. finalize_jobs env js w = Inr (js', w', b) \<and> winv (js1 @ js') w' \<and> write_view w' = write_view w
    \<and> b = (\<exists>j \<in> set js'. merge_done j) \<and> outputs js' = outputs js \<and> only_jobs (outputs js) w w'"
  using assms(1-3)
proof (induction js arbitrary: js1 w)
  case Nil
  then show ?case by simp
next
  case (Cons j js)
  have j: "\<not> merge_done j" "merge_succeeds env (output_filename j)" using Cons.prems(2) succ by simp_all
  have js: "live js = js" using Cons.prems(2) by (simp add: live_all)
  have clean: "merge_clean (merge_inputs (p_files w) (mj_segments j))"
    using Cons.prems(3) j(1) by (simp add: jobs_clean_def)
  obtain j' w1 b where 1: "finalize_job env j w = Inr (j', w1, b)" "winv (js1 @ j' # js) w1" "write_view w1 = write_view w"
    and f: "any_delete w1 = any_delete w" "p_compiler w1 = p_compiler w" "merge_enabled w1 = merge_enabled w"
    "merge_done j' = b" "output_filename j' = output_filename j" "merge_jobs w1 = merge_jobs w"
    and inp: "\<And>i. i \<in> set (live (js1 @ js)) \<Longrightarrow> merge_inputs (p_files w1) (mj_segments i) = merge_inputs (p_files w) (mj_segments i)"
    and out: "\<And>n. n \<notin> set (p_segments w) \<Longrightarrow> n \<noteq> output_filename j \<Longrightarrow> agree (p_files w) (p_files w1) n"
    "set (p_segments w1) \<subseteq> insert (output_filename j) (set (p_segments w))"
    by (rule finalize_job_ok [OF Cons.prems(1) j clean]) blast
  have "winv ((js1 @ [j']) @ js) w1" using 1(2) by simp
  moreover have "jobs_clean (p_files w1) js"
    using Cons.prems(3) inp js by (simp add: jobs_clean_def)
  moreover have "\<forall>j \<in> set js. \<not> merge_done j" using Cons.prems(2) by simp
  ultimately obtain js' w' b' where 2: "finalize_jobs env js w1 = Inr (js', w', b')" "winv ((js1 @ [j']) @ js') w'"
    "write_view w' = write_view w1" "b' = (\<exists>j \<in> set js'. merge_done j)" "outputs js' = outputs js" "only_jobs (outputs js) w1 w'"
    using Cons.IH by blast
  have "only_jobs {output_filename j} w w1" using f out by (simp add: only_jobs_def)
  from only_jobs_trans [OF this 2(6)] have "only_jobs (outputs (j # js)) w w'" by simp
  then show ?case
    using 1 2 f(4,5) by (intro exI [of _ "j' # js'"] exI [of _ w'] exI [of _ "b \<or> b'"]) simp
qed

lemma only_jobs_fresh:
  assumes "only_jobs (outputs js) w w'" "fresh_name w p" "outputs js \<subseteq> outputs (merge_jobs w)"
  shows "fresh_name w' p"
proof -
  have p: "p \<notin> set (p_segments w) \<union> outputs js" using assms(2,3) by (auto simp: fresh_name_def outputs_def)
  then have "agree (p_files w) (p_files w') p" "p \<notin> set (p_segments w')" "merge_jobs w' = merge_jobs w"
    using assms(1) unfolding only_jobs_def by blast+
  then show ?thesis using assms(2) by (simp add: fresh_name_def agree_def)
qed

lemma fresh_name_jobs:
  "fresh_name w p \<Longrightarrow> outputs x \<subseteq> outputs (merge_jobs w) \<Longrightarrow> fresh_name (w\<lparr>merge_jobs := x\<rparr>) p"
  by (auto simp: fresh_name_def outputs_def)

lemma FinalizeMerge_ok:
  assumes w: "payload_ok w" and clean: "jobs_clean (p_files w) (merge_jobs w)" and succ: "\<forall>out. merge_succeeds env out"
  obtains w' where "FinalizeMerge env w = Inr w'" "payload_ok w'" "write_view w' = write_view w" "any_delete w' = any_delete w"
    "p_compiler w' = p_compiler w" "merge_enabled w' = merge_enabled w" "\<And>p. fresh_name w p \<Longrightarrow> fresh_name w' p"
proof -
  have "winv ([] @ merge_jobs w) w" "\<forall>j \<in> set (merge_jobs w). \<not> merge_done j" using w by (simp_all add: payload_ok_def)
  from finalize_jobs_ok [OF this clean succ] obtain js w1 b where
    1: "finalize_jobs env (merge_jobs w) w = Inr (js, w1, b)" "winv js w1" "write_view w1 = write_view w"
    "b = (\<exists>j \<in> set js. merge_done j)" "outputs js = outputs (merge_jobs w)" "only_jobs (outputs (merge_jobs w)) w w1"
    by auto
  let ?js = "if b then filter (\<lambda>j. \<not> merge_done j) js else js" and ?w = "\<lambda>js. w1\<lparr>merge_jobs := js\<rparr>"
  have run: "FinalizeMerge env w = Inr (?w ?js)" using 1(1) by (simp add: FinalizeMerge_def)
  have live: "live ?js = live js" by simp
  have "payload_ok (?w ?js)"
    using 1(2,4) by (auto simp: payload_ok_def winv_def compiler_ok_def toc_ok_def)
  moreover have "fresh_name (?w ?js) p" if "fresh_name w p" for p
  proof (rule fresh_name_jobs)
    show "fresh_name w1 p" by (rule only_jobs_fresh [OF 1(6) that]) simp
    have "outputs ?js \<subseteq> outputs js" by (auto simp: outputs_def)
    moreover have "merge_jobs w1 = merge_jobs w" using 1(6) by (simp add: only_jobs_def)
    ultimately show "outputs ?js \<subseteq> outputs (merge_jobs w1)" using 1(5) by simp
  qed
  moreover have "any_delete w1 = any_delete w" "p_compiler w1 = p_compiler w" "merge_enabled w1 = merge_enabled w"
    using 1(6) by (simp_all add: only_jobs_def)
  ultimately show ?thesis using 1(3) by (intro that [OF run]) simp_all
qed

section \<open>The scheduled task\<close>

lemma fresh_name_agree:
  assumes "fresh_name w p" "agree (p_files w) (p_files w') p" "p_segments w' = p_segments w" "p \<notin> outputs (merge_jobs w')"
  shows "fresh_name w' p"
  using assms by (simp add: fresh_name_def agree_def outputs_def)

lemma payload_okI: "winv (merge_jobs w) w \<Longrightarrow> \<forall>j \<in> set (merge_jobs w). \<not> merge_done j \<Longrightarrow> payload_ok w"
  by (simp add: payload_ok_def)

lemma payload_okD: "payload_ok w \<Longrightarrow> winv (merge_jobs w) w" "payload_ok w \<Longrightarrow> \<forall>j \<in> set (merge_jobs w). \<not> merge_done j"
  by (simp_all add: payload_ok_def)

text \<open>Persisting and compiling, as a flush and the scheduled task do.\<close>

lemma flush_ok:
  assumes w: "payload_ok w" and p: "fresh_name w p"
  obtains w' where "do_Compile p (PersistDeletes w) = Inr w'" "payload_ok w'" "write_view w' = write_view w"
    "\<not> any_delete w'" "p_compiler w' = None" "any_delete w \<or> readers_synced w \<Longrightarrow> readers_synced w'"
    "merge_jobs w' = merge_jobs w"
proof -
  note P = PersistDeletes_ok [OF payload_okD(1) [OF w]]
  have "p \<notin> set (p_segments w)" "p \<notin> outputs (merge_jobs w)" using p by (simp_all add: fresh_name_def outputs_def)
  then have "fresh_name (PersistDeletes w) p" by (intro fresh_name_agree [OF p P(9) P(3)]) (simp_all add: P(4))
  moreover have "winv (merge_jobs (PersistDeletes w)) (PersistDeletes w)" using P(1,4) by simp
  ultimately obtain w' where c: "do_Compile p (PersistDeletes w) = Inr w'" "winv (merge_jobs (PersistDeletes w)) w'"
    "write_view w' = write_view (PersistDeletes w)" "merge_jobs w' = merge_jobs (PersistDeletes w)"
    "any_delete w' = any_delete (PersistDeletes w)" "p_compiler w' = None"
    "readers_synced (PersistDeletes w) \<Longrightarrow> readers_synced w'"
    using do_Compile_ok by blast
  have "readers_synced w'" if "any_delete w \<or> readers_synced w"
    using that P(7,8) c(7) by (cases "any_delete w") simp_all
  moreover have "payload_ok w'"
    using c(2,4) P(4) payload_okD(2) [OF w] by (intro payload_okI) simp_all
  ultimately show ?thesis using c(3-6) P(2,4,6) by (intro that [OF c(1)]) simp_all
qed

context adjacent_policy
begin

lemma ScheduledTask_ok:
  assumes w: "payload_ok w" and env: "select_segments env = select" "\<forall>out. merge_succeeds env out"
    and names: "fresh_name w out" "fresh_name w p" "out \<noteq> p" and clean: "jobs_clean (p_files w) (merge_jobs w)"
  obtains w' where "ScheduledTask env out p w = Inr w'" "payload_ok w'" "write_view w' = write_view w"
    "\<not> any_delete w'" "p_compiler w' = None"
proof -
  obtain w1 where 1: "(if merge_jobs w \<noteq> [] then FinalizeMerge env w else Inr w) = Inr w1" "payload_ok w1"
    "write_view w1 = write_view w" "fresh_name w1 out" "fresh_name w1 p"
  proof (cases "merge_jobs w = []")
    case True
    then show thesis using w names(1,2) by (intro that [of w]) simp_all
  next
    case False
    obtain w1 where "FinalizeMerge env w = Inr w1" "payload_ok w1" "write_view w1 = write_view w"
      "\<And>p. fresh_name w p \<Longrightarrow> fresh_name w1 p"
      by (rule FinalizeMerge_ok [OF w clean env(2)]) blast
    then show thesis using False names(1,2) by (intro that [of w1]) simp_all
  qed
  obtain w2 where r: "RunMerge env out w1 = w2" "winv (merge_jobs w2) w2" "write_view w2 = write_view w1"
    "any_delete w2 = any_delete w1" "p_compiler w2 = p_compiler w1" "p_segments w2 = p_segments w1"
    "\<And>n. n \<notin> set (p_segments w1) \<Longrightarrow> agree (p_files w1) (p_files w2) n"
    "set (map output_filename (merge_jobs w2)) \<subseteq> insert out (set (map output_filename (merge_jobs w1)))"
    "\<forall>j \<in> set (merge_jobs w2). merge_done j \<longrightarrow> j \<in> set (merge_jobs w1)"
    by (rule RunMerge_ok [OF payload_okD(1) [OF 1(2)] env(1) 1(4)]) blast
  have ok2: "payload_ok w2" using r(2,9) payload_okD(2) [OF 1(2)] by (intro payload_okI) auto
  have p2: "fresh_name w2 p"
  proof (rule fresh_name_agree [OF 1(5) _ r(6)])
    show "agree (p_files w1) (p_files w2) p" using r(7) 1(5) by (simp add: fresh_name_def)
    have "p \<notin> insert out (set (map output_filename (merge_jobs w1)))" using 1(5) names(3) by (simp add: fresh_name_def)
    then show "p \<notin> outputs (merge_jobs w2)" using r(8) by (auto simp: outputs_def)
  qed
  obtain w3 where w3: "w3 = (if merge_enabled w1 then RunMerge env out w1 else w1)" by simp
  have ok: "payload_ok w3" "fresh_name w3 p" "write_view w3 = write_view w"
    using ok2 p2 1 r(1,3) by (simp_all add: w3)
  have run: "ScheduledTask env out p w =
      (if p_compiler w3 = None \<and> \<not> any_delete w3 then Inr w3 else do_Compile p (PersistDeletes w3))"
    unfolding ScheduledTask_def 1(1) by (simp only: bind_sum_simps Let_def w3)
  show ?thesis
  proof (cases "p_compiler w3 = None \<and> \<not> any_delete w3")
    case True
    then show ?thesis using ok run by (intro that [of w3]) simp_all
  next
    case False
    obtain w' where "do_Compile p (PersistDeletes w3) = Inr w'" "payload_ok w'" "write_view w' = write_view w3"
      "\<not> any_delete w'" "p_compiler w' = None"
      by (rule flush_ok [OF ok(1,2)]) blast
    moreover have "ScheduledTask env out p w = do_Compile p (PersistDeletes w3)" unfolding run if_not_P [OF False] ..
    ultimately show ?thesis using ok(3) by (intro that [of w']) simp_all
  qed
qed

end

section \<open>The end of a thread or process\<close>

lemma mj_execute_ok:
  assumes job: "job_ok f segs j" and succ: "succeeds" and dicts: "\<forall>n \<in> set (mj_segments j). dictionary_files f n \<noteq> None"
    and out: "output_filename j \<notin> set (mj_segments j)"
  obtains f' j' where "mj_execute succeeds (f, j) = (f', j')" "mj_segments j' = mj_segments j"
    "output_filename j' = output_filename j" "merge_done j' = merge_done j" "job_ok f' segs j'"
    "\<And>n. n \<noteq> output_filename j \<Longrightarrow> agree f f' n" "toc_file f' = toc_file f"
proof -
  let ?f = "f\<lparr>dictionary_files := (dictionary_files f)(output_filename j \<mapsto> merge_dictionaries (merge_inputs f (mj_segments j)))\<rparr>"
  have inputs: "merge_inputs ?f (mj_segments j) = merge_inputs f (mj_segments j)"
    by (rule merge_inputs_cong) (use out in auto)
  have new: "written ?f (j\<lparr>exit_code := c, mj_process := p\<rparr>)" "written ?f (j\<lparr>mj_process := p\<rparr>)" for c p
    by (simp_all add: written_def inputs)
  have ag: "agree f ?f n" if "n \<noteq> output_filename j" for n using that by (simp add: agree_def)
  note ex = execute_merge_ok [OF succ dicts]
  consider "mj_process j = Internal_Thread False" | "mj_process j = External_Process None"
    | "mj_execute succeeds (f, j) = (f, j)"
    by (cases "mj_process j"; cases "mj_process j = Internal_Thread False"; cases "mj_process j = External_Process None")
      (auto simp: mj_execute_def split: bool.splits option.splits)
  then show ?thesis
  proof cases
    case 1
    let ?j = "j\<lparr>exit_code := 0, mj_process := Internal_Thread True\<rparr>"
    have "mj_execute succeeds (f, j) = (?f, ?j)" using 1 ex by (simp add: mj_execute_def)
    moreover have "job_ok ?f segs ?j" using job 1 new(1) by (simp add: job_ok_def)
    ultimately show ?thesis using ag by (intro that [of ?f ?j]) simp_all
  next
    case 2
    let ?j = "j\<lparr>mj_process := External_Process (Some 0)\<rparr>"
    have "mj_execute succeeds (f, j) = (?f, ?j)" using 2 ex by (simp add: mj_execute_def)
    moreover have "job_ok ?f segs ?j" using job 2 new(2) by (simp add: job_ok_def)
    ultimately show ?thesis using ag by (intro that [of ?f ?j]) simp_all
  next
    case 3
    then show ?thesis using job by (intro that [of f j]) simp_all
  qed
qed

lemma winv_dictionaries:
  assumes "winv js w" "j \<in> set (live js)"
  shows "\<forall>n \<in> set (mj_segments j). dictionary_files (p_files w) n \<noteq> None"
proof
  fix n assume "n \<in> set (mj_segments j)"
  then have "stored (p_files w) (p_store w) n"
    using winv_job_segments(1) [OF assms] seg_worldD(2) [OF winvD(1) [OF assms(1)]] by blast
  then show "dictionary_files (p_files w) n \<noteq> None" by (fastforce simp: stored_def seg_ok_def seg_inv_def)
qed

lemma persisted_agree:
  assumes "persisted f st segs" "\<And>n. n \<in> set segs \<Longrightarrow> agree f f' n \<and> stored f st n"
  shows "persisted f' st segs"
  unfolding persisted_def
proof
  fix n assume n: "n \<in> set segs"
  with assms(2) have a: "agree f f' n" "stored f st n" by blast+
  then have "dels f' st n = dels f st n" by (intro stored_cong(2)) simp_all
  moreover have "disk_deletes f' n = disk_deletes f n" using a(1) by (simp add: agree_def disk_deletes_def)
  ultimately show "disk_deletes f' n = dels f' st n" using assms(1) n by (simp add: persisted_def)
qed

text \<open>A job that runs on, its output file aside, changes nothing.\<close>

definition job_runs_on :: "index_files \<Rightarrow> filename list \<Rightarrow> MergeJob \<Rightarrow> index_files \<Rightarrow> MergeJob \<Rightarrow> bool" where
  "job_runs_on f segs j f' j' \<longleftrightarrow> mj_segments j' = mj_segments j \<and> output_filename j' = output_filename j
     \<and> merge_done j' = merge_done j \<and> job_ok f' segs j' \<and> (\<forall>n. n \<noteq> output_filename j \<longrightarrow> agree f f' n) \<and> toc_file f' = toc_file f"

lemma job_runs_on_payload:
  assumes w: "payload_ok w" and i: "i < length (merge_jobs w)"
    and on: "job_runs_on (p_files w) (p_segments w) (merge_jobs w ! i) f' j'"
  defines "w' \<equiv> w\<lparr>p_files := f', merge_jobs := (merge_jobs w)[i := j']\<rparr>"
  shows "payload_ok w'" "write_view w' = write_view w"
proof -
  let ?js = "merge_jobs w" and ?f = "p_files w"
  let ?j = "?js ! i"
  note e = on [unfolded job_runs_on_def]
  note inv = payload_okD(1) [OF w] and nd = payload_okD(2) [OF w]
  have live: "live ?js = ?js" by (rule live_all [OF nd])
  have mem: "?j \<in> set (live ?js)" using i live by simp
  note world = winvD(1) [OF inv]
  let ?js' = "?js[i := j']"
  have maps: "map mj_segments ?js' = map mj_segments ?js" "map output_filename ?js' = map output_filename ?js"
    using i e by (simp_all add: map_update list_update_same_conv)
  have nd': "\<forall>j \<in> set ?js'. \<not> merge_done j"
    using nd e i set_update_subset_insert [of ?js i j'] nth_mem [OF i] by auto
  then have live': "live ?js' = ?js'" by (rule live_all)
  have segs: "agree ?f f' n \<and> p_store w n = p_store w n" if "n \<in> set (p_segments w)" for n
  proof (intro conjI refl)
    have "n \<noteq> output_filename ?j" using that winv_output [OF inv mem] by metis
    then show "agree ?f f' n" using e by blast
  qed
  have world': "seg_world f' (p_store w) (p_segments w) (map mj_segments ?js)"
    "seg_view f' (p_store w) (p_segments w) = seg_view ?f (p_store w) (p_segments w)"
    using seg_world_agree [OF world segs] live by simp_all
  have jobs: "job_ok f' (p_segments w) x" if x: "x \<in> set ?js'" for x
  proof (cases "x = j'")
    case False
    obtain m where m': "m < length ?js'" "?js' ! m = x" using x by (meson in_set_conv_nth)
    have "m \<noteq> i" using m' False i by auto
    with m' have m: "m < length ?js" "m \<noteq> i" "x = ?js ! m" by simp_all
    have xl: "x \<in> set (live ?js)" using m live by simp
    show ?thesis
    proof (rule job_ok_cong [OF winvD(2) [OF inv xl]])
      have "distinct (map output_filename ?js)" using winvD(3) [OF inv] live by simp
      then have "output_filename x \<noteq> output_filename ?j" using m i by (simp add: distinct_conv_nth)
      then show "agree ?f f' (output_filename x)" using e by blast
      show "output_filename x \<notin> set (p_segments w)" by (rule winv_output [OF inv xl])
      show "dictionary_files f' n = dictionary_files ?f n \<and> dk_files f' n = dk_files ?f n"
        if "n \<in> set (mj_segments x)" for n
        using segs [OF winv_job_segments(1) [OF inv xl that]] by (simp add: agree_def)
    qed
  qed (use e in simp)
  have "persisted f' (p_store w) (p_segments w)" if "\<not> any_delete w"
    by (rule persisted_agree [OF winvD(5) [OF inv that]]) (use segs seg_worldD(2) [OF world] in blast)
  then have "winv ?js' w'"
    using world' jobs winvD(3,4,6) [OF inv] live live' maps e
    by (simp add: w'_def winv_def compiler_ok_def toc_ok_def)
  then show "payload_ok w'" "write_view w' = write_view w"
    using nd' by (simp_all add: w'_def payload_ok_def write_view_def world'(2))
qed

lemma running_job:
  assumes w: "payload_ok w" and i: "i < length (merge_jobs w)"
  shows "job_ok (p_files w) (p_segments w) (merge_jobs w ! i)"
    "\<forall>n \<in> set (mj_segments (merge_jobs w ! i)). dictionary_files (p_files w) n \<noteq> None"
    "output_filename (merge_jobs w ! i) \<notin> set (mj_segments (merge_jobs w ! i))"
proof -
  note inv = payload_okD(1) [OF w]
  have "live (merge_jobs w) = merge_jobs w" by (rule live_all [OF payload_okD(2) [OF w]])
  then have mem: "merge_jobs w ! i \<in> set (live (merge_jobs w))" using i by simp
  show "job_ok (p_files w) (p_segments w) (merge_jobs w ! i)" by (rule winvD(2) [OF inv mem])
  show "\<forall>n \<in> set (mj_segments (merge_jobs w ! i)). dictionary_files (p_files w) n \<noteq> None"
    by (rule winv_dictionaries [OF inv mem])
  show "output_filename (merge_jobs w ! i) \<notin> set (mj_segments (merge_jobs w ! i))"
    using winv_output [OF inv mem] winv_job_segments(1) [OF inv mem] by metis
qed

lemma end_of_merge_ok:
  assumes w: "payload_ok w" and succ: "\<forall>out. merge_succeeds env out"
  shows "payload_ok (end_of_merge env i w)" "write_view (end_of_merge env i w) = write_view w"
proof -
  have "payload_ok (end_of_merge env i w) \<and> write_view (end_of_merge env i w) = write_view w" if i: "i < length (merge_jobs w)"
  proof -
    let ?j = "merge_jobs w ! i"
    have s: "merge_succeeds env (output_filename ?j)" using succ by blast
    obtain f' j' where e: "mj_execute (merge_succeeds env (output_filename ?j)) (p_files w, ?j) = (f', j')"
      and on: "job_runs_on (p_files w) (p_segments w) ?j f' j'"
      by (rule mj_execute_ok [OF running_job(1) [OF w i] s running_job(2,3) [OF w i]]) (simp add: job_runs_on_def)
    have "end_of_merge env i w = w\<lparr>p_files := f', merge_jobs := (merge_jobs w)[i := j']\<rparr>"
      using i e by (simp add: end_of_merge_def)
    then show ?thesis using job_runs_on_payload [OF w i on] by simp
  qed
  then show "payload_ok (end_of_merge env i w)" "write_view (end_of_merge env i w) = write_view w"
    using w by (cases "i < length (merge_jobs w)"; simp add: end_of_merge_def)+
qed

text \<open>Waiting for a job leaves its merged dictionary behind.\<close>

lemma mj_Finalize_ok:
  assumes job: "job_ok f segs j" and succ: "succeeds" and dicts: "\<forall>n \<in> set (mj_segments j). dictionary_files f n \<noteq> None"
    and out: "output_filename j \<notin> set (mj_segments j)"
  obtains f' j' where "mj_Finalize succeeds (f, j) = (f', j')" "job_runs_on f segs j f' j'"
proof (cases "process_finished j")
  case True
  then show ?thesis using job by (intro that [of f j]) (simp_all add: mj_Finalize_def job_runs_on_def)
next
  case False
  obtain f' j' where e: "mj_execute succeeds (f, j) = (f', j')" and on: "job_runs_on f segs j f' j'"
    by (rule mj_execute_ok [OF job succ dicts out]) (simp add: job_runs_on_def)
  have nf: "\<not> process_finished j'"
    using e False by (auto simp: mj_execute_def split: merge_process.splits bool.splits option.splits prod.splits)
  have ended: "(\<exists>c. mj_process j' = External_Process (Some c)) \<or> mj_process j' = Internal_Thread True"
    using e job False
    by (auto simp: mj_execute_def job_ok_def split: merge_process.splits bool.splits option.splits prod.splits)
  show ?thesis
  proof (cases "mj_process j' = Internal_Thread True")
    case True
    let ?j = "j'\<lparr>mj_process := Joined_Thread, process_finished := True\<rparr>"
    have "mj_Finalize succeeds (f, j) = (f', ?j)" using False e True by (simp add: mj_Finalize_def mj_FinalizeMerge_def)
    moreover have "job_runs_on f segs j f' ?j" using on True by (auto simp: job_runs_on_def job_ok_def written_def)
    ultimately show ?thesis by (rule that)
  next
    case ext: False
    then obtain c where c: "mj_process j' = External_Process (Some c)" using ended by blast
    let ?j = "j'\<lparr>exit_code := c, mj_process := Released, process_finished := True\<rparr>"
    have "mj_Finalize succeeds (f, j) = (f', ?j)" using False e c by (simp add: mj_Finalize_def mj_FinalizeMerge_def)
    moreover have "job_runs_on f segs j f' ?j" using on c by (auto simp: job_runs_on_def job_ok_def written_def)
    ultimately show ?thesis by (rule that)
  qed
qed

lemma finalize_all_ok:
  assumes "payload_ok w" "merge_jobs w = js1 @ js" and succ: "\<forall>out. merge_succeeds env out"
  shows "\<exists>f' js'. finalize_all env js (p_files w) = (f', js')
    \<and> payload_ok (w\<lparr>p_files := f', merge_jobs := js1 @ js'\<rparr>) \<and> write_view (w\<lparr>p_files := f', merge_jobs := js1 @ js'\<rparr>) = write_view w
    \<and> map output_filename js' = map output_filename js \<and> map mj_segments js' = map mj_segments js
    \<and> (\<forall>n. n \<notin> outputs js \<longrightarrow> agree (p_files w) f' n)"
  using assms(1,2)
proof (induction js arbitrary: js1 w)
  case Nil
  have eq: "js1 = merge_jobs w" using Nil.prems(2) by simp
  show ?case unfolding eq using Nil.prems(1) by (intro exI [of _ "p_files w"] exI [of _ "[]"]) simp
next
  case (Cons j js)
  have i: "length js1 < length (merge_jobs w)" and j: "merge_jobs w ! length js1 = j" using Cons.prems(2) by simp_all
  note r = running_job [OF Cons.prems(1) i, unfolded j]
  have s: "merge_succeeds env (output_filename j)" using succ by blast
  obtain f1 j1 where 1: "mj_Finalize (merge_succeeds env (output_filename j)) (p_files w, j) = (f1, j1)"
    and on: "job_runs_on (p_files w) (p_segments w) j f1 j1"
    by (rule mj_Finalize_ok [OF r(1) s r(2,3)])
  let ?w = "w\<lparr>p_files := f1, merge_jobs := (js1 @ [j1]) @ js\<rparr>"
  have "(merge_jobs w)[length js1 := j1] = (js1 @ [j1]) @ js" using Cons.prems(2) by simp
  then have w1: "payload_ok ?w" "write_view ?w = write_view w"
    using job_runs_on_payload [OF Cons.prems(1) i on [folded j]] by simp_all
  have "merge_jobs ?w = (js1 @ [j1]) @ js" by simp
  from Cons.IH [OF w1(1) this] obtain f' js' where 2: "finalize_all env js f1 = (f', js')"
    "payload_ok (?w\<lparr>p_files := f', merge_jobs := (js1 @ [j1]) @ js'\<rparr>)"
    "write_view (?w\<lparr>p_files := f', merge_jobs := (js1 @ [j1]) @ js'\<rparr>) = write_view ?w"
    "map output_filename js' = map output_filename js" "map mj_segments js' = map mj_segments js"
    "\<forall>n. n \<notin> outputs js \<longrightarrow> agree f1 f' n"
    by auto
  have "agree (p_files w) f' n" if "n \<notin> outputs (j # js)" for n
  proof (rule agree_trans)
    show "agree (p_files w) f1 n" using on that by (simp add: job_runs_on_def)
    show "agree f1 f' n" using 2(6) that by simp
  qed
  then show ?case
    using 1 2 w1(2) on
    by (intro exI [of _ f'] exI [of _ "j1 # js'"]) (simp add: job_runs_on_def)
qed

section \<open>Messages\<close>

text \<open>What a message does to a map from keys to values.\<close>

definition message_ops :: "message \<Rightarrow> (u8 list \<times> string option) list" where
  "message_ops m =
     (case m of
       M_Add k v \<Rightarrow> [(k, Some v)]
     | M_AddAll kvs \<Rightarrow> map (\<lambda>(k, v). (k, Some v)) kvs
     | M_Delete k \<Rightarrow> [(k, None)]
     | _ \<Rightarrow> [])"

lemma payload_ok_same:
  assumes "payload_ok w" "same_world w w'" "winv (merge_jobs w) w'"
  shows "payload_ok w'"
  using assms by (simp add: payload_ok_def same_world_def)

lemma do_message_ok:
  assumes w: "payload_ok w" and p: "fresh_name w p" and m: "m \<noteq> M_Shutdown"
  obtains w' where "do_message env p m w = Inr w'" "payload_ok w'"
    "write_view w' = (replay (message_ops m) (write_view w))([] := None)"
proof (cases m)
  case (M_Add k v)
  note c = CreateCompilerIfNeeded_ok [OF payload_okD(1) [OF w]]
  obtain w' where a: "compiler_Add k v (CreateCompilerIfNeeded w) = Inr w'" "winv (merge_jobs w) w'"
    "write_view w' = ((write_view (CreateCompilerIfNeeded w))(k := Some v))([] := None)"
    "p_compiler w' \<noteq> None" "same_world (CreateCompilerIfNeeded w) w'"
    by (rule compiler_Add_ok [OF c(1,3)])
  have "same_world w w'" by (rule same_world_trans [OF CreateCompilerIfNeeded_same a(5)])
  from payload_ok_same [OF w this a(2)] show ?thesis
    using a(1,3) c(2) M_Add by (intro that [of w']) (simp_all add: do_message_def do_Add_def message_ops_def)
next
  case (M_AddAll kvs)
  note c = CreateCompilerIfNeeded_ok [OF payload_okD(1) [OF w]]
  from compiler_AddAll_ok [OF c(1,3)] obtain w' where a: "compiler_AddAll kvs (CreateCompilerIfNeeded w) = Inr w'"
    "winv (merge_jobs w) w'" "same_world (CreateCompilerIfNeeded w) w'"
    "write_view w' = (replay (map (\<lambda>(k, v). (k, Some v)) kvs) (write_view (CreateCompilerIfNeeded w)))([] := None)"
    by blast
  have "same_world w w'" by (rule same_world_trans [OF CreateCompilerIfNeeded_same a(3)])
  from payload_ok_same [OF w this a(2)] show ?thesis
    using a(1,4) c(2) M_AddAll by (intro that [of w']) (simp_all add: do_message_def do_AddAll_def message_ops_def)
next
  case (M_Delete k)
  obtain w' where d: "do_Delete k w = Inr w'" "winv (merge_jobs w) w'" "write_view w' = (write_view w)(k := None)"
    "merge_jobs w' = merge_jobs w"
    by (rule do_Delete_ok [OF payload_okD(1) [OF w]])
  have "payload_ok w'" using d(2,4) payload_okD(2) [OF w] by (intro payload_okI) simp_all
  moreover have "write_view w' = (replay (message_ops m) (write_view w))([] := None)"
    by (simp add: M_Delete message_ops_def d(3) [symmetric] del: fun_upd_apply)
  ultimately show ?thesis using d(1) M_Delete by (intro that [of w']) (simp_all add: do_message_def)
next
  case M_Flush
  obtain w' where "do_Compile p (PersistDeletes w) = Inr w'" "payload_ok w'" "write_view w' = write_view w"
    by (rule flush_ok [OF w p])
  then show ?thesis using M_Flush by (intro that [of w']) (simp_all add: do_message_def message_ops_def)
next
  case M_Compile
  obtain w' where c: "do_Compile p w = Inr w'" "winv (merge_jobs w) w'" "write_view w' = write_view w"
    "merge_jobs w' = merge_jobs w"
    by (rule do_Compile_ok [OF payload_okD(1) [OF w] p])
  have "payload_ok w'" using c(2,4) payload_okD(2) [OF w] by (intro payload_okI) simp_all
  then show ?thesis using c(1,3) M_Compile by (intro that [of w']) (simp_all add: do_message_def message_ops_def)
qed (use m in simp)

section \<open>Runs\<close>

text \<open>What the clients asked for.\<close>

definition step_ops :: "index_step \<Rightarrow> (u8 list \<times> string option) list" where
  "step_ops st =
     (case st of
       Set_Key k v rounds \<Rightarrow> [(k, Some v)]
     | MSet_Keys kvs rounds \<Rightarrow> map (\<lambda>(k, v). (k, Some v)) kvs
     | Delete_Key k rounds \<Rightarrow> [(k, None)]
     | _ \<Rightarrow> [])"

text \<open>New file names are new, and finalized merges meet lists that the merger handles.\<close>

definition step_ok :: "index_step \<Rightarrow> index_system \<Rightarrow> bool" where
  "step_ok st s =
     (case st of
       Work p \<Rightarrow> fresh_name (payload s) p
     | Scheduled out p \<Rightarrow> fresh_name (payload s) out \<and> fresh_name (payload s) p \<and> out \<noteq> p
         \<and> jobs_clean (p_files (payload s)) (merge_jobs (payload s))
     | _ \<Rightarrow> True)"

definition open_system :: "IndexPayload \<Rightarrow> index_system" where
  "open_system w = \<lparr>payload = w, queue = [], write_counter = 0\<rparr>"

inductive index_run :: "index_env \<Rightarrow> index_system \<Rightarrow> index_step list \<Rightarrow> index_system \<Rightarrow> bool" for env s0 where
  Start: "index_run env s0 [] s0"
| Step: "index_run env s0 sts s \<Longrightarrow> step_ok st s \<Longrightarrow> index_step env st s = Inr s' \<Longrightarrow> index_run env s0 (sts @ [st]) s'"

definition queued_ops :: "index_system \<Rightarrow> (u8 list \<times> string option) list" where
  "queued_ops s = concat (map message_ops (queue s))"

definition system_ok :: "index_system \<Rightarrow> bool" where
  "system_ok s \<longleftrightarrow> payload_ok (payload s) \<and> M_Shutdown \<notin> set (queue s)"

definition system_view :: "index_system \<Rightarrow> u8 list \<Rightarrow> string option" where
  "system_view s = (replay (queued_ops s) (write_view (payload s)))([] := None)"

lemma push_message_simps [simp]: "payload (push_message m s) = payload s" "queue (push_message m s) = queue s @ [m]"
  by (simp_all add: push_message_def)

lemma push_flushes [simp]: "payload ((push_message M_Flush ^^ n) s) = payload s"
  "queue ((push_message M_Flush ^^ n) s) = queue s @ replicate n M_Flush"
  by (induction n) (simp_all add: replicate_append_same [symmetric])

lemma message_ops_flush [simp]: "message_ops M_Flush = []" "message_ops M_Compile = []"
  by (simp_all add: message_ops_def)

lemma concat_flushes [simp]: "concat (map message_ops (replicate n M_Flush)) = []"
  by (induction n) simp_all

text \<open>A call appends its message; the throttle appends compilations and flushes only.\<close>

lemma threshold_queue:
  "\<exists>ms. queue (CompileIfThresholdIsHit env rounds s) = queue s @ ms \<and> set ms \<subseteq> {M_Compile, M_Flush}"
  by (auto simp: CompileIfThresholdIsHit_def)

lemma threshold_pending [simp]: "queued_ops (CompileIfThresholdIsHit env rounds s) = queued_ops s"
  by (simp add: CompileIfThresholdIsHit_def queued_ops_def)

lemma threshold_payload [simp]: "payload (CompileIfThresholdIsHit env rounds s) = payload s"
  by (simp add: CompileIfThresholdIsHit_def)

lemma threshold_ok [simp]: "system_ok (CompileIfThresholdIsHit env rounds s) = system_ok s"
  using threshold_queue [of env rounds s] by (auto simp: system_ok_def)

lemma push_queued_ops [simp]: "queued_ops (push_message m s) = queued_ops s @ message_ops m"
  by (simp add: queued_ops_def)

lemma push_ok [simp]: "system_ok (push_message m s) \<longleftrightarrow> system_ok s \<and> m \<noteq> M_Shutdown"
  by (auto simp: system_ok_def)

lemma replay_drop2: "(replay ops m)([] := None) = (replay ops m')([] := None)" if "m([] := None) = m'([] := None)"
  using that replay_drop [of ops m] replay_drop [of ops m'] by metis

context adjacent_policy
begin

lemma index_step_ok:
  assumes s: "system_ok s" and ok: "step_ok st s"
    and env: "select_segments env = select" "\<forall>out. merge_succeeds env out"
  obtains s' where "index_step env st s = Inr s'" "system_ok s'"
    "system_view s' = (replay (step_ops st) (system_view s))([] := None)"
proof -
  have w: "payload_ok (payload s)" using s by (simp add: system_ok_def)
  have call: "\<exists>s'. index_step env st s = Inr s' \<and> system_ok s'
      \<and> system_view s' = (replay (step_ops st) (system_view s))([] := None)"
    if c: "index_step env st s = Inr (CompileIfThresholdIsHit env rounds (push_message m s))"
      "step_ops st = message_ops m" "m \<noteq> M_Shutdown" for rounds m
    using c(1,3) s
    by (intro exI [of _ "CompileIfThresholdIsHit env rounds (push_message m s)"])
      (simp add: system_view_def c(2) replay_drop del: fun_upd_apply)
  have keep: "\<exists>s'. index_step env st s = Inr s' \<and> system_ok s'
      \<and> system_view s' = (replay (step_ops st) (system_view s))([] := None)"
    if k: "index_step env st s = Inr (s\<lparr>payload := w'\<rparr>)" "step_ops st = []" "payload_ok w'"
      "write_view w' = write_view (payload s)" for w'
    using k(1,3) s
    by (intro exI [of _ "s\<lparr>payload := w'\<rparr>"])
      (simp add: system_view_def system_ok_def queued_ops_def k(2,4) del: fun_upd_apply)
  have "\<exists>s'. index_step env st s = Inr s' \<and> system_ok s'
      \<and> system_view s' = (replay (step_ops st) (system_view s))([] := None)"
  proof (cases st)
    case (Work p)
    show ?thesis
    proof (cases "queue s")
      case Nil
      then show ?thesis using s Work
        by (intro exI [of _ s]) (simp add: index_step_def step_ops_def system_view_def del: fun_upd_apply)
    next
      case (Cons m ms)
      have "fresh_name (payload s) p" "m \<noteq> M_Shutdown" using ok s Work Cons by (auto simp: step_ok_def system_ok_def)
      then obtain w' where w': "do_message env p m (payload s) = Inr w'" "payload_ok w'"
        "write_view w' = (replay (message_ops m) (write_view (payload s)))([] := None)"
        by (rule do_message_ok [OF w])
      let ?s = "s\<lparr>payload := w', queue := ms\<rparr>"
      have "index_step env st s = Inr ?s" using Work Cons w'(1) by (simp add: index_step_def)
      moreover have "system_ok ?s" using s w'(2) Cons by (simp add: system_ok_def)
      moreover have "system_view ?s = (replay (step_ops st) (system_view s))([] := None)"
        using Cons Work
        by (simp add: system_view_def queued_ops_def w'(3) step_ops_def replay_drop del: fun_upd_apply)
      ultimately show ?thesis by blast
    qed
  next
    case (Scheduled out p)
    then have names: "fresh_name (payload s) out" "fresh_name (payload s) p" "out \<noteq> p"
      and clean: "jobs_clean (p_files (payload s)) (merge_jobs (payload s))"
      using ok by (simp_all add: step_ok_def)
    obtain w' where "ScheduledTask env out p (payload s) = Inr w'" "payload_ok w'" "write_view w' = write_view (payload s)"
      by (rule ScheduledTask_ok [OF w env names clean])
    then show ?thesis using Scheduled by (intro keep [of w']) (simp_all add: index_step_def step_ops_def)
  next
    case (End_Of_Merge i)
    show ?thesis
      using End_Of_Merge end_of_merge_ok(1,2) [OF w env(2)]
      by (intro keep [of "end_of_merge env i (payload s)"]) (simp_all add: index_step_def step_ops_def)
  next
    case Flush_Index
    then show ?thesis using s
      by (intro exI [of _ "push_message M_Flush s"])
        (simp add: index_step_def step_ops_def system_view_def del: fun_upd_apply)
  next
    case (Set_Key k v rounds)
    then show ?thesis by (intro call [of rounds "M_Add k v"]) (simp_all add: index_step_def step_ops_def message_ops_def)
  next
    case (MSet_Keys kvs rounds)
    then show ?thesis by (intro call [of rounds "M_AddAll kvs"]) (simp_all add: index_step_def step_ops_def message_ops_def)
  next
    case (Delete_Key k rounds)
    then show ?thesis by (intro call [of rounds "M_Delete k"]) (simp_all add: index_step_def step_ops_def message_ops_def)
  qed
  then show ?thesis using that by blast
qed

lemma index_run_ok:
  assumes "index_run env s0 sts s" "system_ok s0"
    and env: "select_segments env = select" "\<forall>out. merge_succeeds env out"
  shows "system_ok s \<and> system_view s = (replay (concat (map step_ops sts)) (system_view s0))([] := None)"
  using assms(1,2)
proof induction
  case Start
  then show ?case by (simp add: system_view_def del: fun_upd_apply)
next
  case (Step sts s st s')
  obtain s1 where s1: "index_step env st s = Inr s1" "system_ok s1"
    "system_view s1 = (replay (step_ops st) (system_view s))([] := None)"
    using index_step_ok [OF _ Step.hyps(2) env] Step.IH [OF Step.prems] by blast
  then show ?case
    using Step.hyps(3) Step.IH [OF Step.prems] by (simp add: replay_drop del: fun_upd_apply)
qed

end

end
