(* ===== verification/Index_Restart.thy ===== *)
theory Index_Restart
  imports Index_Runs
begin

text \<open>
  Closing an index and opening it again: \<open>LoadIndex\<close> and the destructors of \<open>IndexWriterWorker\<close> and
  \<open>ActiveObject\<close>.  What the clients have put into the index survives on disk.
\<close>

section \<open>Opening\<close>

text \<open>The segment that is built from a name in the table of contents.\<close>

definition loaded :: "index_files \<Rightarrow> filename \<Rightarrow> Segment" where
  "loaded f n = Segment_of (LoadDeletedKeys False f (ReadOnlySegment_base n)) False"

lemma Segment_new_loaded: "dictionary_files f n \<noteq> None \<Longrightarrow> Segment_new f n False = Inr (loaded f n)"
  by (auto simp: Segment_new_def ReadOnlySegment_protected_def loaded_def)

lemma loaded_simps [simp]:
  "dictionary_path (loaded f n) = n" "dictionary (loaded f n) = None" "\<not> in_merge (loaded f n)" "\<not> deletes_loaded (loaded f n)"
  "deleted_keys_for_write (loaded f n) = []" "deleted_keys_during_merge_for_write (loaded f n) = []"
  "\<not> dictionary_loaded (loaded f n)" "\<not> new_delete (loaded f n)" "deleted_keys_weak (loaded f n) = None"
  "reader_set (loaded f n) = disk_deletes f n" "seg_deletes f (loaded f n) = disk_deletes f n"
proof -
  have base: "dictionary_path (ReadOnlySegment_base n) = n" "reader_set (ReadOnlySegment_base n) = {}"
    "\<not> has_deleted_keys (ReadOnlySegment_base n)" "deleted_keys_weak (ReadOnlySegment_base n) = None"
    "dictionary (ReadOnlySegment_base n) = None"
    by (simp_all add: ReadOnlySegment_base_def reader_set_def)
  show "dictionary_path (loaded f n) = n" "dictionary (loaded f n) = None" "\<not> in_merge (loaded f n)" "\<not> deletes_loaded (loaded f n)"
    "deleted_keys_for_write (loaded f n) = []" "deleted_keys_during_merge_for_write (loaded f n) = []"
    "\<not> dictionary_loaded (loaded f n)" "\<not> new_delete (loaded f n)" "deleted_keys_weak (loaded f n) = None"
    by (simp_all add: loaded_def Segment_of_def ReadOnlySegment.defs LoadDeletedKeys_def base Let_def)
  then show "seg_deletes f (loaded f n) = disk_deletes f n" by (simp add: seg_deletes_def)
  have "reader_set (loaded f n) = reader_set (LoadDeletedKeys False f (ReadOnlySegment_base n))"
    by (simp add: loaded_def Segment_of_def ReadOnlySegment.defs reader_set_def)
  also have "\<dots> = disk_deletes f n"
    by (auto simp: LoadDeletedKeys_def base Let_def disk_deletes_def reader_set_def file_set_def LoadAndUnserializeDeletedKeys_def
        split: option.splits)
  finally show "reader_set (loaded f n) = disk_deletes f n" .
qed

lemma loaded_has: "has_deleted_keys (loaded f n) \<Longrightarrow> seg_deleted_keys (loaded f n) \<noteq> None"
  by (auto simp: loaded_def Segment_of_def ReadOnlySegment.defs LoadDeletedKeys_def ReadOnlySegment_base_def Let_def split: if_splits)

lemma load_segments_run:
  assumes "\<forall>n \<in> set ns. dictionary_files (p_files w) n \<noteq> None"
  shows "load_segments ns w =
    Inr (w\<lparr>p_store := fold (\<lambda>n st. st(n \<mapsto> loaded (p_files w) n)) ns (p_store w), p_segments := p_segments w @ ns\<rparr>)"
  using assms by (induction ns arbitrary: w) (simp_all add: Segment_new_loaded)

lemma fold_loaded: "n \<in> set ns \<or> st n = Some (loaded f n) \<Longrightarrow> fold (\<lambda>n st. st(n \<mapsto> loaded f n)) ns st n = Some (loaded f n)"
  by (induction ns arbitrary: st) (auto simp del: fun_upd_apply simp add: fun_upd_def)

text \<open>A segment without a file \<open>.dkm\<close> can be opened again.\<close>

lemma loaded_ok:
  assumes "stored f st n" "\<not> MarkedForMerge st n"
  shows "seg_ok (dict_at f n) f (loaded f n)" "dictionary_files f n \<noteq> None"
proof -
  obtain s where s: "st n = Some s" "dictionary_path s = n" "seg_ok (dict_at f n) f s" using assms(1) by (auto simp: stored_def)
  have inv: "seg_inv (dict_at f n) f s" using s(3) by (simp add: seg_ok_def)
  then have "file_set (dkm_files f n) = {}"
    using assms(2) s(1,2) by (auto simp: seg_inv_def lists_inv_def MarkedForMerge_def split: if_splits)
  then show "seg_ok (dict_at f n) f (loaded f n)"
    using inv s loaded_has by (simp add: seg_ok_def seg_inv_def lists_inv_def lists_distinct_def)
  show "dictionary_files f n \<noteq> None" using inv s(2) by (simp add: seg_inv_def)
qed

lemma unmarked_dkms:
  assumes "stored f st n" "\<not> MarkedForMerge st n"
  shows "dkms st n = {}"
proof -
  obtain s where s: "st n = Some s" "dictionary_path s = n" "seg_ok (dict_at f n) f s" using assms(1) by (auto simp: stored_def)
  have "lists_inv (deletes_loaded s) (in_merge s) (new_delete s) (set (deleted_keys_for_write s))
      (set (deleted_keys_during_merge_for_write s)) (file_set (dk_files f n)) (file_set (dkm_files f n))"
    using s(2,3) by (simp add: seg_ok_def seg_inv_def)
  then have "set (deleted_keys_during_merge_for_write s) = {}"
    using assms(2) s(1) by (simp add: lists_inv_def MarkedForMerge_def split: if_splits)
  then show ?thesis by (simp add: dkms_def s(1))
qed

text \<open>
  Opening the files of a writer that has nothing left to persist gives a writer with the same contents; merges
  must have been finalized, because the files \<open>.dkm\<close> of unfinished ones stay behind.
\<close>

lemma LoadIndex_ok:
  assumes w: "payload_ok w" and clean: "\<not> any_delete w" "p_compiler w = None"
  obtains w' where "LoadIndex (p_files w) = Inr w'" "write_view w' = write_view w" "p_files w' = p_files w"
    "p_segments w' = p_segments w" "readers_synced w'" "p_compiler w' = None" "\<not> any_delete w'" "merge_jobs w' = []"
    "merge_jobs w = [] \<Longrightarrow> payload_ok w'"
proof -
  let ?f = "p_files w" and ?segs = "p_segments w"
  let ?st = "fold (\<lambda>n st. st(n \<mapsto> loaded ?f n)) ?segs (\<lambda>_. None)"
  let ?w = "(IndexPayload_new ?f)\<lparr>p_store := ?st, p_segments := ?segs\<rparr>"
  note inv = payload_okD(1) [OF w]
  note world = winvD(1) [OF inv]
  have st: "?st n = Some (loaded ?f n)" if "n \<in> set ?segs" for n using that by (intro fold_loaded) blast
  have files: "\<forall>n \<in> set ?segs. dictionary_files ?f n \<noteq> None"
    using seg_worldD(2) [OF world] by (fastforce simp: stored_def seg_ok_def seg_inv_def)
  have run: "LoadIndex ?f = Inr ?w"
  proof (cases "toc_file ?f")
    case None
    then have "?segs = []" using winvD(6) [OF inv] by (simp add: toc_ok_def)
    then show ?thesis using None by (simp add: LoadIndex_def IndexPayload_new_def)
  next
    case (Some names)
    then have "names = ?segs" using winvD(6) [OF inv] by (simp add: toc_ok_def)
    then show ?thesis using Some files load_segments_run [of ?segs "IndexPayload_new ?f"]
      by (simp add: LoadIndex_def IndexPayload_new_def)
  qed
  have dels: "dels ?f ?st n = dels ?f (p_store w) n" if "n \<in> set ?segs" for n
    using winvD(5) [OF inv clean(1)] that by (simp add: dels_def st persisted_def)
  have view: "seg_view ?f ?st ?segs = seg_view ?f (p_store w) ?segs"
    by (rule seg_view_cong) (simp add: dels)
  have ok: "payload_ok ?w" if j: "merge_jobs w = []"
  proof -
    have um: "\<not> MarkedForMerge (p_store w) n" if "n \<in> set ?segs" for n
      using seg_worldD(6) [OF world that] j by simp
    have "stored ?f ?st n" if n: "n \<in> set ?segs" for n
      using loaded_ok(1) [OF seg_worldD(2) [OF world n] um [OF n]] seg_worldD(2) [OF world n] st [OF n]
      by (auto simp: stored_def)
    then have "seg_world ?f ?st ?segs []"
      using dels um j
      using unmarked_dkms [OF seg_worldD(2) [OF world] um]
      by (intro seg_world_cong [OF world [unfolded j, simplified]]) (simp add: st dkms_def MarkedForMerge_def)
    moreover have "persisted ?f ?st ?segs" by (simp add: persisted_def dels_def st)
    ultimately show ?thesis
      using winvD(6) [OF inv] by (simp add: payload_ok_def winv_def IndexPayload_new_def compiler_ok_def toc_ok_def)
  qed
  show ?thesis
    by (rule that [OF run]) (use view clean ok in \<open>simp_all add: write_view_def IndexPayload_new_def readers_synced_def st dels_def\<close>)
qed

section \<open>Closing\<close>

text \<open>
  The destructor of the worker queues a last message that compiles and waits for the merges; the destructor of
  \<open>ActiveObject\<close> ends the worker thread, which runs the scheduled task once more.
\<close>

definition close_index :: "index_env \<Rightarrow> filename \<Rightarrow> filename \<Rightarrow> filename \<Rightarrow> IndexPayload \<Rightarrow> index_error + IndexPayload" where
  "close_index env p out p' w = bind_sum (do_message env p M_Shutdown w) (ScheduledTask env out p')"

lemma finalize_job_finished:
  assumes "process_finished j" "exit_code j = 0" "finalize_job env j w = Inr (j', w', b)"
  shows "merge_done j' \<and> b"
  using assms by (auto simp: finalize_job_def TryFinalize_def Successful_def bind_sum_Inr_iff)

lemma finalize_jobs_finished:
  assumes "\<forall>j \<in> set js. process_finished j \<and> exit_code j = 0" "finalize_jobs env js w = Inr (js', w', b)"
  shows "(\<forall>j \<in> set js'. merge_done j) \<and> (b \<or> js' = [])"
  using assms
proof (induction js arbitrary: w js' w' b)
  case (Cons j js)
  from Cons.prems(2) obtain r where r: "finalize_job env j w = Inr r" by (auto simp: bind_sum_Inr_iff)
  obtain j1 w1 b1 where 1: "r = (j1, w1, b1)" by (cases r)
  with Cons.prems(2) r obtain r2 where r2: "finalize_jobs env js w1 = Inr r2" by (auto simp: bind_sum_Inr_iff)
  obtain js2 w2 b2 where 2: "r2 = (js2, w2, b2)" by (cases r2)
  have "js' = j1 # js2" "b = (b1 \<or> b2)" using Cons.prems(2) r r2 1 2 by auto
  then show ?case using r r2 1 2 Cons.prems(1) Cons.IH [of w1 js2 w2 b2] finalize_job_finished [of j env w j1 w1 b1] by auto
qed simp

lemma finalize_all_finished:
  assumes "finalize_all env js f = (f', js')"
  shows "\<forall>j \<in> set js'. process_finished j"
  using assms
proof (induction js arbitrary: f f' js')
  case (Cons j js)
  obtain f1 j1 where 1: "mj_Finalize (merge_succeeds env (output_filename j)) (f, j) = (f1, j1)" by fastforce
  obtain f2 js2 where 2: "finalize_all env js f1 = (f2, js2)" by fastforce
  have "process_finished j1"
    using 1 by (auto simp: mj_Finalize_def mj_FinalizeMerge_def split: if_splits prod.splits merge_process.splits option.splits)
  then show ?case using Cons.prems Cons.IH [OF 2] 1 2 by auto
qed simp

lemma finished_job_ok: "job_ok f segs j \<Longrightarrow> process_finished j \<Longrightarrow> exit_code j = 0"
  by (auto simp: job_ok_def split: merge_process.splits option.splits)

text \<open>Once all jobs have finished, finalizing them leaves no job behind.\<close>

lemma FinalizeMerge_finished:
  assumes w: "payload_ok w" and fin: "\<forall>j \<in> set (merge_jobs w). process_finished j" and run: "FinalizeMerge env w = Inr w'"
  shows "merge_jobs w' = []"
proof -
  obtain js w1 b where 1: "finalize_jobs env (merge_jobs w) w = Inr (js, w1, b)"
    "w' = w1\<lparr>merge_jobs := (if b then filter (\<lambda>j. \<not> merge_done j) js else js)\<rparr>"
    using run by (auto simp: FinalizeMerge_def bind_sum_Inr_iff)
  have "live (merge_jobs w) = merge_jobs w" by (rule live_all [OF payload_okD(2) [OF w]])
  then have "\<forall>j \<in> set (merge_jobs w). process_finished j \<and> exit_code j = 0"
    using fin winvD(2) [OF payload_okD(1) [OF w]] finished_job_ok by metis
  from finalize_jobs_finished [OF this 1(1)] have "(\<forall>j \<in> set js. merge_done j) \<and> (b \<or> js = [])" .
  then show ?thesis using 1(2) by auto
qed

lemma enabled_field [simp]: "winv js (w\<lparr>merge_enabled := b\<rparr>) = winv js w"
  "fresh_name (w\<lparr>merge_enabled := b\<rparr>) p = fresh_name w p" "write_view (w\<lparr>merge_enabled := b\<rparr>) = write_view w"
  by (simp_all add: winv_def compiler_ok_def toc_ok_def fresh_name_def write_view_def)

lemma shutdown_ok:
  assumes w: "payload_ok w" and p: "fresh_name w p" "fresh_name w p'" "p \<noteq> p'"
    and clean: "jobs_clean (p_files w) (merge_jobs w)" and succ: "\<forall>out. merge_succeeds env out"
  obtains w' where "do_message env p M_Shutdown w = Inr w'" "payload_ok w'" "write_view w' = write_view w"
    "fresh_name w' p'" "jobs_clean (p_files w') (merge_jobs w')" "\<forall>j \<in> set (merge_jobs w'). process_finished j"
    "\<not> merge_enabled w'"
proof -
  let ?js = "merge_jobs w"
  note inv = payload_okD(1) [OF w]
  have live: "live ?js = ?js" by (rule live_all [OF payload_okD(2) [OF w]])
  have w0: "winv (merge_jobs (w\<lparr>merge_enabled := False\<rparr>)) (w\<lparr>merge_enabled := False\<rparr>)"
    "fresh_name (w\<lparr>merge_enabled := False\<rparr>) p"
    using inv p(1) by simp_all
  obtain w1 where c: "do_Compile p (w\<lparr>merge_enabled := False\<rparr>) = Inr w1" "winv ?js w1" "write_view w1 = write_view w"
    "merge_jobs w1 = ?js" "\<And>n. n \<noteq> p \<Longrightarrow> agree (p_files w) (p_files w1) n"
    "set (p_segments w1) \<subseteq> insert p (set (p_segments w))" "\<not> merge_enabled w1"
    by (rule do_Compile_ok [OF w0]) simp
  have ok1: "payload_ok w1" using c(2,4) payload_okD(2) [OF w] by (intro payload_okI) simp_all
  have "merge_jobs w1 = [] @ ?js" using c(4) by simp
  from finalize_all_ok [OF ok1 this succ] obtain f' js' where 2: "finalize_all env ?js (p_files w1) = (f', js')"
    "payload_ok (w1\<lparr>p_files := f', merge_jobs := js'\<rparr>)" "write_view (w1\<lparr>p_files := f', merge_jobs := js'\<rparr>) = write_view w1"
    "map output_filename js' = map output_filename ?js" "map mj_segments js' = map mj_segments ?js"
    "\<forall>n. n \<notin> outputs ?js \<longrightarrow> agree (p_files w1) f' n" by auto
  let ?w = "w1\<lparr>p_files := f', merge_jobs := js'\<rparr>"
  have run: "do_message env p M_Shutdown w = Inr ?w" using c(1,4) 2(1) by (simp add: do_message_def)
  have out: "outputs js' = outputs ?js" using 2(4) by (metis outputs_def list.set_map)
  have fresh: "fresh_name ?w p'"
  proof -
    have "p' \<notin> set (p_segments w1)" "p' \<notin> outputs ?js" using p c(6) by (auto simp: fresh_name_def outputs_def)
    moreover have "agree (p_files w) f' p'" using c(5) [of p'] 2(6) p(3) calculation(2) agree_trans by blast
    ultimately show ?thesis using p(2) out by (simp add: fresh_name_def agree_def outputs_def)
  qed
  have "merge_inputs f' l = merge_inputs (p_files w) l" if "l \<in> set (map mj_segments ?js)" for l
  proof (rule merge_inputs_cong)
    fix n assume n: "n \<in> set l"
    from that obtain j where j: "j \<in> set (live ?js)" "l = mj_segments j" using live by auto
    have s: "n \<in> set (p_segments w)" using winv_job_segments(1) [OF inv j(1)] n j(2) by simp
    have "n \<noteq> p" using s p(1) by (auto simp: fresh_name_def)
    moreover have "n \<notin> outputs ?js" using winv_output [OF inv] live s by (auto simp: outputs_def)
    ultimately have "agree (p_files w) f' n" using c(5) 2(6) agree_trans by blast
    then show "dictionary_files f' n = dictionary_files (p_files w) n \<and> dk_files f' n = dk_files (p_files w) n"
      by (simp add: agree_def)
  qed
  moreover have "\<forall>l \<in> set (map mj_segments ?js). merge_clean (merge_inputs (p_files w) l)"
    using clean live by (simp add: jobs_clean_def)
  ultimately have "\<forall>l \<in> set (map mj_segments js'). merge_clean (merge_inputs f' l)" using 2(5) by simp
  moreover have "live js' = js'" using live_all payload_okD(2) [OF 2(2)] by simp
  ultimately have "jobs_clean f' js'" by (simp add: jobs_clean_def)
  then show ?thesis
    using finalize_all_finished [OF 2(1)] c(3,7) 2(3) fresh by (intro that [OF run 2(2)]) simp_all
qed

lemma close_index_ok:
  assumes w: "payload_ok w" and p: "fresh_name w p" "fresh_name w p'" "p \<noteq> p'"
    and clean: "jobs_clean (p_files w) (merge_jobs w)" and succ: "\<forall>out. merge_succeeds env out"
  obtains w' where "close_index env p out p' w = Inr w'" "payload_ok w'" "write_view w' = write_view w"
    "\<not> any_delete w'" "p_compiler w' = None" "merge_jobs w' = []"
proof -
  obtain w1 where 1: "do_message env p M_Shutdown w = Inr w1" "payload_ok w1" "write_view w1 = write_view w"
    "fresh_name w1 p'" "jobs_clean (p_files w1) (merge_jobs w1)" "\<forall>j \<in> set (merge_jobs w1). process_finished j"
    "\<not> merge_enabled w1" by (rule shutdown_ok [OF w p clean succ])
  obtain w2 where f: "FinalizeMerge env w1 = Inr w2" "payload_ok w2" "write_view w2 = write_view w1"
    "merge_enabled w2 = merge_enabled w1" "\<And>p. fresh_name w1 p \<Longrightarrow> fresh_name w2 p"
    by (rule FinalizeMerge_ok [OF 1(2,5) succ]) blast
  have "merge_jobs w2 = []" by (rule FinalizeMerge_finished [OF 1(2,6) f(1)])
  then have "\<exists>w3. (if merge_jobs w1 \<noteq> [] then FinalizeMerge env w1 else Inr w1) = Inr w3 \<and> payload_ok w3
      \<and> write_view w3 = write_view w \<and> \<not> merge_enabled w3 \<and> fresh_name w3 p' \<and> merge_jobs w3 = []"
    using 1 f by (cases "merge_jobs w1 = []") simp_all
  then obtain w3 where 3: "(if merge_jobs w1 \<noteq> [] then FinalizeMerge env w1 else Inr w1) = Inr w3" "payload_ok w3"
    "write_view w3 = write_view w" "\<not> merge_enabled w3" "fresh_name w3 p'" "merge_jobs w3 = []" by blast
  have run: "close_index env p out p' w =
      (if p_compiler w3 = None \<and> \<not> any_delete w3 then Inr w3 else do_Compile p' (PersistDeletes w3))"
    using 3(4) by (simp add: close_index_def 1(1) ScheduledTask_def 3(1))
  show ?thesis
  proof (cases "p_compiler w3 = None \<and> \<not> any_delete w3")
    case True
    then show ?thesis using 3 run by (intro that [of w3]) simp_all
  next
    case False
    obtain w' where "do_Compile p' (PersistDeletes w3) = Inr w'" "payload_ok w'" "write_view w' = write_view w3"
      "\<not> any_delete w'" "p_compiler w' = None" "merge_jobs w' = merge_jobs w3"
      by (rule flush_ok [OF 3(2,5)]) blast
    moreover have "close_index env p out p' w = do_Compile p' (PersistDeletes w3)" unfolding run if_not_P [OF False] ..
    ultimately show ?thesis using 3(3,6) by (intro that [of w']) simp_all
  qed
qed

section \<open>The index as a map\<close>

lemma empty_index_ok:
  assumes "toc_file f = None"
  shows "payload_ok (IndexPayload_new f)" "write_view (IndexPayload_new f) = Map.empty" "LoadIndex f = Inr (IndexPayload_new f)"
  using assms
  by (simp_all add: payload_ok_def winv_def IndexPayload_new_def seg_world_def compiler_ok_def persisted_def toc_ok_def
      write_view_def seg_view_def LoadIndex_def fun_eq_iff)

lemma open_system_ok:
  assumes "toc_file f = None"
  shows "system_ok (open_system (IndexPayload_new f))" "system_view (open_system (IndexPayload_new f)) = Map.empty"
  using empty_index_ok(1,2) [OF assms]
  by (simp_all add: system_ok_def open_system_def system_view_def queued_ops_def)

text \<open>Executing a run, for examples.\<close>

definition perform_step :: "index_env \<Rightarrow> index_step \<Rightarrow> index_system \<Rightarrow> index_system option" where
  "perform_step env st s =
     (if step_ok st s then (case index_step env st s of Inr s' \<Rightarrow> Some s' | Inl e \<Rightarrow> None) else None)"

fun perform :: "index_env \<Rightarrow> index_step list \<Rightarrow> index_system \<Rightarrow> index_system option" where
  "perform env [] s = Some s"
| "perform env (st # sts) s = (case perform_step env st s of None \<Rightarrow> None | Some s' \<Rightarrow> perform env sts s')"

lemma perform_run_from:
  "index_run env s0 sts0 s \<Longrightarrow> perform env sts s = Some s' \<Longrightarrow> index_run env s0 (sts0 @ sts) s'"
proof (induction sts arbitrary: sts0 s)
  case (Cons st sts)
  obtain s1 where s1: "perform_step env st s = Some s1" "perform env sts s1 = Some s'"
    using Cons.prems(2) by (auto split: option.splits)
  then have "step_ok st s" "index_step env st s = Inr s1" by (auto simp: perform_step_def split: if_splits sum.splits)
  then have "index_run env s0 (sts0 @ [st]) s1" by (rule index_run.Step [OF Cons.prems(1)])
  from Cons.IH [OF this s1(2)] show ?case by simp
qed simp

lemma perform_run: "perform env sts s0 = Some s \<Longrightarrow> index_run env s0 sts s"
  using perform_run_from [OF index_run.Start, of env sts s0 s] by simp

lemma merge_clean_code [code]:
  "merge_clean ins \<longleftrightarrow> (\<forall>(d, dk) \<in> set ins. d \<noteq> [] \<longrightarrow>
     (\<forall>k \<in> set dk. (case hit (rev (with_sets ins)) k of None \<Rightarrow> False | Some (v, b) \<Rightarrow> b)))"
proof -
  have "(\<exists>v. r = Some (v, True)) \<longleftrightarrow> (case r of None \<Rightarrow> False | Some (v, b) \<Rightarrow> b)" for r :: "('a \<times> bool) option"
    by (cases r) auto
  then show ?thesis by (simp only: merge_clean_def)
qed

definition demo_env :: index_env where
  "demo_env = \<lparr>select_segments = TieredMergePolicy_select (\<lambda>_. 1), merge_succeeds = (\<lambda>_. True), in_use = (\<lambda>_. False),
     max_concurrent_merges = 2, max_segments = 20, compile_key_threshold = 9, external_merge_key_threshold = 5\<rparr>"

definition demo_files :: index_files where
  "demo_files = \<lparr>dictionary_files = (\<lambda>_. None), dk_files = (\<lambda>_. None), dkm_files = (\<lambda>_. None), toc_file = None\<rparr>"

lemma demo_env_simps [simp]: "select_segments demo_env = TieredMergePolicy_select (\<lambda>_. 1)" "merge_succeeds demo_env out"
  "toc_file demo_files = None"
  by (simp_all add: demo_env_def demo_files_def)

definition demo_steps :: "index_step list" where
  "demo_steps = [Set_Key [97] ''1'' 0, Work ''x'', Scheduled ''m0'' ''s1'', Delete_Key [97] 0]"

definition demo_system :: index_system where
  "demo_system = the (perform demo_env demo_steps (open_system (IndexPayload_new demo_files)))"

lemma demo_run: "index_run demo_env (open_system (IndexPayload_new demo_files)) demo_steps demo_system"
proof (rule perform_run)
  have "perform demo_env demo_steps (open_system (IndexPayload_new demo_files)) \<noteq> None" by code_simp
  then show "perform demo_env demo_steps (open_system (IndexPayload_new demo_files)) = Some demo_system"
    by (auto simp: demo_system_def)
qed






definition demo_closed :: index_system where
  "demo_closed = the (perform demo_env (take 3 demo_steps) (open_system (IndexPayload_new demo_files)))"


end
