(* ===== verification/Index_Reader.thy ===== *)
theory Index_Reader
  imports Index_Restart
begin

text \<open>
  Reading an index: \<open>index/internal/base_index_reader.h\<close>, which \<open>Index\<close> instantiates with the segments of the
  writer and \<open>ReadOnlyIndex\<close> with those that \<open>index/internal/index_reader_worker.h\<close> loads.
\<close>

section \<open>Lookups\<close>

text \<open>
  The lookups of the template, from the newest segment to the oldest; the arguments are the two operations of the
  segment type.  Looking something up may load files, so the segments are threaded through.
\<close>

fun BaseIndexReader_get ::
  "('s \<Rightarrow> index_error + dict \<times> 's) \<Rightarrow> (u8 list \<Rightarrow> 's \<Rightarrow> bool \<times> 's) \<Rightarrow> u8 list \<Rightarrow> filename list \<Rightarrow> (filename \<Rightarrow> 's option) \<Rightarrow>
     index_error + string option \<times> (filename \<Rightarrow> 's option)" where
  "BaseIndexReader_get get_dict is_del k [] st = Inr (None, st)"
| "BaseIndexReader_get get_dict is_del k (n # ns) st =
     bind_sum (get_dict (the (st n))) (\<lambda>(d, s).
       (case map_of d k of
         None \<Rightarrow> BaseIndexReader_get get_dict is_del k ns (st(n \<mapsto> s))
       | Some v \<Rightarrow> (let (deleted, s') = is_del k s in Inr (if deleted then None else Some v, st(n \<mapsto> s')))))"

fun BaseIndexReader_Contains ::
  "('s \<Rightarrow> index_error + dict \<times> 's) \<Rightarrow> (u8 list \<Rightarrow> 's \<Rightarrow> bool \<times> 's) \<Rightarrow> u8 list \<Rightarrow> filename list \<Rightarrow> (filename \<Rightarrow> 's option) \<Rightarrow>
     index_error + bool \<times> (filename \<Rightarrow> 's option)" where
  "BaseIndexReader_Contains get_dict is_del k [] st = Inr (False, st)"
| "BaseIndexReader_Contains get_dict is_del k (n # ns) st =
     bind_sum (get_dict (the (st n))) (\<lambda>(d, s).
       if Dictionary_has d k then (let (deleted, s') = is_del k s in Inr (\<not> deleted, st(n \<mapsto> s')))
       else BaseIndexReader_Contains get_dict is_del k ns (st(n \<mapsto> s)))"

text \<open>What the template needs from a segment type: a segment stands for a dictionary and a set of deleted keys.\<close>

locale readable =
  fixes get_dict :: "'s \<Rightarrow> index_error + dict \<times> 's"
    and is_del :: "u8 list \<Rightarrow> 's \<Rightarrow> bool \<times> 's"
    and repr :: "dict \<Rightarrow> u8 list set \<Rightarrow> 's \<Rightarrow> bool"
  assumes get_dict_repr: "repr d X s \<Longrightarrow> \<exists>s'. get_dict s = Inr (d, s') \<and> repr d X s'"
    and is_del_repr: "repr d X s \<Longrightarrow> fst (is_del k s) = (k \<in> X)"
begin

lemma get_hit:
  assumes "\<forall>n \<in> set ns. \<exists>s. st n = Some s \<and> repr (D n) (X n) s" "distinct ns"
  shows "\<exists>st'. BaseIndexReader_get get_dict is_del k ns st = Inr (visible (hit (map (\<lambda>n. (D n, X n)) ns) k), st')"
  using assms
proof (induction ns arbitrary: st)
  case (Cons n ns)
  obtain s where s: "st n = Some s" "repr (D n) (X n) s" using Cons.prems(1) by auto
  obtain s' where s': "get_dict s = Inr (D n, s')" "repr (D n) (X n) s'" using get_dict_repr [OF s(2)] by blast
  show ?case
  proof (cases "map_of (D n) k")
    case None
    have "\<forall>m \<in> set ns. \<exists>s. (st(n \<mapsto> s')) m = Some s \<and> repr (D m) (X m) s" using Cons.prems by auto
    from Cons.IH [OF this] Cons.prems(2) None show ?thesis by (simp add: s(1) s'(1) del: fun_upd_apply)
  next
    case (Some v)
    then show ?thesis using is_del_repr [OF s'(2), of k] by (simp add: s(1) s'(1) split_beta Let_def)
  qed
qed simp

lemma Contains_hit:
  assumes "\<forall>n \<in> set ns. \<exists>s. st n = Some s \<and> repr (D n) (X n) s" "distinct ns"
  shows "\<exists>st'. BaseIndexReader_Contains get_dict is_del k ns st =
    Inr (visible (hit (map (\<lambda>n. (D n, X n)) ns) k) \<noteq> None, st')"
  using assms
proof (induction ns arbitrary: st)
  case (Cons n ns)
  obtain s where s: "st n = Some s" "repr (D n) (X n) s" using Cons.prems(1) by auto
  obtain s' where s': "get_dict s = Inr (D n, s')" "repr (D n) (X n) s'" using get_dict_repr [OF s(2)] by blast
  show ?case
  proof (cases "map_of (D n) k")
    case None
    have "\<forall>m \<in> set ns. \<exists>s. (st(n \<mapsto> s')) m = Some s \<and> repr (D m) (X m) s" using Cons.prems by auto
    from Cons.IH [OF this] Cons.prems(2) None show ?thesis by (simp add: s(1) s'(1) Dictionary_has_def del: fun_upd_apply)
  next
    case (Some v)
    then show ?thesis using is_del_repr [OF s'(2), of k] by (simp add: s(1) s'(1) split_beta Let_def Dictionary_has_def)
  qed
qed simp

end

subsection \<open>The segments of the writer\<close>

text \<open>A segment of the writer whose reader is up to date.\<close>

definition seg_shows :: "index_files \<Rightarrow> dict \<Rightarrow> u8 list set \<Rightarrow> Segment \<Rightarrow> bool" where
  "seg_shows f d X s \<longleftrightarrow> seg_ok d f s \<and> seg_deletes f s = X \<and> reader_set s = X"

lemma IsDeleted_reader:
  assumes "deleted_keys_weak s = None \<or> deleted_keys_weak s = seg_deleted_keys s"
  shows "fst (IsDeleted k s) = (k \<in> reader_set s)"
  using assms by (auto simp: IsDeleted_def DeletedKeys_def reader_set_def Let_def split: option.split)

lemma LazyLoad_reader:
  assumes "seg_ok d f s" "reader_set s = seg_deletes f s"
  shows "reader_set (LazyLoadDeletedKeys False f s) = seg_deletes f s"
proof (cases "deletes_loaded s")
  case False
  have inv: "seg_inv d f s" using assms(1) by (simp add: seg_ok_def)
  have some: "has_deleted_keys s \<longrightarrow> seg_deleted_keys s \<noteq> None" "reader_set s = disk_deletes f (dictionary_path s)"
    using inv False by (simp_all add: seg_inv_def)
  have "reader_set (LazyLoadDeletedKeys False f s) = reader_set (LoadDeletedKeys False f s)"
    using False by (simp add: LazyLoadDeletedKeys_def Let_def)
  then show ?thesis using LoadDeletedKeys_reader(1) [OF some] False by (simp add: seg_deletes_def)
qed (use assms in \<open>simp add: LazyLoadDeletedKeys_def\<close>)

interpretation writer: readable "GetDictionary f" "Seg_IsDeleted False f" "seg_shows f" for f
proof unfold_locales
  fix d X s k assume s: "seg_shows f d X s"
  then have inv: "seg_inv d f s" by (simp add: seg_shows_def seg_ok_def)
  have "seg_shows f d X (s\<lparr>dictionary := Some d, dictionary_loaded := True\<rparr>)"
    using s seg_ok_dictionary_loaded GetDictionary_inv(3) [OF inv] by (simp add: seg_shows_def)
  then show "\<exists>s'. GetDictionary f s = Inr (d, s') \<and> seg_shows f d X s'" using GetDictionary_inv(1) [OF inv] by blast
  have "seg_ok d f (LazyLoadDeletedKeys False f s)" using s seg_ok_lazy(1) by (simp add: seg_shows_def)
  then have "fst (Seg_IsDeleted False f k s) = (k \<in> reader_set (LazyLoadDeletedKeys False f s))"
    by (simp add: Seg_IsDeleted_def IsDeleted_reader seg_ok_def)
  then show "fst (Seg_IsDeleted False f k s) = (k \<in> X)" using s LazyLoad_reader [of d f s] by (simp add: seg_shows_def)
qed

text \<open>\<open>Index\<close>, on the segments of the writer.\<close>

definition Index_get :: "u8 list \<Rightarrow> IndexPayload \<Rightarrow> index_error + string option \<times> segment_store" where
  "Index_get k w = BaseIndexReader_get (GetDictionary (p_files w)) (Seg_IsDeleted False (p_files w)) k (rev (p_segments w)) (p_store w)"

definition Index_Contains :: "u8 list \<Rightarrow> IndexPayload \<Rightarrow> index_error + bool \<times> segment_store" where
  "Index_Contains k w =
     BaseIndexReader_Contains (GetDictionary (p_files w)) (Seg_IsDeleted False (p_files w)) k (rev (p_segments w)) (p_store w)"

lemma Index_reads:
  assumes w: "payload_ok w" and synced: "readers_synced w" and c: "p_compiler w = None" and k: "k \<noteq> []"
  shows "\<exists>st. Index_get k w = Inr (write_view w k, st)" "\<exists>st. Index_Contains k w = Inr (write_view w k \<noteq> None, st)"
proof -
  let ?f = "p_files w" and ?st = "p_store w" and ?ns = "rev (p_segments w)"
  note world = winvD(1) [OF payload_okD(1) [OF w]]
  have "\<exists>s. ?st n = Some s \<and> seg_shows ?f (dict_at ?f n) (dels ?f ?st n) s" if "n \<in> set (p_segments w)" for n
    using seg_worldD(2) [OF world that] synced that by (auto simp: stored_def seg_shows_def dels_def readers_synced_def)
  then have "\<forall>n \<in> set ?ns. \<exists>s. ?st n = Some s \<and> seg_shows ?f (dict_at ?f n) (dels ?f ?st n) s" "distinct ?ns"
    using seg_worldD(1) [OF world] by simp_all
  note r = writer.get_hit [OF this, of k] writer.Contains_hit [OF this, of k]
  have "write_view w k = visible (hit (map (\<lambda>n. (dict_at ?f n, dels ?f ?st n)) ?ns) k)"
    using c k by (simp add: write_view_def seg_view_def rev_map)
  then show "\<exists>st. Index_get k w = Inr (write_view w k, st)" "\<exists>st. Index_Contains k w = Inr (write_view w k \<noteq> None, st)"
    using r by (simp_all add: Index_get_def Index_Contains_def)
qed


definition demo_flush :: "index_step list" where
  "demo_flush = [Set_Key [97] ''1'' 0, Work ''x'', Flush_Index]"


section \<open>The read-only index\<close>

text \<open>
  \<open>IndexReaderWorker\<close>: the time stamp of the table of contents it has loaded, in seconds, and its segments.  A
  reload may fail after the time stamp has been taken over.
\<close>

record reader_worker =
  last_modification_time :: int
  reader_segments :: "filename list"
  segments_by_name :: "filename \<Rightarrow> ReadOnlySegment option"

fun reload_segments ::
  "index_files \<Rightarrow> (filename \<Rightarrow> ReadOnlySegment option) \<Rightarrow> filename list \<Rightarrow> (filename \<Rightarrow> ReadOnlySegment option) \<Rightarrow>
     index_error + (filename \<Rightarrow> ReadOnlySegment option)" where
  "reload_segments f old [] new = Inr new"
| "reload_segments f old (n # ns) new =
     (case old n of
       Some s \<Rightarrow> reload_segments f old ns (new(n \<mapsto> s))
     | None \<Rightarrow> bind_sum (ReadOnlySegment_new f n) (\<lambda>s. reload_segments f old ns (new(n \<mapsto> s))))"

definition ReloadIndex :: "index_files \<Rightarrow> int \<Rightarrow> reader_worker \<Rightarrow> reader_worker \<times> index_error option" where
  "ReloadIndex f t r =
     (case toc_file f of
       None \<Rightarrow> (r, Some Invalid_TOC)
     | Some names \<Rightarrow>
         (if t \<le> last_modification_time r then (r, None)
          else (let r1 = r\<lparr>last_modification_time := t\<rparr>
                in case reload_segments f (segments_by_name r1) names Map.empty of
                     Inl e \<Rightarrow> (r1, Some e)
                   | Inr m \<Rightarrow> (r1\<lparr>reader_segments := names, segments_by_name := m\<rparr>, None))))"

definition ReloadDeletedKeys_all :: "index_files \<Rightarrow> reader_worker \<Rightarrow> reader_worker" where
  "ReloadDeletedKeys_all f r =
     r\<lparr>segments_by_name :=
       fold (\<lambda>n m. m(n \<mapsto> ReloadDeletedKeys False f (the (m n)))) (reader_segments r) (segments_by_name r)\<rparr>"

definition Reload :: "index_files \<Rightarrow> int \<Rightarrow> reader_worker \<Rightarrow> reader_worker \<times> index_error option" where
  "Reload f t r =
     (case ReloadIndex f t r of (r1, Some e) \<Rightarrow> (r1, Some e) | (r1, None) \<Rightarrow> (ReloadDeletedKeys_all f r1, None))"

definition IndexReaderWorker_new :: "index_files \<Rightarrow> int \<Rightarrow> reader_worker \<times> index_error option" where
  "IndexReaderWorker_new f t =
     ReloadIndex f t \<lparr>last_modification_time = 0, reader_segments = [], segments_by_name = Map.empty\<rparr>"

text \<open>One round of the thread that watches the index, with the retries left.\<close>

definition UpdateWatcher_round :: "index_files \<Rightarrow> int \<Rightarrow> reader_worker \<times> nat \<Rightarrow> reader_worker \<times> nat" where
  "UpdateWatcher_round f t = (\<lambda>(r, retries_left).
     (case Reload f t r of
       (r1, None) \<Rightarrow> (r1, 0)
     | (r1, Some e) \<Rightarrow>
         (r1\<lparr>last_modification_time := 0\<rparr>, if retries_left > 0 then retries_left - 1 else 3)))"

text \<open>\<open>ReadOnlyIndex\<close>, on the segments of the reader; its dictionaries are loaded when a segment is built.\<close>

definition ReadOnlyIndex_get :: "u8 list \<Rightarrow> reader_worker \<Rightarrow> index_error + string option \<times> (filename \<Rightarrow> ReadOnlySegment option)" where
  "ReadOnlyIndex_get k r =
     BaseIndexReader_get (\<lambda>s. Inr (the (dictionary s), s)) IsDeleted k (rev (reader_segments r)) (segments_by_name r)"

definition ReadOnlyIndex_Contains :: "u8 list \<Rightarrow> reader_worker \<Rightarrow> index_error + bool \<times> (filename \<Rightarrow> ReadOnlySegment option)" where
  "ReadOnlyIndex_Contains k r =
     BaseIndexReader_Contains (\<lambda>s. Inr (the (dictionary s), s)) IsDeleted k (rev (reader_segments r)) (segments_by_name r)"

definition ro_shows :: "dict \<Rightarrow> u8 list set \<Rightarrow> ReadOnlySegment \<Rightarrow> bool" where
  "ro_shows d X s \<longleftrightarrow> dictionary s = Some d \<and> reader_set s = X
     \<and> (deleted_keys_weak s = None \<or> deleted_keys_weak s = seg_deleted_keys s)"

interpretation reader: readable "\<lambda>s. Inr (the (dictionary s), s)" "IsDeleted" ro_shows
  by unfold_locales (auto simp: ro_shows_def IsDeleted_reader)

text \<open>A segment that the reader holds, and one that shows the files as they are.\<close>

definition held_ok :: "index_files \<Rightarrow> filename \<Rightarrow> ReadOnlySegment \<Rightarrow> bool" where
  "held_ok f n s \<longleftrightarrow> dictionary_path s = n \<and> dictionary s = Some (dict_at f n)
     \<and> (has_deleted_keys s \<longrightarrow> seg_deleted_keys s \<noteq> None)
     \<and> (deleted_keys_weak s = None \<or> deleted_keys_weak s = seg_deleted_keys s)
     \<and> (dk_files f n = None \<and> dkm_files f n = None \<longrightarrow> \<not> has_deleted_keys s)"

lemma held_ok_reload:
  assumes "held_ok f n s"
  shows "held_ok f n (LoadDeletedKeys False f s)" "ro_shows (dict_at f n) (disk_deletes f n) (LoadDeletedKeys False f s)"
  using assms
  by (auto simp: held_ok_def ro_shows_def LoadDeletedKeys_def Let_def reader_set_def disk_deletes_def file_set_def)

lemma ReadOnlySegment_new_held:
  assumes "dictionary_files f n \<noteq> None"
  obtains s where "ReadOnlySegment_new f n = Inr s" "held_ok f n s" "ro_shows (dict_at f n) (disk_deletes f n) s"
proof -
  obtain d where d: "dictionary_files f n = Some d" using assms by blast
  let ?s = "(ReadOnlySegment_base n)\<lparr>dictionary := Some d\<rparr>"
  have "held_ok f n ?s" using d by (simp add: held_ok_def ReadOnlySegment_base_def dict_at_def)
  from held_ok_reload [OF this] show ?thesis
    using d by (intro that [of "LoadDeletedKeys False f ?s"])
      (simp_all add: ReadOnlySegment_new_def ReadOnlySegment_protected_def LoadDictionary_def ReadOnlySegment_base_def)
qed

lemma reload_segments_ok:
  assumes "\<forall>n \<in> set ns. dictionary_files f n \<noteq> None" "\<And>n s. old n = Some s \<Longrightarrow> held_ok f n s"
    "\<And>n s. new n = Some s \<Longrightarrow> held_ok f n s"
  shows "\<exists>m. reload_segments f old ns new = Inr m \<and> (\<forall>n s. m n = Some s \<longrightarrow> held_ok f n s)
    \<and> (\<forall>n. n \<in> set ns \<or> new n \<noteq> None \<longrightarrow> m n \<noteq> None)"
  using assms(1,3)
proof (induction ns arbitrary: new)
  case (Cons n ns)
  have "\<exists>s. held_ok f n s \<and> reload_segments f old (n # ns) new = reload_segments f old ns (new(n \<mapsto> s))"
  proof (cases "old n")
    case None
    obtain s where "ReadOnlySegment_new f n = Inr s" "held_ok f n s"
      using ReadOnlySegment_new_held [of f n] Cons.prems(1) by auto
    then show ?thesis using None by auto
  qed (use assms(2) in auto)
  then obtain s where s: "held_ok f n s" "reload_segments f old (n # ns) new = reload_segments f old ns (new(n \<mapsto> s))" by blast
  have "\<forall>m \<in> set ns. dictionary_files f m \<noteq> None" "\<And>m s'. (new(n \<mapsto> s)) m = Some s' \<Longrightarrow> held_ok f m s'"
    using Cons.prems s(1) by (auto split: if_splits)
  from Cons.IH [OF this] obtain m where "reload_segments f old ns (new(n \<mapsto> s)) = Inr m"
    "\<forall>n s. m n = Some s \<longrightarrow> held_ok f n s" "\<forall>n'. n' \<in> set ns \<or> (new(n \<mapsto> s)) n' \<noteq> None \<longrightarrow> m n' \<noteq> None" by blast
  then show ?case using s(2) by auto
qed simp

lemma fold_reload:
  assumes "distinct ns" "\<forall>n \<in> set ns. m n \<noteq> None"
  shows "n \<in> set ns \<Longrightarrow> fold (\<lambda>n m. m(n \<mapsto> g (the (m n)))) ns m n = Some (g (the (m n)))"
    "n \<notin> set ns \<Longrightarrow> fold (\<lambda>n m. m(n \<mapsto> g (the (m n)))) ns m n = m n"
proof -
  have *: "fold (\<lambda>n m. m(n \<mapsto> g (the (m n)))) ns m = (\<lambda>n. if n \<in> set ns then Some (g (the (m n))) else m n)"
    using assms(1) by (induction ns arbitrary: m) (auto simp: fun_eq_iff)
  show "n \<in> set ns \<Longrightarrow> fold (\<lambda>n m. m(n \<mapsto> g (the (m n)))) ns m n = Some (g (the (m n)))"
    "n \<notin> set ns \<Longrightarrow> fold (\<lambda>n m. m(n \<mapsto> g (the (m n)))) ns m n = m n"
    by (simp_all add: *)
qed

text \<open>The contents that the files of an index stand for.\<close>

definition disk_view :: "index_files \<Rightarrow> u8 list \<Rightarrow> string option" where
  "disk_view f k =
     (case toc_file f of
       None \<Rightarrow> None
     | Some names \<Rightarrow> visible (hit (rev (map (\<lambda>n. (dict_at f n, disk_deletes f n)) names)) k))"

definition index_complete :: "index_files \<Rightarrow> bool" where
  "index_complete f \<longleftrightarrow>
     (case toc_file f of None \<Rightarrow> False | Some names \<Rightarrow> distinct names \<and> (\<forall>n \<in> set names. dictionary_files f n \<noteq> None))"

lemma ro_reads:
  assumes "toc_file f = Some names" "distinct names" "reader_segments r = names"
    and "\<forall>n \<in> set names. \<exists>s. segments_by_name r n = Some s \<and> ro_shows (dict_at f n) (disk_deletes f n) s"
  shows "\<exists>m. ReadOnlyIndex_get k r = Inr (disk_view f k, m)" "\<exists>m. ReadOnlyIndex_Contains k r = Inr (disk_view f k \<noteq> None, m)"
proof -
  have "\<forall>n \<in> set (rev names). \<exists>s. segments_by_name r n = Some s \<and> ro_shows (dict_at f n) (disk_deletes f n) s" "distinct (rev names)"
    using assms by simp_all
  from reader.get_hit [OF this, of k] reader.Contains_hit [OF this, of k]
  show "\<exists>m. ReadOnlyIndex_get k r = Inr (disk_view f k, m)" "\<exists>m. ReadOnlyIndex_Contains k r = Inr (disk_view f k \<noteq> None, m)"
    using assms(1,3) by (simp_all add: ReadOnlyIndex_get_def ReadOnlyIndex_Contains_def disk_view_def rev_map)
qed

lemma Reload_ok:
  assumes "index_complete f" "\<forall>n s. segments_by_name r n = Some s \<longrightarrow> held_ok f n s" "last_modification_time r < t"
  shows "\<exists>r'. Reload f t r = (r', None) \<and> last_modification_time r' = t
    \<and> (\<forall>n s. segments_by_name r' n = Some s \<longrightarrow> held_ok f n s)
    \<and> (\<forall>k. \<exists>m. ReadOnlyIndex_get k r' = Inr (disk_view f k, m))
    \<and> (\<forall>k. \<exists>m. ReadOnlyIndex_Contains k r' = Inr (disk_view f k \<noteq> None, m))"
proof -
  obtain names where names: "toc_file f = Some names" "distinct names" "\<forall>n \<in> set names. dictionary_files f n \<noteq> None"
    using assms(1) by (auto simp: index_complete_def split: option.splits)
  have empty: "held_ok f n s" if "Map.empty n = Some s" for n s using that by simp
  from reload_segments_ok [OF names(3), of "segments_by_name r" Map.empty] assms(2)
  obtain m where m: "reload_segments f (segments_by_name r) names Map.empty = Inr m" "\<forall>n s. m n = Some s \<longrightarrow> held_ok f n s"
    "\<forall>n \<in> set names. m n \<noteq> None" by auto
  let ?r = "r\<lparr>last_modification_time := t, reader_segments := names, segments_by_name := m\<rparr>"
  let ?r' = "ReloadDeletedKeys_all f ?r"
  have run: "Reload f t r = (?r', None)" using names(1) m(1) assms(3) by (simp add: Reload_def ReloadIndex_def)
  note fold = fold_reload [OF names(2) m(3), where g = "LoadDeletedKeys False f"]
  have new: "segments_by_name ?r' n = Some (LoadDeletedKeys False f (the (m n)))" if "n \<in> set names" for n
    using fold(1) [OF that] by (simp add: ReloadDeletedKeys_all_def)
  have old: "segments_by_name ?r' n = m n" if "n \<notin> set names" for n
    using fold(2) [OF that] by (simp add: ReloadDeletedKeys_all_def)
  have held: "held_ok f n (the (m n))" if "n \<in> set names" for n using m(2,3) that by auto
  have "\<forall>n \<in> set names. \<exists>s. segments_by_name ?r' n = Some s \<and> ro_shows (dict_at f n) (disk_deletes f n) s"
    using new held_ok_reload(2) [OF held] by blast
  moreover have seg: "reader_segments ?r' = names" "last_modification_time ?r' = t" by (simp_all add: ReloadDeletedKeys_all_def)
  moreover have "\<forall>n s. segments_by_name ?r' n = Some s \<longrightarrow> held_ok f n s"
    using new old m(2) held_ok_reload(1) [OF held] by (metis option.sel)
  ultimately show ?thesis using ro_reads [OF names(1,2) seg(1)] run by blast
qed


definition two_files :: index_files where
  "two_files = \<lparr>dictionary_files = (\<lambda>n. if n = ''s1'' then Some [([97], ''1''), ([98], ''2'')] else if n = ''s2'' then Some [([97], ''3'')] else None),
     dk_files = (\<lambda>n. if n = ''s1'' then Some [[98]] else None), dkm_files = (\<lambda>_. None), toc_file = Some [''s1'', ''s2'']\<rparr>"

definition fresh_reader :: reader_worker where
  "fresh_reader = \<lparr>last_modification_time = 0, reader_segments = [], segments_by_name = Map.empty\<rparr>"


lemma disk_view_written:
  assumes w: "payload_ok w" and clean: "\<not> any_delete w" "p_compiler w = None" and toc: "toc_file (p_files w) \<noteq> None"
  shows "index_complete (p_files w)" "k \<noteq> [] \<Longrightarrow> disk_view (p_files w) k = write_view w k"
proof -
  let ?f = "p_files w" and ?segs = "p_segments w"
  note inv = payload_okD(1) [OF w]
  note world = winvD(1) [OF inv]
  have t: "toc_file ?f = Some ?segs" using winvD(6) [OF inv] toc by (auto simp: toc_ok_def)
  have "\<forall>n \<in> set ?segs. dictionary_files ?f n \<noteq> None"
    using seg_worldD(2) [OF world] by (fastforce simp: stored_def seg_ok_def seg_inv_def)
  then show "index_complete ?f" using t seg_worldD(1) [OF world] by (simp add: index_complete_def)
  have eq: "map (\<lambda>n. (dict_at ?f n, disk_deletes ?f n)) ?segs = map (\<lambda>n. (dict_at ?f n, dels ?f (p_store w) n)) ?segs"
    using winvD(5) [OF inv clean(1)] by (simp add: persisted_def)
  show "disk_view ?f k = write_view w k" if "k \<noteq> []"
    using that clean(2) t unfolding disk_view_def write_view_def seg_view_def eq [symmetric] by simp
qed


definition demo_read :: index_system where
  "demo_read = the (perform demo_env (take 3 demo_steps) (open_system (IndexPayload_new demo_files)))"


end
