(* ===== verification/Index_Limits.thy ===== *)
theory Index_Limits
  imports Index_Reader
begin

text \<open>
  Where the index does not keep what its writer promises: merged segments that do not show the deletions they
  hold, merges that have failed, the simple merge policy, and reloads that see nothing.
\<close>

section \<open>Merged segments\<close>

text \<open>
  C36: A merged segment holds the deletions its parents saw during the merge, and it has written them to its
  file; but its own reader answers for every key that it is not deleted, until something makes it reload the file.
  A writer that persists the deletions before the merge is finalized has nothing left to persist, so that no
  reload follows and keys deleted during the merge are visible again.
\<close>

theorem merged_segment_shows_deleted:
  assumes "dictionary_files f p = Some d" "dk_files f p = None" "dkm_files f p = None"
  shows "\<exists>f' s. Segment_merged f p parents = Inr (f', s)
    \<and> disk_deletes f' p = \<Union> (set ` deleted_keys_during_merge_for_write ` set parents)
    \<and> seg_deletes f' s = disk_deletes f' p \<and> (\<forall>k. \<not> fst (Seg_IsDeleted held f' k s))"
proof -
  obtain f' s where m: "Segment_merged f p parents = Inr (f', s)" "seg_ok d f' s"
    "seg_deletes f' s = \<Union> (set ` deleted_keys_during_merge_for_write ` set parents)" "disk_deletes f' p = seg_deletes f' s"
    "reader_set s = {}" "deletes_loaded s"
    by (rule Segment_merged_ok [OF assms, of parents])
  have "fst (Seg_IsDeleted held f' k s) = (k \<in> reader_set s)" for k
    using m(2,6) by (simp add: Seg_IsDeleted_def LazyLoadDeletedKeys_def IsDeleted_reader seg_ok_def)
  then show ?thesis using m by simp
qed

definition merged_files :: index_files where
  "merged_files = \<lparr>dictionary_files = [''m'' \<mapsto> [([97], ''1'')]], dk_files = Map.empty, dkm_files = Map.empty, toc_file = None\<rparr>"

theorem merged_segment_shows_deleted_witness:
  "\<exists>f' s. Segment_merged merged_files ''m'' [(loaded merged_files ''s'')\<lparr>deleted_keys_during_merge_for_write := [[97]]\<rparr>] = Inr (f', s)
    \<and> disk_deletes f' ''m'' = {[97]} \<and> seg_deletes f' s = disk_deletes f' ''m'' \<and> (\<forall>k. \<not> fst (Seg_IsDeleted False f' k s))"
  using merged_segment_shows_deleted [of merged_files "''m''" "[([97], ''1'')]"
      "[(loaded merged_files ''s'')\<lparr>deleted_keys_during_merge_for_write := [[97]]\<rparr>]" False]
  by (simp add: merged_files_def)

section \<open>Failed merges\<close>

lemma fail_segments_jobs [simp]: "merge_jobs (fail_segments ns w) = merge_jobs w"
  by (induction ns arbitrary: w) (simp_all add: split_beta)

lemma fail_segments_unmarked: "n \<in> set ns \<or> \<not> MarkedForMerge (p_store w) n \<Longrightarrow> \<not> MarkedForMerge (p_store (fail_segments ns w)) n"
proof (induction ns arbitrary: w)
  case (Cons m ns)
  obtain f s where s: "MergeFailed (p_files w) (the (p_store w m)) = (f, s)" by fastforce
  then have "\<not> in_merge s" by (auto simp: MergeFailed_def Let_def split: if_splits)
  then have "n \<in> set ns \<or> \<not> MarkedForMerge (p_store (w\<lparr>p_files := f, p_store := (p_store w)(m \<mapsto> s)\<rparr>)) n"
    using Cons.prems by (auto simp: MarkedForMerge_def)
  from Cons.IH [OF this] show ?case by (simp add: s)
qed simp

lemma finalize_failed_job:
  assumes "process_finished j" "exit_code j \<noteq> 0"
  shows "finalize_job env j w = Inr (j, fail_segments (mj_segments j) w, False)"
  using assms by (simp add: finalize_job_def TryFinalize_def Successful_def)

lemma finalize_failed_jobs:
  assumes "\<forall>j \<in> set js. process_finished j \<and> exit_code j \<noteq> 0"
  shows "\<exists>w'. finalize_jobs env js w = Inr (js, w', False) \<and> merge_jobs w' = merge_jobs w"
  using assms
proof (induction js arbitrary: w)
  case (Cons j js)
  from Cons.IH [of "fail_segments (mj_segments j) w"] Cons.prems obtain w' where
    "finalize_jobs env js (fail_segments (mj_segments j) w) = Inr (js, w', False)" "merge_jobs w' = merge_jobs w" by auto
  then show ?case using Cons.prems by (simp add: finalize_failed_job)
qed simp

text \<open>
  C37: Failed merges block merging.  Finalizing keeps a job that has failed in the list of jobs; once as many jobs
  have failed as may run at the same time, the scheduled task keeps them all and starts no merge any more.
\<close>

theorem failed_merges_block_merging:
  assumes "\<forall>j \<in> set (merge_jobs w). process_finished j \<and> exit_code j \<noteq> 0"
    and "length (merge_jobs w) = max_concurrent_merges env"
  shows "\<exists>w'. FinalizeMerge env w = Inr w' \<and> merge_jobs w' = merge_jobs w \<and> RunMerge env out w' = w'"
proof -
  obtain w' where "finalize_jobs env (merge_jobs w) w = Inr (merge_jobs w, w', False)" "merge_jobs w' = merge_jobs w"
    using finalize_failed_jobs [OF assms(1)] by blast
  then show ?thesis using assms(2) by (simp add: FinalizeMerge_def RunMerge_def)
qed

definition failed_job :: "filename list \<Rightarrow> filename \<Rightarrow> MergeJob" where
  "failed_job ns out = (MergeJob_new ns 0 out)\<lparr>exit_code := 1, process_finished := True, mj_process := Joined_Thread\<rparr>"

theorem failed_merges_block_merging_witness:
  "\<exists>w'. FinalizeMerge demo_env ((IndexPayload_new demo_files)\<lparr>merge_jobs := [failed_job [] ''m1'', failed_job [] ''m2'']\<rparr>) = Inr w'
    \<and> merge_jobs w' = [failed_job [] ''m1'', failed_job [] ''m2''] \<and> RunMerge demo_env ''m3'' w' = w'"
  using failed_merges_block_merging
    [of "(IndexPayload_new demo_files)\<lparr>merge_jobs := [failed_job [] ''m1'', failed_job [] ''m2'']\<rparr>" demo_env "''m3''"]
  by (simp add: failed_job_def MergeJob_new_def demo_env_def)

text \<open>
  A failed merge disturbs the next one.  A job that has failed is finalized again with every scheduled task,
  and each time its segments are marked as mergeable; when one of them is by then part of another merge that is
  still running, the mark is lost, so that keys deleted from then on are not handed over to the merged segment.
\<close>

theorem failed_job_unmarks_segments:
  assumes "merge_jobs w = [j1, j2]" "process_finished j1" "exit_code j1 \<noteq> 0"
    and "mj_process j2 = External_Process None" "\<not> process_finished j2" "n \<in> set (mj_segments j1)"
  shows "\<exists>w'. FinalizeMerge env w = Inr w' \<and> merge_jobs w' = [j1, j2] \<and> \<not> MarkedForMerge (p_store w') n"
proof -
  have "finalize_job env j2 w' = Inr (j2, w', False)" for w'
    using assms(4,5) by (simp add: finalize_job_def TryFinalize_def TryFinalizeMerge_def)
  then show ?thesis
    using assms(1-3) fail_segments_unmarked [of n "mj_segments j1" w] assms(6)
    by (simp add: FinalizeMerge_def finalize_failed_job)
qed

theorem failed_job_unmarks_segments_witness:
  "\<exists>w'. FinalizeMerge demo_env ((IndexPayload_new merged_files)\<lparr>p_store := [''m'' \<mapsto> (loaded merged_files ''m'')\<lparr>in_merge := True\<rparr>],
      merge_jobs := [failed_job [''m''] ''x'', (MergeJob_new [''m''] 0 ''y'')\<lparr>mj_process := External_Process None\<rparr>]\<rparr>) = Inr w'
    \<and> merge_jobs w' = [failed_job [''m''] ''x'', (MergeJob_new [''m''] 0 ''y'')\<lparr>mj_process := External_Process None\<rparr>]
    \<and> \<not> MarkedForMerge (p_store w') ''m''"
  by (rule failed_job_unmarks_segments) (simp_all add: failed_job_def MergeJob_new_def)

section \<open>The simple merge policy\<close>

definition three_files :: index_files where
  "three_files = \<lparr>dictionary_files = [''s1'' \<mapsto> [([97], ''1'')], ''s2'' \<mapsto> [([97], ''2''), ([98], ''2'')], ''s3'' \<mapsto> [([97], ''3'')]],
     dk_files = [''s2'' \<mapsto> [[98]]], dkm_files = Map.empty, toc_file = Some [''s1'', ''s2'', ''s3'']\<rparr>"

definition three_segments :: segment_store where
  "three_segments = [''s1'' \<mapsto> loaded three_files ''s1'', ''s2'' \<mapsto> (loaded three_files ''s2'')\<lparr>in_merge := True\<rparr>,
     ''s3'' \<mapsto> loaded three_files ''s3'']"

text \<open>
  C38: The simple merge policy reorders segments.  While the second of three segments is being merged, for its
  deletions, it elects the first and the third.  Their merged segment takes the place of the first one, before the
  second: a key whose newest value was in the third segment now has the value of the second.
\<close>

theorem simple_policy_reorders:
  "SimpleMergePolicy_select three_files [''s1'', ''s2'', ''s3''] three_segments = (Some [''s1'', ''s3''], three_segments)
   \<and> replace_segments [''s1'', ''s3''] ''m'' False [''s1'', ''s2'', ''s3''] = [''m'', ''s2'']
   \<and> seg_view three_files three_segments [''s1'', ''s2'', ''s3''] [97] = Some ''3''
   \<and> (let f = three_files\<lparr>dictionary_files := (dictionary_files three_files)(''m'' \<mapsto>
             merge_dictionaries (merge_inputs three_files [''s1'', ''s3'']))\<rparr>
      in seg_view f (three_segments(''m'' \<mapsto> loaded f ''m'')) [''m'', ''s2''] [97] = Some ''2'')"
proof (intro conjI)
  show "SimpleMergePolicy_select three_files [''s1'', ''s2'', ''s3''] three_segments = (Some [''s1'', ''s3''], three_segments)"
    by (simp add: SimpleMergePolicy_select_def MarkedForMerge_def MAX_SEGMENT_PER_MERGE_def three_segments_def)
  show "replace_segments [''s1'', ''s3''] ''m'' False [''s1'', ''s2'', ''s3''] = [''m'', ''s2'']" by simp
qed code_simp+

section \<open>Reloading\<close>

text \<open>
  A reload that fails is not repeated.  When a reload fails, for instance because a merge has removed a
  segment that the table of contents still lists, the time stamp of the table of contents is taken over all the same:
  another call of \<open>Reload\<close> succeeds but leaves the reader with its old segments, even when all files are there again
  (only the thread that watches the index resets the time stamp).
\<close>

theorem failed_reload_is_not_repeated:
  assumes "toc_file f = Some names" "Reload f t r = (r1, Some e)" "toc_file f' = Some names'"
  shows "\<exists>r2. Reload f' t r1 = (r2, None) \<and> reader_segments r2 = reader_segments r"
  using assms
  by (auto simp: Reload_def ReloadIndex_def Let_def ReloadDeletedKeys_all_def split: if_splits sum.splits prod.splits option.splits)

theorem failed_reload_is_not_repeated_witness:
  "\<exists>r1 r2. Reload (two_files\<lparr>dictionary_files := Map.empty\<rparr>) 1 fresh_reader = (r1, Some (File_Missing ''s1''))
    \<and> Reload two_files 1 r1 = (r2, None) \<and> reader_segments r2 = []"
proof -
  have "\<exists>r1. Reload (two_files\<lparr>dictionary_files := Map.empty\<rparr>) 1 fresh_reader = (r1, Some (File_Missing ''s1''))"
    by (simp add: Reload_def ReloadIndex_def fresh_reader_def two_files_def ReadOnlySegment_new_def ReadOnlySegment_protected_def)
  then obtain r1 where r1: "Reload (two_files\<lparr>dictionary_files := Map.empty\<rparr>) 1 fresh_reader = (r1, Some (File_Missing ''s1''))" by blast
  from failed_reload_is_not_repeated [OF _ r1, of "[''s1'', ''s2'']" two_files "[''s1'', ''s2'']"] r1
  show ?thesis by (simp add: two_files_def fresh_reader_def)
qed

end
