(* ===== verification/Spec2Isabelle.thy ===== *)
theory Spec2Isabelle
  imports Completion Generator Index_Limits
begin

text \<open>
  Keyvi is a key value store whose dictionaries are finite state automata in files, with an index on top that
  takes updates.  This development models its core as shallow embeddings, functions on records, and proves what
  makes the parts correct.  Paths below are relative to \<open>src/keyvi/include/keyvi/\<close>.

  \<^bold>\<open>The parts and how they interact.\<close>  A dictionary file holds a sparse array: two arrays of buckets, labels and
  transitions, in which the states of an automaton overlap.  The \<^emph>\<open>generator\<close> takes keys in ascending order, keeps
  the states that are still growing on a stack, looks every finished state up in a \<^emph>\<open>minimization hash\<close> and hands new
  ones to the \<^emph>\<open>builder\<close>, which finds room for them in the sparse array and encodes their transitions.  The
  \<^emph>\<open>automaton\<close> walks the array; \<^emph>\<open>traversers\<close> and the \<^emph>\<open>entry iterator\<close> enumerate it; the \<^emph>\<open>dictionary\<close> looks keys up
  and the \<^emph>\<open>merger\<close> joins several dictionaries, dropping deleted keys.  The \<^emph>\<open>index\<close> keeps a list of segments, each a
  dictionary with lists of deleted keys: one worker thread takes messages of clients out of a queue, collects keys in
  a compiler, writes them as new segments, marks deletions in the old ones, and starts and finalizes merges that run in
  threads and processes of their own; read-only indexes follow the files.

  \<^bold>\<open>Theories and the code they model.\<close>
  \<^item> \<open>Prelude\<close>: bytes, error monad on sums, lemmas on lists, maps and words; nothing of the program.
  \<^item> \<open>Vint\<close>: \<open>util/vint.h\<close>, variable length integers and shorts.
  \<^item> \<open>Bit_Vector\<close>: \<open>dictionary/fsa/internal/bit_vector_64.h\<close>; \<open>Position_Tracker\<close>: the sliding window tracker built on it,
    \<open>sliding_window_bit_vector_position_tracker.h\<close>.
  \<^item> \<open>Memory_Map\<close>: \<open>memory_map_manager.h\<close>, chunks of external memory; \<open>Sparse_Array\<close>: \<open>sparse_array_persistence.h\<close> on top of it,
    buffers of label and transition buckets that are flushed as the array grows.
  \<^item> \<open>Automata\<close>: \<open>dictionary/fsa/automata.h\<close>, walking a finished array; \<open>Traversal\<close>: \<open>traversal/*.h\<close>, \<open>state_traverser.h\<close> and
    \<open>entry_iterator.h\<close>; \<open>Dictionary\<close>: \<open>dictionary/dictionary.h\<close> with \<open>match.h\<close> and \<open>match_iterator.h\<close>.
  \<^item> \<open>Traversal_Tree\<close>: the trees a traverser goes through, as an interface for what wraps it; \<open>Code_Points\<close>:
    \<open>codepoint_state_traverser.h\<close> and \<open>utf8_utils.h\<close>; \<open>String_Distance\<close>: \<open>stringdistance/*.h\<close> and its cost functions; \<open>Fuzzy\<close>:
    \<open>matching/fuzzy_matching.h\<close>; \<open>Completion\<close>: \<open>matching/prefix_completion_matching.h\<close>.
  \<^item> \<open>Merger\<close>: \<open>dictionary/dictionary_merger.h\<close> and \<open>fsa/segment_iterator.h\<close>.
  \<^item> \<open>Unpacked_State\<close>: \<open>packed_state.h\<close>, \<open>unpacked_state.h\<close>, \<open>unpacked_state_stack.h\<close>; \<open>Minimization\<close>: \<open>minimization_hash.h\<close> and
    \<open>lru_generation_cache.h\<close>; \<open>Builder\<close>: \<open>sparse_array_builder.h\<close>; \<open>Generator\<close>: \<open>fsa/generator.h\<close>.
  \<^item> \<open>Index_Compiler\<close>: \<open>dictionary/dictionary_index_compiler.h\<close>; \<open>Index_Segment\<close>: \<open>index/internal/read_only_segment.h\<close> and
    \<open>segment.h\<close>, segments with their files \<open>.dk\<close> and \<open>.dkm\<close>; \<open>Index_Merge\<close>: \<open>merge_job.h\<close> and the merge policies;
    \<open>Index_Writer\<close>: \<open>index_writer_worker.h\<close> and \<open>util/active_object.h\<close>; \<open>Index_Reader\<close>: \<open>base_index_reader.h\<close> and
    \<open>index_reader_worker.h\<close>.

  A class is a record of its members that change, a method a function on it; a method that can throw returns a sum
  whose left side is the exception.  Machine integers are words of their width.  Files of the index are maps
  from names to contents in \<^typ>\<open>index_files\<close>.

  \<^bold>\<open>What is shown.\<close>
  \<^item> Codings are inverse to their decodings: variable length integers, transitions with their three pointer codings,
    final values, bit fields.
  \<^item> Data structures refine plain ones: a bit vector is a set of positions, the memory map one growing array, the sparse
    array one array of buckets however much of it is flushed, the minimization hash a set of written states of which
    lookups return only equal ones.
  \<^item> Automata: the entries below a state are its words in ascending order; traversers, iterator and \<open>GetAllItems\<close>
    enumerate exactly these; \<open>Contains\<close>, \<open>operator[]\<close>, \<open>Get\<close> and \<open>Lookup\<close> answer by them.
  \<^item> Matching: the rows of the distance matrix with their cutoff hold the edit distance, which \<open>edits_least_script\<close> shows
    to be the least number of edits; fuzzy matching and prefix completion return exactly the keys they promise, each once.
  \<^item> Building: the search for room ends and the room is free, written transitions are read back, the stack of the
    generator follows the last key.
  \<^item> Merging: the newest undeleted entry of every key, in order, reaches the generator.
  \<^item> Index: \<open>Index_Refinement\<close>, \<open>Index_System\<close> and \<open>Index_Runs\<close> prove an invariant of the writer's payload against
    every step, and \<open>Index_Restart\<close> that the index refines a map from keys to values under every interleaving of
    clients, worker, scheduled task and merges, also over a restart; \<open>Index_Reader\<close> that a flush makes this map visible to
    readers.  \<open>Index_Limits\<close> shows where this ends.
  \<^item> Error theorems show defects on concrete inputs; the findings of the manifest list them.

  \<^bold>\<open>Interfaces.\<close>  Locales state what one part relies on in another and are interpreted on the model itself; the tiered
  policy provides \<open>adjacent_policy\<close>, on which the invariant of the writer rests, and the segments of writer and
  reader both provide \<open>readable\<close>, on which the lookups rest.  The plain and the weighted traverser provide \<open>tree_traversal\<close>,
  from which \<open>pruning_traverser\<close> and \<open>byte_traverser\<close> follow; the matchers are verified against these.

  \<^bold>\<open>Hypotheses and bounds.\<close>  Loops of the code are structural recursions on what they consume, or have a measure; where
  the end of a loop depends on the data, as for cycles in the chains of the minimization hash or in an automaton, it is a
  partial function or has fuel, and a property states that enough fuel gives the result.  The properties of the index
  assume that merges succeed, that names drawn by \<open>unique_path\<close> are new, and, for merges that get finalized, that the
  lists of deleted keys are ones the merger handles (\<^const>\<open>merge_clean\<close>, see \<open>Merger\<close> for what happens otherwise).

  \<^bold>\<open>Not modelled.\<close>  The value stores, compression and vectors, the JSON of the file properties and the file system (names
  and contents are parameters or maps), the SSE variants, near and multiword matching, matching over several
  dictionaries at once with its zip and comparable traversers, the dictionary compiler with its external sorting,
  \<open>ForceMerge\<close>, locks and the bindings.  The library utf8 is a pair of parameters of the fuzzy matcher.  Locks
  are left out where the code serializes through one thread; readers see the payload between two of its steps.
\<close>

end
